(* ===== verification/Prelude.thy ===== *)
theory Prelude
  imports Main "HOL-Library.Word"
begin

unbundle bit_operations_syntax

text \<open>
  What the component theories share: names for the C integer types, the byte order helpers,
  reading and writing slices of a byte buffer, and the generic lemmas on lists and words.
\<close>

section \<open>Types\<close>

type_synonym u8 = "8 word"
type_synonym u16 = "16 word"
type_synonym u32 = "32 word"
type_synonym u64 = "64 word"
type_synonym bytes = "8 word list"
type_synonym addr = nat
type_synonym ptr = "nat option"

named_theorems wire_simps \<open>unfolding of the wire-format helpers\<close>
named_theorems step_simps \<open>unfolding of the small state-changing operations\<close>

section \<open>Byte order\<close>

text \<open>
  Network order is big-endian. Ports inside addresses are kept in the code as the two
  bytes in memory, so a 16-bit value is written to memory as its high byte, then its low byte,
  whenever the code applied \<open>htons\<close> first.
\<close>

definition hi8 :: "u16 \<Rightarrow> u8" where
  "hi8 v = ucast (drop_bit 8 v)"

definition lo8 :: "u16 \<Rightarrow> u8" where
  "lo8 v = ucast v"

definition be16 :: "u8 \<Rightarrow> u8 \<Rightarrow> u16" where
  "be16 h l = push_bit 8 (ucast h) OR ucast l"

lemma be16_hi_lo [simp]: "be16 (hi8 v) (lo8 v) = v"
  unfolding be16_def hi8_def lo8_def
  by (rule bit_word_eqI) (auto simp: bit_simps)

lemma hi8_be16 [simp]: "hi8 (be16 h l) = h"
  unfolding be16_def hi8_def
  by (rule bit_word_eqI) (auto simp: bit_simps dest: bit_imp_le_length)

lemma lo8_be16 [simp]: "lo8 (be16 h l) = l"
  unfolding be16_def lo8_def
  by (rule bit_word_eqI) (auto simp: bit_simps)

text \<open>
  The Android ABIs the library is built for are little-endian: a 16-bit object holds its low byte
  first, and \<open>htons\<close> and \<open>ntohs\<close> swap the two bytes.
\<close>

definition mem16 :: "u16 \<Rightarrow> bytes" where
  "mem16 v = [lo8 v, hi8 v]"

definition ld16 :: "bytes \<Rightarrow> nat \<Rightarrow> u16" where
  "ld16 b off = be16 (b ! (off + 1)) (b ! off)"

definition htons :: "u16 \<Rightarrow> u16" where
  "htons v = be16 (lo8 v) (hi8 v)"

abbreviation ntohs :: "u16 \<Rightarrow> u16" where
  "ntohs \<equiv> htons"

lemma htons_htons [simp]: "htons (htons v) = v"
  by (simp add: htons_def)

lemma mem16_htons [simp]: "mem16 (htons v) = [hi8 v, lo8 v]"
  by (simp add: htons_def mem16_def)

lemma length_mem16 [simp]: "length (mem16 v) = 2"
  by (simp add: mem16_def)

lemma ld16_mem16 [simp]: "ld16 (mem16 v) 0 = v"
  by (simp add: ld16_def mem16_def)

lemma mem16_nth [simp]: "mem16 v ! 0 = lo8 v" "mem16 v ! Suc 0 = hi8 v"
  by (simp_all add: mem16_def)

section \<open>Buffers\<close>

text \<open>
  A C buffer is a byte list of its size. \<open>bslice off n b\<close> reads \<open>n\<close> bytes at \<open>off\<close>;
  \<open>patch off xs b\<close> is a \<open>memcpy\<close> of \<open>xs\<close> to \<open>b + off\<close> (writes past the end of the
  buffer are undefined in C: the theorems that use it show they do not happen).
\<close>

definition bslice :: "nat \<Rightarrow> nat \<Rightarrow> 'a list \<Rightarrow> 'a list" where
  "bslice off n b = take n (drop off b)"

definition patch :: "nat \<Rightarrow> 'a list \<Rightarrow> 'a list \<Rightarrow> 'a list" where
  "patch off xs b = take off b @ xs @ drop (off + length xs) b"

lemma bslice_0 [simp]: "bslice off 0 b = []"
  by (simp add: bslice_def)

lemma length_bslice [simp]: "off + n \<le> length b \<Longrightarrow> length (bslice off n b) = n"
  by (simp add: bslice_def)

lemma length_patch [simp]: "off + length xs \<le> length b \<Longrightarrow> length (patch off xs b) = length b"
  by (simp add: patch_def)

lemma bslice_patch [simp]:
  "off + length xs \<le> length b \<Longrightarrow> n = length xs \<Longrightarrow> bslice off n (patch off xs b) = xs"
  by (simp add: bslice_def patch_def)

lemma nth_patch:
  assumes "off + length xs \<le> length b" "i < length b"
  shows "patch off xs b ! i =
    (if off \<le> i \<and> i < off + length xs then xs ! (i - off) else b ! i)"
  using assms by (auto simp: patch_def nth_append min_def)

lemma nth_patch_outside:
  "off + length xs \<le> length b \<Longrightarrow> i < length b \<Longrightarrow> i < off \<or> off + length xs \<le> i \<Longrightarrow>
   patch off xs b ! i = b ! i"
  by (auto simp: nth_patch)

lemma nth_patch_inside:
  "off + length xs \<le> length b \<Longrightarrow> off \<le> i \<Longrightarrow> i < off + length xs \<Longrightarrow>
   patch off xs b ! i = xs ! (i - off)"
  by (auto simp: nth_patch)

lemma patch_Nil [simp]: "patch off [] b = b"
  by (simp add: patch_def)

lemma take_patch_before [simp]:
  "n \<le> off \<Longrightarrow> off \<le> length b \<Longrightarrow> take n (patch off xs b) = take n b"
  by (simp add: patch_def)

lemma take_patch:
  "off + length xs \<le> n \<Longrightarrow> off \<le> length b \<Longrightarrow>
   take n (patch off xs b) = take off b @ xs @ bslice (off + length xs) (n - off - length xs) b"
  by (simp add: patch_def bslice_def)

lemma take_patch_end [simp]:
  "n = off + length xs \<Longrightarrow> off \<le> length b \<Longrightarrow> take n (patch off xs b) = take off b @ xs"
  by (simp add: take_patch)

lemma drop_patch_after [simp]:
  "off + length xs \<le> n \<Longrightarrow> off \<le> length b \<Longrightarrow> drop n (patch off xs b) = drop n b"
  by (simp add: patch_def)

lemma drop_patch_at [simp]:
  "off \<le> length b \<Longrightarrow> drop off (patch off xs b) = xs @ drop (off + length xs) b"
  by (simp add: patch_def)

lemma bslice_patch_after [simp]:
  "off + length xs \<le> s \<Longrightarrow> off \<le> length b \<Longrightarrow> bslice s n (patch off xs b) = bslice s n b"
  by (simp add: bslice_def)

lemma bslice_patch_before [simp]:
  "s + n \<le> off \<Longrightarrow> off \<le> length b \<Longrightarrow> bslice s n (patch off xs b) = bslice s n b"
  by (simp add: bslice_def take_drop add.commute)

lemma nth_patch_after [simp]:
  "off + length xs \<le> i \<Longrightarrow> off + length xs \<le> length b \<Longrightarrow> patch off xs b ! i = b ! i"
  by (auto simp: patch_def nth_append)

lemma nth_patch_before [simp]:
  "i < off \<Longrightarrow> off \<le> length b \<Longrightarrow> patch off xs b ! i = b ! i"
  by (auto simp: patch_def nth_append)

lemma nth_patch_at [simp]:
  "off \<le> length b \<Longrightarrow> xs \<noteq> [] \<Longrightarrow> patch off xs b ! off = hd xs"
  by (auto simp: patch_def nth_append hd_conv_nth)

lemma bslice_conv_map:
  "off + n \<le> length b \<Longrightarrow> bslice off n b = map (\<lambda>i. b ! (off + i)) [0..<n]"
  by (auto simp: bslice_def intro!: nth_equalityI)

lemma bslice_append_slice:
  "off + m + n \<le> length b \<Longrightarrow> bslice off m b @ bslice (off + m) n b = bslice off (m + n) b"
  by (simp add: bslice_def take_add add.commute)

section \<open>First and last of a possibly empty list\<close>

definition first_or :: "'a list \<Rightarrow> 'a option \<Rightarrow> 'a option" where
  "first_or xs q = (case xs of [] \<Rightarrow> q | x # _ \<Rightarrow> Some x)"

definition last_or :: "'a option \<Rightarrow> 'a list \<Rightarrow> 'a option" where
  "last_or p xs = (if xs = [] then p else Some (last xs))"

lemma first_or_simps [simp]:
  "first_or [] q = q"
  "first_or (x # xs) q = Some x"
  by (simp_all add: first_or_def)

lemma last_or_simps [simp]:
  "last_or p [] = p"
  "last_or p (x # xs) = last_or (Some x) xs"
  by (simp_all add: last_or_def)

lemma first_or_append [simp]: "first_or (xs @ ys) q = first_or xs (first_or ys q)"
  by (cases xs) simp_all

lemma last_or_append [simp]: "last_or p (xs @ ys) = last_or (last_or p xs) ys"
  by (simp add: last_or_def)

lemma first_or_Some_in: "first_or xs None = Some x \<Longrightarrow> x \<in> set xs"
  by (cases xs) simp_all

lemma first_or_None_iff [simp]: "first_or xs None = None \<longleftrightarrow> xs = []"
  by (cases xs) simp_all

lemma last_or_eq_Some: "xs \<noteq> [] \<Longrightarrow> last_or p xs = Some (last xs)"
  by (simp add: last_or_def)

section \<open>C integers\<close>

text \<open>
  An \<open>int\<close> of the code is a 32-bit word read with \<open>sint\<close> where its bits matter, and a HOL
  integer where it is only a count or a status. \<open>c_true\<close> is the value of a C condition.
\<close>

definition c_bool :: "bool \<Rightarrow> int" where
  "c_bool b = (if b then 1 else 0)"

lemma unat_less_size: "unat (x :: 'a::len word) < 2 ^ LENGTH('a)"
  by simp

lemma unat_add_no_overflow:
  "unat (a :: 'a::len word) + unat b < 2 ^ LENGTH('a) \<Longrightarrow> unat (a + b) = unat a + unat b"
  by (simp add: unat_word_ariths)

lemma unat_sub_no_underflow:
  "unat (b :: 'a::len word) \<le> unat a \<Longrightarrow> unat (a - b) = unat a - unat b"
  by (metis unat_sub word_le_nat_alt)

lemma unat_u8_less [simp]: "unat (x :: u8) < 256"
  using unat_less_size [of x] by simp

lemma word_eq_0_unat: "(x :: 'a::len word) = 0 \<longleftrightarrow> unat x = 0"
  by (simp add: unat_eq_0)

lemma unat_of_nat_small: "n < 2 ^ LENGTH('a) \<Longrightarrow> unat (of_nat n :: 'a::len word) = n"
  by (simp add: unat_of_nat)

section \<open>Comparing byte strings\<close>

text \<open>
  \<open>strcmp\<close> on strings without their terminator, and \<open>memcmp\<close> on blocks of the same length: the
  difference of the first bytes that differ.
\<close>

fun bytes_cmp :: "bytes \<Rightarrow> bytes \<Rightarrow> int" where
  "bytes_cmp [] [] = 0"
| "bytes_cmp [] (y # ys) = -1"
| "bytes_cmp (x # xs) [] = 1"
| "bytes_cmp (x # xs) (y # ys) = (if x = y then bytes_cmp xs ys else uint x - uint y)"

lemma bytes_cmp_eq [simp]: "bytes_cmp xs ys = 0 \<longleftrightarrow> xs = ys"
  by (induction xs ys rule: bytes_cmp.induct) (auto simp: word_uint_eq_iff)

lemma bytes_cmp_sym: "bytes_cmp xs ys < 0 \<longleftrightarrow> 0 < bytes_cmp ys xs"
  by (induction xs ys rule: bytes_cmp.induct) auto

lemma bytes_cmp_trans: "0 < bytes_cmp xs ys \<Longrightarrow> 0 < bytes_cmp ys zs \<Longrightarrow> 0 < bytes_cmp xs zs"
proof (induction xs ys arbitrary: zs rule: bytes_cmp.induct)
  case (3 x xs)
  then show ?case by (cases zs) auto
next
  case (4 x xs y ys)
  then show ?case by (cases zs) (auto split: if_splits)
qed auto

end
