(* ===== verification/Hev_List.thy ===== *)
theory Hev_List
  imports Prelude
begin

text \<open>
  The intrusive doubly linked list of \<open>src/misc/hev-list.c\<close> and \<open>hev-list.h\<close>. A list is a
  pair of end pointers; the links live in the nodes, so every operation also takes and returns
  the heap of nodes. Nodes are addresses, \<open>None\<close> is \<open>NULL\<close>.
\<close>

section \<open>State\<close>

record hev_list =
  head :: ptr
  tail :: ptr

record list_heap =
  nxt :: "addr \<Rightarrow> ptr"
  prv :: "addr \<Rightarrow> ptr"

type_synonym lstate = "hev_list \<times> list_heap"

definition empty_list :: hev_list where
  "empty_list = \<lparr>head = None, tail = None\<rparr>"

section \<open>Operations\<close>

definition hev_list_node_next :: "list_heap \<Rightarrow> addr \<Rightarrow> ptr" where
  "hev_list_node_next h n = nxt h n"

definition hev_list_node_prev :: "list_heap \<Rightarrow> addr \<Rightarrow> ptr" where
  "hev_list_node_prev h n = prv h n"

definition hev_list_first :: "lstate \<Rightarrow> ptr" where
  "hev_list_first s = head (fst s)"

definition hev_list_last :: "lstate \<Rightarrow> ptr" where
  "hev_list_last s = tail (fst s)"

definition hev_list_add_tail :: "addr \<Rightarrow> lstate \<Rightarrow> lstate" where
  "hev_list_add_tail node s =
     (let (self, h) = s;
          h1 = h\<lparr>prv := (prv h)(node := tail self)\<rparr>;
          h2 = h1\<lparr>nxt := (nxt h1)(node := None)\<rparr>;
          (self3, h3) =
            (case tail self of
               Some t \<Rightarrow> (self, h2\<lparr>nxt := (nxt h2)(t := Some node)\<rparr>)
             | None \<Rightarrow> (self\<lparr>head := Some node\<rparr>, h2))
      in (self3\<lparr>tail := Some node\<rparr>, h3))"

definition hev_list_del :: "addr \<Rightarrow> lstate \<Rightarrow> lstate" where
  "hev_list_del node s =
     (let (self, h) = s;
          (self1, h1) =
            (case prv h node of
               Some p \<Rightarrow> (self, h\<lparr>nxt := (nxt h)(p := nxt h node)\<rparr>)
             | None \<Rightarrow> (self\<lparr>head := nxt h node\<rparr>, h))
      in (case nxt h1 node of
            Some q \<Rightarrow> (self1, h1\<lparr>prv := (prv h1)(q := prv h1 node)\<rparr>)
          | None \<Rightarrow> (self1\<lparr>tail := prv h1 node\<rparr>, h1)))"

section \<open>Abstraction: the sequence of nodes\<close>

text \<open>
  \<open>seg h p xs q\<close>: the nodes \<open>xs\<close> are chained both ways, the first one's \<open>prev\<close> is \<open>p\<close>
  and the last one's \<open>next\<close> is \<open>q\<close>.
\<close>

primrec seg :: "list_heap \<Rightarrow> ptr \<Rightarrow> addr list \<Rightarrow> ptr \<Rightarrow> bool" where
  "seg h p [] q = True"
| "seg h p (x # xs) q =
     (prv h x = p \<and> nxt h x = first_or xs q \<and> seg h (Some x) xs q)"

definition dll :: "lstate \<Rightarrow> addr list \<Rightarrow> bool" where
  "dll s xs \<longleftrightarrow>
     head (fst s) = first_or xs None \<and> tail (fst s) = last_or None xs \<and>
     seg (snd s) None xs None \<and> distinct xs"

lemma seg_append [simp]:
  "seg h p (xs @ ys) q \<longleftrightarrow> seg h p xs (first_or ys q) \<and> seg h (last_or p xs) ys q"
  by (induction xs arbitrary: p) auto

lemma seg_cong:
  "(\<And>x. x \<in> set xs \<Longrightarrow> nxt h' x = nxt h x \<and> prv h' x = prv h x) \<Longrightarrow>
   seg h' p xs q = seg h p xs q"
  by (induction xs arbitrary: p) auto

lemma seg_upd_nxt [simp]:
  "a \<notin> set xs \<Longrightarrow> seg (h\<lparr>nxt := (nxt h)(a := v)\<rparr>) p xs q = seg h p xs q"
  by (rule seg_cong) auto

lemma seg_upd_prv [simp]:
  "a \<notin> set xs \<Longrightarrow> seg (h\<lparr>prv := (prv h)(a := v)\<rparr>) p xs q = seg h p xs q"
  by (rule seg_cong) auto

lemma seg_set_end:
  "seg h p xs q \<Longrightarrow> distinct xs \<Longrightarrow> xs \<noteq> [] \<Longrightarrow>
   seg (h\<lparr>nxt := (nxt h)(last xs := q')\<rparr>) p xs q'"
proof (induction xs arbitrary: p)
  case (Cons x xs)
  show ?case
  proof (cases xs)
    case Nil
    with Cons.prems show ?thesis by simp
  next
    case (Cons y ys)
    with Cons.prems Cons.IH [of "Some x"] show ?thesis by auto
  qed
qed simp

lemma seg_set_start:
  "seg h p xs q \<Longrightarrow> distinct xs \<Longrightarrow> xs \<noteq> [] \<Longrightarrow>
   seg (h\<lparr>prv := (prv h)(hd xs := p')\<rparr>) p' xs q"
  by (cases xs) auto

lemma dll_empty: "dll (empty_list, h) []"
  by (simp add: dll_def empty_list_def)

lemma dll_distinct: "dll s xs \<Longrightarrow> distinct xs"
  by (simp add: dll_def)

lemma dll_first: "dll s xs \<Longrightarrow> hev_list_first s = first_or xs None"
  by (simp add: dll_def hev_list_first_def)

lemma dll_last: "dll s xs \<Longrightarrow> hev_list_last s = last_or None xs"
  by (simp add: dll_def hev_list_last_def)

lemma seg_next:
  "seg h p (as @ x # bs) q \<Longrightarrow> nxt h x = first_or bs q"
  by simp

lemma dll_next: "dll s (as @ x # bs) \<Longrightarrow> hev_list_node_next (snd s) x = first_or bs None"
  by (auto simp: dll_def hev_list_node_next_def)

lemma dll_prev: "dll s (as @ x # bs) \<Longrightarrow> hev_list_node_prev (snd s) x = last_or None as"
  by (auto simp: dll_def hev_list_node_prev_def)

lemma dll_add_tail:
  assumes "dll s xs" "n \<notin> set xs"
  shows "dll (hev_list_add_tail n s) (xs @ [n])"
proof (cases "xs = []")
  case True
  with assms show ?thesis
    by (cases s) (simp add: dll_def hev_list_add_tail_def Let_def)
next
  case False
  obtain self h where s: "s = (self, h)" by (cases s)
  from assms s False have t: "tail self = Some (last xs)" and hd: "head self = first_or xs None"
    and sg: "seg h None xs None" and d: "distinct xs"
    by (auto simp: dll_def last_or_def)
  let ?h2 = "h\<lparr>prv := (prv h)(n := Some (last xs)), nxt := (nxt h)(n := None)\<rparr>"
  have "seg ?h2 None xs None"
    using sg assms(2) by (subst seg_cong [of xs _ h]) auto
  then have "seg (?h2\<lparr>nxt := (nxt ?h2)(last xs := Some n)\<rparr>) None xs (Some n)"
    using d False by (rule seg_set_end)
  moreover have "last xs \<noteq> n" using False assms(2) by auto
  ultimately show ?thesis
    using s t hd d False assms(2)
    by (cases xs) (auto simp: dll_def hev_list_add_tail_def Let_def last_or_def)
qed

text \<open>Removing a node bypasses it in both directions; its own links are left as they are.\<close>

lemma dll_del_split:
  assumes "dll s (as @ n # bs)"
  shows "dll (hev_list_del n s) (as @ bs)"
proof -
  obtain self h where s: "s = (self, h)" by (cases s)
  from assms s have hd: "head self = first_or as (Some n)"
    and tl: "tail self = last_or (Some n) bs"
    and sa: "seg h None as (Some n)" and pn: "prv h n = last_or None as"
    and nn: "nxt h n = first_or bs None" and sb: "seg h (Some n) bs None"
    and d: "distinct as" "distinct bs" "n \<notin> set as" "n \<notin> set bs" "set as \<inter> set bs = {}"
    by (auto simp: dll_def)
  define h1 where "h1 = (if as = [] then h else h\<lparr>nxt := (nxt h)(last as := first_or bs None)\<rparr>)"
  define h2 where "h2 = (if bs = [] then h1 else h1\<lparr>prv := (prv h1)(hd bs := last_or None as)\<rparr>)"
  have n1: "nxt h1 n = first_or bs None" "prv h1 n = last_or None as"
    using nn pn d by (auto simp: h1_def)
  have sa1: "seg h1 None as (first_or bs None)"
    using sa d seg_set_end [of h None as "Some n" "first_or bs None"] by (auto simp: h1_def)
  have sb1: "seg h1 (Some n) bs None"
  proof (cases "as = []")
    case False
    then have "last as \<notin> set bs" using d by (metis disjoint_iff last_in_set)
    with sb False show ?thesis by (simp add: h1_def)
  qed (use sb in \<open>simp add: h1_def\<close>)
  have sa2: "seg h2 None as (first_or bs None)"
  proof (cases "bs = []")
    case False
    then have "hd bs \<notin> set as" using d by (metis disjoint_iff hd_in_set)
    with sa1 False show ?thesis by (simp add: h2_def)
  qed (use sa1 in \<open>simp add: h2_def\<close>)
  have sb2: "seg h2 (last_or None as) bs None"
    using sb1 d seg_set_start [of h1 "Some n" bs None "last_or None as"] by (auto simp: h2_def)
  have "hev_list_del n s =
    (\<lparr>head = (if as = [] then first_or bs None else head self),
      tail = (if bs = [] then last_or None as else tail self)\<rparr>, h2)"
    using s n1 nn pn
    by (cases as rule: rev_cases; cases bs)
      (auto simp: hev_list_del_def Let_def h1_def h2_def last_or_def split: option.splits)
  with sa2 sb2 hd tl d show ?thesis
    by (cases as; cases bs) (auto simp: dll_def)
qed

lemma dll_del:
  assumes "dll s xs" "n \<in> set xs"
  shows "dll (hev_list_del n s) (remove1 n xs)"
proof -
  from assms(2) obtain as bs where xs: "xs = as @ n # bs" "n \<notin> set as"
    by (meson split_list_first)
  with assms(1) have "dll (hev_list_del n s) (as @ bs)"
    by (simp add: dll_del_split)
  with xs show ?thesis by (simp add: remove1_append)
qed

section \<open>The interface its clients use\<close>

text \<open>
  A recency list: elements are appended at the tail, any element can be taken out, and the
  first one is the one that was appended least recently. The session set of the tunnel and the
  cache of the mapped DNS are both used through these operations only.
\<close>

locale recency_list =
  fixes add :: "'n \<Rightarrow> 's \<Rightarrow> 's" and del :: "'n \<Rightarrow> 's \<Rightarrow> 's"
    and first :: "'s \<Rightarrow> 'n option" and rep :: "'s \<Rightarrow> 'n list \<Rightarrow> bool"
  assumes rep_distinct: "rep s xs \<Longrightarrow> distinct xs"
    and rep_add: "rep s xs \<Longrightarrow> n \<notin> set xs \<Longrightarrow> rep (add n s) (xs @ [n])"
    and rep_del: "rep s xs \<Longrightarrow> n \<in> set xs \<Longrightarrow> rep (del n s) (remove1 n xs)"
    and rep_first: "rep s xs \<Longrightarrow> first s = first_or xs None"
begin

lemma rep_touch:
  assumes "rep s xs" "n \<in> set xs"
  shows "rep (add n (del n s)) (remove1 n xs @ [n])"
  using assms by (simp add: rep_add rep_del rep_distinct)

lemma rep_rotate:
  assumes "rep s (x # xs)" "n \<notin> set (x # xs)"
  shows "first (add n s) = Some x" and "rep (del x (add n s)) (xs @ [n])"
proof -
  from assms have r: "rep (add n s) (x # xs @ [n])" using rep_add [of s "x # xs" n] by simp
  then show "first (add n s) = Some x" by (simp add: rep_first)
  from r have "rep (del x (add n s)) (remove1 x (x # xs @ [n]))" by (rule rep_del) simp
  then show "rep (del x (add n s)) (xs @ [n])" by simp
qed

lemma touch_first:
  assumes "rep s (x # y # xs)"
  shows "first (add x (del x s)) = Some y"
proof -
  from assms have "rep (add x (del x s)) (remove1 x (x # y # xs) @ [x])"
    by (rule rep_touch) simp
  then show ?thesis by (simp add: rep_first)
qed

end

interpretation lru: recency_list hev_list_add_tail hev_list_del hev_list_first dll
  by unfold_locales (auto intro: dll_distinct dll_add_tail dll_del dll_first)

section \<open>Properties\<close>

text \<open>
  The pointer operations implement a recency list: moving the node that was used least recently
  to the tail (delete, then append) leaves a well-linked list in which the next oldest node is
  first, the moved node is last, and the others keep their order.
\<close>
theorem list_recency:
  assumes "dll s (x # y # xs)"
  shows "hev_list_first (hev_list_add_tail x (hev_list_del x s)) = Some y \<and>
    hev_list_last (hev_list_add_tail x (hev_list_del x s)) = Some x \<and>
    dll (hev_list_add_tail x (hev_list_del x s)) (y # xs @ [x])"
proof -
  have "dll (hev_list_add_tail x (hev_list_del x s)) (y # xs @ [x])"
    using lru.rep_touch [OF assms, of x] by simp
  moreover from this have "hev_list_last (hev_list_add_tail x (hev_list_del x s)) = Some x"
    by (simp add: dll_last)
  moreover have "hev_list_first (hev_list_add_tail x (hev_list_del x s)) = Some y"
    using assms by (rule lru.touch_first)
  ultimately show ?thesis by simp
qed

text \<open>A list of three nodes, built with the code's own operation.\<close>

definition three_nodes :: lstate where
  "three_nodes = hev_list_add_tail 3 (hev_list_add_tail 2 (hev_list_add_tail 1
     (empty_list, \<lparr>nxt = (\<lambda>_. None), prv = (\<lambda>_. None)\<rparr>)))"

lemma three_nodes_dll: "dll three_nodes [1, 2, 3]"
  using dll_add_tail [OF dll_add_tail [OF dll_add_tail [OF dll_empty]]]
  by (simp add: three_nodes_def)

theorem list_recency_witness:
  "hev_list_first (hev_list_add_tail 1 (hev_list_del 1 three_nodes)) = Some 2 \<and>
   hev_list_last (hev_list_add_tail 1 (hev_list_del 1 three_nodes)) = Some 1"
  using list_recency [OF three_nodes_dll] by simp

end
