(* ===== verification/Ring_Buffer.thy ===== *)
theory Ring_Buffer
  imports Prelude
begin

text \<open>
  The byte ring of \<open>src/misc/hev-ring-buffer.c\<close>, between the upstream socket and the lwIP
  connection of a TCP session. Besides the readable bytes it keeps the bytes already handed to
  lwIP but not yet acknowledged (lwIP refers to them in place), so space is given back by
  \<open>hev_ring_buffer_read_release\<close> and not by \<open>hev_ring_buffer_read_finish\<close>. Sizes are
  \<open>size_t\<close>, here \<open>u64\<close> with its wrap-around.
\<close>

section \<open>State and operations\<close>

record ring_buffer =
  rp :: u64
  wp :: u64
  rda_size :: u64
  use_size :: u64
  max_size :: u64
  data :: bytes

text \<open>An \<open>iovec\<close> that points into the ring: the offset from \<open>data\<close> and the length.\<close>

type_synonym ring_iov = "u64 \<times> u64"

definition hev_ring_buffer_alloca :: "u64 \<Rightarrow> bytes \<Rightarrow> ring_buffer" where
  "hev_ring_buffer_alloca s garbage =
     \<lparr>rp = 0, wp = 0, rda_size = 0, use_size = 0, max_size = s, data = garbage\<rparr>"

definition hev_ring_buffer_get_max_size :: "ring_buffer \<Rightarrow> u64" where
  "hev_ring_buffer_get_max_size self = max_size self"

definition hev_ring_buffer_get_use_size :: "ring_buffer \<Rightarrow> u64" where
  "hev_ring_buffer_get_use_size self = use_size self"

definition hev_ring_buffer_reading :: "ring_buffer \<Rightarrow> ring_iov list" where
  "hev_ring_buffer_reading self =
     (if 0 = rda_size self then []
      else let upper_size = max_size self - rp self in
        if rda_size self \<le> upper_size then [(rp self, rda_size self)]
        else [(rp self, upper_size), (0, rda_size self - upper_size)])"

definition hev_ring_buffer_read_finish :: "u64 \<Rightarrow> ring_buffer \<Rightarrow> ring_buffer" where
  "hev_ring_buffer_read_finish sz self =
     self\<lparr>rp := (rp self + sz) mod max_size self, rda_size := rda_size self - sz\<rparr>"

definition hev_ring_buffer_read_release :: "u64 \<Rightarrow> ring_buffer \<Rightarrow> ring_buffer" where
  "hev_ring_buffer_read_release sz self =
     (let self = self\<lparr>use_size := use_size self - sz\<rparr> in
      if use_size self = 0 then self\<lparr>rp := 0, wp := 0\<rparr> else self)"

definition hev_ring_buffer_writing :: "ring_buffer \<Rightarrow> ring_iov list" where
  "hev_ring_buffer_writing self =
     (if use_size self = max_size self then []
      else let upper_size = max_size self - wp self;
               spc_size = max_size self - use_size self in
        if spc_size \<le> upper_size then [(wp self, spc_size)]
        else [(wp self, upper_size), (0, spc_size - upper_size)])"

definition hev_ring_buffer_write_finish :: "u64 \<Rightarrow> ring_buffer \<Rightarrow> ring_buffer" where
  "hev_ring_buffer_write_finish sz self =
     self\<lparr>wp := (wp self + sz) mod max_size self, use_size := use_size self + sz,
          rda_size := rda_size self + sz\<rparr>"

text \<open>
  What the callers do with the vectors: \<open>readv\<close> scatters bytes over them, \<open>tcp_write\<close> is
  given the bytes they cover.
\<close>

fun iov_scatter :: "ring_iov list \<Rightarrow> bytes \<Rightarrow> bytes \<Rightarrow> bytes" where
  "iov_scatter [] xs d = d"
| "iov_scatter ((off, len) # v) xs d =
     iov_scatter v (drop (unat len) xs) (patch (unat off) (take (unat len) xs) d)"

definition iov_gather :: "ring_iov list \<Rightarrow> bytes \<Rightarrow> bytes" where
  "iov_gather v d = concat (map (\<lambda>(off, len). bslice (unat off) (unat len) d) v)"

definition iov_size :: "ring_iov list \<Rightarrow> nat" where
  "iov_size v = sum_list (map (\<lambda>(off, len). unat len) v)"

definition iov_in :: "ring_iov list \<Rightarrow> bytes \<Rightarrow> bool" where
  "iov_in v d \<longleftrightarrow> (\<forall>(off, len) \<in> set v. unat off + unat len \<le> length d)"

definition ring_fill :: "bytes \<Rightarrow> ring_buffer \<Rightarrow> ring_buffer" where
  "ring_fill xs r =
     hev_ring_buffer_write_finish (of_nat (length xs))
       (r\<lparr>data := iov_scatter (hev_ring_buffer_writing r) xs (data r)\<rparr>)"

definition ring_peek :: "ring_buffer \<Rightarrow> bytes" where
  "ring_peek r = iov_gather (hev_ring_buffer_reading r) (data r)"

section \<open>Abstraction: two byte queues\<close>

definition ring_at :: "bytes \<Rightarrow> nat \<Rightarrow> nat \<Rightarrow> bytes" where
  "ring_at d p n = map (\<lambda>i. d ! ((p + i) mod length d)) [0..<n]"

definition ring_inv :: "ring_buffer \<Rightarrow> bool" where
  "ring_inv r \<longleftrightarrow>
     unat (max_size r) = length (data r) \<and> 0 < length (data r) \<and> length (data r) < 2 ^ 63 \<and>
     unat (rp r) < length (data r) \<and> unat (rda_size r) \<le> unat (use_size r) \<and>
     unat (use_size r) \<le> length (data r) \<and>
     unat (wp r) = (unat (rp r) + unat (rda_size r)) mod length (data r)"

definition readable :: "ring_buffer \<Rightarrow> bytes" where
  "readable r = ring_at (data r) (unat (rp r)) (unat (rda_size r))"

text \<open>Bytes handed out but not released: they end where the readable bytes begin.\<close>

definition inflight :: "ring_buffer \<Rightarrow> bytes" where
  "inflight r =
     (let n = unat (use_size r) - unat (rda_size r); m = length (data r) in
      ring_at (data r) (unat (rp r) + m - n) n)"

definition ring_free :: "ring_buffer \<Rightarrow> nat" where
  "ring_free r = length (data r) - unat (use_size r)"

lemma length_ring_at [simp]: "length (ring_at d p n) = n"
  by (simp add: ring_at_def)

lemma nth_ring_at [simp]: "i < n \<Longrightarrow> ring_at d p n ! i = d ! ((p + i) mod length d)"
  by (simp add: ring_at_def)

lemma ring_at_0 [simp]: "ring_at d p 0 = []"
  by (simp add: ring_at_def)

lemma ring_at_mod [simp]: "ring_at d (p mod length d) n = ring_at d p n"
  by (simp add: ring_at_def mod_add_left_eq)

lemma ring_at_add: "ring_at d p (m + n) = ring_at d p m @ ring_at d (p + m) n"
  by (rule nth_equalityI) (auto simp: nth_append ac_simps)

lemma ring_at_straight:
  "p + n \<le> length d \<Longrightarrow> ring_at d p n = bslice p n d"
  by (auto simp: ring_at_def bslice_conv_map intro!: map_cong)

lemma ring_at_wrap:
  assumes "p < length d" "length d - p < n" "n \<le> length d"
  shows "ring_at d p n = bslice p (length d - p) d @ bslice 0 (n - (length d - p)) d"
proof -
  have "ring_at d p n = ring_at d p ((length d - p) + (n - (length d - p)))"
    using assms by simp
  also have "\<dots> = ring_at d p (length d - p) @ ring_at d (p + (length d - p)) (n - (length d - p))"
    by (rule ring_at_add)
  also have "ring_at d (p + (length d - p)) (n - (length d - p)) =
    ring_at d ((p + (length d - p)) mod length d) (n - (length d - p))"
    by (simp only: ring_at_mod)
  also have "(p + (length d - p)) mod length d = 0"
    using assms by simp
  finally show ?thesis
    using assms by (simp add: ring_at_straight)
qed

lemma ring_at_cong:
  "length d' = length d \<Longrightarrow>
   (\<And>i. i < n \<Longrightarrow> d' ! ((p + i) mod length d) = d ! ((p + i) mod length d)) \<Longrightarrow>
   ring_at d' p n = ring_at d p n"
  by (auto simp: ring_at_def)

section \<open>The vectors\<close>

lemma u64_le: "(a :: u64) \<le> b \<longleftrightarrow> unat a \<le> unat b"
  by (rule word_le_nat_alt)

lemma ring_upper:
  assumes "ring_inv r"
  shows "unat (max_size r - rp r) = length (data r) - unat (rp r)"
    and "unat (max_size r - wp r) = length (data r) - unat (wp r)"
    and "unat (max_size r - use_size r) = ring_free r"
    and "unat (wp r) < length (data r)"
  using assms by (simp_all add: ring_inv_def ring_free_def unat_sub_no_underflow less_imp_le)

lemma spc_minus_upper:
  assumes "ring_inv r" "\<not> ring_free r \<le> length (data r) - unat (wp r)"
  shows "unat (max_size r - use_size r - (max_size r - wp r)) =
    ring_free r - (length (data r) - unat (wp r))"
  using ring_upper [OF assms(1)] assms(2)
    unat_sub_no_underflow [of "max_size r - wp r" "max_size r - use_size r"]
  by linarith

lemma reading_gather:
  assumes "ring_inv r"
  shows "iov_gather (hev_ring_buffer_reading r) (data r) = readable r"
proof -
  note up = ring_upper [OF assms]
  let ?n = "unat (rda_size r)" and ?u = "length (data r) - unat (rp r)"
  from assms have b: "unat (rp r) < length (data r)" "?n \<le> length (data r)"
    by (auto simp: ring_inv_def)
  show ?thesis
  proof (cases "?n \<le> ?u")
    case True
    with b up show ?thesis
      by (auto simp: hev_ring_buffer_reading_def iov_gather_def readable_def u64_le
          ring_at_straight word_eq_0_unat split: if_splits)
  next
    case False
    then have "unat (rda_size r - (max_size r - rp r)) = ?n - ?u"
      using up by (simp add: unat_sub_no_underflow)
    with False b up show ?thesis
      by (auto simp: hev_ring_buffer_reading_def iov_gather_def readable_def u64_le Let_def
          ring_at_wrap)
  qed
qed

lemma writing_size:
  assumes "ring_inv r"
  shows "iov_size (hev_ring_buffer_writing r) = ring_free r"
    and "iov_in (hev_ring_buffer_writing r) (data r)"
proof -
  note up = ring_upper [OF assms]
  let ?u = "length (data r) - unat (wp r)"
  from assms have b: "unat (max_size r) = length (data r)" "ring_free r \<le> length (data r)"
    by (auto simp: ring_inv_def ring_free_def)
  have full: "use_size r = max_size r \<Longrightarrow> ring_free r = 0"
    using b by (simp add: ring_free_def)
  note rest = spc_minus_upper [OF assms]
  have sz: "iov_size (hev_ring_buffer_writing r) = ring_free r \<and>
      iov_in (hev_ring_buffer_writing r) (data r)"
  proof (cases "ring_free r \<le> ?u")
    case True
    with up full show ?thesis
      by (auto simp: hev_ring_buffer_writing_def iov_size_def iov_in_def u64_le Let_def)
  next
    case False
    with up full rest b show ?thesis
      by (auto simp: hev_ring_buffer_writing_def iov_size_def iov_in_def u64_le Let_def)
  qed
  then show "iov_size (hev_ring_buffer_writing r) = ring_free r"
    and "iov_in (hev_ring_buffer_writing r) (data r)" by auto
qed

lemma reading_in:
  assumes "ring_inv r"
  shows "iov_in (hev_ring_buffer_reading r) (data r)"
proof -
  note up = ring_upper [OF assms]
  let ?n = "unat (rda_size r)" and ?u = "length (data r) - unat (rp r)"
  from assms have b: "unat (rp r) < length (data r)" "?n \<le> length (data r)"
    by (auto simp: ring_inv_def)
  have "\<not> ?n \<le> ?u \<Longrightarrow> unat (rda_size r - (max_size r - rp r)) = ?n - ?u"
    using up by (simp add: unat_sub_no_underflow)
  with up b show ?thesis
    by (auto simp: hev_ring_buffer_reading_def iov_in_def u64_le Let_def)
qed

section \<open>Writing into the ring\<close>

lemma mod_pos: "(p :: nat) < m \<Longrightarrow> i < m \<Longrightarrow> (p + i) mod m = (if p + i < m then p + i else p + i - m)"
  by (auto simp: mod_if)

lemma scatter_nth:
  assumes inv: "ring_inv r" and len: "length xs \<le> ring_free r" and i: "i < length (data r)"
  shows "iov_scatter (hev_ring_buffer_writing r) xs (data r) ! ((unat (wp r) + i) mod length (data r)) =
    (if i < length xs then xs ! i else data r ! ((unat (wp r) + i) mod length (data r)))"
    (is "?d ! ?j = _")
  and "length (iov_scatter (hev_ring_buffer_writing r) xs (data r)) = length (data r)"
proof -
  note up = ring_upper [OF inv]
  let ?m = "length (data r)" and ?w = "unat (wp r)" and ?f = "ring_free r"
  let ?u = "?m - ?w"
  from inv have f: "?f \<le> ?m" by (simp add: ring_free_def)
  have j: "?j = (if ?w + i < ?m then ?w + i else ?w + i - ?m)"
    using up(4) i by (rule mod_pos)
  have full: "use_size r = max_size r \<Longrightarrow> ?f = 0"
    using inv by (simp add: ring_free_def ring_inv_def)
  have d: "?d = patch 0 (drop ?u xs) (patch ?w (take ?u xs) (data r))"
  proof (cases "?f \<le> ?u")
    case True
    with up full len show ?thesis
      by (auto simp: hev_ring_buffer_writing_def u64_le Let_def)
  next
    case False
    with spc_minus_upper [OF inv] have
      "unat (max_size r - use_size r - (max_size r - wp r)) = ?f - ?u" by simp
    with False up full len show ?thesis
      by (auto simp: hev_ring_buffer_writing_def u64_le Let_def)
  qed
  have l1: "length (patch ?w (take ?u xs) (data r)) = ?m"
    using up(4) by simp
  have l2: "length (drop ?u xs) \<le> ?w" using len f up(4) by auto
  show "length ?d = ?m" using d l1 l2 up(4) by simp
  let ?e = "patch ?w (take ?u xs) (data r)"
  have lt: "length (take ?u xs) + ?w \<le> ?m" using up(4) by simp
  show "?d ! ?j = (if i < length xs then xs ! i else data r ! ?j)"
  proof (cases "?w + i < ?m")
    case True
    then have "?d ! ?j = ?e ! (?w + i)"
      using l1 l2 j by (simp only: d if_True) (rule nth_patch_outside, auto)
    also have "\<dots> = (if i < length xs then xs ! i else data r ! (?w + i))"
      using True lt by (auto simp: nth_patch)
    finally show ?thesis using True j by simp
  next
    case False
    define k where "k = ?w + i - ?m"
    have k: "k < ?w" "?u + k = i" "?j = k" using False i up(4) j by (auto simp: k_def)
    have "?d ! k = (if k < length (drop ?u xs) then drop ?u xs ! k else ?e ! k)"
      using nth_patch [of 0 "drop ?u xs" ?e k] l1 l2 k up(4) by (simp add: d)
    moreover have "k < length (drop ?u xs) \<longleftrightarrow> i < length xs" using k by auto
    moreover have "i < length xs \<Longrightarrow> drop ?u xs ! k = xs ! i" using k by simp
    ultimately have "?d ! ?j = (if i < length xs then xs ! i else ?e ! (?w + i - ?m))"
      using k by (simp add: k_def)
    moreover have "?e ! (?w + i - ?m) = data r ! (?w + i - ?m)"
      using False i up(4) lt by (intro nth_patch_outside) auto
    ultimately show ?thesis using False j by simp
  qed
qed

lemma ring_pos_from_wp:
  assumes "ring_inv r" "k \<le> length (data r)"
  shows "(unat (rp r) + unat (rda_size r) + length (data r) - k + i) mod length (data r) =
    (unat (wp r) + (length (data r) - k + i)) mod length (data r)"
proof -
  have "unat (rp r) + unat (rda_size r) + length (data r) - k + i =
    (unat (rp r) + unat (rda_size r)) + (length (data r) - k + i)"
    using assms(2) by simp
  then show ?thesis
    using assms(1) by (simp only: ring_inv_def mod_add_left_eq)
qed

lemma scatter_keeps:
  assumes inv: "ring_inv r" and len: "length xs \<le> ring_free r"
    and k: "unat (rda_size r) \<le> k" "k \<le> unat (use_size r)" and n: "n \<le> k"
    and p: "p mod length (data r) = (unat (rp r) + unat (rda_size r) + length (data r) - k) mod length (data r)"
  shows "ring_at (iov_scatter (hev_ring_buffer_writing r) xs (data r)) p n = ring_at (data r) p n"
proof (rule ring_at_cong)
  let ?m = "length (data r)" and ?d = "iov_scatter (hev_ring_buffer_writing r) xs (data r)"
  show "length ?d = ?m" using scatter_nth(2) [OF inv len, of 0] inv by (simp add: ring_inv_def)
  fix i assume i: "i < n"
  have km: "k \<le> ?m" using k inv by (simp add: ring_inv_def)
  have "(p + i) mod ?m = (unat (rp r) + unat (rda_size r) + ?m - k + i) mod ?m"
    using p by (metis mod_add_left_eq)
  also have "\<dots> = (unat (wp r) + (?m - k + i)) mod ?m"
    using inv km by (rule ring_pos_from_wp)
  finally have pos: "(p + i) mod ?m = (unat (wp r) + (?m - k + i)) mod ?m" .
  have lt: "?m - k + i < ?m" and ge: "\<not> ?m - k + i < length xs"
    using i n k km len by (auto simp: ring_free_def)
  from scatter_nth(1) [OF inv len lt] ge show "?d ! ((p + i) mod ?m) = data r ! ((p + i) mod ?m)"
    by (simp only: pos if_False)
qed

lemma unat_of_nat_le_free:
  assumes "ring_inv r" "length xs \<le> ring_free r"
  shows "unat (of_nat (length xs) :: u64) = length xs"
  using assms by (intro unat_of_nat_small) (auto simp: ring_inv_def ring_free_def)

lemma ring_fill_unat:
  assumes "ring_inv r" "length xs \<le> ring_free r"
  shows "unat (use_size (ring_fill xs r)) = unat (use_size r) + length xs"
    and "unat (rda_size (ring_fill xs r)) = unat (rda_size r) + length xs"
    and "unat (wp (ring_fill xs r)) = (unat (wp r) + length xs) mod length (data r)"
proof -
  note n = unat_of_nat_le_free [OF assms]
  from assms have b: "unat (use_size r) + length xs \<le> length (data r)" "length (data r) < 2 ^ 63"
     "unat (rda_size r) \<le> unat (use_size r)" "unat (wp r) < length (data r)"
     "unat (max_size r) = length (data r)"
    using ring_upper(4) by (auto simp: ring_inv_def ring_free_def)
  then show "unat (use_size (ring_fill xs r)) = unat (use_size r) + length xs"
    and "unat (rda_size (ring_fill xs r)) = unat (rda_size r) + length xs"
    and "unat (wp (ring_fill xs r)) = (unat (wp r) + length xs) mod length (data r)"
    by (simp_all add: ring_fill_def hev_ring_buffer_write_finish_def unat_add_no_overflow n unat_mod)
qed

lemma ring_fill_simps [simp]:
  "rp (ring_fill xs r) = rp r"
  "max_size (ring_fill xs r) = max_size r"
  "data (ring_fill xs r) = iov_scatter (hev_ring_buffer_writing r) xs (data r)"
  by (simp_all add: ring_fill_def hev_ring_buffer_write_finish_def)

lemma ring_fill_inv:
  assumes "ring_inv r" "length xs \<le> ring_free r"
  shows "ring_inv (ring_fill xs r)"
proof -
  have l: "length (data (ring_fill xs r)) = length (data r)"
    using scatter_nth(2) [OF assms, of 0] assms(1) by (simp add: ring_inv_def)
  have "unat (wp (ring_fill xs r)) =
    (unat (rp r) + (unat (rda_size r) + length xs)) mod length (data r)"
    using assms(1) by (simp add: ring_fill_unat(3) [OF assms] ring_inv_def mod_add_left_eq add.assoc)
  with assms l show ?thesis
    unfolding ring_inv_def [of "ring_fill xs r"]
    by (simp add: ring_fill_unat [OF assms] del: ring_fill_simps(3))
      (auto simp: ring_inv_def ring_free_def)
qed

lemma ring_fill_readable:
  assumes "ring_inv r" "length xs \<le> ring_free r"
  shows "readable (ring_fill xs r) = readable r @ xs"
proof -
  let ?m = "length (data r)" and ?d = "iov_scatter (hev_ring_buffer_writing r) xs (data r)"
  have l: "length ?d = ?m"
    using scatter_nth(2) [OF assms, of 0] assms(1) by (simp add: ring_inv_def)
  have a: "ring_at ?d (unat (rp r)) (unat (rda_size r)) = ring_at (data r) (unat (rp r)) (unat (rda_size r))"
    using assms by (intro scatter_keeps [where k = "unat (rda_size r)"]) (auto simp: ring_inv_def)
  have "ring_at ?d (unat (rp r) + unat (rda_size r)) (length xs) =
    ring_at ?d (unat (wp r)) (length xs)"
    using assms(1) l by (metis ring_at_mod ring_inv_def)
  also have "\<dots> = xs"
  proof (rule nth_equalityI)
    fix i assume "i < length (ring_at ?d (unat (wp r)) (length xs))"
    then have i: "i < length xs" by simp
    with assms have "i < ?m" by (auto simp: ring_free_def)
    from scatter_nth(1) [OF assms this] i l
    show "ring_at ?d (unat (wp r)) (length xs) ! i = xs ! i" by simp
  qed simp
  finally show ?thesis
    by (simp add: readable_def ring_fill_unat [OF assms] ring_at_add a)
qed

lemma ring_fill_inflight:
  assumes "ring_inv r" "length xs \<le> ring_free r"
  shows "inflight (ring_fill xs r) = inflight r"
proof -
  let ?m = "length (data r)" and ?d = "iov_scatter (hev_ring_buffer_writing r) xs (data r)"
  let ?n = "unat (use_size r) - unat (rda_size r)"
  have l: "length ?d = ?m"
    using scatter_nth(2) [OF assms, of 0] assms(1) by (simp add: ring_inv_def)
  have "ring_at ?d (unat (rp r) + ?m - ?n) ?n = ring_at (data r) (unat (rp r) + ?m - ?n) ?n"
  proof (rule scatter_keeps [OF assms, where k = "unat (use_size r)"])
    show "(unat (rp r) + ?m - ?n) mod ?m =
        (unat (rp r) + unat (rda_size r) + ?m - unat (use_size r)) mod ?m"
      using assms(1) by (intro arg_cong [where f = "\<lambda>x. x mod ?m"]) (auto simp: ring_inv_def)
  qed (use assms(1) in \<open>auto simp: ring_inv_def\<close>)
  then show ?thesis
    by (simp add: inflight_def Let_def ring_fill_unat [OF assms] l)
qed

section \<open>Handing bytes out and giving their space back\<close>

lemma read_finish_spec:
  assumes inv: "ring_inv r" and n: "unat n \<le> length (readable r)"
  shows "ring_inv (hev_ring_buffer_read_finish n r)"
    and "readable (hev_ring_buffer_read_finish n r) = drop (unat n) (readable r)"
    and "inflight (hev_ring_buffer_read_finish n r) = inflight r @ take (unat n) (readable r)"
proof -
  let ?m = "length (data r)" and ?p = "unat (rp r)" and ?a = "unat (rda_size r)"
    and ?u = "unat (use_size r)" and ?n = "unat n"
  let ?r = "hev_ring_buffer_read_finish n r"
  from inv have b: "unat (max_size r) = ?m" "0 < ?m" "?m < 2 ^ 63" "?p < ?m" "?a \<le> ?u" "?u \<le> ?m"
    "unat (wp r) = (?p + ?a) mod ?m" by (auto simp: ring_inv_def)
  from n have na: "?n \<le> ?a" by (simp add: readable_def)
  have f: "unat (rp ?r) = (?p + ?n) mod ?m" "unat (rda_size ?r) = ?a - ?n"
    "use_size ?r = use_size r" "wp ?r = wp r" "data ?r = data r" "max_size ?r = max_size r"
    using b na by (simp_all add: hev_ring_buffer_read_finish_def unat_add_no_overflow unat_mod
        unat_sub_no_underflow)
  have "((?p + ?n) mod ?m + (?a - ?n)) mod ?m = (?p + ?n + (?a - ?n)) mod ?m"
    by (rule mod_add_left_eq)
  also have "?p + ?n + (?a - ?n) = ?p + ?a" using na by simp
  finally have "(?p + ?a) mod ?m = ((?p + ?n) mod ?m + (?a - ?n)) mod ?m" ..
  with b f na show "ring_inv ?r"
    by (auto simp: ring_inv_def)
  have split: "readable r = ring_at (data r) ?p ?n @ ring_at (data r) (?p + ?n) (?a - ?n)"
    using na ring_at_add [of "data r" ?p ?n "?a - ?n"] by (simp add: readable_def)
  show "readable ?r = drop ?n (readable r)"
    by (simp add: split) (simp add: readable_def f)
  have k: "?u - (?a - ?n) = (?u - ?a) + ?n" using b na by simp
  have "ring_at (data r) ((?p + ?n) mod ?m + ?m - (?u - (?a - ?n))) (?u - (?a - ?n)) =
    ring_at (data r) (?p + ?m - (?u - ?a)) ((?u - ?a) + ?n)"
  proof -
    have "(?p + ?n) mod ?m + ?m - (?u - ?a + ?n) = (?p + ?n) mod ?m + (?m - (?u - ?a + ?n))"
      using b na by simp
    then have "((?p + ?n) mod ?m + ?m - (?u - ?a + ?n)) mod ?m =
      (?p + ?n + (?m - (?u - ?a + ?n))) mod ?m" by (simp only: mod_add_left_eq)
    moreover have "?p + ?n + (?m - (?u - ?a + ?n)) = ?p + ?m - (?u - ?a)"
      using b na by simp
    ultimately have "((?p + ?n) mod ?m + ?m - (?u - ?a + ?n)) mod ?m = (?p + ?m - (?u - ?a)) mod ?m"
      by simp
    then show ?thesis by (metis k ring_at_mod)
  qed
  also have "\<dots> = inflight r @ take ?n (readable r)"
    unfolding ring_at_add split using b by (simp add: inflight_def Let_def)
      (metis ring_at_mod mod_add_self2)
  finally show "inflight ?r = inflight r @ take ?n (readable r)"
    by (simp add: inflight_def Let_def f)
qed

lemma read_release_spec:
  assumes inv: "ring_inv r" and n: "unat n \<le> length (inflight r)"
  shows "ring_inv (hev_ring_buffer_read_release n r)"
    and "readable (hev_ring_buffer_read_release n r) = readable r"
    and "inflight (hev_ring_buffer_read_release n r) = drop (unat n) (inflight r)"
proof -
  let ?m = "length (data r)" and ?p = "unat (rp r)" and ?a = "unat (rda_size r)"
    and ?u = "unat (use_size r)" and ?n = "unat n"
  let ?r = "hev_ring_buffer_read_release n r"
  from inv have b: "unat (max_size r) = ?m" "0 < ?m" "?m < 2 ^ 63" "?p < ?m" "?a \<le> ?u" "?u \<le> ?m"
    "unat (wp r) = (?p + ?a) mod ?m" by (auto simp: ring_inv_def)
  from n have na: "?n \<le> ?u - ?a" by (simp add: inflight_def Let_def)
  have u: "unat (use_size r - n) = ?u - ?n"
    using na by (simp add: unat_sub_no_underflow)
  have e: "?r = (if ?u - ?n = 0 then r\<lparr>use_size := use_size r - n, rp := 0, wp := 0\<rparr>
                 else r\<lparr>use_size := use_size r - n\<rparr>)"
    using u by (simp add: hev_ring_buffer_read_release_def Let_def word_eq_0_unat)
  have z: "?u - ?n = 0 \<Longrightarrow> ?a = 0" using na b by simp
  show "ring_inv ?r"
    using b na u z by (auto simp: e ring_inv_def)
  show "readable ?r = readable r"
    using z by (auto simp: e readable_def)
  have k: "?u - ?a = ?n + (?u - ?n - ?a)" using na by simp
  have "inflight r = ring_at (data r) (?p + ?m - (?u - ?a)) ?n @
      ring_at (data r) (?p + ?m - (?u - ?a) + ?n) (?u - ?n - ?a)"
    unfolding inflight_def Let_def by (subst (2) k) (rule ring_at_add)
  moreover have "?p + ?m - (?u - ?a) + ?n = ?p + ?m - (?u - ?n - ?a)"
    using na b by simp
  ultimately have "drop ?n (inflight r) = ring_at (data r) (?p + ?m - (?u - ?n - ?a)) (?u - ?n - ?a)"
    by simp
  also have "\<dots> = inflight ?r"
    using u z by (auto simp: e inflight_def Let_def)
  finally show "inflight ?r = drop ?n (inflight r)" ..
qed

lemma alloca_spec:
  assumes "unat s = length g" "0 < length g" "length g < 2 ^ 63"
  shows "ring_inv (hev_ring_buffer_alloca s g)"
    and "readable (hev_ring_buffer_alloca s g) = []"
    and "inflight (hev_ring_buffer_alloca s g) = []"
  using assms
  by (simp_all add: hev_ring_buffer_alloca_def ring_inv_def readable_def inflight_def)

lemma ring_capacity:
  "ring_inv r \<Longrightarrow> length (inflight r) + length (readable r) + ring_free r = length (data r)"
  by (auto simp: ring_inv_def inflight_def readable_def Let_def ring_free_def)

lemma use_size_spec:
  "ring_inv r \<Longrightarrow>
   unat (hev_ring_buffer_get_use_size r) = length (inflight r) + length (readable r)"
  by (auto simp: ring_inv_def inflight_def readable_def Let_def hev_ring_buffer_get_use_size_def)

section \<open>The interface of the session\<close>

text \<open>
  A pipe with acknowledgement: bytes go in at one end, are handed out in order at the other,
  and stay in the buffer until they are acknowledged. The TCP session uses the ring only
  through this contract.
\<close>

locale acked_pipe =
  fixes fill :: "bytes \<Rightarrow> 'r \<Rightarrow> 'r" and peek :: "'r \<Rightarrow> bytes"
    and finish :: "u64 \<Rightarrow> 'r \<Rightarrow> 'r" and release :: "u64 \<Rightarrow> 'r \<Rightarrow> 'r"
    and inv :: "'r \<Rightarrow> bool" and out :: "'r \<Rightarrow> bytes" and pending :: "'r \<Rightarrow> bytes"
    and room :: "'r \<Rightarrow> nat" and cap :: "'r \<Rightarrow> nat"
  assumes fill: "inv r \<Longrightarrow> length xs \<le> room r \<Longrightarrow>
      inv (fill xs r) \<and> out (fill xs r) = out r @ xs \<and> pending (fill xs r) = pending r \<and>
      cap (fill xs r) = cap r"
    and peek: "inv r \<Longrightarrow> peek r = out r"
    and finish: "inv r \<Longrightarrow> unat n \<le> length (out r) \<Longrightarrow>
      inv (finish n r) \<and> out (finish n r) = drop (unat n) (out r) \<and>
      pending (finish n r) = pending r @ take (unat n) (out r) \<and> cap (finish n r) = cap r"
    and release: "inv r \<Longrightarrow> unat n \<le> length (pending r) \<Longrightarrow>
      inv (release n r) \<and> out (release n r) = out r \<and>
      pending (release n r) = drop (unat n) (pending r) \<and> cap (release n r) = cap r"
    and room: "inv r \<Longrightarrow> length (pending r) + length (out r) + room r = cap r"
begin

lemma fill_out_prefix:
  "inv r \<Longrightarrow> length xs \<le> room r \<Longrightarrow>
   pending (fill xs r) @ out (fill xs r) = (pending r @ out r) @ xs"
  by (simp add: fill)

lemma finish_keeps_stream:
  "inv r \<Longrightarrow> unat n \<le> length (out r) \<Longrightarrow>
   pending (finish n r) @ out (finish n r) = pending r @ out r"
  by (simp add: finish)

lemma release_stream:
  "inv r \<Longrightarrow> unat n \<le> length (pending r) \<Longrightarrow>
   pending (release n r) @ out (release n r) = drop (unat n) (pending r @ out r)"
  by (simp add: release)

lemma drained_room:
  "inv r \<Longrightarrow> pending r = [] \<Longrightarrow> out r = [] \<Longrightarrow> room r = cap r"
  using room by fastforce

lemma release_room:
  assumes "inv r" "unat n \<le> length (pending r)"
  shows "room (release n r) = room r + unat n"
  using release [OF assms] room [OF assms(1)] room [of "release n r"] assms(2) by auto

end

interpretation ring: acked_pipe ring_fill ring_peek hev_ring_buffer_read_finish
  hev_ring_buffer_read_release ring_inv readable inflight ring_free "\<lambda>r. length (data r)"
proof unfold_locales
  fix r :: ring_buffer and xs :: bytes assume "ring_inv r" "length xs \<le> ring_free r"
  then show "ring_inv (ring_fill xs r) \<and> readable (ring_fill xs r) = readable r @ xs \<and>
      inflight (ring_fill xs r) = inflight r \<and> length (data (ring_fill xs r)) = length (data r)"
    using scatter_nth(2) [of r xs 0]
    by (simp add: ring_fill_inv ring_fill_readable ring_fill_inflight)
      (auto simp: ring_inv_def)
next
  fix r assume "ring_inv r"
  then show "ring_peek r = readable r" by (simp add: ring_peek_def reading_gather)
next
  fix r :: ring_buffer and n :: u64 assume "ring_inv r" "unat n \<le> length (readable r)"
  then show "ring_inv (hev_ring_buffer_read_finish n r) \<and>
      readable (hev_ring_buffer_read_finish n r) = drop (unat n) (readable r) \<and>
      inflight (hev_ring_buffer_read_finish n r) = inflight r @ take (unat n) (readable r) \<and>
      length (data (hev_ring_buffer_read_finish n r)) = length (data r)"
    by (simp add: read_finish_spec) (simp add: hev_ring_buffer_read_finish_def)
next
  fix r :: ring_buffer and n :: u64 assume "ring_inv r" "unat n \<le> length (inflight r)"
  then show "ring_inv (hev_ring_buffer_read_release n r) \<and>
      readable (hev_ring_buffer_read_release n r) = readable r \<and>
      inflight (hev_ring_buffer_read_release n r) = drop (unat n) (inflight r) \<and>
      length (data (hev_ring_buffer_read_release n r)) = length (data r)"
    by (simp add: read_release_spec) (simp add: hev_ring_buffer_read_release_def Let_def)
next
  fix r assume "ring_inv r"
  then show "length (inflight r) + length (readable r) + ring_free r = length (data r)"
    by (rule ring_capacity)
qed

section \<open>Properties\<close>

text \<open>
  A whole history of the ring: what was written, what was handed out, and how many bytes were
  acknowledged. A step is only possible when the caller respects the sizes the ring reports.
\<close>

datatype ring_op = Fill bytes | Finish u64 | Release u64

type_synonym ring_log = "ring_buffer \<times> bytes \<times> bytes \<times> nat"

fun ring_step :: "ring_op \<Rightarrow> ring_log \<Rightarrow> ring_log option" where
  "ring_step (Fill xs) (r, ins, outs, acked) =
     (if length xs \<le> iov_size (hev_ring_buffer_writing r)
      then Some (ring_fill xs r, ins @ xs, outs, acked) else None)"
| "ring_step (Finish n) (r, ins, outs, acked) =
     (if unat n \<le> length (ring_peek r)
      then Some (hev_ring_buffer_read_finish n r, ins, outs @ take (unat n) (ring_peek r), acked) else None)"
| "ring_step (Release n) (r, ins, outs, acked) =
     (if acked + unat n \<le> length outs
      then Some (hev_ring_buffer_read_release n r, ins, outs, acked + unat n) else None)"

primrec ring_run :: "ring_op list \<Rightarrow> ring_log \<Rightarrow> ring_log option" where
  "ring_run [] l = Some l"
| "ring_run (x # xs) l = (case ring_step x l of None \<Rightarrow> None | Some l' \<Rightarrow> ring_run xs l')"

definition ring_log_inv :: "ring_log \<Rightarrow> bool" where
  "ring_log_inv l = (case l of (r, ins, outs, acked) \<Rightarrow>
     ring_inv r \<and> ins = outs @ readable r \<and> acked \<le> length outs \<and> inflight r = drop acked outs)"

lemma ring_step_inv:
  assumes "ring_log_inv l" "ring_step x l = Some l'"
  shows "ring_log_inv l'"
proof -
  obtain r ins outs acked where l: "l = (r, ins, outs, acked)" by (cases l) auto
  with assms(1) have i: "ring_inv r" "ins = outs @ readable r" "acked \<le> length outs"
    "inflight r = drop acked outs" by (auto simp: ring_log_inv_def)
  note wr = writing_size(1) [OF i(1)] and pk = ring.peek [OF i(1)]
  show ?thesis
  proof (cases x)
    case (Fill xs)
    with assms(2) l wr have "length xs \<le> ring_free r" "l' = (ring_fill xs r, ins @ xs, outs, acked)"
      by (auto split: if_splits)
    with ring.fill [OF i(1)] i show ?thesis by (simp add: ring_log_inv_def)
  next
    case (Finish n)
    with assms(2) l pk have "unat n \<le> length (readable r)"
      "l' = (hev_ring_buffer_read_finish n r, ins, outs @ take (unat n) (readable r), acked)"
      by (auto split: if_splits)
    with ring.finish [OF i(1)] i show ?thesis by (simp add: ring_log_inv_def)
  next
    case (Release n)
    with assms(2) l have n: "acked + unat n \<le> length outs"
      and l': "l' = (hev_ring_buffer_read_release n r, ins, outs, acked + unat n)"
      by (auto split: if_splits)
    from n i(4) have "unat n \<le> length (inflight r)" by simp
    with ring.release [OF i(1)] i n l' show ?thesis by (simp add: ring_log_inv_def add.commute)
  qed
qed

lemma ring_run_inv:
  "ring_log_inv l \<Longrightarrow> ring_run xs l = Some l' \<Longrightarrow> ring_log_inv l'"
  by (induction xs arbitrary: l) (auto split: option.splits dest: ring_step_inv)

text \<open>
  C30: No byte is lost, duplicated or reordered by the ring. After any history of writes, reads and
  acknowledgements that starts with an empty ring and respects the reported sizes, what was
  written is what was handed out followed by what can still be read, and the bytes that lwIP still
  refers to in place are intact: exactly those handed out and not yet acknowledged.
\<close>
theorem ring_fifo:
  assumes "unat s = length g" "0 < length g" "length g < 2 ^ 63"
    and "ring_run ops (hev_ring_buffer_alloca s g, [], [], 0) = Some (r, ins, outs, acked)"
  shows "ins = outs @ ring_peek r \<and> inflight r = drop acked outs \<and>
    unat (hev_ring_buffer_get_use_size r) = length ins - acked"
proof -
  have "ring_log_inv (hev_ring_buffer_alloca s g, [], [], 0)"
    using alloca_spec [OF assms(1-3)] by (simp add: ring_log_inv_def)
  from ring_run_inv [OF this assms(4)] have i: "ring_inv r" "ins = outs @ readable r"
    "acked \<le> length outs" "inflight r = drop acked outs" by (auto simp: ring_log_inv_def)
  with ring.peek [OF i(1)] use_size_spec [OF i(1)] show ?thesis by simp
qed

theorem ring_fifo_witness:
  "\<exists>r. ring_run [Fill [1, 2, 3], Finish 2, Fill [4], Release 2, Fill [5, 6], Finish 3]
      (hev_ring_buffer_alloca 4 [0, 0, 0, 0], [], [], 0) = Some (r, [1, 2, 3, 4, 5, 6], [1, 2, 3, 4, 5], 2) \<and>
    ring_peek r = [6] \<and> inflight r = [3, 4, 5]"
proof -
  have "map_option snd (ring_run [Fill [1, 2, 3], Finish 2, Fill [4], Release 2, Fill [5, 6], Finish 3]
      (hev_ring_buffer_alloca 4 [0, 0, 0, 0], [], [], 0)) = Some ([1, 2, 3, 4, 5, 6], [1, 2, 3, 4, 5], 2)"
    by code_simp
  then obtain r where r: "ring_run [Fill [1, 2, 3], Finish 2, Fill [4], Release 2, Fill [5, 6], Finish 3]
      (hev_ring_buffer_alloca 4 [0, 0, 0, 0], [], [], 0) = Some (r, [1, 2, 3, 4, 5, 6], [1, 2, 3, 4, 5], 2)"
    by auto
  from ring_fifo [OF _ _ _ r] have "ring_peek r = [6] \<and> inflight r = [3, 4, 5]" by simp
  with r show ?thesis by blast
qed

text \<open>
  The vectors the ring gives out stay inside its buffer, cover all the free space (for writing)
  and all the readable bytes in order (for reading), and filling the writing vector changes no byte
  that is readable or in flight.
\<close>
theorem ring_vectors:
  assumes "ring_inv r" "length xs \<le> ring_free r"
  shows "iov_in (hev_ring_buffer_writing r) (data r) \<and> iov_in (hev_ring_buffer_reading r) (data r) \<and>
    iov_size (hev_ring_buffer_writing r) + unat (hev_ring_buffer_get_use_size r) = length (data r) \<and>
    iov_gather (hev_ring_buffer_reading r) (data r) = readable r \<and>
    ring_peek (ring_fill xs r) = ring_peek r @ xs \<and> inflight (ring_fill xs r) = inflight r"
proof -
  from assms(1) have "ring_inv (ring_fill xs r)" using assms(2) by (rule ring_fill_inv)
  moreover have "ring_free r + unat (use_size r) = length (data r)"
    using assms(1) by (auto simp: ring_free_def ring_inv_def)
  ultimately show ?thesis
    using assms writing_size [OF assms(1)] reading_in [OF assms(1)] reading_gather [OF assms(1)]
      ring_fill_readable [OF assms] ring_fill_inflight [OF assms] ring.peek
    by (simp add: hev_ring_buffer_get_use_size_def)
qed

theorem ring_vectors_witness:
  "ring_peek (ring_fill [7, 8] \<lparr>rp = 3, wp = 0, rda_size = 1, use_size = 2, max_size = 4, data = [1, 2, 3, 4]\<rparr>) =
   ring_peek \<lparr>rp = 3, wp = 0, rda_size = 1, use_size = 2, max_size = 4, data = [1, 2, 3, 4]\<rparr> @ [7, 8]"
  using ring_vectors [of "\<lparr>rp = 3, wp = 0, rda_size = 1, use_size = 2, max_size = 4, data = [1, 2, 3, 4]\<rparr>" "[7, 8]"]
  by (simp add: ring_inv_def ring_free_def)

end
