(* ===== verification/Socks5_Addr.thy ===== *)
theory Socks5_Addr
  imports Prelude
begin

text \<open>
  The SOCKS5 wire constants and address object of \<open>core/include/hev-socks5-proto.h\<close> and the
  address functions of \<open>core/src/hev-socks5-misc.c\<close>. A \<open>HevSocks5Addr\<close> is a packed union the
  code also reads through the wrong member on purpose (the server reads five bytes of a request
  before it knows the address type), so it is modelled as its memory: byte 0 is the type, the
  union begins at byte 1.
\<close>

section \<open>Constants\<close>

abbreviation (input) HEV_SOCKS5_VERSION_5 :: u8 where "HEV_SOCKS5_VERSION_5 \<equiv> 5"

abbreviation (input) HEV_SOCKS5_AUTH_METHOD_NONE :: u8 where "HEV_SOCKS5_AUTH_METHOD_NONE \<equiv> 0"
abbreviation (input) HEV_SOCKS5_AUTH_METHOD_USER :: u8 where "HEV_SOCKS5_AUTH_METHOD_USER \<equiv> 2"
abbreviation (input) HEV_SOCKS5_AUTH_METHOD_DENY :: u8 where "HEV_SOCKS5_AUTH_METHOD_DENY \<equiv> 255"

abbreviation (input) HEV_SOCKS5_AUTH_VERSION_1 :: u8 where "HEV_SOCKS5_AUTH_VERSION_1 \<equiv> 1"

abbreviation (input) HEV_SOCKS5_REQ_CMD_CONNECT :: u8 where "HEV_SOCKS5_REQ_CMD_CONNECT \<equiv> 1"
abbreviation (input) HEV_SOCKS5_REQ_CMD_UDP_ASC :: u8 where "HEV_SOCKS5_REQ_CMD_UDP_ASC \<equiv> 3"
abbreviation (input) HEV_SOCKS5_REQ_CMD_FWD_UDP :: u8 where "HEV_SOCKS5_REQ_CMD_FWD_UDP \<equiv> 5"

abbreviation (input) HEV_SOCKS5_RES_REP_SUCC :: u8 where "HEV_SOCKS5_RES_REP_SUCC \<equiv> 0"
abbreviation (input) HEV_SOCKS5_RES_REP_FAIL :: u8 where "HEV_SOCKS5_RES_REP_FAIL \<equiv> 1"
abbreviation (input) HEV_SOCKS5_RES_REP_HOST :: u8 where "HEV_SOCKS5_RES_REP_HOST \<equiv> 4"
abbreviation (input) HEV_SOCKS5_RES_REP_IMPL :: u8 where "HEV_SOCKS5_RES_REP_IMPL \<equiv> 7"
abbreviation (input) HEV_SOCKS5_RES_REP_ADDR :: u8 where "HEV_SOCKS5_RES_REP_ADDR \<equiv> 8"

abbreviation (input) HEV_SOCKS5_ADDR_TYPE_IPV4 :: u8 where "HEV_SOCKS5_ADDR_TYPE_IPV4 \<equiv> 1"
abbreviation (input) HEV_SOCKS5_ADDR_TYPE_IPV6 :: u8 where "HEV_SOCKS5_ADDR_TYPE_IPV6 \<equiv> 4"
abbreviation (input) HEV_SOCKS5_ADDR_TYPE_NAME :: u8 where "HEV_SOCKS5_ADDR_TYPE_NAME \<equiv> 3"

section \<open>The address object\<close>

type_synonym HevSocks5Addr = bytes

definition atype :: "HevSocks5Addr \<Rightarrow> u8" where
  "atype a = a ! 0"

definition ipv4_addr :: "HevSocks5Addr \<Rightarrow> bytes" where
  "ipv4_addr a = bslice 1 4 a"

definition ipv4_port :: "HevSocks5Addr \<Rightarrow> u16" where
  "ipv4_port a = ld16 a 5"

definition ipv6_addr :: "HevSocks5Addr \<Rightarrow> bytes" where
  "ipv6_addr a = bslice 1 16 a"

definition ipv6_port :: "HevSocks5Addr \<Rightarrow> u16" where
  "ipv6_port a = ld16 a 17"

definition domain_len :: "HevSocks5Addr \<Rightarrow> nat" where
  "domain_len a = unat (a ! 1)"

definition domain_name :: "HevSocks5Addr \<Rightarrow> bytes" where
  "domain_name a = bslice 2 (domain_len a) a"

definition domain_port :: "HevSocks5Addr \<Rightarrow> u16" where
  "domain_port a = ld16 a (2 + domain_len a)"

text \<open>\<open>sizeof (HevSocks5Addr)\<close>.\<close>

abbreviation (input) addr_size :: nat where "addr_size \<equiv> 260"

text \<open>A C string in a buffer: the bytes up to the first NUL.\<close>

definition c_str :: "bytes \<Rightarrow> bytes" where
  "c_str b = takeWhile (\<lambda>x. x \<noteq> 0) b"

definition strncpy_bytes :: "nat \<Rightarrow> bytes \<Rightarrow> bytes" where
  "strncpy_bytes n s = take n s @ replicate (n - length s) 0"

section \<open>Address functions\<close>

record sockaddr_in6 =
  sin6_family :: int
  sin6_port :: u16
  sin6_addr :: bytes

abbreviation (input) AF_UNSPEC :: int where "AF_UNSPEC \<equiv> 0"
abbreviation (input) AF_INET :: int where "AF_INET \<equiv> 2"
abbreviation (input) AF_INET6 :: int where "AF_INET6 \<equiv> 10"

definition hev_socks5_addr_len :: "HevSocks5Addr \<Rightarrow> int" where
  "hev_socks5_addr_len a =
     (if atype a = HEV_SOCKS5_ADDR_TYPE_IPV4 then 7
      else if atype a = HEV_SOCKS5_ADDR_TYPE_IPV6 then 19
      else if atype a = HEV_SOCKS5_ADDR_TYPE_NAME then 4 + int (domain_len a)
      else -1)"

definition hev_socks5_addr_from_name :: "HevSocks5Addr \<Rightarrow> bytes \<Rightarrow> u16 \<Rightarrow> int \<times> HevSocks5Addr" where
  "hev_socks5_addr_from_name a name port =
     (let a1 = patch 0 [HEV_SOCKS5_ADDR_TYPE_NAME] a;
          a2 = patch 2 (strncpy_bytes 256 name) a1;
          a3 = patch 1 [of_nat (length (c_str (drop 2 a2)))] a2;
          a4 = patch (2 + domain_len a3) (mem16 port) a3
      in (4 + int (domain_len a4), a4))"

definition hev_socks5_addr_from_ipv4 :: "HevSocks5Addr \<Rightarrow> bytes \<Rightarrow> u16 \<Rightarrow> int \<times> HevSocks5Addr" where
  "hev_socks5_addr_from_ipv4 a ipv4 port =
     (7, patch 5 (mem16 port) (patch 1 (take 4 ipv4) (patch 0 [HEV_SOCKS5_ADDR_TYPE_IPV4] a)))"

definition hev_socks5_addr_from_ipv6 :: "HevSocks5Addr \<Rightarrow> bytes \<Rightarrow> u16 \<Rightarrow> int \<times> HevSocks5Addr" where
  "hev_socks5_addr_from_ipv6 a ipv6 port =
     (19, patch 17 (mem16 port) (patch 1 (take 16 ipv6) (patch 0 [HEV_SOCKS5_ADDR_TYPE_IPV6] a)))"

definition IN6_IS_ADDR_V4MAPPED :: "bytes \<Rightarrow> bool" where
  "IN6_IS_ADDR_V4MAPPED a \<longleftrightarrow> take 12 a = replicate 10 0 @ [0xff, 0xff]"

definition hev_socks5_addr_from_sockaddr6 ::
  "HevSocks5Addr \<Rightarrow> sockaddr_in6 \<Rightarrow> int \<times> HevSocks5Addr" where
  "hev_socks5_addr_from_sockaddr6 a saddr =
     (if IN6_IS_ADDR_V4MAPPED (sin6_addr saddr) then
        (7, patch 1 (bslice 12 4 (sin6_addr saddr))
              (patch 5 (mem16 (sin6_port saddr)) (patch 0 [HEV_SOCKS5_ADDR_TYPE_IPV4] a)))
      else
        (19, patch 1 (take 16 (sin6_addr saddr))
              (patch 17 (mem16 (sin6_port saddr)) (patch 0 [HEV_SOCKS5_ADDR_TYPE_IPV6] a))))"

definition hev_socks5_ipv4_into_sockaddr6 :: "HevSocks5Addr \<Rightarrow> sockaddr_in6 \<Rightarrow> sockaddr_in6" where
  "hev_socks5_ipv4_into_sockaddr6 a saddr =
     saddr\<lparr>sin6_family := AF_INET6, sin6_port := ipv4_port a,
           sin6_addr := patch 12 (ipv4_addr a)
             (patch 11 [0xff] (patch 10 [0xff] (patch 0 (replicate 10 0) (sin6_addr saddr))))\<rparr>"

definition hev_socks5_ipv6_into_sockaddr6 :: "HevSocks5Addr \<Rightarrow> sockaddr_in6 \<Rightarrow> sockaddr_in6" where
  "hev_socks5_ipv6_into_sockaddr6 a saddr =
     saddr\<lparr>sin6_family := AF_INET6, sin6_port := ipv6_port a,
           sin6_addr := patch 0 (ipv6_addr a) (sin6_addr saddr)\<rparr>"

text \<open>
  The C library's address parsers and the DNS resolver (\<open>getaddrinfo\<close>, behind
  \<open>hev_task_dns_getaddrinfo\<close>) are parameters: \<open>pton4\<close> and \<open>pton6\<close> give the bytes of a literal
  they accept, \<open>gai\<close> the family and address of the first result for a name and a family hint.
\<close>

datatype gai_result = GaiV4 bytes | GaiV6 bytes | GaiOther

record net_env =
  pton4 :: "bytes \<Rightarrow> bytes option"
  pton6 :: "bytes \<Rightarrow> bytes option"
  gai :: "bytes \<Rightarrow> int \<Rightarrow> gai_result option"

definition hev_socks5_name_resolve_ipv4 ::
  "net_env \<Rightarrow> bytes \<Rightarrow> sockaddr_in6 \<Rightarrow> int \<times> sockaddr_in6" where
  "hev_socks5_name_resolve_ipv4 env name saddr =
     (let s1 = saddr\<lparr>sin6_addr := patch 0 (replicate 10 0) (sin6_addr saddr)\<rparr> in
      case pton4 env name of
        None \<Rightarrow> (-1, s1)
      | Some ip \<Rightarrow> (0, s1\<lparr>sin6_addr := patch 11 [0xff] (patch 10 [0xff]
                          (patch 12 (take 4 ip) (sin6_addr s1)))\<rparr>))"

definition hev_socks5_name_resolve_ipv6 ::
  "net_env \<Rightarrow> bytes \<Rightarrow> sockaddr_in6 \<Rightarrow> int \<times> sockaddr_in6" where
  "hev_socks5_name_resolve_ipv6 env name saddr =
     (case pton6 env name of
        None \<Rightarrow> (-1, saddr)
      | Some ip \<Rightarrow> (0, saddr\<lparr>sin6_addr := patch 0 (take 16 ip) (sin6_addr saddr)\<rparr>))"

definition hev_socks5_name_resolve_name ::
  "net_env \<Rightarrow> bytes \<Rightarrow> sockaddr_in6 \<Rightarrow> int \<Rightarrow> int \<times> sockaddr_in6 \<times> int" where
  "hev_socks5_name_resolve_name env name saddr family =
     (case gai env name family of
        None \<Rightarrow> (-1, saddr, family)
      | Some (GaiV4 ip) \<Rightarrow>
          (0, saddr\<lparr>sin6_addr := patch 12 (take 4 ip) (patch 11 [0xff] (patch 10 [0xff]
                     (patch 0 (replicate 10 0) (sin6_addr saddr))))\<rparr>, AF_INET)
      | Some (GaiV6 ip) \<Rightarrow>
          (0, saddr\<lparr>sin6_addr := patch 0 (take 16 ip) (sin6_addr saddr)\<rparr>, AF_INET6)
      | Some GaiOther \<Rightarrow> (-1, saddr, family))"

definition hev_socks5_name_into_sockaddr6 ::
  "net_env \<Rightarrow> bytes \<Rightarrow> u16 \<Rightarrow> sockaddr_in6 \<Rightarrow> int \<Rightarrow> int \<times> sockaddr_in6 \<times> int" where
  "hev_socks5_name_into_sockaddr6 env name port saddr family =
     (let s0 = saddr\<lparr>sin6_family := AF_INET6, sin6_port := htons port\<rparr>;
          (r4, s4) = hev_socks5_name_resolve_ipv4 env name s0
      in if r4 = 0 then (0, s4, AF_INET)
         else let (r6, s6) = hev_socks5_name_resolve_ipv6 env name s4
              in if r6 = 0 then (0, s6, AF_INET6)
                 else hev_socks5_name_resolve_name env name s6 family)"

definition hev_socks5_addr_into_sockaddr6 ::
  "net_env \<Rightarrow> HevSocks5Addr \<Rightarrow> sockaddr_in6 \<Rightarrow> int \<Rightarrow> int \<times> sockaddr_in6 \<times> int" where
  "hev_socks5_addr_into_sockaddr6 env a saddr family =
     (if atype a = HEV_SOCKS5_ADDR_TYPE_IPV4 then
        (0, hev_socks5_ipv4_into_sockaddr6 a saddr, AF_INET)
      else if atype a = HEV_SOCKS5_ADDR_TYPE_IPV6 then
        (0, hev_socks5_ipv6_into_sockaddr6 a saddr, AF_INET6)
      else if atype a = HEV_SOCKS5_ADDR_TYPE_NAME then
        hev_socks5_name_into_sockaddr6 env (c_str (domain_name a)) (ntohs (domain_port a)) saddr family
      else (-1, saddr, family))"

definition hev_socks5_addr_get_port :: "HevSocks5Addr \<Rightarrow> u16" where
  "hev_socks5_addr_get_port a =
     (if atype a = HEV_SOCKS5_ADDR_TYPE_IPV4 then ipv4_port a
      else if atype a = HEV_SOCKS5_ADDR_TYPE_IPV6 then ipv6_port a
      else if atype a = HEV_SOCKS5_ADDR_TYPE_NAME then domain_port a
      else 0)"

section \<open>What an address object stands for\<close>

text \<open>
  The endpoint of RFC 1928 section 4 and its encoding, to which the code's byte-level functions
  are compared: type, address, port in network order.
\<close>

datatype endpoint = EpV4 bytes u16 | EpV6 bytes u16 | EpName bytes u16

fun ep_wf :: "endpoint \<Rightarrow> bool" where
  "ep_wf (EpV4 ip p) \<longleftrightarrow> length ip = 4"
| "ep_wf (EpV6 ip p) \<longleftrightarrow> length ip = 16"
| "ep_wf (EpName n p) \<longleftrightarrow> length n < 256"

fun encode_ep :: "endpoint \<Rightarrow> bytes" where
  "encode_ep (EpV4 ip p) = [HEV_SOCKS5_ADDR_TYPE_IPV4] @ ip @ [hi8 p, lo8 p]"
| "encode_ep (EpV6 ip p) = [HEV_SOCKS5_ADDR_TYPE_IPV6] @ ip @ [hi8 p, lo8 p]"
| "encode_ep (EpName n p) =
     [HEV_SOCKS5_ADDR_TYPE_NAME, of_nat (length n)] @ n @ [hi8 p, lo8 p]"

text \<open>The reading of an address object that the code's own accessors give.\<close>

definition view_addr :: "HevSocks5Addr \<Rightarrow> endpoint option" where
  "view_addr a =
     (if atype a = HEV_SOCKS5_ADDR_TYPE_IPV4 then Some (EpV4 (ipv4_addr a) (ntohs (ipv4_port a)))
      else if atype a = HEV_SOCKS5_ADDR_TYPE_IPV6 then Some (EpV6 (ipv6_addr a) (ntohs (ipv6_port a)))
      else if atype a = HEV_SOCKS5_ADDR_TYPE_NAME then Some (EpName (domain_name a) (ntohs (domain_port a)))
      else None)"

named_theorems addr_simps \<open>unfolding of the address accessors\<close>

lemmas addr_fields [addr_simps] =
  atype_def ipv4_addr_def ipv4_port_def ipv6_addr_def ipv6_port_def
  domain_len_def domain_name_def domain_port_def

lemma ld16_append [simp]:
  "length xs = n \<Longrightarrow> ld16 (xs @ h # l # ys) n = be16 l h"
  by (auto simp: ld16_def nth_append)

lemma htons_be16 [simp]: "htons (be16 h l) = be16 l h"
  by (simp add: htons_def)

lemma unat_len8 [simp]: "n < 256 \<Longrightarrow> unat (of_nat n :: u8) = n"
  by (simp add: unat_of_nat_small)

text \<open>An encoded endpoint at the start of a buffer is read back by the accessors.\<close>

lemma ld16_Cons [simp]: "0 < n \<Longrightarrow> ld16 (x # xs) n = ld16 xs (n - 1)"
  by (cases n) (simp_all add: ld16_def)

lemma bslice_Cons [simp]: "0 < s \<Longrightarrow> bslice s n (x # xs) = bslice (s - 1) n xs"
  by (cases s) (simp_all add: bslice_def)

lemma bslice_0_append [simp]: "length xs = n \<Longrightarrow> bslice 0 n (xs @ ys) = xs"
  by (simp add: bslice_def)

lemma view_encode:
  assumes "ep_wf ep"
  shows "view_addr (encode_ep ep @ rest) = Some ep"
  using assms by (cases ep) (simp_all add: view_addr_def addr_simps)

lemma addr_len_encode:
  assumes "ep_wf ep"
  shows "hev_socks5_addr_len (encode_ep ep @ rest) = int (length (encode_ep ep))"
  using assms by (cases ep) (simp_all add: hev_socks5_addr_len_def addr_simps)

lemma view_addr_take:
  "view_addr a = view_addr (take (nat (hev_socks5_addr_len a)) a)"
  if "hev_socks5_addr_len a > 0" "nat (hev_socks5_addr_len a) \<le> length a"
proof -
  from that have l: "1 < nat (hev_socks5_addr_len a)"
    by (auto simp: hev_socks5_addr_len_def split: if_splits)
  then have "atype (take (nat (hev_socks5_addr_len a)) a) = atype a"
    "domain_len (take (nat (hev_socks5_addr_len a)) a) = domain_len a"
    by (simp_all add: addr_simps)
  with that show ?thesis
    by (auto simp: view_addr_def hev_socks5_addr_len_def ipv4_addr_def ipv4_port_def ipv6_addr_def
        ipv6_port_def domain_name_def domain_port_def ld16_def bslice_def drop_take min_def
        split: if_splits)
qed

lemma encode_view:
  assumes "view_addr a = Some ep" "nat (hev_socks5_addr_len a) \<le> length a"
  shows "encode_ep ep = take (nat (hev_socks5_addr_len a)) a" and "ep_wf ep"
proof -
  have len: "domain_len a < 256" by (simp add: domain_len_def)
  have pre: "1 < length a \<Longrightarrow> take 2 a = [a ! 0, a ! 1]"
    by (cases a; cases "tl a") auto
  have two: "take (n + 2) a = take n a @ [a ! n, a ! (n + 1)]" if "n + 2 \<le> length a" for n
    using that take_Suc_conv_app_nth [of n a] take_Suc_conv_app_nth [of "Suc n" a] by simp
  have one: "take (n + 1) a = a ! 0 # bslice 1 n a" if "n + 1 \<le> length a" for n
    using that by (cases a) (auto simp: bslice_def)
  show "ep_wf ep"
    using assms len by (auto simp: view_addr_def hev_socks5_addr_len_def ipv4_addr_def ipv6_addr_def
        domain_name_def split: if_splits)
  show "encode_ep ep = take (nat (hev_socks5_addr_len a)) a"
  proof -
    consider (v4) "atype a = 1" | (v6) "atype a = 4" | (nm) "atype a = 3"
      using assms(1) by (auto simp: view_addr_def split: if_splits)
    then show ?thesis
    proof cases
      case v4
      with assms two [of 5] one [of 4] show ?thesis
        by (auto simp: view_addr_def hev_socks5_addr_len_def addr_simps ld16_def)
    next
      case v6
      with assms two [of 17] one [of 16] show ?thesis
        by (auto simp: view_addr_def hev_socks5_addr_len_def addr_simps ld16_def)
    next
      case nm
      let ?n = "domain_len a"
      from nm assms(2) have l: "?n + 4 \<le> length a" by (simp add: hev_socks5_addr_len_def)
      have "take (?n + 2) a = a ! 0 # a ! 1 # bslice 2 ?n a"
        using l by (cases a; cases "tl a") (auto simp: bslice_def)
      moreover have "nat (hev_socks5_addr_len a) = ?n + 2 + 2"
        using nm by (simp add: hev_socks5_addr_len_def)
      moreover have "(of_nat ?n :: u8) = a ! 1" by (simp add: domain_len_def)
      ultimately show ?thesis
        using nm assms(1) l two [of "?n + 2"]
        by (auto simp: view_addr_def domain_name_def domain_port_def ld16_def atype_def)
    qed
  qed
qed

section \<open>The constructors write the encoding\<close>

lemma from_ipv4_encodes:
  assumes "7 \<le> length a" "length ip = 4"
  shows "fst (hev_socks5_addr_from_ipv4 a ip (htons p)) = 7"
    and "take 7 (snd (hev_socks5_addr_from_ipv4 a ip (htons p))) = encode_ep (EpV4 ip p)"
    and "length (snd (hev_socks5_addr_from_ipv4 a ip (htons p))) = length a"
  using assms by (simp_all add: hev_socks5_addr_from_ipv4_def)

lemma from_ipv6_encodes:
  assumes "19 \<le> length a" "length ip = 16"
  shows "fst (hev_socks5_addr_from_ipv6 a ip (htons p)) = 19"
    and "take 19 (snd (hev_socks5_addr_from_ipv6 a ip (htons p))) = encode_ep (EpV6 ip p)"
    and "length (snd (hev_socks5_addr_from_ipv6 a ip (htons p))) = length a"
  using assms by (simp_all add: hev_socks5_addr_from_ipv6_def)

lemma c_str_append_0: "0 \<notin> set s \<Longrightarrow> c_str (s @ 0 # r) = s"
  by (induction s) (auto simp: c_str_def)

lemma c_str_id: "0 \<notin> set s \<Longrightarrow> c_str s = s"
  by (induction s) (auto simp: c_str_def)

lemma c_str_no_0: "0 \<notin> set (c_str b)"
  by (auto simp: c_str_def dest: set_takeWhileD)

lemma strncpy_short:
  assumes "length s < n"
  shows "strncpy_bytes n s = s @ 0 # replicate (n - length s - 1) 0"
  using assms by (cases "n - length s") (auto simp: strncpy_bytes_def)

lemma length_strncpy [simp]: "length (strncpy_bytes n s) = n"
  by (simp add: strncpy_bytes_def)

text \<open>
  A name of at most 255 bytes: \<open>strncpy\<close> terminates it inside the field, so \<open>strlen\<close> is the
  length of the name and the port goes right behind it.
\<close>

lemma from_name_encodes:
  assumes "addr_size \<le> length a" "length name < 256" "0 \<notin> set name"
  shows "fst (hev_socks5_addr_from_name a name (htons p)) = 4 + int (length name)"
    and "take (4 + length name) (snd (hev_socks5_addr_from_name a name (htons p))) =
      encode_ep (EpName name p)"
    and "length (snd (hev_socks5_addr_from_name a name (htons p))) = length a"
proof -
  let ?a1 = "patch 0 [HEV_SOCKS5_ADDR_TYPE_NAME] a"
  let ?a2 = "patch 2 (strncpy_bytes 256 name) ?a1"
  let ?a3 = "patch 1 [of_nat (length name)] ?a2"
  let ?a4 = "patch (2 + length name) (mem16 (htons p)) ?a3"
  have l: "length ?a1 = length a" "length ?a2 = length a" "length ?a3 = length a"
    "length ?a4 = length a" using assms by simp_all
  have d: "drop 2 ?a2 = name @ 0 # (replicate (255 - length name) 0 @ drop 258 ?a1)"
    using assms by (simp add: strncpy_short)
  have c: "c_str (drop 2 ?a2) = name"
    unfolding d using assms(3) by (rule c_str_append_0)
  have dl: "domain_len ?a3 = length name" "domain_len ?a4 = length name"
    using assms by (simp_all add: domain_len_def)
  have e: "hev_socks5_addr_from_name a name (htons p) = (4 + int (length name), ?a4)"
    unfolding hev_socks5_addr_from_name_def Let_def c using dl by (simp only:)
  show "fst (hev_socks5_addr_from_name a name (htons p)) = 4 + int (length name)"
    and "length (snd (hev_socks5_addr_from_name a name (htons p))) = length a"
    using l by (simp_all only: e fst_conv snd_conv)
  have "take (2 + length name) ?a3 =
    take 1 ?a2 @ [of_nat (length name)] @ bslice 2 (length name) ?a2"
    using assms l by (simp add: take_patch flip: numeral_2_eq_2)
  also have "take 1 ?a2 = [HEV_SOCKS5_ADDR_TYPE_NAME]"
    using assms by simp
  also have "bslice 2 (length name) ?a2 = name"
    unfolding bslice_def d by simp
  finally have "take (2 + length name) ?a3 = [3, of_nat (length name)] @ name" by simp
  then show "take (4 + length name) (snd (hev_socks5_addr_from_name a name (htons p))) =
      encode_ep (EpName name p)"
    unfolding e snd_conv using assms l by (subst take_patch_end) simp_all
qed

definition sockaddr_ep :: "sockaddr_in6 \<Rightarrow> endpoint" where
  "sockaddr_ep s =
     (if IN6_IS_ADDR_V4MAPPED (sin6_addr s) then EpV4 (bslice 12 4 (sin6_addr s)) (ntohs (sin6_port s))
      else EpV6 (sin6_addr s) (ntohs (sin6_port s)))"

lemma from_sockaddr6_encodes:
  assumes "19 \<le> length a" "length (sin6_addr s) = 16"
  shows "fst (hev_socks5_addr_from_sockaddr6 a s) = int (length (encode_ep (sockaddr_ep s)))"
    and "take (length (encode_ep (sockaddr_ep s))) (snd (hev_socks5_addr_from_sockaddr6 a s)) =
      encode_ep (sockaddr_ep s)"
  using assms
  by (simp_all add: hev_socks5_addr_from_sockaddr6_def sockaddr_ep_def take_patch)
    (simp_all add: mem16_def htons_def)

section \<open>Socket addresses\<close>

definition mapped4 :: "bytes \<Rightarrow> bytes" where
  "mapped4 ip = replicate 10 0 @ [0xff, 0xff] @ ip"

lemma v4mapped_mapped4 [simp]: "length ip = 4 \<Longrightarrow> IN6_IS_ADDR_V4MAPPED (mapped4 ip)"
  by (simp add: IN6_IS_ADDR_V4MAPPED_def mapped4_def)

lemma patch_mapped4:
  "length x = 16 \<Longrightarrow> length ip = 4 \<Longrightarrow>
   patch 12 ip (patch 11 [0xff] (patch 10 [0xff] (patch 0 (replicate 10 0) x))) = mapped4 ip"
  by (simp add: patch_def mapped4_def numeral_eq_Suc)

lemma patch_mapped4':
  "length x = 16 \<Longrightarrow> length ip = 4 \<Longrightarrow>
   patch 11 [0xff] (patch 10 [0xff] (patch 12 ip (patch 0 (replicate 10 0) x))) = mapped4 ip"
  by (simp add: patch_def mapped4_def numeral_eq_Suc)

lemma patch_full: "length xs = length b \<Longrightarrow> patch 0 xs b = xs"
  by (simp add: patch_def)

text \<open>
  Converting an address object to a socket address keeps the endpoint: IPv4 becomes a mapped
  IPv6 address, which \<open>sockaddr_ep\<close> reads back as the IPv4 endpoint.
\<close>

lemma into_sockaddr6_v4:
  assumes "view_addr a = Some (EpV4 ip p)" "7 \<le> length a" "length (sin6_addr s) = 16"
  shows "\<exists>s'. hev_socks5_addr_into_sockaddr6 env a s f = (0, s', AF_INET) \<and>
    sockaddr_ep s' = EpV4 ip p \<and> sin6_family s' = AF_INET6 \<and> length (sin6_addr s') = 16"
proof -
  from assms have t: "atype a = 1" and ip: "ip = ipv4_addr a" and p: "p = ntohs (ipv4_port a)"
    by (auto simp: view_addr_def split: if_splits)
  from assms(2) have "length ip = 4" by (simp add: ip ipv4_addr_def)
  with assms t show ?thesis
    by (auto simp: hev_socks5_addr_into_sockaddr6_def hev_socks5_ipv4_into_sockaddr6_def
        ip [symmetric] p patch_mapped4 sockaddr_ep_def)
      (simp_all add: mapped4_def bslice_def)
qed

lemma into_sockaddr6_v6:
  assumes "view_addr a = Some (EpV6 ip p)" "19 \<le> length a" "length (sin6_addr s) = 16"
  shows "\<exists>s'. hev_socks5_addr_into_sockaddr6 env a s f = (0, s', AF_INET6) \<and>
    sin6_addr s' = ip \<and> sin6_port s' = htons p \<and> sin6_family s' = AF_INET6"
proof -
  from assms have t: "atype a = 4" and ip: "ip = ipv6_addr a" and p: "p = ntohs (ipv6_port a)"
    by (auto simp: view_addr_def split: if_splits)
  from assms(2) have "length ip = 16" by (simp add: ip ipv6_addr_def)
  with assms t show ?thesis
    by (simp add: hev_socks5_addr_into_sockaddr6_def hev_socks5_ipv6_into_sockaddr6_def
        ip [symmetric] p patch_full)
qed

text \<open>
  Resolving a name: an IPv4 literal wins over an IPv6 literal, which wins over DNS, and every
  success leaves an IPv6 socket address with the port in network order and the family it found.
\<close>

definition env_ok :: "net_env \<Rightarrow> bool" where
  "env_ok env \<longleftrightarrow>
     (\<forall>n ip. pton4 env n = Some ip \<longrightarrow> length ip = 4) \<and>
     (\<forall>n ip. pton6 env n = Some ip \<longrightarrow> length ip = 16) \<and>
     (\<forall>n f ip. gai env n f = Some (GaiV4 ip) \<longrightarrow> length ip = 4) \<and>
     (\<forall>n f ip. gai env n f = Some (GaiV6 ip) \<longrightarrow> length ip = 16)"

definition resolved :: "net_env \<Rightarrow> bytes \<Rightarrow> int \<Rightarrow> (int \<times> bytes) option" where
  "resolved env name hint =
     (case pton4 env name of Some ip \<Rightarrow> Some (AF_INET, mapped4 ip)
      | None \<Rightarrow> (case pton6 env name of Some ip \<Rightarrow> Some (AF_INET6, ip)
        | None \<Rightarrow> (case gai env name hint of
              Some (GaiV4 ip) \<Rightarrow> Some (AF_INET, mapped4 ip)
            | Some (GaiV6 ip) \<Rightarrow> Some (AF_INET6, ip)
            | _ \<Rightarrow> None)))"

lemma name_into_sockaddr6_resolved:
  assumes "env_ok env" "length (sin6_addr s) = 16"
  shows "case resolved env name f of
      Some (fam, ip) \<Rightarrow> hev_socks5_name_into_sockaddr6 env name port s f =
        (0, \<lparr>sin6_family = AF_INET6, sin6_port = htons port, sin6_addr = ip\<rparr>, fam) \<and> length ip = 16
    | None \<Rightarrow> fst (hev_socks5_name_into_sockaddr6 env name port s f) = -1"
  using assms
  by (cases s)
    (auto simp: resolved_def env_ok_def hev_socks5_name_into_sockaddr6_def Let_def
      hev_socks5_name_resolve_ipv4_def hev_socks5_name_resolve_ipv6_def
      hev_socks5_name_resolve_name_def patch_mapped4 patch_mapped4' patch_full mapped4_def
      split: option.splits gai_result.splits)

section \<open>Properties\<close>

text \<open>
  C32: Round trip of a target address: a name of at most 255 bytes, an IPv4 or an IPv6 address with
  its port, written into an address object by the constructors and read back by the code's own
  accessors, is the same endpoint, and the length the constructor returns is the wire length that
  \<open>hev_socks5_addr_len\<close> computes.
\<close>
theorem addr_roundtrip:
  assumes "addr_size \<le> length a" "ep_wf ep" "\<And>n p. ep = EpName n p \<Longrightarrow> 0 \<notin> set n"
    and "(r, b) = (case ep of
        EpV4 ip p \<Rightarrow> hev_socks5_addr_from_ipv4 a ip (htons p)
      | EpV6 ip p \<Rightarrow> hev_socks5_addr_from_ipv6 a ip (htons p)
      | EpName n p \<Rightarrow> hev_socks5_addr_from_name a n (htons p))"
  shows "view_addr b = Some ep \<and> r = hev_socks5_addr_len b \<and> take (nat r) b = encode_ep ep \<and>
    hev_socks5_addr_get_port b = htons (case ep of EpV4 _ p \<Rightarrow> p | EpV6 _ p \<Rightarrow> p | EpName _ p \<Rightarrow> p)"
proof -
  have t: "take (nat r) b = encode_ep ep \<and> r = int (length (encode_ep ep))"
  proof (cases ep)
    case (EpV4 ip p)
    with assms from_ipv4_encodes [of a ip p] show ?thesis by (auto simp: prod_eq_iff)
  next
    case (EpV6 ip p)
    with assms from_ipv6_encodes [of a ip p] show ?thesis by (auto simp: prod_eq_iff)
  next
    case (EpName n p)
    with assms from_name_encodes [of a n p] show ?thesis by (auto simp: prod_eq_iff nat_add_distrib)
  qed
  then have b: "b = encode_ep ep @ drop (length (encode_ep ep)) b"
    by (metis append_take_drop_id nat_int)
  have "view_addr b = Some ep" "hev_socks5_addr_len b = int (length (encode_ep ep))"
    by (metis b view_encode [OF assms(2)]) (metis b addr_len_encode [OF assms(2)])
  with t show ?thesis
    by (cases ep) (auto simp: hev_socks5_addr_get_port_def view_addr_def split: if_splits)
qed

theorem addr_roundtrip_witness:
  "view_addr (snd (hev_socks5_addr_from_name (replicate 260 9) [97, 46, 98] (htons 443))) =
     Some (EpName [97, 46, 98] 443)"
  using addr_roundtrip [of "replicate 260 9" "EpName [97, 46, 98] 443"
      "fst (hev_socks5_addr_from_name (replicate 260 9) [97, 46, 98] (htons 443))"
      "snd (hev_socks5_addr_from_name (replicate 260 9) [97, 46, 98] (htons 443))"] by simp

text \<open>
  Socket addresses and SOCKS addresses convert into each other without loss: the address object
  made from a socket address encodes its endpoint (an IPv4-mapped address becomes an IPv4 one), and
  turning that object back gives a socket address of the same endpoint, with the family reported.
\<close>
theorem sockaddr_roundtrip:
  assumes "19 \<le> length a" "length (sin6_addr s) = 16" "length (sin6_addr s0) = 16"
    and "(r, b) = hev_socks5_addr_from_sockaddr6 a s"
  shows "\<exists>s' fam. hev_socks5_addr_into_sockaddr6 env b s0 f = (0, s', fam) \<and>
    sockaddr_ep s' = sockaddr_ep s \<and> sin6_family s' = AF_INET6 \<and>
    fam = (if IN6_IS_ADDR_V4MAPPED (sin6_addr s) then AF_INET else AF_INET6)"
proof -
  note e = from_sockaddr6_encodes [OF assms(1,2)]
  have wf: "ep_wf (sockaddr_ep s)" using assms(2) by (simp add: sockaddr_ep_def)
  have b: "b = encode_ep (sockaddr_ep s) @ drop (length (encode_ep (sockaddr_ep s))) b"
    using e(2) assms(4) by (metis append_take_drop_id snd_conv)
  have v: "view_addr b = Some (sockaddr_ep s)" by (metis b view_encode [OF wf])
  have l: "length (encode_ep (sockaddr_ep s)) \<le> length b" by (metis b length_append le_add1)
  show ?thesis
  proof (cases "IN6_IS_ADDR_V4MAPPED (sin6_addr s)")
    case True
    then obtain ip p where ep: "sockaddr_ep s = EpV4 ip p" by (simp add: sockaddr_ep_def)
    with wf l have "7 \<le> length b" by simp
    from into_sockaddr6_v4 [OF v [unfolded ep] this assms(3)] True ep show ?thesis by auto
  next
    case False
    then obtain ip p where ep: "sockaddr_ep s = EpV6 ip p" by (simp add: sockaddr_ep_def)
    with wf l have "19 \<le> length b" by simp
    from into_sockaddr6_v6 [OF v [unfolded ep] this assms(3)] obtain s' where
      s': "hev_socks5_addr_into_sockaddr6 env b s0 f = (0, s', AF_INET6)" "sin6_addr s' = ip"
      "sin6_port s' = htons p" "sin6_family s' = AF_INET6" by blast
    moreover from ep False s' have "sockaddr_ep s' = sockaddr_ep s"
      by (auto simp: sockaddr_ep_def split: if_splits)
    ultimately show ?thesis using False by auto
  qed
qed

lemma sockaddr_ep_mapped4:
  "length ip = 4 \<Longrightarrow>
   sockaddr_ep \<lparr>sin6_family = f, sin6_port = htons p, sin6_addr = mapped4 ip\<rparr> = EpV4 ip p"
  by (simp add: sockaddr_ep_def) (simp add: mapped4_def bslice_def)

lemma length_mapped4: "length (mapped4 ip) = 12 + length ip"
  by (simp add: mapped4_def)

theorem sockaddr_roundtrip_witness:
  "\<exists>s' fam. hev_socks5_addr_into_sockaddr6
       \<lparr>pton4 = (\<lambda>_. None), pton6 = (\<lambda>_. None), gai = (\<lambda>_ _. None)\<rparr>
       (snd (hev_socks5_addr_from_sockaddr6 (replicate 19 0)
          \<lparr>sin6_family = 10, sin6_port = htons 80, sin6_addr = mapped4 [1, 2, 3, 4]\<rparr>))
       \<lparr>sin6_family = 0, sin6_port = 0, sin6_addr = replicate 16 0\<rparr> 0 = (0, s', fam) \<and>
     sockaddr_ep s' = EpV4 [1, 2, 3, 4] 80 \<and> fam = AF_INET"
  using sockaddr_roundtrip [of "replicate 19 0"
      "\<lparr>sin6_family = 10, sin6_port = htons 80, sin6_addr = mapped4 [1, 2, 3, 4]\<rparr>"
      "\<lparr>sin6_family = 0, sin6_port = 0, sin6_addr = replicate 16 0\<rparr>"
      "fst (hev_socks5_addr_from_sockaddr6 (replicate 19 0)
          \<lparr>sin6_family = 10, sin6_port = htons 80, sin6_addr = mapped4 [1, 2, 3, 4]\<rparr>)"
      "snd (hev_socks5_addr_from_sockaddr6 (replicate 19 0)
          \<lparr>sin6_family = 10, sin6_port = htons 80, sin6_addr = mapped4 [1, 2, 3, 4]\<rparr>)"
      "\<lparr>pton4 = (\<lambda>_. None), pton6 = (\<lambda>_. None), gai = (\<lambda>_ _. None)\<rparr>" 0]
  by (auto simp: sockaddr_ep_mapped4 length_mapped4)

text \<open>
  A host name that fills the 256-byte field is not terminated by \<open>strncpy\<close>. When the two bytes
  behind the field are clear, its length is counted as 256, stored in one byte as 0, and the port
  overwrites the beginning of the name: the object encodes the empty name.
\<close>
theorem addr_from_name_overflow:
  assumes "length a = addr_size" "256 \<le> length name" "0 \<notin> set (take 256 name)" "a ! 258 = 0"
  shows "fst (hev_socks5_addr_from_name a name port) = 4 \<and>
    domain_name (snd (hev_socks5_addr_from_name a name port)) = []"
proof -
  let ?a2 = "patch 2 (strncpy_bytes 256 name) (patch 0 [3] a)"
  have l: "length ?a2 = 260" using assms by simp
  have "drop 2 ?a2 = take 256 name @ drop 258 a"
    using assms(1,2) by (simp add: strncpy_bytes_def)
  also have "drop 258 a = 0 # drop 259 a"
    using assms(1,4) by (simp add: Cons_nth_drop_Suc [symmetric])
  finally have d: "drop 2 ?a2 = take 256 name @ 0 # drop 259 a" .
  have c: "length (c_str (drop 2 ?a2)) = 256"
    unfolding d c_str_append_0 [OF assms(3)] using assms(2) by simp
  have z: "(of_nat 256 :: u8) = 0" by simp
  let ?a3 = "patch 1 [of_nat 256] ?a2" and ?a4 = "patch 2 (mem16 port) (patch 1 [of_nat 256] ?a2)"
  have d3: "domain_len ?a3 = 0" and d4: "domain_len ?a4 = 0"
    using l by (simp_all add: domain_len_def)
  have "hev_socks5_addr_from_name a name port = (4, ?a4)"
    unfolding hev_socks5_addr_from_name_def Let_def c d3 add_0_right d4 by simp
  with d4 show ?thesis by (simp only: fst_conv snd_conv domain_name_def bslice_0)
qed

theorem addr_from_name_overflow_witness:
  "domain_name (snd (hev_socks5_addr_from_name (replicate 260 0) (replicate 300 97) 443)) = []"
  using addr_from_name_overflow [of "replicate 260 0" "replicate 300 97" 443] by simp

end
