(* ===== verification/Task_IO.thy ===== *)
theory Task_IO
  imports Socks5_Addr
begin

text \<open>
  What the SOCKS5 code sees of the operating system and of the task system: the socket calls of
  \<open>hev-task-system/src/lib/io/socket/hev-task-io-socket.c\<close> with their retry loops, the yielder
  of \<open>core/src/hev-socks5-misc.c\<close> that waits for I/O with a timeout, and the base object of
  \<open>core/src/hev-socks5.c\<close>.

  The environment is a script: for every descriptor the list of what its next \<open>recv\<close> and \<open>send\<close>
  calls meet, and the list of what happens at each point where the task gives up the processor.
  A theorem quantifies over the scripts, so it speaks about every behaviour of the network and of
  the other tasks. A script that is used up means a closed connection for \<open>recv\<close>, a socket that
  takes everything for \<open>send\<close>.
\<close>

section \<open>The environment\<close>

datatype recv_ev = RData bytes | RAgain | RErr
datatype send_ev = SAccept nat | SAgain | SErr
datatype yield_type = HEV_TASK_YIELD | HEV_TASK_WAITIO

text \<open>
  While a task waits, others run: \<open>remain\<close> is what is left of its timeout when it is woken,
  \<open>ended\<close> says that \<open>hev_socks5_session_terminate\<close> was called on it meanwhile.
\<close>

record yield_ev =
  remain :: nat
  ended :: bool

text \<open>
  Datagram sockets: one \<open>recvmmsg\<close> call delivers some datagrams with the address of their sender.
\<close>

record dgram =
  dg_data :: bytes
  dg_peer :: sockaddr_in6

datatype dgram_ev = DMsgs "dgram list" | DAgain | DErr

record world =
  rxq :: "int \<Rightarrow> recv_ev list"
  txq :: "int \<Rightarrow> send_ev list"
  wire :: "int \<Rightarrow> bytes"
  yields :: "yield_ev list"
  sys :: "int list"
  opened :: "int list"
  peer :: "int \<Rightarrow> sockaddr_in6 option"
  allocs :: "bool list"
  live :: int
  eagain :: bool
  crashed :: bool
  dgq :: "int \<Rightarrow> dgram_ev list"
  sent :: "int \<Rightarrow> (bytes \<times> sockaddr_in6 option) list"

text \<open>The world in which nothing is pending: the starting point of the concrete examples.\<close>

definition quiet :: world where
  "quiet = \<lparr>rxq = (\<lambda>_. []), txq = (\<lambda>_. []), wire = (\<lambda>_. []), yields = [], sys = [], opened = [],
     peer = (\<lambda>_. None), allocs = [], live = 0, eagain = False, crashed = False,
     dgq = (\<lambda>_. []), sent = (\<lambda>_. [])\<rparr>"

text \<open>
  \<open>sys\<close> holds the results of the other system calls in the order in which they are made
  (\<open>-1\<close> when it is used up); \<open>opened\<close> the descriptors created and not closed; \<open>peer\<close> the address
  a descriptor was last connected to; \<open>allocs\<close> says which of the next allocations fail (\<open>False\<close>;
  an allocation beyond the list succeeds); \<open>live\<close> the number of blocks allocated and not freed;
  \<open>eagain\<close> says whether \<open>errno\<close> is \<open>EAGAIN\<close>: it is kept where a caller reads it, that is after a call
  that failed and does not wait; \<open>crashed\<close> is set by a \<open>NULL\<close> dereference; \<open>dgq\<close> is what the next \<open>recvmmsg\<close> calls meet (an
  error when it is used up), \<open>sent\<close> the datagrams sent, with their destination if one was named.
\<close>

definition sys_call :: "world \<Rightarrow> int \<times> world" where
  "sys_call w = (case sys w of [] \<Rightarrow> (-1, w) | r # rs \<Rightarrow> (r, w\<lparr>sys := rs\<rparr>))"

definition sys_socket :: "world \<Rightarrow> int \<times> world" where
  "sys_socket w =
     (let (r, w) = sys_call w in (r, if r < 0 then w else w\<lparr>opened := r # opened w\<rparr>))"

definition sys_close :: "int \<Rightarrow> world \<Rightarrow> world" where
  "sys_close fd w = w\<lparr>opened := remove1 fd (opened w)\<rparr>"

definition hev_malloc :: "world \<Rightarrow> bool \<times> world" where
  "hev_malloc w =
     (case allocs w of
        [] \<Rightarrow> (True, w\<lparr>live := live w + 1\<rparr>)
      | True # as \<Rightarrow> (True, w\<lparr>allocs := as, live := live w + 1\<rparr>)
      | False # as \<Rightarrow> (False, w\<lparr>allocs := as\<rparr>))"

definition hev_free :: "world \<Rightarrow> world" where
  "hev_free w = w\<lparr>live := live w - 1\<rparr>"

section \<open>The base object\<close>

datatype HevSocks5Type =
    HEV_SOCKS5_TYPE_NONE | HEV_SOCKS5_TYPE_TCP | HEV_SOCKS5_TYPE_UDP_IN_TCP | HEV_SOCKS5_TYPE_UDP_IN_UDP

record hev_socks5 =
  fd :: int
  timeout :: int
  stype :: HevSocks5Type
  udp_associated :: bool
  addr_family :: int

definition hev_socks5_get_timeout :: "'a hev_socks5_scheme \<Rightarrow> int" where
  "hev_socks5_get_timeout self = timeout self"

definition hev_socks5_set_timeout :: "'a hev_socks5_scheme \<Rightarrow> int \<Rightarrow> 'a hev_socks5_scheme" where
  "hev_socks5_set_timeout self t = (if timeout self \<noteq> 0 then self\<lparr>timeout := t\<rparr> else self)"

definition hev_socks5_get_addr_family :: "'a hev_socks5_scheme \<Rightarrow> int" where
  "hev_socks5_get_addr_family self = addr_family self"

definition hev_socks5_set_addr_family :: "'a hev_socks5_scheme \<Rightarrow> int \<Rightarrow> 'a hev_socks5_scheme" where
  "hev_socks5_set_addr_family self f = self\<lparr>addr_family := f\<rparr>"

definition hev_socks5_bind :: "'a hev_socks5_scheme \<Rightarrow> int \<Rightarrow> sockaddr_in6 \<Rightarrow> int" where
  "hev_socks5_bind self sock dest = 0"

definition hev_socks5_construct :: "HevSocks5Type \<Rightarrow> 'a hev_socks5_scheme \<Rightarrow> 'a hev_socks5_scheme" where
  "hev_socks5_construct t self =
     self\<lparr>fd := -1, timeout := -1, stype := t, addr_family := AF_UNSPEC\<rparr>"

definition hev_socks5_destruct :: "'a hev_socks5_scheme \<Rightarrow> world \<Rightarrow> world" where
  "hev_socks5_destruct self w = hev_free (if fd self \<ge> 0 then sys_close (fd self) w else w)"

text \<open>
  The timeout is sticky at 0: once a session is terminated, no later \<open>set_timeout\<close> of the
  handshake or of the splice loop revives it.
\<close>

lemma set_timeout_sticky [simp]:
  "timeout self = 0 \<Longrightarrow> hev_socks5_set_timeout self t = self"
  by (simp add: hev_socks5_set_timeout_def)

lemma set_timeout_fields [simp]:
  "fd (hev_socks5_set_timeout self t) = fd self"
  "stype (hev_socks5_set_timeout self t) = stype self"
  "udp_associated (hev_socks5_set_timeout self t) = udp_associated self"
  "addr_family (hev_socks5_set_timeout self t) = addr_family self"
  "hev_socks5.more (hev_socks5_set_timeout self t) = hev_socks5.more self"
  by (simp_all add: hev_socks5_set_timeout_def)

section \<open>Yielding\<close>

type_synonym 'o yielder = "yield_type \<Rightarrow> 'o \<Rightarrow> world \<Rightarrow> int \<times> 'o \<times> world"

definition task_switch :: "'a hev_socks5_scheme \<Rightarrow> world \<Rightarrow> nat \<times> 'a hev_socks5_scheme \<times> world" where
  "task_switch self w =
     (case yields w of
        [] \<Rightarrow> (0, self, w)
      | y # ys \<Rightarrow>
          (remain y, if ended y then hev_socks5_set_timeout self 0 else self, w\<lparr>yields := ys\<rparr>))"

definition hev_task_sleep :: "int \<Rightarrow> 'a hev_socks5_scheme \<Rightarrow> world \<Rightarrow> int \<times> 'a hev_socks5_scheme \<times> world" where
  "hev_task_sleep ms self w =
     (if ms = 0 then (0, self, w)
      else let (r, self, w) = task_switch self w in (min ms (int r), self, w))"

definition hev_socks5_task_io_yielder :: "'a hev_socks5_scheme yielder" where
  "hev_socks5_task_io_yielder t self w =
     (if t = HEV_TASK_YIELD then let (_, self, w) = task_switch self w in (0, self, w)
      else if timeout self < 0 then let (_, self, w) = task_switch self w in (0, self, w)
      else let (tm, self, w) = hev_task_sleep (timeout self) self w in
        if tm \<le> 0 then (-1, self, w) else (0, self, w))"

lemma yielder_terminated:
  "timeout self = 0 \<Longrightarrow> hev_socks5_task_io_yielder HEV_TASK_WAITIO self w = (-1, self, w)"
  by (simp add: hev_socks5_task_io_yielder_def hev_task_sleep_def)

section \<open>Stream sockets\<close>

text \<open>
  The retry loops. \<open>wa\<close> is \<open>MSG_WAITALL\<close>, \<open>dw\<close> is \<open>MSG_DONTWAIT\<close>; \<open>got\<close> are the bytes stored
  so far (\<open>size\<close> in the code is its length). The result is the return value and the bytes.
\<close>

fun recv_loop :: "'o yielder \<Rightarrow> bool \<Rightarrow> bool \<Rightarrow> nat \<Rightarrow> bytes \<Rightarrow> recv_ev list \<Rightarrow> 'o \<Rightarrow> world \<Rightarrow>
  (int \<times> bytes) \<times> recv_ev list \<times> 'o \<times> world" where
  "recv_loop y wa dw n got [] self w =
     ((if \<not> wa then 0 else int (length got), got), [], self, w)"
| "recv_loop y wa dw n got (RErr # es) self w =
     ((if \<not> wa then -1 else if got = [] then -1 else int (length got), got), es, self, w\<lparr>eagain := False\<rparr>)"
| "recv_loop y wa dw n got (RAgain # es) self w =
     (if dw then
        ((if \<not> wa then -1 else if got = [] then -1 else int (length got), got), es, self, w\<lparr>eagain := True\<rparr>)
      else
        let (r, self, w) = y HEV_TASK_WAITIO self w in
        if r \<noteq> 0 then ((if got = [] then -2 else int (length got), got), es, self, w)
        else recv_loop y wa dw n got es self w)"
| "recv_loop y wa dw n got (RData bs # es) self w =
     (let k = min (n - length got) (length bs);
          got' = got @ take k bs;
          rest = (if k < length bs then RData (drop k bs) # es else es)
      in if \<not> wa then ((int k, got'), rest, self, w)
         else if k = 0 then ((int (length got), got), rest, self, w)
         else if length got' < n then recv_loop y wa dw n got' es self w
         else ((int (length got'), got'), rest, self, w))"

definition hev_task_io_socket_recv :: "int \<Rightarrow> nat \<Rightarrow> bool \<Rightarrow> bool \<Rightarrow> 'o yielder \<Rightarrow> 'o \<Rightarrow> world \<Rightarrow>
  int \<times> bytes \<times> 'o \<times> world" where
  "hev_task_io_socket_recv f n wa dw y self w =
     (let ((r, bs), es, self, w') = recv_loop y wa dw n [] (rxq w f) self w
      in (r, bs, self, w'\<lparr>rxq := (rxq w')(f := es)\<rparr>))"

fun send_loop :: "'o yielder \<Rightarrow> bool \<Rightarrow> bool \<Rightarrow> bytes \<Rightarrow> nat \<Rightarrow> send_ev list \<Rightarrow> 'o \<Rightarrow> world \<Rightarrow>
  (int \<times> nat) \<times> send_ev list \<times> 'o \<times> world" where
  "send_loop y wa dw buf sz [] self w = ((int (if wa then length buf else length buf - sz), length buf), [], self, w)"
| "send_loop y wa dw buf sz (SErr # es) self w =
     ((if \<not> wa then -1 else if sz = 0 then -1 else int sz, sz), es, self, w\<lparr>eagain := False\<rparr>)"
| "send_loop y wa dw buf sz (SAgain # es) self w =
     (if dw then ((if \<not> wa then -1 else if sz = 0 then -1 else int sz, sz), es, self, w\<lparr>eagain := True\<rparr>)
      else
        let (r, self, w) = y HEV_TASK_WAITIO self w in
        if r \<noteq> 0 then ((if sz = 0 then -2 else int sz, sz), es, self, w)
        else send_loop y wa dw buf sz es self w)"
| "send_loop y wa dw buf sz (SAccept m # es) self w =
     (let k = min m (length buf - sz) in
      if \<not> wa then ((int k, sz + k), es, self, w)
      else if k = 0 then ((int sz, sz), es, self, w)
      else if sz + k < length buf then send_loop y wa dw buf (sz + k) es self w
      else ((int (sz + k), sz + k), es, self, w))"

definition hev_task_io_socket_send :: "int \<Rightarrow> bytes \<Rightarrow> bool \<Rightarrow> bool \<Rightarrow> 'o yielder \<Rightarrow> 'o \<Rightarrow> world \<Rightarrow>
  int \<times> 'o \<times> world" where
  "hev_task_io_socket_send f buf wa dw y self w =
     (let ((r, n), es, self, w') = send_loop y wa dw buf 0 (txq w f) self w
      in (r, self, w'\<lparr>txq := (txq w')(f := es), wire := (wire w')(f := wire w' f @ take n buf)\<rparr>))"

text \<open>
  The vectored calls advance the vector after a partial transfer: whole entries are skipped, the
  first one not used up is shortened.
\<close>

fun iov_advance :: "nat \<Rightarrow> bytes list \<Rightarrow> bytes list" where
  "iov_advance s [] = []"
| "iov_advance s (b # v) = (if s < length b then drop s b # v else iov_advance (s - length b) v)"

fun sendmsg_loop :: "'o yielder \<Rightarrow> bool \<Rightarrow> bool \<Rightarrow> nat \<Rightarrow> bytes list \<Rightarrow> nat \<Rightarrow> bytes \<Rightarrow> send_ev list \<Rightarrow>
  'o \<Rightarrow> world \<Rightarrow> (int \<times> bytes) \<times> send_ev list \<times> 'o \<times> world" where
  "sendmsg_loop y wa dw len iov sz out [] self w =
     ((int (if wa then sz + length (concat iov) else length (concat iov)), out @ concat iov), [], self, w)"
| "sendmsg_loop y wa dw len iov sz out (SErr # es) self w =
     ((if \<not> wa then -1 else if sz = 0 then -1 else int sz, out), es, self, w\<lparr>eagain := False\<rparr>)"
| "sendmsg_loop y wa dw len iov sz out (SAgain # es) self w =
     (if dw then ((if \<not> wa then -1 else if sz = 0 then -1 else int sz, out), es, self, w\<lparr>eagain := True\<rparr>)
      else
        let (r, self, w) = y HEV_TASK_WAITIO self w in
        if r \<noteq> 0 then ((if sz = 0 then -2 else int sz, out), es, self, w)
        else sendmsg_loop y wa dw len iov sz out es self w)"
| "sendmsg_loop y wa dw len iov sz out (SAccept m # es) self w =
     (let k = min m (length (concat iov)); out' = out @ take k (concat iov) in
      if \<not> wa then ((int k, out'), es, self, w)
      else if k = 0 then ((int sz, out), es, self, w)
      else if sz + k < len then sendmsg_loop y wa dw len (iov_advance k iov) (sz + k) out' es self w
      else ((int (sz + k), out'), es, self, w))"

definition hev_task_io_socket_sendmsg :: "int \<Rightarrow> bytes list \<Rightarrow> bool \<Rightarrow> bool \<Rightarrow> 'o yielder \<Rightarrow> 'o \<Rightarrow> world \<Rightarrow>
  int \<times> 'o \<times> world" where
  "hev_task_io_socket_sendmsg f iov wa dw y self w =
     (let ((r, out), es, self, w') =
        sendmsg_loop y wa dw (length (concat iov)) iov 0 [] (txq w f) self w
      in (r, self, w'\<lparr>txq := (txq w')(f := es), wire := (wire w')(f := wire w' f @ out)\<rparr>))"

section \<open>Connecting\<close>

text \<open>
  The results of \<open>connect\<close> come from \<open>sys\<close>: \<open>0\<close> connected, \<open>1\<close> in progress (\<open>EINPROGRESS\<close> or
  \<open>EALREADY\<close>), \<open>2\<close> already connected (\<open>EISCONN\<close>), negative an error.
\<close>

fun connect_loop :: "'o yielder \<Rightarrow> int list \<Rightarrow> 'o \<Rightarrow> world \<Rightarrow> int \<times> int list \<times> 'o \<times> world" where
  "connect_loop y [] self w = (-1, [], self, w)"
| "connect_loop y (c # cs) self w =
     (if c = 1 then
        let (r, self, w) = y HEV_TASK_WAITIO self w in
        if r \<noteq> 0 then (-2, cs, self, w) else connect_loop y cs self w
      else if c = 0 \<or> c = 2 then (0, cs, self, w)
      else (-1, cs, self, w))"

definition hev_task_io_socket_connect ::
  "int \<Rightarrow> sockaddr_in6 \<Rightarrow> 'o yielder \<Rightarrow> 'o \<Rightarrow> world \<Rightarrow> int \<times> 'o \<times> world" where
  "hev_task_io_socket_connect f sap y self w =
     (let (r, cs, self, w') = connect_loop y (sys w) self (w\<lparr>peer := (peer w)(f \<mapsto> sap)\<rparr>)
      in (r, self, w'\<lparr>sys := cs\<rparr>))"

datatype sock_type = SOCK_STREAM | SOCK_DGRAM

definition hev_socks5_socket :: "sock_type \<Rightarrow> world \<Rightarrow> int \<times> world" where
  "hev_socks5_socket t w =
     (let (f, w) = sys_socket w in
      if f < 0 then (-1, w)
      else
        let (res, w) = sys_call w in
        if res < 0 then (-1, sys_close f w)
        else if t = SOCK_DGRAM then let (_, w) = sys_call w in (f, w)
        else (f, w))"

section \<open>What waiting can change\<close>

text \<open>
  A task that waits loses nothing of its own: only its timeout can have been cut to 0 by a
  termination, and the script of the environment moves on.
\<close>

definition waited :: "'a hev_socks5_scheme \<Rightarrow> world \<Rightarrow> 'a hev_socks5_scheme \<Rightarrow> world \<Rightarrow> bool" where
  "waited self w self' w' \<longleftrightarrow>
     (self' = self \<or> self' = self\<lparr>timeout := 0\<rparr>) \<and>
     w' = w\<lparr>yields := yields w', eagain := eagain w'\<rparr>"

lemma waited_refl [simp, intro]: "waited self w self w"
  by (simp add: waited_def)

lemma world_upd_twice [simp]:
  "w\<lparr>yields := a, eagain := b\<rparr> = w\<lparr>yields := c, eagain := d\<rparr> \<longleftrightarrow> a = c \<and> b = (d :: bool)" for w :: world
  by (cases w) simp

lemma waited_trans [trans]:
  assumes "waited s w s' w'" "waited s' w' s'' w''"
  shows "waited s w s'' w''"
proof -
  from assms(2) have "w'' = w'\<lparr>yields := yields w'', eagain := eagain w''\<rparr>"
    by (simp add: waited_def)
  moreover from assms(1) have "w' = w\<lparr>yields := yields w', eagain := eagain w'\<rparr>"
    by (simp add: waited_def)
  ultimately have "w'' = w\<lparr>yields := yields w'', eagain := eagain w''\<rparr>"
    by (metis (no_types, lifting) world.surjective world.update_convs(4) world.update_convs(10))
  with assms show ?thesis by (auto simp: waited_def)
qed

lemma waited_eagain: "waited s w s' w' \<Longrightarrow> waited s w s' (w'\<lparr>eagain := e\<rparr>)"
  by (cases w; cases w') (auto simp: waited_def)

lemma waited_eagain_refl [intro]: "waited s w s (w\<lparr>eagain := e\<rparr>)"
  by (rule waited_eagain) simp

lemma task_switch_waited:
  "task_switch self w = (r, self', w') \<Longrightarrow> waited self w self' w'"
  by (cases w) (auto simp: task_switch_def waited_def hev_socks5_set_timeout_def split: list.splits)

lemma yielder_waited:
  "hev_socks5_task_io_yielder t self w = (r, self', w') \<Longrightarrow> waited self w self' w'"
  using task_switch_waited [of self w]
  by (auto simp: hev_socks5_task_io_yielder_def hev_task_sleep_def split: prod.splits if_splits)

lemma waited_fields:
  assumes "waited s w s' w'"
  shows "fd s' = fd s" "stype s' = stype s" "udp_associated s' = udp_associated s"
    "addr_family s' = addr_family s" "hev_socks5.more s' = hev_socks5.more s"
    "rxq w' = rxq w" "txq w' = txq w" "wire w' = wire w" "sys w' = sys w" "opened w' = opened w"
    "peer w' = peer w" "allocs w' = allocs w" "live w' = live w" "crashed w' = crashed w"
    "dgq w' = dgq w" "sent w' = sent w"
    "timeout s = 0 \<Longrightarrow> timeout s' = 0"
  using assms by (cases w; cases w'; auto simp: waited_def)+

lemma recv_loop_waited:
  "recv_loop hev_socks5_task_io_yielder wa dw n got es self w = (p, es', self', w') \<Longrightarrow>
   waited self w self' w'"
proof (induction "hev_socks5_task_io_yielder :: 'a hev_socks5_scheme yielder" wa dw n got es self w
    arbitrary: p es' self' w' rule: recv_loop.induct)
  case (3 wa dw n got es self w)
  then show ?case
    by (fastforce split: prod.splits if_splits dest: yielder_waited intro: waited_trans)
qed (auto split: if_splits simp: Let_def)

lemma send_loop_waited:
  "send_loop hev_socks5_task_io_yielder wa dw buf sz es self w = (p, es', self', w') \<Longrightarrow>
   waited self w self' w'"
proof (induction "hev_socks5_task_io_yielder :: 'a hev_socks5_scheme yielder" wa dw buf sz es self w
    arbitrary: p es' self' w' rule: send_loop.induct)
  case (3 wa dw buf sz es self w)
  then show ?case
    by (fastforce split: prod.splits if_splits dest: yielder_waited intro: waited_trans)
qed (auto split: if_splits simp: Let_def)

lemma sendmsg_loop_waited:
  "sendmsg_loop hev_socks5_task_io_yielder wa dw len iov sz out es self w = (p, es', self', w') \<Longrightarrow>
   waited self w self' w'"
proof (induction "hev_socks5_task_io_yielder :: 'a hev_socks5_scheme yielder" wa dw len iov sz out es
    self w arbitrary: p es' self' w' rule: sendmsg_loop.induct)
  case (3 wa dw len iov sz out es self w)
  then show ?case
    by (fastforce split: prod.splits if_splits dest: yielder_waited intro: waited_trans)
qed (auto split: if_splits simp: Let_def)

lemma connect_loop_waited:
  "connect_loop hev_socks5_task_io_yielder cs self w = (r, cs', self', w') \<Longrightarrow> waited self w self' w'"
proof (induction "hev_socks5_task_io_yielder :: 'a hev_socks5_scheme yielder" cs self w
    arbitrary: r cs' self' w' rule: connect_loop.induct)
  case (2 c cs self w)
  then show ?case
    by (fastforce split: prod.splits if_splits dest: yielder_waited intro: waited_trans)
qed auto

section \<open>What a whole read delivers\<close>

fun rx_bytes :: "recv_ev list \<Rightarrow> bytes" where
  "rx_bytes [] = []"
| "rx_bytes (RData bs # es) = bs @ rx_bytes es"
| "rx_bytes (_ # es) = rx_bytes es"

text \<open>
  A read with \<open>MSG_WAITALL\<close> takes its bytes off the front of the stream, whatever the segments and
  the waits were, and its result is their number unless there are none.
\<close>

lemma recv_loop_stream:
  "recv_loop y True dw n got es self w = ((r, bs), es', self', w') \<Longrightarrow> length got \<le> n \<Longrightarrow>
   \<exists>d. bs = got @ d \<and> rx_bytes es = d @ rx_bytes es' \<and> length bs \<le> n \<and>
     (r = int (length bs) \<or> r < 0 \<and> bs = [])"
proof (induction y "True" dw n got es self w arbitrary: r bs es' self' w' rule: recv_loop.induct)
  case (3 y dw n got es self w)
  then show ?case by (auto split: if_splits prod.splits)
next
  case (4 y dw n got b es self w)
  define k where "k = min (n - length got) (length b)"
  have k: "length (got @ take k b) \<le> n" "k \<le> length b" using 4 by (auto simp: k_def)
  define rest where "rest = (if k < length b then RData (drop k b) # es else es)"
  have rest: "rx_bytes (RData b # es) = take k b @ rx_bytes rest" using k by (auto simp: rest_def)
  have e: "recv_loop y True dw n got (RData b # es) self w =
      (if k = 0 then ((int (length got), got), rest, self, w)
       else if length (got @ take k b) < n then recv_loop y True dw n (got @ take k b) es self w
       else ((int (length (got @ take k b)), got @ take k b), rest, self, w))"
    by (simp only: recv_loop.simps Let_def k_def [symmetric] rest_def [symmetric]
        not_True_eq_False if_False)
  show ?case
  proof (cases "k = 0 \<or> \<not> length (got @ take k b) < n")
    case True
    with 4(2,3) k show ?thesis unfolding e rest by (cases "k = 0") auto
  next
    case False
    then have m: "length got + k < n" "k \<noteq> 0" "length (got @ take k b) < n" using k by auto
    then have "k = length b" by (auto simp: k_def)
    then have r: "rest = es" by (simp add: rest_def)
    from 4(2) m have l: "recv_loop y True dw n (got @ take k b) es self w = ((r, bs), es', self', w')"
      unfolding e by simp
    from 4(1) [OF k_def refl refl _ _ _ l] m k show ?thesis unfolding rest r by auto
  qed
qed auto

lemma recv_waitall:
  assumes "hev_task_io_socket_recv f n True dw hev_socks5_task_io_yielder self w = (r, bs, self', w')"
  obtains es w1 where "w' = w1\<lparr>rxq := (rxq w1)(f := es)\<rparr>" "waited self w self' w1"
    "rx_bytes (rxq w f) = bs @ rx_bytes es" "length bs \<le> n" "r = int (length bs) \<or> r < 0 \<and> bs = []"
proof -
  from assms obtain es w1 where
    l: "recv_loop hev_socks5_task_io_yielder True dw n [] (rxq w f) self w = ((r, bs), es, self', w1)"
    and w': "w' = w1\<lparr>rxq := (rxq w1)(f := es)\<rparr>"
    by (auto simp: hev_task_io_socket_recv_def split: prod.splits)
  from recv_loop_stream [OF l] recv_loop_waited [OF l] w' show thesis
    by (intro that) auto
qed

section \<open>What a whole write delivers\<close>

lemma concat_iov_advance: "k \<le> length (concat iov) \<Longrightarrow> concat (iov_advance k iov) = drop k (concat iov)"
  by (induction k iov rule: iov_advance.induct) auto

text \<open>
  The vectored write puts the same bytes on the wire as one write of the concatenation, with the
  same result: the vector arithmetic of the retry loop loses and repeats nothing.
\<close>

lemma sendmsg_is_send:
  assumes "sz + length (concat iov) = length buf" "concat iov = drop sz buf" "out = take sz buf" "len = length buf"
  shows "sendmsg_loop y True dw len iov sz out es self w =
    (case send_loop y True dw buf sz es self w of ((r, n), es', self', w') \<Rightarrow>
       ((r, take n buf), es', self', w'))"
  using assms
proof (induction y "True" dw len iov sz out es self w rule: sendmsg_loop.induct)
  case (1 y dw len iov sz out self w)
  then show ?case by simp
next
  case (3 y dw len iov sz out es self w)
  then show ?case by (auto split: prod.splits)
next
  case prems: (4 y dw len iov sz out m es self w)
  define k where "k = min m (length (concat iov))"
  have k: "k \<le> length (concat iov)" "k = min m (length buf - sz)" "sz + k \<le> length buf"
    using prems(2,3) unfolding k_def by auto
  have out: "out @ take k (concat iov) = take (sz + k) buf"
    using prems(2-) k by (simp add: take_add)
  have IH: "k \<noteq> 0 \<Longrightarrow> sz + k < len \<Longrightarrow>
    sendmsg_loop y True dw len (iov_advance k iov) (sz + k) (take (sz + k) buf) es self w =
    (case send_loop y True dw buf (sz + k) es self w of ((r, n), es', self', w') \<Rightarrow>
       ((r, take n buf), es', self', w'))"
  proof -
    assume a: "k \<noteq> 0" "sz + k < len"
    have c: "concat (iov_advance k iov) = drop (sz + k) buf"
      using concat_iov_advance [OF k(1)] prems(3) by (simp add: add.commute)
    show ?thesis
      using prems(1) [OF k_def refl _ _ _ _ c] a out prems(5) c k(3) by (simp add: out)
  qed
  have e: "sendmsg_loop y True dw len iov sz out (SAccept m # es) self w =
     (if k = 0 then ((int sz, out), es, self, w)
      else if sz + k < len then sendmsg_loop y True dw len (iov_advance k iov) (sz + k) (out @ take k (concat iov)) es self w
      else ((int (sz + k), out @ take k (concat iov)), es, self, w))"
    by (simp only: sendmsg_loop.simps Let_def k_def [symmetric] not_True_eq_False if_False)
  have e2: "send_loop y True dw buf sz (SAccept m # es) self w =
     (if k = 0 then ((int sz, sz), es, self, w)
      else if sz + k < length buf then send_loop y True dw buf (sz + k) es self w
      else ((int (sz + k), sz + k), es, self, w))"
    by (simp only: send_loop.simps Let_def k(2) [symmetric] not_True_eq_False if_False)
  show ?case
    using IH prems(4,5) out unfolding e e2
    by (cases "k = 0"; cases "sz + k < length buf") simp_all
qed auto

lemma sendmsg_eq_send:
  "hev_task_io_socket_sendmsg f iov True dw y self w =
   hev_task_io_socket_send f (concat iov) True dw y self w"
  by (simp add: hev_task_io_socket_sendmsg_def hev_task_io_socket_send_def
      sendmsg_is_send [where buf = "concat iov" and sz = 0] split: prod.splits)

text \<open>A socket that takes something at every call: then the whole buffer goes out, without a wait.\<close>

definition tx_flows :: "send_ev list \<Rightarrow> bool" where
  "tx_flows es \<longleftrightarrow> (\<forall>e \<in> set es. case e of SAccept n \<Rightarrow> 0 < n | _ \<Rightarrow> False)"

lemma tx_flows_simps [simp]:
  "tx_flows []" "tx_flows (SAccept n # es) \<longleftrightarrow> 0 < n \<and> tx_flows es"
  "\<not> tx_flows (SAgain # es)" "\<not> tx_flows (SErr # es)"
  by (auto simp: tx_flows_def)

lemma send_loop_flows:
  "tx_flows es \<Longrightarrow> sz < length buf \<Longrightarrow>
   \<exists>es'. send_loop y True dw buf sz es self w = ((int (length buf), length buf), es', self, w) \<and>
     tx_flows es'"
proof (induction y "True" dw buf sz es self w rule: send_loop.induct)
  case (4 y dw buf sz m es self w)
  then show ?case by (auto simp: Let_def min_def)
qed auto

lemma send_flows:
  assumes "tx_flows (txq w f)" "buf \<noteq> []"
  obtains es where "tx_flows es" "hev_task_io_socket_send f buf True dw y self w =
    (int (length buf), self, w\<lparr>txq := (txq w)(f := es), wire := (wire w)(f := wire w f @ buf)\<rparr>)"
  using send_loop_flows [OF assms(1), of 0 buf y dw self w] assms(2)
  by (auto simp: hev_task_io_socket_send_def)

text \<open>
  Without that assumption a write that ends early has sent a prefix, and its result is positive
  as soon as one byte is out: the callers that test \<open>res <= 0\<close> take a truncated message for a
  complete one.
\<close>

lemma send_loop_prefix:
  "send_loop y True dw buf sz es self w = ((r, n), es', self', w') \<Longrightarrow> sz \<le> length buf \<Longrightarrow>
   sz \<le> n \<and> n \<le> length buf \<and> (r = int n \<or> r < 0 \<and> n = 0)"
proof (induction y "True" dw buf sz es self w arbitrary: r n es' self' w' rule: send_loop.induct)
  case (3 y dw buf sz es self w)
  then show ?case by (auto split: if_splits prod.splits)
next
  case (4 y dw buf sz m es self w)
  define k where "k = min m (length buf - sz)"
  have k: "sz + k \<le> length buf" using 4(3) by (simp add: k_def)
  have e: "send_loop y True dw buf sz (SAccept m # es) self w =
     (if k = 0 then ((int sz, sz), es, self, w)
      else if sz + k < length buf then send_loop y True dw buf (sz + k) es self w
      else ((int (sz + k), sz + k), es, self, w))"
    by (simp only: send_loop.simps Let_def k_def [symmetric] not_True_eq_False if_False)
  show ?case
  proof (cases "k \<noteq> 0 \<and> sz + k < length buf")
    case True
    with 4(2) have "send_loop y True dw buf (sz + k) es self w = ((r, n), es', self', w')"
      unfolding e by simp
    with 4(1) [OF k_def _ _ _ this k] True show ?thesis by auto
  next
    case False
    with 4(2,3) k show ?thesis unfolding e by (auto split: if_splits)
  qed
qed auto

lemma send_prefix:
  assumes "hev_task_io_socket_send f buf True dw hev_socks5_task_io_yielder self w = (r, self', w')"
  obtains es w1 n where
    "w' = w1\<lparr>txq := (txq w1)(f := es), wire := (wire w1)(f := wire w f @ take n buf)\<rparr>"
    "waited self w self' w1" "n \<le> length buf" "r = int n \<or> r < 0 \<and> n = 0"
proof -
  from assms obtain es w1 n where
    l: "send_loop hev_socks5_task_io_yielder True dw buf 0 (txq w f) self w = ((r, n), es, self', w1)"
    and w': "w' = w1\<lparr>txq := (txq w1)(f := es), wire := (wire w1)(f := wire w1 f @ take n buf)\<rparr>"
    by (auto simp: hev_task_io_socket_send_def split: prod.splits)
  note w = send_loop_waited [OF l]
  from w have "wire w1 = wire w" by (rule waited_fields)
  with send_loop_prefix [OF l] w w' show thesis
    by (intro that) auto
qed

end
