(* ===== verification/Dialogue.thy ===== *)
theory Dialogue
  imports Task_IO
begin

text \<open>
  What a handshake step of the client or of the server does to its connection: the bytes it puts
  on the wire and the bytes it takes off the stream, and how the steps compose.
\<close>

section \<open>Dialogues\<close>

text \<open>
  \<open>dialogue self w tx rx self' w'\<close>: the object has sent \<open>tx\<close> and consumed \<open>rx\<close> on its own
  descriptor and done nothing else, apart from waiting. Steps of a handshake compose by
  concatenation.
\<close>

definition dialogue ::
  "'a hev_socks5_scheme \<Rightarrow> world \<Rightarrow> bytes \<Rightarrow> bytes \<Rightarrow> 'a hev_socks5_scheme \<Rightarrow> world \<Rightarrow> bool" where
  "dialogue self w tx rx self' w' \<longleftrightarrow>
     (self' = self \<or> self' = self\<lparr>timeout := 0\<rparr>) \<and>
     wire w' = (wire w)(fd self := wire w (fd self) @ tx) \<and>
     rx_bytes (rxq w (fd self)) = rx @ rx_bytes (rxq w' (fd self)) \<and>
     (\<forall>g. g \<noteq> fd self \<longrightarrow> rxq w' g = rxq w g \<and> txq w' g = txq w g) \<and>
     (tx_flows (txq w (fd self)) \<longrightarrow> tx_flows (txq w' (fd self))) \<and>
     sys w' = sys w \<and> opened w' = opened w \<and> peer w' = peer w \<and> allocs w' = allocs w \<and>
     live w' = live w \<and> crashed w' = crashed w"

lemma dialogueD:
  assumes "dialogue self w tx rx self' w'"
  shows "fd self' = fd self" "stype self' = stype self" "udp_associated self' = udp_associated self"
    "addr_family self' = addr_family self" "hev_socks5.more self' = hev_socks5.more self"
    "timeout self = 0 \<Longrightarrow> timeout self' = 0"
    "wire w' (fd self) = wire w (fd self) @ tx"
    "rx_bytes (rxq w (fd self)) = rx @ rx_bytes (rxq w' (fd self))"
    "tx_flows (txq w (fd self)) \<Longrightarrow> tx_flows (txq w' (fd self))"
    "sys w' = sys w" "opened w' = opened w" "peer w' = peer w" "allocs w' = allocs w"
    "live w' = live w" "crashed w' = crashed w"
    "self' = self \<or> self' = self\<lparr>timeout := 0\<rparr>"
  using assms by (auto simp: dialogue_def)

lemma dialogue_refl [simp, intro]: "dialogue self w [] [] self w"
  by (simp add: dialogue_def)

lemma dialogue_trans:
  "dialogue s w tx rx s' w' \<Longrightarrow> dialogue s' w' tx' rx' s'' w'' \<Longrightarrow>
   dialogue s w (tx @ tx') (rx @ rx') s'' w''"
  by (auto simp: dialogue_def)

lemma waited_dialogue:
  assumes "waited s w s' w1"
  shows "rx_bytes (rxq w (fd s)) = rx @ rx_bytes es \<Longrightarrow>
      dialogue s w [] rx s' (w1\<lparr>rxq := (rxq w1)(fd s := es)\<rparr>)"
    and "(tx_flows (txq w (fd s)) \<Longrightarrow> tx_flows es') \<Longrightarrow>
      dialogue s w tx [] s' (w1\<lparr>txq := (txq w1)(fd s := es'),
        wire := (wire w)(fd s := wire w (fd s) @ tx)\<rparr>)"
  using assms waited_fields [OF assms]
  by (auto simp: dialogue_def waited_def)

lemma recv_dialogue:
  assumes "hev_task_io_socket_recv (fd self) n True dw hev_socks5_task_io_yielder self w =
    (r, bs, self', w')"
  shows "dialogue self w [] bs self' w' \<and> length bs \<le> n \<and> (r = int (length bs) \<or> r < 0 \<and> bs = [])"
  using assms waited_dialogue(1) by (elim recv_waitall) blast

lemma send_loop_suffix:
  "send_loop y True dw buf sz es self w = (p, es', self', w') \<Longrightarrow> \<exists>pre. es = pre @ es'"
proof (induction y "True" dw buf sz es self w arbitrary: p es' self' w' rule: send_loop.induct)
  case (3 y dw buf sz es self w)
  then show ?case by (fastforce split: if_splits prod.splits)
next
  case (4 y dw buf sz m es self w)
  then show ?case by (fastforce simp: Let_def split: if_splits)
qed auto

lemma tx_flows_append [simp]: "tx_flows (as @ bs) \<longleftrightarrow> tx_flows as \<and> tx_flows bs"
  by (auto simp: tx_flows_def)

lemma send_dialogue:
  assumes "hev_task_io_socket_send (fd self) buf True dw hev_socks5_task_io_yielder self w = (r, self', w')"
  obtains n where "dialogue self w (take n buf) [] self' w'" "n \<le> length buf" "r = int n \<or> r < 0 \<and> n = 0"
proof -
  from assms obtain es w1 n where
    l: "send_loop hev_socks5_task_io_yielder True dw buf 0 (txq w (fd self)) self w = ((r, n), es, self', w1)"
    and w': "w' = w1\<lparr>txq := (txq w1)(fd self := es),
      wire := (wire w1)(fd self := wire w1 (fd self) @ take n buf)\<rparr>"
    by (auto simp: hev_task_io_socket_send_def split: prod.splits)
  note wt = send_loop_waited [OF l]
  from wt have e: "wire w1 = wire w" by (rule waited_fields)
  from send_loop_suffix [OF l] have "tx_flows (txq w (fd self)) \<Longrightarrow> tx_flows es" by auto
  then have "dialogue self w (take n buf) [] self' w'"
    unfolding w' e by (rule waited_dialogue(2) [OF wt])
  with send_loop_prefix [OF l] show thesis by (intro that) auto
qed

text \<open>A peer that keeps sending data: a read of \<open>n\<close> bytes is then the first \<open>n\<close> of the stream.\<close>

definition rx_flows :: "recv_ev list \<Rightarrow> bool" where
  "rx_flows es \<longleftrightarrow> (\<forall>e \<in> set es. case e of RData bs \<Rightarrow> bs \<noteq> [] | _ \<Rightarrow> False)"

lemma rx_flows_simps [simp]:
  "rx_flows []" "rx_flows (RData bs # es) \<longleftrightarrow> bs \<noteq> [] \<and> rx_flows es"
  "\<not> rx_flows (RAgain # es)" "\<not> rx_flows (RErr # es)"
  by (auto simp: rx_flows_def)

lemma recv_loop_flows:
  "rx_flows es \<Longrightarrow> length got < n \<Longrightarrow>
   \<exists>es'. recv_loop y True dw n got es self w =
       ((int (length (got @ take (n - length got) (rx_bytes es))), got @ take (n - length got) (rx_bytes es)),
        es', self, w) \<and>
     rx_flows es' \<and> rx_bytes es' = drop (n - length got) (rx_bytes es)"
proof (induction y "True" dw n got es self w rule: recv_loop.induct)
  case (4 y dw n got b es self w)
  define k where "k = min (n - length got) (length b)"
  define rest where "rest = (if k < length b then RData (drop k b) # es else es)"
  have k: "0 < k" "k \<le> length b" using 4(2,3) by (auto simp: k_def)
  have e: "recv_loop y True dw n got (RData b # es) self w =
      (if length (got @ take k b) < n then recv_loop y True dw n (got @ take k b) es self w
       else ((int (length (got @ take k b)), got @ take k b), rest, self, w))"
    by (simp only: recv_loop.simps Let_def k_def [symmetric] rest_def [symmetric]
        not_True_eq_False if_False) (use k in simp)
  show ?case
  proof (cases "length (got @ take k b) < n")
    case True
    then have kb: "k = length b" using k by (auto simp: k_def)
    from 4(1) [OF k_def refl refl _ _ _ _ True] 4(2) True k kb show ?thesis
      unfolding e by (auto simp: take_Cons' algebra_simps)
  next
    case False
    then have "n - length got \<le> length b" and kn: "k = n - length got"
      using k 4(3) by (auto simp: k_def)
    then show ?thesis unfolding e using False 4(2) by (auto simp: rest_def)
  qed
qed auto

lemma recv_flows:
  assumes "rx_flows (rxq w f)" "0 < n"
  obtains es where "rx_flows es" "rx_bytes es = drop n (rx_bytes (rxq w f))"
    "hev_task_io_socket_recv f n True dw y self w =
       (int (length (take n (rx_bytes (rxq w f)))), take n (rx_bytes (rxq w f)), self,
        w\<lparr>rxq := (rxq w)(f := es)\<rparr>)"
  using recv_loop_flows [OF assms(1), of "[]" n y dw self w] assms(2)
  by (auto simp: hev_task_io_socket_recv_def)

text \<open>
  What a read does depends only on the timeout of the object, on the events of its descriptor and
  on the pending wake-ups.
\<close>

definition rx_sim :: "'a hev_socks5_scheme \<Rightarrow> world \<Rightarrow> 'a hev_socks5_scheme \<Rightarrow> world \<Rightarrow> bool" where
  "rx_sim s w t v \<longleftrightarrow>
     fd t = fd s \<and> timeout t = timeout s \<and> yields v = yields w \<and> rxq v (fd s) = rxq w (fd s)"

lemma task_switch_sim:
  assumes "timeout t = timeout s" "yields v = yields w"
  shows "fst (task_switch t v) = fst (task_switch s w)"
    and "timeout (fst (snd (task_switch t v))) = timeout (fst (snd (task_switch s w)))"
    and "yields (snd (snd (task_switch t v))) = yields (snd (snd (task_switch s w)))"
  using assms by (auto simp: task_switch_def hev_socks5_set_timeout_def split: list.splits)

lemma yielder_sim:
  assumes e: "timeout t = timeout s" "yields v = yields w"
    and y: "hev_socks5_task_io_yielder k s w = (r, s', w')"
  obtains t' v' where "hev_socks5_task_io_yielder k t v = (r, t', v')"
    "timeout t' = timeout s'" "yields v' = yields w'"
proof -
  have "fst (hev_socks5_task_io_yielder k t v) = fst (hev_socks5_task_io_yielder k s w) \<and>
    timeout (fst (snd (hev_socks5_task_io_yielder k t v))) =
      timeout (fst (snd (hev_socks5_task_io_yielder k s w))) \<and>
    yields (snd (snd (hev_socks5_task_io_yielder k t v))) =
      yields (snd (snd (hev_socks5_task_io_yielder k s w)))"
    using task_switch_sim [OF e] e
    by (auto simp: hev_socks5_task_io_yielder_def hev_task_sleep_def case_prod_unfold Let_def)
  with y show thesis by (cases "hev_socks5_task_io_yielder k t v") (auto intro: that)
qed

lemma recv_loop_sim:
  "recv_loop hev_socks5_task_io_yielder wa dw n got es s w = (p, es', s', w') \<Longrightarrow>
   timeout t = timeout s \<Longrightarrow> yields v = yields w \<Longrightarrow>
   \<exists>t' v'. recv_loop hev_socks5_task_io_yielder wa dw n got es t v = (p, es', t', v') \<and>
     timeout t' = timeout s' \<and> yields v' = yields w'"
proof (induction "hev_socks5_task_io_yielder :: 'a hev_socks5_scheme yielder" wa dw n got es s w
    arbitrary: p es' s' w' t v rule: recv_loop.induct)
  case (3 wa dw n got es s w)
  show ?case
  proof (cases dw)
    case True
    with 3(2-) show ?thesis by auto
  next
    case False
    obtain r s1 w1 where y: "hev_socks5_task_io_yielder HEV_TASK_WAITIO s w = (r, s1, w1)"
      by (metis prod_cases3)
    from yielder_sim [OF 3(3,4) y] obtain t1 v1 where
      t: "hev_socks5_task_io_yielder HEV_TASK_WAITIO t v = (r, t1, v1)"
        "timeout t1 = timeout s1" "yields v1 = yields w1" by blast
    show ?thesis
    proof (cases "r = 0")
      case True
      with 3(2) y False have "recv_loop hev_socks5_task_io_yielder wa dw n got es s1 w1 = (p, es', s', w')"
        by simp
      from 3(1) [OF False y [symmetric] refl refl _ this t(2,3)] True False t(1) show ?thesis by simp
    next
      case nz: False
      with 3(2) y False t show ?thesis by auto
    qed
  qed
next
  case (4 wa dw n got b es s w)
  show ?case
    using 4(1) [OF refl refl refl _ _ _ _ 4(3,4)] 4(2-4)
    by (auto simp: Let_def split: if_splits)
qed auto

lemma recv_sim:
  assumes "rx_sim s w t v"
    "hev_task_io_socket_recv (fd s) n wa dw hev_socks5_task_io_yielder s w = (r, bs, s', w')"
  obtains t' v' where "hev_task_io_socket_recv (fd t) n wa dw hev_socks5_task_io_yielder t v = (r, bs, t', v')"
    "rx_sim s' w' t' v'"
proof -
  from assms(2) obtain es w1 where
    l: "recv_loop hev_socks5_task_io_yielder wa dw n [] (rxq w (fd s)) s w = ((r, bs), es, s', w1)"
    and w': "w' = w1\<lparr>rxq := (rxq w1)(fd s := es)\<rparr>"
    by (auto simp: hev_task_io_socket_recv_def split: prod.splits)
  from assms(1) have e: "timeout t = timeout s" "yields v = yields w" "fd t = fd s"
    "rxq v (fd s) = rxq w (fd s)" by (auto simp: rx_sim_def)
  from recv_loop_sim [OF l e(1,2)] obtain t' v1 where
    l2: "recv_loop hev_socks5_task_io_yielder wa dw n [] (rxq w (fd s)) t v = ((r, bs), es, t', v1)"
    and e2: "timeout t' = timeout s'" "yields v1 = yields w1" by blast
  have "fd s' = fd s" "fd t' = fd t"
    using recv_loop_waited [OF l] recv_loop_waited [OF l2] waited_fields(1) by blast+
  then show thesis
    using that [of t' "v1\<lparr>rxq := (rxq v1)(fd t := es)\<rparr>"] l2 e e2 w'
    by (simp add: hev_task_io_socket_recv_def rx_sim_def)
qed

end
