(* ===== verification/RBTree.thy ===== *)
theory RBTree
  imports Prelude
begin

text \<open>
  The intrusive red-black tree of \<open>core/src/hev-rbtree.c\<close>, on a heap of nodes. A node is an
  address; \<open>__parent_color\<close>, a pointer with the colour in its low bit, is the pair of
  \<open>pc_parent\<close> and \<open>pc_color\<close>. An operation returns \<open>None\<close> where the code would dereference
  \<open>NULL\<close> or run forever, so a result is a proof of memory safety and of termination.

  Every rebalancing branch of the code exists twice, once for each side, as a mirror image. The
  model has the side as a parameter: \<open>d\<close> is the side of the parent (or of the node), \<open>opp d\<close>
  the other one; the comments of the code describe \<open>d = LEFT\<close>.
\<close>

section \<open>State\<close>

datatype color = HEV_RBTREE_RED | HEV_RBTREE_BLACK
datatype side = LEFT | RIGHT

primrec opp :: "side \<Rightarrow> side" where
  "opp LEFT = RIGHT"
| "opp RIGHT = LEFT"

record rbtree =
  root :: ptr
  pc_parent :: "addr \<Rightarrow> ptr"
  pc_color :: "addr \<Rightarrow> color"
  child :: "addr \<Rightarrow> side \<Rightarrow> ptr"

definition rb_empty :: rbtree where
  "rb_empty = \<lparr>root = None, pc_parent = (\<lambda>_. None), pc_color = (\<lambda>_. HEV_RBTREE_RED), child = (\<lambda>_ _. None)\<rparr>"

section \<open>Node helpers\<close>

definition hev_rbtree_node_is_red :: "addr \<Rightarrow> rbtree \<Rightarrow> bool" where
  "hev_rbtree_node_is_red n h \<longleftrightarrow> pc_color h n = HEV_RBTREE_RED"

definition hev_rbtree_node_is_black :: "addr \<Rightarrow> rbtree \<Rightarrow> bool" where
  "hev_rbtree_node_is_black n h \<longleftrightarrow> pc_color h n = HEV_RBTREE_BLACK"

definition hev_rbtree_node_empty :: "addr \<Rightarrow> rbtree \<Rightarrow> bool" where
  "hev_rbtree_node_empty n h \<longleftrightarrow> pc_parent h n = Some n \<and> pc_color h n = HEV_RBTREE_RED"

definition hev_rbtree_node_parent :: "addr \<Rightarrow> rbtree \<Rightarrow> ptr" where
  "hev_rbtree_node_parent n h = pc_parent h n"

definition set_child :: "addr \<Rightarrow> side \<Rightarrow> ptr \<Rightarrow> rbtree \<Rightarrow> rbtree" where
  "set_child a d p h = h\<lparr>child := (child h)(a := (child h a)(d := p))\<rparr>"

definition hev_rbtree_node_set_black :: "addr \<Rightarrow> rbtree \<Rightarrow> rbtree" where
  "hev_rbtree_node_set_black n h = h\<lparr>pc_color := (pc_color h)(n := HEV_RBTREE_BLACK)\<rparr>"

definition hev_rbtree_node_set_parent :: "addr \<Rightarrow> ptr \<Rightarrow> rbtree \<Rightarrow> rbtree" where
  "hev_rbtree_node_set_parent n p h = h\<lparr>pc_parent := (pc_parent h)(n := p)\<rparr>"

definition hev_rbtree_node_set_parent_color :: "addr \<Rightarrow> ptr \<Rightarrow> color \<Rightarrow> rbtree \<Rightarrow> rbtree" where
  "hev_rbtree_node_set_parent_color n p c h =
     h\<lparr>pc_parent := (pc_parent h)(n := p), pc_color := (pc_color h)(n := c)\<rparr>"

definition hev_rbtree_change_child :: "addr \<Rightarrow> ptr \<Rightarrow> ptr \<Rightarrow> rbtree \<Rightarrow> rbtree" where
  "hev_rbtree_change_child old new parent h =
     (case parent of
        Some p \<Rightarrow> if child h p LEFT = Some old then set_child p LEFT new h else set_child p RIGHT new h
      | None \<Rightarrow> h\<lparr>root := new\<rparr>)"

definition hev_rbtree_rotate_set_parents :: "addr \<Rightarrow> addr \<Rightarrow> color \<Rightarrow> rbtree \<Rightarrow> rbtree" where
  "hev_rbtree_rotate_set_parents old new c h =
     (let parent = hev_rbtree_node_parent old h;
          h = hev_rbtree_node_set_parent_color new (pc_parent h old) (pc_color h old) h;
          h = hev_rbtree_node_set_parent_color old (Some new) c h
      in hev_rbtree_change_child old (Some new) parent h)"

text \<open>\<open>if (tmp) f (tmp)\<close> and \<open>tmp && is_red (tmp)\<close>.\<close>

definition if_node :: "ptr \<Rightarrow> (addr \<Rightarrow> rbtree \<Rightarrow> rbtree) \<Rightarrow> rbtree \<Rightarrow> rbtree" where
  "if_node p f h = (case p of None \<Rightarrow> h | Some a \<Rightarrow> f a h)"

definition red_ptr :: "ptr \<Rightarrow> rbtree \<Rightarrow> bool" where
  "red_ptr p h = (case p of None \<Rightarrow> False | Some a \<Rightarrow> hev_rbtree_node_is_red a h)"

definition hev_rbtree_node_link :: "addr \<Rightarrow> ptr \<Rightarrow> (addr \<times> side) option \<Rightarrow> rbtree \<Rightarrow> rbtree" where
  "hev_rbtree_node_link node parent link h =
     (let h = hev_rbtree_node_set_parent_color node parent HEV_RBTREE_RED h;
          h = set_child node RIGHT None (set_child node LEFT None h)
      in case link of None \<Rightarrow> h\<lparr>root := Some node\<rparr> | Some (a, d) \<Rightarrow> set_child a d (Some node) h)"

section \<open>Walking\<close>

partial_function (option) rb_descend :: "side \<Rightarrow> addr \<Rightarrow> rbtree \<Rightarrow> addr option" where
  "rb_descend d n h = (case child h n d of None \<Rightarrow> Some n | Some m \<Rightarrow> rb_descend d m h)"

partial_function (option) rb_climb :: "side \<Rightarrow> addr \<Rightarrow> rbtree \<Rightarrow> ptr option" where
  "rb_climb d n h =
     (case pc_parent h n of
        None \<Rightarrow> Some None
      | Some p \<Rightarrow> if child h p d = Some n then rb_climb d p h else Some (Some p))"

definition rb_step :: "side \<Rightarrow> addr \<Rightarrow> rbtree \<Rightarrow> ptr option" where
  "rb_step d n h =
     (if hev_rbtree_node_empty n h then Some None
      else case child h n d of
             Some m \<Rightarrow> map_option Some (rb_descend (opp d) m h)
           | None \<Rightarrow> rb_climb d n h)"

definition hev_rbtree_node_prev :: "addr \<Rightarrow> rbtree \<Rightarrow> ptr option" where
  "hev_rbtree_node_prev n h = rb_step LEFT n h"

definition hev_rbtree_node_next :: "addr \<Rightarrow> rbtree \<Rightarrow> ptr option" where
  "hev_rbtree_node_next n h = rb_step RIGHT n h"

definition hev_rbtree_first :: "rbtree \<Rightarrow> ptr option" where
  "hev_rbtree_first h =
     (case root h of None \<Rightarrow> Some None | Some n \<Rightarrow> map_option Some (rb_descend LEFT n h))"

definition hev_rbtree_last :: "rbtree \<Rightarrow> ptr option" where
  "hev_rbtree_last h =
     (case root h of None \<Rightarrow> Some None | Some n \<Rightarrow> map_option Some (rb_descend RIGHT n h))"

section \<open>Insertion\<close>

text \<open>Case 2 of the code turns the inner grandchild into an outer one, case 3 rotates at the grandparent.\<close>

definition ins_case2 :: "side \<Rightarrow> addr \<Rightarrow> addr \<Rightarrow> rbtree \<Rightarrow> rbtree" where
  "ins_case2 d node p h =
     (let tmp = child h node d;
          h = set_child p (opp d) tmp h;
          h = set_child node d (Some p) h;
          h = if_node tmp (\<lambda>t. hev_rbtree_node_set_parent_color t (Some p) HEV_RBTREE_BLACK) h
      in hev_rbtree_node_set_parent_color p (Some node) HEV_RBTREE_RED h)"

definition ins_case3 :: "side \<Rightarrow> ptr \<Rightarrow> addr \<Rightarrow> addr \<Rightarrow> rbtree \<Rightarrow> rbtree" where
  "ins_case3 d tmp p g h =
     (let h = set_child g d tmp h;
          h = set_child p (opp d) (Some g) h;
          h = if_node tmp (\<lambda>t. hev_rbtree_node_set_parent_color t (Some g) HEV_RBTREE_BLACK) h
      in hev_rbtree_rotate_set_parents g p HEV_RBTREE_RED h)"

partial_function (option) insert_loop :: "addr \<Rightarrow> ptr \<Rightarrow> rbtree \<Rightarrow> rbtree option" where
  "insert_loop node parent h =
     (case parent of
        None \<Rightarrow> Some (hev_rbtree_node_set_parent_color node None HEV_RBTREE_BLACK h)
      | Some p \<Rightarrow>
          if hev_rbtree_node_is_black p h then Some h
          else (case pc_parent h p of
             None \<Rightarrow> None
           | Some g \<Rightarrow>
               let d = (if child h g RIGHT \<noteq> Some p then LEFT else RIGHT);
                   tmp = child h g (opp d) in
               if red_ptr tmp h then
                 let h = if_node tmp (\<lambda>t. hev_rbtree_node_set_parent_color t (Some g) HEV_RBTREE_BLACK) h;
                     h = hev_rbtree_node_set_parent_color p (Some g) HEV_RBTREE_BLACK h;
                     parent = hev_rbtree_node_parent g h;
                     h = hev_rbtree_node_set_parent_color g parent HEV_RBTREE_RED h
                 in insert_loop g parent h
               else
                 let tmp = child h p (opp d) in
                 if tmp = Some node then
                   let h = ins_case2 d node p h in
                   Some (ins_case3 d (child h node (opp d)) node g h)
                 else Some (ins_case3 d tmp p g h)))"

definition hev_rbtree_insert_color :: "addr \<Rightarrow> rbtree \<Rightarrow> rbtree option" where
  "hev_rbtree_insert_color node h = insert_loop node (pc_parent h node) h"

section \<open>Removal\<close>

partial_function (option) find_successor :: "addr \<Rightarrow> addr \<Rightarrow> rbtree \<Rightarrow> (addr \<times> addr) option" where
  "find_successor parent successor h =
     (case child h successor LEFT of
        None \<Rightarrow> Some (parent, successor)
      | Some t \<Rightarrow> find_successor successor t h)"

text \<open>\<open>_hev_rbtree_erase\<close>: unlink the node and say where to rebalance.\<close>

definition rb_unlink :: "addr \<Rightarrow> rbtree \<Rightarrow> (ptr \<times> rbtree) option" where
  "rb_unlink node h =
     (case child h node LEFT of
        None \<Rightarrow>
          let ch = child h node RIGHT;
              parent = pc_parent h node;
              c = pc_color h node;
              h = hev_rbtree_change_child node ch parent h
          in (case ch of
                Some x \<Rightarrow> Some (None, hev_rbtree_node_set_parent_color x parent c h)
              | None \<Rightarrow> Some (if c = HEV_RBTREE_BLACK then parent else None, h))
      | Some tmp \<Rightarrow>
          (case child h node RIGHT of
             None \<Rightarrow>
               let parent = pc_parent h node;
                   h = hev_rbtree_node_set_parent_color tmp parent (pc_color h node) h
               in Some (None, hev_rbtree_change_child node (Some tmp) parent h)
           | Some ch \<Rightarrow>
               (case (case child h ch LEFT of
                        None \<Rightarrow> Some (ch, ch, child h ch RIGHT, h)
                      | Some t \<Rightarrow>
                          (case find_successor ch t h of
                             None \<Rightarrow> None
                           | Some (parent, successor) \<Rightarrow>
                               let child2 = child h successor RIGHT;
                                   h = set_child parent LEFT child2 h;
                                   h = set_child successor RIGHT (Some ch) h;
                                   h = hev_rbtree_node_set_parent ch (Some successor) h
                               in Some (parent, successor, child2, h))) of
                  None \<Rightarrow> None
                | Some (parent, successor, child2, h) \<Rightarrow>
                    let h = set_child successor LEFT (Some tmp) h;
                        h = hev_rbtree_node_set_parent tmp (Some successor) h;
                        pp = pc_parent h node;
                        c = pc_color h node;
                        h = hev_rbtree_change_child node (Some successor) pp h;
                        (rebalance, h) =
                          (case child2 of
                             Some x \<Rightarrow> (None, hev_rbtree_node_set_parent_color x (Some parent) HEV_RBTREE_BLACK h)
                           | None \<Rightarrow> (if hev_rbtree_node_is_black successor h then Some parent else None, h))
                    in Some (rebalance, hev_rbtree_node_set_parent_color successor pp c h))))"

definition del_case1 :: "side \<Rightarrow> addr \<Rightarrow> addr \<Rightarrow> addr \<Rightarrow> rbtree \<Rightarrow> rbtree" where
  "del_case1 d parent sibling tmp1 h =
     (let h = set_child parent (opp d) (Some tmp1) h;
          h = set_child sibling d (Some parent) h;
          h = hev_rbtree_node_set_parent_color tmp1 (Some parent) HEV_RBTREE_BLACK h
      in hev_rbtree_rotate_set_parents parent sibling HEV_RBTREE_RED h)"

definition del_case3 :: "side \<Rightarrow> addr \<Rightarrow> addr \<Rightarrow> addr \<Rightarrow> rbtree \<Rightarrow> rbtree" where
  "del_case3 d parent sibling tmp2 h =
     (let tmp1 = child h tmp2 (opp d);
          h = set_child sibling d tmp1 h;
          h = set_child tmp2 (opp d) (Some sibling) h;
          h = set_child parent (opp d) (Some tmp2) h
      in if_node tmp1 (\<lambda>t. hev_rbtree_node_set_parent_color t (Some sibling) HEV_RBTREE_BLACK) h)"

definition del_case4 :: "side \<Rightarrow> addr \<Rightarrow> addr \<Rightarrow> addr \<Rightarrow> rbtree \<Rightarrow> rbtree" where
  "del_case4 d parent sibling tmp1 h =
     (let tmp2 = child h sibling d;
          h = set_child parent (opp d) tmp2 h;
          h = set_child sibling d (Some parent) h;
          h = hev_rbtree_node_set_parent_color tmp1 (Some sibling) HEV_RBTREE_BLACK h;
          h = if_node tmp2 (\<lambda>t. hev_rbtree_node_set_parent t (Some parent)) h
      in hev_rbtree_rotate_set_parents parent sibling HEV_RBTREE_BLACK h)"

text \<open>
  The rest of a round, once the sibling is black; the flag says that the parent, now the root of a
  subtree that lacks a black node, is the next \<open>node\<close>.
\<close>

definition del_rest :: "side \<Rightarrow> addr \<Rightarrow> addr \<Rightarrow> rbtree \<Rightarrow> (rbtree \<times> bool) option" where
  "del_rest d parent sibling h =
     (let tmp1 = child h sibling (opp d) in
      if \<not> red_ptr tmp1 h then
        let tmp2 = child h sibling d in
        if \<not> red_ptr tmp2 h then
          let h = hev_rbtree_node_set_parent_color sibling (Some parent) HEV_RBTREE_RED h in
          if hev_rbtree_node_is_red parent h then Some (hev_rbtree_node_set_black parent h, False)
          else Some (h, True)
        else (case tmp2 of
             None \<Rightarrow> None
           | Some t2 \<Rightarrow> Some (del_case4 d parent t2 sibling (del_case3 d parent sibling t2 h), False))
      else (case tmp1 of
             None \<Rightarrow> None
           | Some t1 \<Rightarrow> Some (del_case4 d parent sibling t1 h, False)))"

partial_function (option) erase_color_loop :: "ptr \<Rightarrow> addr \<Rightarrow> rbtree \<Rightarrow> rbtree option" where
  "erase_color_loop node parent h =
     (let d = (if node \<noteq> child h parent RIGHT then LEFT else RIGHT) in
      case child h parent (opp d) of
        None \<Rightarrow> None
      | Some sibling \<Rightarrow>
          (case (if hev_rbtree_node_is_red sibling h then
                   (case child h sibling d of
                      None \<Rightarrow> None
                    | Some tmp1 \<Rightarrow> Some (tmp1, del_case1 d parent sibling tmp1 h))
                 else Some (sibling, h)) of
             None \<Rightarrow> None
           | Some (sibling, h) \<Rightarrow>
               (case del_rest d parent sibling h of
                  None \<Rightarrow> None
                | Some (h, again) \<Rightarrow>
                    if again then
                      (case hev_rbtree_node_parent parent h of
                         None \<Rightarrow> Some h
                       | Some p \<Rightarrow> erase_color_loop (Some parent) p h)
                    else Some h)))"

definition hev_rbtree_erase :: "addr \<Rightarrow> rbtree \<Rightarrow> rbtree option" where
  "hev_rbtree_erase node h =
     (case rb_unlink node h of
        None \<Rightarrow> None
      | Some (None, h) \<Rightarrow> Some h
      | Some (Some parent, h) \<Rightarrow> erase_color_loop None parent h)"

definition hev_rbtree_replace :: "addr \<Rightarrow> addr \<Rightarrow> rbtree \<Rightarrow> rbtree" where
  "hev_rbtree_replace victim new h =
     (let parent = hev_rbtree_node_parent victim h;
          h = h\<lparr>pc_parent := (pc_parent h)(new := pc_parent h victim),
                pc_color := (pc_color h)(new := pc_color h victim),
                child := (child h)(new := child h victim)\<rparr>;
          h = if_node (child h victim LEFT) (\<lambda>c. hev_rbtree_node_set_parent c (Some new)) h;
          h = if_node (child h victim RIGHT) (\<lambda>c. hev_rbtree_node_set_parent c (Some new)) h
      in hev_rbtree_change_child victim (Some new) parent h)"

end
