(* ===== verification/RBTree_Zip.thy ===== *)
theory RBTree_Zip
  imports RBTree
begin

text \<open>
  What the pointer code of \<open>RBTree\<close> computes, on trees as values. A position in a tree is a
  zipper: the subtree below it and the path up, a list of frames. The two rebalancing loops of the
  code walk up a zipper; here they are the functions \<open>ins_fix\<close> and \<open>del_fix\<close>, with the proof that
  they keep the order of the nodes and restore the red-black invariant.
\<close>

section \<open>Trees and zippers\<close>

datatype rtree = Leaf | Node color rtree addr rtree

fun mk :: "side \<Rightarrow> color \<Rightarrow> rtree \<Rightarrow> addr \<Rightarrow> rtree \<Rightarrow> rtree" where
  "mk LEFT c t a s = Node c t a s"
| "mk RIGHT c t a s = Node c s a t"

fun tcolor :: "rtree \<Rightarrow> color" where
  "tcolor Leaf = HEV_RBTREE_BLACK"
| "tcolor (Node c l a r) = c"

fun paint :: "color \<Rightarrow> rtree \<Rightarrow> rtree" where
  "paint c Leaf = Leaf"
| "paint c (Node _ l a r) = Node c l a r"

fun sub :: "side \<Rightarrow> rtree \<Rightarrow> rtree" where
  "sub d Leaf = Leaf"
| "sub LEFT (Node c l a r) = l"
| "sub RIGHT (Node c l a r) = r"

fun key :: "rtree \<Rightarrow> ptr" where
  "key Leaf = None"
| "key (Node c l a r) = Some a"

primrec inorder :: "rtree \<Rightarrow> addr list" where
  "inorder Leaf = []"
| "inorder (Node c l a r) = inorder l @ a # inorder r"

datatype frame = Frame side color addr rtree

primrec plug :: "frame list \<Rightarrow> rtree \<Rightarrow> rtree" where
  "plug [] t = t"
| "plug (f # fs) t = (case f of Frame d c a s \<Rightarrow> plug fs (mk d c t a s))"

primrec before :: "frame list \<Rightarrow> addr list" where
  "before [] = []"
| "before (f # fs) = (case f of Frame d c a s \<Rightarrow>
     before fs @ (if d = LEFT then [] else inorder s @ [a]))"

primrec after :: "frame list \<Rightarrow> addr list" where
  "after [] = []"
| "after (f # fs) = (case f of Frame d c a s \<Rightarrow>
     (if d = LEFT then a # inorder s else []) @ after fs)"

lemma inorder_mk: "inorder (mk d c t a s) =
  (if d = LEFT then inorder t @ a # inorder s else inorder s @ a # inorder t)"
  by (cases d) simp_all

lemma inorder_plug: "inorder (plug fs t) = before fs @ inorder t @ after fs"
  by (induction fs arbitrary: t) (auto simp: inorder_mk split: frame.split)

lemma inorder_paint [simp]: "inorder (paint c t) = inorder t"
  by (cases t) simp_all

lemma plug_append: "plug (fs @ gs) t = plug gs (plug fs t)"
  by (induction fs arbitrary: t) (auto split: frame.split)

lemma opp_opp [simp]: "opp (opp d) = d"
  by (cases d) simp_all

lemma opp_neq [simp]: "opp d \<noteq> d" "d \<noteq> opp d"
  by (cases d; simp)+

lemma opp_eq_iff: "e = opp d \<longleftrightarrow> e \<noteq> d"
  by (cases d; cases e) simp_all

lemma mk_opp: "mk (opp d) c t a s = mk d c s a t"
  by (cases d) simp_all

lemma sub_mk [simp]: "sub d (mk d c t a s) = t" "sub (opp d) (mk d c t a s) = s"
  by (cases d; simp)+

lemma mk_sub: "t = Node c l a r \<Longrightarrow> mk d c (sub d t) a (sub (opp d) t) = t"
  by (cases d) simp_all

lemma tcolor_mk [simp]: "tcolor (mk d c t a s) = c"
  by (cases d) simp_all

lemma key_mk [simp]: "key (mk d c t a s) = Some a"
  by (cases d) simp_all

lemma paint_mk [simp]: "paint c (mk d c' t a s) = mk d c t a s"
  by (cases d) simp_all

lemma mk_not_Leaf [simp]: "mk d c t a s \<noteq> Leaf" "Leaf \<noteq> mk d c t a s"
  by (cases d; simp)+

lemma key_None [simp]: "key t = None \<longleftrightarrow> t = Leaf"
  by (cases t) simp_all

lemma key_paint [simp]: "key (paint c t) = key t"
  by (cases t) simp_all

lemma tcolor_paint: "t \<noteq> Leaf \<Longrightarrow> tcolor (paint c t) = c"
  by (cases t) simp_all

lemma paint_id: "tcolor t = c \<Longrightarrow> paint c t = t"
  by (cases t) simp_all

lemma node_mk_cases:
  obtains "t = Leaf" | c a l r where "t = mk d c l a r"
  using mk_sub by (cases t) metis+

section \<open>The loops on zippers\<close>

text \<open>A node that is neither the root nor below a black parent: the branches of the insertion loop.\<close>

fun ins_fix :: "frame list \<Rightarrow> rtree \<Rightarrow> rtree" where
  "ins_fix [] t = paint HEV_RBTREE_BLACK t"
| "ins_fix (Frame e HEV_RBTREE_BLACK p s # fs) t = plug (Frame e HEV_RBTREE_BLACK p s # fs) t"
| "ins_fix [Frame e HEV_RBTREE_RED p s] t = mk e HEV_RBTREE_RED t p s"
| "ins_fix (Frame e HEV_RBTREE_RED p s # Frame d c g u # fs) t =
     (if tcolor u = HEV_RBTREE_RED then
        ins_fix fs (mk d HEV_RBTREE_RED (mk e HEV_RBTREE_BLACK t p s) g (paint HEV_RBTREE_BLACK u))
      else if e \<noteq> d then
        (case t of Leaf \<Rightarrow> Leaf
         | Node _ _ n _ \<Rightarrow> plug fs (mk d c (mk d HEV_RBTREE_RED s p (paint HEV_RBTREE_BLACK (sub d t))) n
              (mk d HEV_RBTREE_RED (paint HEV_RBTREE_BLACK (sub (opp d) t)) g u)))
      else plug fs (mk d c t p (mk d HEV_RBTREE_RED (paint HEV_RBTREE_BLACK s) g u)))"

text \<open>The second half of a round of the removal loop; the sibling is black.\<close>

fun del_sib :: "side \<Rightarrow> color \<Rightarrow> addr \<Rightarrow> rtree \<Rightarrow> rtree \<Rightarrow> rtree + rtree" where
  "del_sib d c p Leaf t = Inl (mk d c t p Leaf)"
| "del_sib d c p (Node cs l s r) t =
     (let x = sub d (Node cs l s r); y = sub (opp d) (Node cs l s r) in
      if tcolor y \<noteq> HEV_RBTREE_RED then
        if tcolor x \<noteq> HEV_RBTREE_RED then
          let sib = mk d HEV_RBTREE_RED x s y in
          if c = HEV_RBTREE_RED then Inl (mk d HEV_RBTREE_BLACK t p sib) else Inr (mk d c t p sib)
        else (case x of Leaf \<Rightarrow> Inl Leaf
          | Node _ _ xn _ \<Rightarrow> Inl (mk d c (mk d HEV_RBTREE_BLACK t p (sub d x)) xn
                (mk d HEV_RBTREE_BLACK (paint HEV_RBTREE_BLACK (sub (opp d) x)) s y)))
      else Inl (mk d c (mk d HEV_RBTREE_BLACK t p x) s (paint HEV_RBTREE_BLACK y)))"

primrec del_fix :: "frame list \<Rightarrow> rtree \<Rightarrow> rtree" where
  "del_fix [] t = t"
| "del_fix (f # fs) t = (case f of Frame d c p sib \<Rightarrow>
     (case sib of
        Leaf \<Rightarrow> plug fs (mk d c t p Leaf)
      | Node cs l s r \<Rightarrow>
          if cs = HEV_RBTREE_RED then
            (case del_sib d HEV_RBTREE_RED p (paint HEV_RBTREE_BLACK (sub d sib)) t of
               Inl u \<Rightarrow> plug fs (mk d c u s (sub (opp d) sib))
             | Inr u \<Rightarrow> plug fs (mk d c u s (sub (opp d) sib)))
          else (case del_sib d c p sib t of Inl u \<Rightarrow> plug fs u | Inr u \<Rightarrow> del_fix fs u)))"

section \<open>Order\<close>

lemma inorder_sub:
  "inorder (Node c l a r) = (if d = LEFT then inorder (sub d (Node c l a r)) @ a # inorder (sub (opp d) (Node c l a r))
     else inorder (sub (opp d) (Node c l a r)) @ a # inorder (sub d (Node c l a r)))"
  by (cases d) simp_all

lemma inorder_ins_fix:
  "t \<noteq> Leaf \<Longrightarrow> inorder (ins_fix fs t) = before fs @ inorder t @ after fs"
proof (induction fs t rule: ins_fix.induct)
  case (4 e p s d c g u fs t)
  show ?case
    using 4 by (cases t; cases d; cases e) (auto simp: inorder_plug split: if_splits)
qed (auto simp: inorder_plug inorder_mk split: frame.split side.splits)

lemma inorder_del_sib:
  "(case del_sib d c p sib t of Inl u \<Rightarrow> inorder u | Inr u \<Rightarrow> inorder u) = inorder (mk d c t p sib)"
  by (cases sib; cases d) (auto simp: Let_def split: rtree.split)

lemma inorder_del_fix:
  "inorder (del_fix fs t) = before fs @ inorder t @ after fs"
proof (induction fs arbitrary: t)
  case (Cons f fs)
  obtain d c p sib where f: "f = Frame d c p sib" by (cases f)
  show ?case
  proof (cases sib)
    case Leaf
    with f show ?thesis by (cases d) (auto simp: inorder_plug)
  next
    case (Node cs l s r)
    show ?thesis
      using f Node Cons.IH inorder_del_sib [of d HEV_RBTREE_RED p "paint HEV_RBTREE_BLACK (sub d sib)" t]
        inorder_del_sib [of d c p sib t]
      by (cases d) (auto simp: inorder_plug split: sum.splits)
  qed
qed simp

section \<open>The red-black invariant\<close>

text \<open>
  The properties 4) and 5) of the code's comments: no red node has a red child, and all paths to a
  leaf have the same number of black nodes, \<open>n\<close>.
\<close>

fun no_red_red :: "rtree \<Rightarrow> bool" where
  "no_red_red Leaf = True"
| "no_red_red (Node c l a r) =
     ((c = HEV_RBTREE_RED \<longrightarrow> tcolor l \<noteq> HEV_RBTREE_RED \<and> tcolor r \<noteq> HEV_RBTREE_RED) \<and>
      no_red_red l \<and> no_red_red r)"

fun blacks :: "rtree \<Rightarrow> nat \<Rightarrow> bool" where
  "blacks Leaf n = (n = 0)"
| "blacks (Node HEV_RBTREE_RED l a r) n = (blacks l n \<and> blacks r n)"
| "blacks (Node HEV_RBTREE_BLACK l a r) n = (n \<noteq> 0 \<and> blacks l (n - 1) \<and> blacks r (n - 1))"

definition rb_tree :: "rtree \<Rightarrow> bool" where
  "rb_tree t \<longleftrightarrow> no_red_red t \<and> tcolor t = HEV_RBTREE_BLACK \<and> (\<exists>n. blacks t n)"

text \<open>A place where any black-rooted tree with \<open>n\<close> blacks fits.\<close>

fun fits :: "frame list \<Rightarrow> nat \<Rightarrow> bool" where
  "fits [] n = True"
| "fits (Frame d HEV_RBTREE_BLACK a s # fs) n = (no_red_red s \<and> blacks s n \<and> fits fs (Suc n))"
| "fits [Frame d HEV_RBTREE_RED a s] n = False"
| "fits (Frame d HEV_RBTREE_RED a s # Frame e c b u # fs) n =
     (no_red_red s \<and> tcolor s = HEV_RBTREE_BLACK \<and> blacks s n \<and> c = HEV_RBTREE_BLACK \<and>
      fits (Frame e c b u # fs) n)"

definition red_fits :: "frame list \<Rightarrow> bool" where
  "red_fits fs = (case fs of [] \<Rightarrow> False | Frame d c a s # _ \<Rightarrow> c = HEV_RBTREE_BLACK)"

lemma color_neq [simp]:
  "c \<noteq> HEV_RBTREE_RED \<longleftrightarrow> c = HEV_RBTREE_BLACK"
  "HEV_RBTREE_RED \<noteq> c \<longleftrightarrow> c = HEV_RBTREE_BLACK"
  by (cases c; simp)+

lemma no_red_red_mk: "no_red_red (mk d c t a s) \<longleftrightarrow>
  (c = HEV_RBTREE_RED \<longrightarrow> tcolor t = HEV_RBTREE_BLACK \<and> tcolor s = HEV_RBTREE_BLACK) \<and>
  no_red_red t \<and> no_red_red s"
  by (cases d) auto

lemma blacks_mk: "blacks (mk d c t a s) n \<longleftrightarrow>
  (if c = HEV_RBTREE_RED then blacks t n \<and> blacks s n else n \<noteq> 0 \<and> blacks t (n - 1) \<and> blacks s (n - 1))"
  by (cases d; cases c) auto

lemmas rb_mk_simps [simp] = no_red_red_mk blacks_mk

lemma no_red_red_paint [simp]: "no_red_red t \<Longrightarrow> no_red_red (paint HEV_RBTREE_BLACK t)"
  by (cases t) auto

lemma tcolor_paint_black [simp]: "tcolor (paint HEV_RBTREE_BLACK t) = HEV_RBTREE_BLACK"
  by (cases t) auto

lemma blacks_paint: "blacks t n \<Longrightarrow> tcolor t = HEV_RBTREE_RED \<Longrightarrow> blacks (paint HEV_RBTREE_BLACK t) (Suc n)"
  by (cases t) auto

lemma rb_plug:
  "fits fs n \<Longrightarrow> no_red_red t \<Longrightarrow> blacks t n \<Longrightarrow> tcolor t = HEV_RBTREE_BLACK \<or> red_fits fs \<Longrightarrow>
   rb_tree (plug fs t)"
proof (induction fs n arbitrary: t rule: fits.induct)
  case (2 d a s fs n)
  then show ?case by (cases d) (auto simp: red_fits_def)
next
  case (4 d a s e c b u fs n)
  then show ?case by (cases d) (auto simp: red_fits_def)
qed (auto simp: rb_tree_def red_fits_def)

lemma fits_frame:
  "fits (Frame d c a s # fs) n \<longleftrightarrow> no_red_red s \<and> blacks s n \<and>
     (if c = HEV_RBTREE_BLACK then fits fs (Suc n)
      else tcolor s = HEV_RBTREE_BLACK \<and> red_fits fs \<and> fits fs n)"
  by (cases c; cases fs) (auto simp: red_fits_def split: frame.splits)

text \<open>Every position of a red-black tree fits its subtree.\<close>

lemma plug_fits:
  "rb_tree (plug fs t) \<Longrightarrow>
   no_red_red t \<and> (\<exists>n. blacks t n \<and> fits fs n) \<and> (tcolor t = HEV_RBTREE_BLACK \<or> red_fits fs)"
proof (induction fs arbitrary: t)
  case Nil
  then show ?case by (auto simp: rb_tree_def)
next
  case (Cons f fs)
  obtain d c a s where f: "f = Frame d c a s" by (cases f)
  with Cons.prems Cons.IH [of "mk d c t a s"] obtain n where
    n: "no_red_red (mk d c t a s)" "blacks (mk d c t a s) n" "fits fs n"
      "c = HEV_RBTREE_BLACK \<or> red_fits fs" by auto
  show ?case
  proof (cases c)
    case HEV_RBTREE_RED
    with n f show ?thesis by (auto simp: fits_frame red_fits_def intro: exI [of _ n])
  next
    case HEV_RBTREE_BLACK
    with n f show ?thesis by (auto simp: fits_frame red_fits_def intro: exI [of _ "n - 1"])
  qed
qed

lemma rb_ins_fix:
  "fits fs n \<Longrightarrow> no_red_red t \<Longrightarrow> blacks t n \<Longrightarrow> tcolor t = HEV_RBTREE_RED \<Longrightarrow> rb_tree (ins_fix fs t)"
proof (induction fs t arbitrary: n rule: ins_fix.induct)
  case (1 t)
  then show ?case using blacks_paint by (auto simp: rb_tree_def)
next
  case (2 e p s fs t)
  then have "rb_tree (plug (Frame e HEV_RBTREE_BLACK p s # fs) t)"
    by (intro rb_plug) (auto simp: red_fits_def)
  then show ?case by simp
next
  case (4 e p s d c g u fs t)
  from 4(2) have f: "c = HEV_RBTREE_BLACK" "no_red_red s" "tcolor s = HEV_RBTREE_BLACK" "blacks s n"
    "no_red_red u" "blacks u n" "fits fs (Suc n)" by (auto simp: fits_frame red_fits_def)
  have ps: "paint HEV_RBTREE_BLACK s = s" using f(3) by (rule paint_id)
  show ?case
  proof (cases "tcolor u = HEV_RBTREE_RED")
    case True
    have "rb_tree (ins_fix fs (mk d HEV_RBTREE_RED (mk e HEV_RBTREE_BLACK t p s) g (paint HEV_RBTREE_BLACK u)))"
      using f 4(3,4) True blacks_paint [of u n] by (intro 4(1) [OF True f(7)]) auto
    with True show ?thesis by simp
  next
    case False
    obtain l a r where t: "t = Node HEV_RBTREE_RED l a r" using 4(5) by (cases t) auto
    have st: "no_red_red (sub k t) \<and> blacks (sub k t) n \<and> tcolor (sub k t) = HEV_RBTREE_BLACK \<and>
        paint HEV_RBTREE_BLACK (sub k t) = sub k t" for k
      using 4(3,4) t by (cases k) (auto simp: paint_id)
    show ?thesis
    proof (cases "e = d")
      case True
      have "rb_tree (plug fs (mk d c t p (mk d HEV_RBTREE_RED s g u)))"
        using f False 4(3,4) by (intro rb_plug [where n = "Suc n"]) auto
      with True False ps show ?thesis by simp
    next
      case ne: False
      have "rb_tree (plug fs (mk d c (mk d HEV_RBTREE_RED s p (sub d t)) a (mk d HEV_RBTREE_RED (sub (opp d) t) g u)))"
        using f False st [of d] st [of "opp d"] by (intro rb_plug [where n = "Suc n"]) auto
      moreover have "ins_fix (Frame e HEV_RBTREE_RED p s # Frame d c g u # fs) t =
        plug fs (mk d c (mk d HEV_RBTREE_RED s p (sub d t)) a (mk d HEV_RBTREE_RED (sub (opp d) t) g u))"
        using ne False st [of d] st [of "opp d"] unfolding t by simp
      ultimately show ?thesis by simp
    qed
  qed
qed simp

lemma del_sib_ok:
  assumes "no_red_red sib" "blacks sib (Suc n)" "tcolor sib = HEV_RBTREE_BLACK"
    "no_red_red t" "blacks t n" "tcolor t = HEV_RBTREE_BLACK"
  shows "case del_sib d c p sib t of
      Inl u \<Rightarrow> no_red_red u \<and> blacks u (if c = HEV_RBTREE_BLACK then Suc (Suc n) else Suc n) \<and>
        (c = HEV_RBTREE_BLACK \<longrightarrow> tcolor u = HEV_RBTREE_BLACK)
    | Inr u \<Rightarrow> c = HEV_RBTREE_BLACK \<and> no_red_red u \<and> blacks u (Suc n) \<and> tcolor u = HEV_RBTREE_BLACK"
proof (cases sib)
  case Leaf
  with assms show ?thesis by simp
next
  case (Node cs l s r)
  let ?x = "sub d sib" and ?y = "sub (opp d) sib"
  from Node assms have xy: "no_red_red ?x" "no_red_red ?y" "blacks ?x n" "blacks ?y n"
    by (cases d; auto)+
  show ?thesis
  proof (cases "tcolor ?y = HEV_RBTREE_RED")
    case True
    with Node assms xy blacks_paint [OF xy(4) True] show ?thesis by (cases c) auto
  next
    case y: False
    show ?thesis
    proof (cases "tcolor ?x = HEV_RBTREE_RED")
      case False
      with y Node assms xy show ?thesis by (cases c) auto
    next
      case x: True
      then obtain xl xn xr where x': "?x = Node HEV_RBTREE_RED xl xn xr" by (cases ?x) auto
      have xs: "no_red_red (sub k ?x)" "blacks (sub k ?x) n" "paint HEV_RBTREE_BLACK (sub k ?x) = sub k ?x" for k
        using xy x' by (cases k; auto simp: paint_id)+
      from y x x' Node assms xy xs show ?thesis by (cases c) (auto simp: Let_def)
    qed
  qed
qed

lemma rb_del_fix:
  "fits fs n \<Longrightarrow> fs = [] \<or> n = Suc m \<Longrightarrow> no_red_red t \<Longrightarrow> blacks t m \<Longrightarrow> tcolor t = HEV_RBTREE_BLACK \<Longrightarrow>
   rb_tree (del_fix fs t)"
proof (induction fs arbitrary: n m t)
  case Nil
  then show ?case by (auto simp: rb_tree_def)
next
  case (Cons f fs)
  obtain d c p sib where f: "f = Frame d c p sib" by (cases f)
  from Cons.prems have n: "n = Suc m" by simp
  with Cons.prems f have s: "no_red_red sib" "blacks sib (Suc m)"
    and c: "if c = HEV_RBTREE_BLACK then fits fs (Suc (Suc m))
      else tcolor sib = HEV_RBTREE_BLACK \<and> red_fits fs \<and> fits fs (Suc m)"
    by (auto simp: fits_frame)
  from s obtain cs l a r where sib: "sib = Node cs l a r" by (cases sib) auto
  show ?case
  proof (cases "cs = HEV_RBTREE_RED")
    case True
    let ?x = "sub d sib" and ?y = "sub (opp d) sib"
    from True c sib have cb: "c = HEV_RBTREE_BLACK" "fits fs (Suc (Suc m))" by (auto split: if_splits)
    from True s sib have xy: "no_red_red ?x" "no_red_red ?y" "blacks ?x (Suc m)" "blacks ?y (Suc m)"
      "tcolor ?x = HEV_RBTREE_BLACK" "tcolor ?y = HEV_RBTREE_BLACK" by (cases d; auto)+
    from xy(5) have px: "paint HEV_RBTREE_BLACK ?x = ?x" by (rule paint_id)
    from del_sib_ok [OF xy(1,3,5) Cons.prems(3-5), where d = d and c = HEV_RBTREE_RED and p = p] obtain u where
      u: "del_sib d HEV_RBTREE_RED p ?x t = Inl u" "no_red_red u" "blacks u (Suc m)"
      by (auto split: sum.splits)
    have "rb_tree (plug fs (mk d c u a ?y))"
      using cb u xy by (intro rb_plug [OF cb(2)]) auto
    with f sib True px u show ?thesis by simp
  next
    case False
    with sib have bs: "tcolor sib = HEV_RBTREE_BLACK" by simp
    note ok = del_sib_ok [OF s bs Cons.prems(3-5), where d = d and c = c and p = p]
    show ?thesis
    proof (cases "del_sib d c p sib t")
      case (Inl u)
      have "rb_tree (plug fs u)"
        using ok Inl c by (cases c) (auto intro!: rb_plug)
      with f sib False Inl show ?thesis by simp
    next
      case (Inr u)
      have "rb_tree (del_fix fs u)"
        using ok Inr c by (intro Cons.IH [of "Suc (Suc m)" "Suc m"]) auto
      with f sib False Inr show ?thesis by simp
    qed
  qed
qed

section \<open>Removing a node\<close>

text \<open>The leftmost node of a tree, with the path to it in front of \<open>gs\<close>.\<close>

fun down :: "rtree \<Rightarrow> frame list \<Rightarrow> frame list \<times> color \<times> addr \<times> rtree" where
  "down Leaf gs = (gs, HEV_RBTREE_BLACK, 0, Leaf)"
| "down (Node c Leaf a r) gs = (gs, c, a, r)"
| "down (Node c l a r) gs = down l (Frame LEFT c a r # gs)"

definition unlink :: "frame list \<Rightarrow> color \<Rightarrow> rtree \<Rightarrow> rtree \<Rightarrow> frame list \<times> rtree \<times> bool" where
  "unlink fs c l r =
     (if l = Leaf then (fs, paint c r, r = Leaf \<and> c = HEV_RBTREE_BLACK)
      else if r = Leaf then (fs, paint c l, False)
      else (case down r [] of (gs, cs, s, sr) \<Rightarrow>
        (gs @ Frame RIGHT c s l # fs, paint HEV_RBTREE_BLACK sr, sr = Leaf \<and> cs = HEV_RBTREE_BLACK)))"

definition erased :: "frame list \<Rightarrow> color \<Rightarrow> rtree \<Rightarrow> rtree \<Rightarrow> rtree" where
  "erased fs c l r = (case unlink fs c l r of (fs', t, bal) \<Rightarrow> if bal then del_fix fs' t else plug fs' t)"

lemma down_plug:
  "t \<noteq> Leaf \<Longrightarrow> down t gs = (gs', c, a, r) \<Longrightarrow> plug gs t = plug gs' (Node c Leaf a r)"
  by (induction t gs rule: down.induct) auto

lemma down_before: "down t gs = (gs', c, a, r) \<Longrightarrow> before gs' = before gs"
  by (induction t gs rule: down.induct) auto

lemma before_after_append:
  "before (gs @ fs) = before fs @ before gs" "after (gs @ fs) = after gs @ after fs"
  by (induction gs) (auto split: frame.split)

lemma inorder_erased: "inorder (erased fs c l r) = before fs @ inorder l @ inorder r @ after fs"
proof (cases "l = Leaf \<or> r = Leaf")
  case True
  then show ?thesis
    by (auto simp: erased_def unlink_def inorder_del_fix inorder_plug)
next
  case False
  obtain gs cs s sr where d: "down r [] = (gs, cs, s, sr)" by (metis prod_cases4)
  from down_plug [OF _ d] False have "r = plug gs (Node cs Leaf s sr)" by simp
  then have "inorder r = before gs @ s # inorder sr @ after gs" by (simp add: inorder_plug)
  with False d down_before [OF d] show ?thesis
    by (auto simp: erased_def unlink_def inorder_del_fix inorder_plug before_after_append)
qed

lemma red_fits_rename: "red_fits (gs @ Frame d c a s # fs) = red_fits (gs @ Frame d c b s # fs)"
  by (cases gs) (auto simp: red_fits_def split: frame.splits)

lemma fits_rename: "fits (gs @ Frame d c a s # fs) n = fits (gs @ Frame d c b s # fs) n"
proof (induction gs arbitrary: n)
  case Nil
  then show ?case by (simp add: fits_frame)
next
  case (Cons f gs)
  obtain d' c' a' s' where f: "f = Frame d' c' a' s'" by (cases f)
  show ?case
    using Cons.IH red_fits_rename [of gs d c a s fs b] by (simp add: f fits_frame)
qed

lemma blacks_0: "blacks t 0 \<Longrightarrow> tcolor t = HEV_RBTREE_BLACK \<Longrightarrow> t = Leaf"
  by (cases t rule: tcolor.cases) auto

lemma rb_remove_right_only:
  assumes f: "fits fs n" and t: "no_red_red (Node c Leaf a r)" "blacks (Node c Leaf a r) n"
    "c = HEV_RBTREE_BLACK \<or> red_fits fs"
  shows "rb_tree (if r = Leaf \<and> c = HEV_RBTREE_BLACK then del_fix fs Leaf
      else plug fs (paint HEV_RBTREE_BLACK r))"
    and "r \<noteq> Leaf \<Longrightarrow> c = HEV_RBTREE_BLACK"
proof -
  have r0: "blacks r 0" using t(2) by (cases c) auto
  show c: "r \<noteq> Leaf \<Longrightarrow> c = HEV_RBTREE_BLACK"
    using t(1) blacks_0 [OF r0] by (cases c) auto
  show "rb_tree (if r = Leaf \<and> c = HEV_RBTREE_BLACK then del_fix fs Leaf
      else plug fs (paint HEV_RBTREE_BLACK r))"
  proof (cases "r = Leaf")
    case True
    show ?thesis
    proof (cases c)
      case HEV_RBTREE_RED
      with True t f show ?thesis by (auto intro!: rb_plug)
    next
      case HEV_RBTREE_BLACK
      with t(2) have "n = Suc 0" by auto
      with True HEV_RBTREE_BLACK f show ?thesis by (auto intro!: rb_del_fix [where m = 0])
    qed
  next
    case False
    with blacks_0 [OF r0] have "tcolor r = HEV_RBTREE_RED" by (cases "tcolor r") auto
    moreover have "n = Suc 0" using c [OF False] t(2) by auto
    ultimately show ?thesis using blacks_paint [OF r0] False t f
      by (auto intro!: rb_plug [where n = "Suc 0"])
  qed
qed

lemma rb_erased:
  assumes "rb_tree (plug fs (Node c l a r))"
  shows "rb_tree (erased fs c l r)"
proof -
  from plug_fits [OF assms] obtain n where n: "no_red_red (Node c l a r)" "blacks (Node c l a r) n"
    "fits fs n" "c = HEV_RBTREE_BLACK \<or> red_fits fs" by auto
  consider "l = Leaf" | "l \<noteq> Leaf" "r = Leaf" | "l \<noteq> Leaf" "r \<noteq> Leaf" by blast
  then show ?thesis
  proof cases
    case 1
    from rb_remove_right_only [OF n(3) n(1,2) [unfolded 1] n(4)] 1 show ?thesis
      by (cases "r = Leaf") (auto simp: erased_def unlink_def)
  next
    case 2
    have l0: "blacks l 0" using n(2) 2 by (cases c) auto
    with blacks_0 2 have red: "tcolor l = HEV_RBTREE_RED" by (cases "tcolor l") auto
    with n(1) have c: "c = HEV_RBTREE_BLACK" by (cases c) auto
    with n(2) 2 have "n = Suc 0" by auto
    with blacks_paint [OF l0 red] n c have "rb_tree (plug fs (paint c l))"
      by (auto intro!: rb_plug)
    with 2 show ?thesis by (simp add: erased_def unlink_def)
  next
    case 3
    obtain gs cs s sr where d: "down r [] = (gs, cs, s, sr)" by (metis prod_cases4)
    let ?G = "\<lambda>x. gs @ Frame RIGHT c x l # fs"
    from down_plug [OF 3(2) d] have "plug fs (Node c l a r) = plug (?G a) (Node cs Leaf s sr)"
      by (simp add: plug_append)
    with plug_fits [of "?G a" "Node cs Leaf s sr"] assms obtain m where
      m: "no_red_red (Node cs Leaf s sr)" "blacks (Node cs Leaf s sr) m" "fits (?G a) m"
        "cs = HEV_RBTREE_BLACK \<or> red_fits (?G a)" by auto
    from m(3,4) have "fits (?G s) m" "cs = HEV_RBTREE_BLACK \<or> red_fits (?G s)"
      by (simp_all add: fits_rename [where a = a and b = s] red_fits_rename [where a = a and b = s])
    from rb_remove_right_only [OF this(1) m(1,2) this(2)] 3 d show ?thesis
      by (auto simp: erased_def unlink_def)
  qed
qed

end
