(* ===== verification/RBTree_Rep.thy ===== *)
theory RBTree_Rep
  imports RBTree_Zip "HOL-Library.Multiset"
begin

text \<open>
  The pointer code of \<open>RBTree\<close> implements the zipper functions of \<open>RBTree_Zip\<close>: what a heap of
  nodes represents, how the primitive updates act on it, and one refinement lemma per loop.
\<close>

section \<open>Representation\<close>

primrec tree_at :: "rbtree \<Rightarrow> ptr \<Rightarrow> ptr \<Rightarrow> rtree \<Rightarrow> bool" where
  "tree_at h q p Leaf = (p = None)"
| "tree_at h q p (Node c l a r) =
     (p = Some a \<and> pc_parent h a = q \<and> pc_color h a = c \<and>
      tree_at h (Some a) (child h a LEFT) l \<and> tree_at h (Some a) (child h a RIGHT) r)"

primrec ctx :: "rbtree \<Rightarrow> frame list \<Rightarrow> ptr \<Rightarrow> ptr \<Rightarrow> bool" where
  "ctx h [] p q = (root h = p \<and> q = None)"
| "ctx h (f # fs) p q = (case f of Frame d c a s \<Rightarrow>
     q = Some a \<and> child h a d = p \<and> pc_color h a = c \<and> tree_at h (Some a) (child h a (opp d)) s \<and>
     ctx h fs (Some a) (pc_parent h a))"

primrec cnodes :: "frame list \<Rightarrow> addr list" where
  "cnodes [] = []"
| "cnodes (f # fs) = (case f of Frame d c a s \<Rightarrow> a # inorder s @ cnodes fs)"

lemma rep_mk [simp]: "tree_at h q p (mk d c t a s) \<longleftrightarrow>
  p = Some a \<and> pc_parent h a = q \<and> pc_color h a = c \<and>
  tree_at h (Some a) (child h a d) t \<and> tree_at h (Some a) (child h a (opp d)) s"
  by (cases d) auto

lemma rep_key: "tree_at h q p t \<Longrightarrow> p = key t"
  by (cases t) auto

lemma rep_red: "tree_at h q p t \<Longrightarrow> red_ptr p h \<longleftrightarrow> tcolor t = HEV_RBTREE_RED"
  by (cases t) (auto simp: red_ptr_def hev_rbtree_node_is_red_def)

lemma rep_plug: "tree_at h None (root h) (plug fs t) \<longleftrightarrow> (\<exists>p q. ctx h fs p q \<and> tree_at h q p t)"
proof (induction fs arbitrary: t)
  case Nil
  then show ?case by auto
next
  case (Cons f fs)
  obtain d c a s where f: "f = Frame d c a s" by (cases f)
  show ?case by (auto simp: f Cons.IH)
qed

lemma set_plug: "set (inorder (plug fs t)) = set (cnodes fs) \<union> set (inorder t)"
  by (induction fs arbitrary: t) (auto simp: inorder_mk split: frame.split)

lemma mset_plug: "mset (inorder (plug fs t)) = mset (cnodes fs @ inorder t)"
  by (induction fs arbitrary: t) (auto simp: inorder_mk split: frame.split)

lemma distinct_plug: "distinct (inorder (plug fs t)) \<longleftrightarrow> distinct (cnodes fs @ inorder t)"
  using mset_plug mset_eq_imp_distinct_iff by blast

lemma distinct_perm: "mset xs = mset ys \<Longrightarrow> distinct xs \<Longrightarrow> distinct ys"
  using mset_eq_imp_distinct_iff by blast

lemma rep_cong:
  "(\<And>a. a \<in> set (inorder t) \<Longrightarrow>
     pc_parent h' a = pc_parent h a \<and> pc_color h' a = pc_color h a \<and> child h' a = child h a) \<Longrightarrow>
   tree_at h' q p t = tree_at h q p t"
  by (induction t arbitrary: q p) auto

lemma ctx_cong:
  "(\<And>a. a \<in> set (cnodes fs) \<Longrightarrow>
     pc_parent h' a = pc_parent h a \<and> pc_color h' a = pc_color h a \<and> child h' a = child h a) \<Longrightarrow>
   root h' = root h \<Longrightarrow> ctx h' fs p q = ctx h fs p q"
proof (induction fs arbitrary: p q)
  case (Cons f fs)
  obtain d c a s where f: "f = Frame d c a s" by (cases f)
  have "tree_at h' (Some a) (child h' a (opp d)) s = tree_at h (Some a) (child h' a (opp d)) s"
    using Cons.prems f by (intro rep_cong) auto
  with Cons f show ?case by auto
qed simp

section \<open>The primitive updates\<close>

lemma set_child_simps [simp]:
  "child (set_child a d v h) = (child h)(a := (child h a)(d := v))"
  "pc_parent (set_child a d v h) = pc_parent h"
  "pc_color (set_child a d v h) = pc_color h"
  "root (set_child a d v h) = root h"
  by (simp_all add: set_child_def)

lemma set_pc_simps [simp]:
  "child (hev_rbtree_node_set_parent_color a q c h) = child h"
  "pc_parent (hev_rbtree_node_set_parent_color a q c h) = (pc_parent h)(a := q)"
  "pc_color (hev_rbtree_node_set_parent_color a q c h) = (pc_color h)(a := c)"
  "root (hev_rbtree_node_set_parent_color a q c h) = root h"
  "child (hev_rbtree_node_set_parent a q h) = child h"
  "pc_parent (hev_rbtree_node_set_parent a q h) = (pc_parent h)(a := q)"
  "pc_color (hev_rbtree_node_set_parent a q h) = pc_color h"
  "root (hev_rbtree_node_set_parent a q h) = root h"
  "child (hev_rbtree_node_set_black a h) = child h"
  "pc_parent (hev_rbtree_node_set_black a h) = pc_parent h"
  "pc_color (hev_rbtree_node_set_black a h) = (pc_color h)(a := HEV_RBTREE_BLACK)"
  "root (hev_rbtree_node_set_black a h) = root h"
  by (simp_all add: hev_rbtree_node_set_parent_color_def hev_rbtree_node_set_parent_def
      hev_rbtree_node_set_black_def)

lemma change_child_simps [simp]:
  "pc_parent (hev_rbtree_change_child o' n q h) = pc_parent h"
  "pc_color (hev_rbtree_change_child o' n q h) = pc_color h"
  "q \<noteq> Some a \<Longrightarrow> child (hev_rbtree_change_child o' n q h) a = child h a"
  "q = Some b \<Longrightarrow> root (hev_rbtree_change_child o' n q h) = root h"
  "root (hev_rbtree_change_child o' n None h) = n"
  by (auto simp: hev_rbtree_change_child_def split: option.split)

lemma rep_upd [simp]:
  "a \<notin> set (inorder t) \<Longrightarrow> tree_at (set_child a d v h) q p t = tree_at h q p t"
  "a \<notin> set (inorder t) \<Longrightarrow> tree_at (hev_rbtree_node_set_parent_color a q' c h) q p t = tree_at h q p t"
  "a \<notin> set (inorder t) \<Longrightarrow> tree_at (hev_rbtree_node_set_parent a q' h) q p t = tree_at h q p t"
  "a \<notin> set (inorder t) \<Longrightarrow> tree_at (hev_rbtree_node_set_black a h) q p t = tree_at h q p t"
  by (rule rep_cong; auto)+

lemma rep_change_child:
  "(\<And>a. q' = Some a \<Longrightarrow> a \<notin> set (inorder t)) \<Longrightarrow>
   tree_at (hev_rbtree_change_child o' n q' h) q p t = tree_at h q p t"
  by (rule rep_cong) (metis change_child_simps(1-3))

lemma ctx_upd [simp]:
  "a \<notin> set (cnodes fs) \<Longrightarrow> ctx (set_child a d v h) fs p q = ctx h fs p q"
  "a \<notin> set (cnodes fs) \<Longrightarrow> ctx (hev_rbtree_node_set_parent_color a q' c h) fs p q = ctx h fs p q"
  "a \<notin> set (cnodes fs) \<Longrightarrow> ctx (hev_rbtree_node_set_parent a q' h) fs p q = ctx h fs p q"
  "a \<notin> set (cnodes fs) \<Longrightarrow> ctx (hev_rbtree_node_set_black a h) fs p q = ctx h fs p q"
  by (rule ctx_cong; auto)+

lemma ctx_change_child:
  assumes "ctx h fs (Some old) q" "distinct (cnodes fs)" "old \<notin> set (cnodes fs)"
  shows "ctx (hev_rbtree_change_child old new q h) fs new q"
proof (cases fs)
  case Nil
  with assms show ?thesis by simp
next
  case (Cons f gs)
  obtain d c a s where f: "f = Frame d c a s" by (cases f)
  with Cons assms have q: "q = Some a" "child h a d = Some old" "tree_at h (Some a) (child h a (opp d)) s"
    and d: "a \<notin> set (inorder s)" "a \<notin> set (cnodes gs)" "old \<notin> set (inorder s)" by auto
  from q(3) d(3) have "child h a (opp d) \<noteq> Some old" by (cases s) auto
  with q(2) have "hev_rbtree_change_child old new q h = set_child a d new h"
    by (cases d) (auto simp: hev_rbtree_change_child_def q(1))
  with Cons f assms q d show ?thesis by simp
qed

text \<open>\<open>if (tmp) set_parent_color (tmp, q, c)\<close>: a subtree moves below another node.\<close>

lemma if_node_simps [simp]:
  "if_node None f h = h"
  "if_node (Some a) f h = f a h"
  by (simp_all add: if_node_def)

lemma rep_recolor:
  "tree_at h q p t \<Longrightarrow> distinct (inorder t) \<Longrightarrow>
   tree_at (if_node p (\<lambda>x. hev_rbtree_node_set_parent_color x q' c) h) q' p (paint c t)"
  by (cases t) auto

lemma rep_reparent:
  "tree_at h q p t \<Longrightarrow> distinct (inorder t) \<Longrightarrow>
   tree_at (if_node p (\<lambda>x. hev_rbtree_node_set_parent x q') h) q' p t"
  by (cases t) auto

lemma if_node_other:
  "tree_at h q p t \<Longrightarrow> set (inorder t) \<inter> set (inorder u) = {} \<Longrightarrow>
   tree_at (if_node p (\<lambda>x. hev_rbtree_node_set_parent_color x q' c) h) q2 p2 u = tree_at h q2 p2 u"
  "tree_at h q p t \<Longrightarrow> set (inorder t) \<inter> set (inorder u) = {} \<Longrightarrow>
   tree_at (if_node p (\<lambda>x. hev_rbtree_node_set_parent x q') h) q2 p2 u = tree_at h q2 p2 u"
  "tree_at h q p t \<Longrightarrow> set (inorder t) \<inter> set (cnodes fs) = {} \<Longrightarrow>
   ctx (if_node p (\<lambda>x. hev_rbtree_node_set_parent_color x q' c) h) fs p2 q2 = ctx h fs p2 q2"
  "tree_at h q p t \<Longrightarrow> set (inorder t) \<inter> set (cnodes fs) = {} \<Longrightarrow>
   ctx (if_node p (\<lambda>x. hev_rbtree_node_set_parent x q') h) fs p2 q2 = ctx h fs p2 q2"
  by (cases t; auto)+

lemma if_node_fields:
  "child (if_node p (\<lambda>x. hev_rbtree_node_set_parent_color x q' c) h) = child h"
  "child (if_node p (\<lambda>x. hev_rbtree_node_set_parent x q') h) = child h"
  "root (if_node p (\<lambda>x. hev_rbtree_node_set_parent_color x q' c) h) = root h"
  "root (if_node p (\<lambda>x. hev_rbtree_node_set_parent x q') h) = root h"
  "p \<noteq> Some a \<Longrightarrow> pc_parent (if_node p (\<lambda>x. hev_rbtree_node_set_parent_color x q' c) h) a = pc_parent h a"
  "p \<noteq> Some a \<Longrightarrow> pc_color (if_node p (\<lambda>x. hev_rbtree_node_set_parent_color x q' c) h) a = pc_color h a"
  "p \<noteq> Some a \<Longrightarrow> pc_parent (if_node p (\<lambda>x. hev_rbtree_node_set_parent x q') h) a = pc_parent h a"
  "pc_color (if_node p (\<lambda>x. hev_rbtree_node_set_parent x q') h) = pc_color h"
  by (cases p; auto)+

lemma ctx_parent: "ctx h fs p q \<Longrightarrow> q = Some b \<Longrightarrow> b \<in> set (cnodes fs)"
  by (cases fs) (auto split: frame.splits)

text \<open>\<open>hev_rbtree_rotate_set_parents\<close> puts \<open>new\<close> in the place of \<open>old\<close>.\<close>

lemma rotate_ctx:
  assumes "ctx h fs (Some old) (pc_parent h old)" "distinct (cnodes fs)" "old \<notin> set (cnodes fs)"
    "new \<notin> set (cnodes fs)"
  shows "ctx (hev_rbtree_rotate_set_parents old new c h) fs (Some new) (pc_parent h old)"
  using assms
  by (auto simp: hev_rbtree_rotate_set_parents_def Let_def hev_rbtree_node_parent_def
      intro!: ctx_change_child)

lemma rotate_fields:
  assumes "ctx h fs (Some old) (pc_parent h old)" "a \<notin> set (cnodes fs)" "old \<noteq> new"
  shows "child (hev_rbtree_rotate_set_parents old new c h) a = child h a"
    and "pc_parent (hev_rbtree_rotate_set_parents old new c h) a =
      (if a = old then Some new else if a = new then pc_parent h old else pc_parent h a)"
    and "pc_color (hev_rbtree_rotate_set_parents old new c h) a =
      (if a = old then c else if a = new then pc_color h old else pc_color h a)"
proof -
  from ctx_parent [OF assms(1)] assms(2) have "pc_parent h old \<noteq> Some a" by auto
  with assms(3) show "child (hev_rbtree_rotate_set_parents old new c h) a = child h a"
    "pc_parent (hev_rbtree_rotate_set_parents old new c h) a =
      (if a = old then Some new else if a = new then pc_parent h old else pc_parent h a)"
    "pc_color (hev_rbtree_rotate_set_parents old new c h) a =
      (if a = old then c else if a = new then pc_color h old else pc_color h a)"
    by (simp_all add: hev_rbtree_rotate_set_parents_def Let_def hev_rbtree_node_parent_def)
qed

lemma rotate_rep:
  assumes "ctx h fs (Some old) (pc_parent h old)" "set (cnodes fs) \<inter> set (inorder t) = {}"
    "old \<noteq> new" "old \<notin> set (inorder t)" "new \<notin> set (inorder t)"
  shows "tree_at (hev_rbtree_rotate_set_parents old new c h) q p t = tree_at h q p t"
proof (rule rep_cong)
  fix a assume a: "a \<in> set (inorder t)"
  with assms have "a \<notin> set (cnodes fs)" "a \<noteq> old" "a \<noteq> new" by auto
  then show "pc_parent (hev_rbtree_rotate_set_parents old new c h) a = pc_parent h a \<and>
      pc_color (hev_rbtree_rotate_set_parents old new c h) a = pc_color h a \<and>
      child (hev_rbtree_rotate_set_parents old new c h) a = child h a"
    by (simp add: rotate_fields [OF assms(1) _ assms(3)])
qed

section \<open>Insertion\<close>

lemma ins_case3_rep:
  assumes cx: "ctx h fs (Some g) (pc_parent h g)" and col: "pc_color h g = c"
    and a: "tree_at h (Some p) (child h p d) A" and b: "tree_at h pt tmp B"
    and u: "tree_at h (Some g) (child h g (opp d)) U"
    and dis: "distinct (cnodes fs @ p # g # inorder A @ inorder B @ inorder U)"
  shows "ctx (ins_case3 d tmp p g h) fs (Some p) (pc_parent h g)"
    and "tree_at (ins_case3 d tmp p g h) (pc_parent h g) (Some p)
      (mk d c A p (mk d HEV_RBTREE_RED (paint HEV_RBTREE_BLACK B) g U))"
proof -
  define h1 where "h1 = set_child p (opp d) (Some g) (set_child g d tmp h)"
  define h2 where "h2 = if_node tmp (\<lambda>t. hev_rbtree_node_set_parent_color t (Some g) HEV_RBTREE_BLACK) h1"
  have e: "ins_case3 d tmp p g h = hev_rbtree_rotate_set_parents g p HEV_RBTREE_RED h2"
    by (simp add: ins_case3_def h1_def h2_def Let_def)
  have tm: "tmp = key B" using b by (rule rep_key)
  have tn: "tmp \<noteq> Some g" "tmp \<noteq> Some p" using tm dis by (cases B; auto)+
  have c1: "ctx h1 fs (Some g) (pc_parent h g)" "tree_at h1 (Some p) (child h p d) A" "tree_at h1 pt tmp B"
    "tree_at h1 (Some g) (child h g (opp d)) U"
    using cx a b u dis by (auto simp: h1_def)
  have dj: "set (inorder B) \<inter> set (cnodes fs) = {}" "set (inorder B) \<inter> set (inorder A) = {}"
    "set (inorder B) \<inter> set (inorder U) = {}" "distinct (inorder B)" using dis by auto
  have c2: "ctx h2 fs (Some g) (pc_parent h g)" "tree_at h2 (Some p) (child h p d) A"
    "tree_at h2 (Some g) tmp (paint HEV_RBTREE_BLACK B)" "tree_at h2 (Some g) (child h g (opp d)) U"
    unfolding h2_def using c1 dj
    by (simp_all add: if_node_other [OF c1(3)] rep_recolor [OF c1(3)])
  have f2: "pc_parent h2 g = pc_parent h g" "pc_color h2 g = c"
    "child h2 g d = tmp" "child h2 g (opp d) = child h g (opp d)"
    "child h2 p d = child h p d" "child h2 p (opp d) = Some g"
    using tn col dis by (auto simp: h2_def h1_def if_node_fields)
  show "ctx (ins_case3 d tmp p g h) fs (Some p) (pc_parent h g)"
    using rotate_ctx [of h2 fs g p] c2(1) f2(1) dis by (simp add: e)
  have cx2: "ctx h2 fs (Some g) (pc_parent h2 g)" using c2(1) f2(1) by simp
  have gp: "g \<noteq> p" and np: "p \<notin> set (cnodes fs)" "g \<notin> set (cnodes fs)" using dis by auto
  note rf = rotate_fields [OF cx2 np(1) gp] rotate_fields [OF cx2 np(2) gp]
  have r: "tree_at (hev_rbtree_rotate_set_parents g p HEV_RBTREE_RED h2) q' p' t = tree_at h2 q' p' t"
    if "t \<in> {A, paint HEV_RBTREE_BLACK B, U}" for q' p' t
    using that dis by (intro rotate_rep [OF cx2 _ gp]) auto
  show "tree_at (ins_case3 d tmp p g h) (pc_parent h g) (Some p)
      (mk d c A p (mk d HEV_RBTREE_RED (paint HEV_RBTREE_BLACK B) g U))"
    using rf r f2 c2 gp by (simp add: e)
qed

lemma ins_case2_rep:
  assumes cx: "ctx h fs k q" and s: "tree_at h (Some p) (child h p d) S"
    and n: "tree_at h (Some p) (Some n) (mk d HEV_RBTREE_RED X n Y)"
    and u: "tree_at h (Some g) k' U"
    and dis: "distinct (cnodes fs @ p # n # g # inorder S @ inorder X @ inorder Y @ inorder U)"
  shows "ctx (ins_case2 d n p h) fs k q"
    and "tree_at (ins_case2 d n p h) (Some n) (child (ins_case2 d n p h) n d)
      (mk d HEV_RBTREE_RED S p (paint HEV_RBTREE_BLACK X))"
    and "tree_at (ins_case2 d n p h) (Some n) (child (ins_case2 d n p h) n (opp d)) Y"
    and "tree_at (ins_case2 d n p h) (Some g) k' U"
    and "pc_parent (ins_case2 d n p h) g = pc_parent h g" "pc_color (ins_case2 d n p h) g = pc_color h g"
    and "child (ins_case2 d n p h) g = child h g"
proof -
  define h1 where "h1 = set_child n d (Some p) (set_child p (opp d) (child h n d) h)"
  define h2 where "h2 = if_node (child h n d) (\<lambda>t. hev_rbtree_node_set_parent_color t (Some p) HEV_RBTREE_BLACK) h1"
  have e: "ins_case2 d n p h = hev_rbtree_node_set_parent_color p (Some n) HEV_RBTREE_RED h2"
    by (simp add: ins_case2_def h1_def h2_def Let_def)
  from n have xy: "tree_at h (Some n) (child h n d) X" "tree_at h (Some n) (child h n (opp d)) Y" by auto
  have tm: "child h n d = key X" using xy(1) by (rule rep_key)
  have tn: "child h n d \<noteq> Some g" "child h n d \<noteq> Some p" "child h n d \<noteq> Some n"
    using tm dis by (cases X; auto)+
  have c1: "ctx h1 fs k q" "tree_at h1 (Some p) (child h p d) S" "tree_at h1 (Some n) (child h n d) X"
    "tree_at h1 (Some n) (child h n (opp d)) Y" "tree_at h1 (Some g) k' U"
    using cx s xy u dis by (auto simp: h1_def)
  have dj: "set (inorder X) \<inter> set (cnodes fs) = {}" "set (inorder X) \<inter> set (inorder S) = {}"
    "set (inorder X) \<inter> set (inorder Y) = {}" "set (inorder X) \<inter> set (inorder U) = {}"
    "distinct (inorder X)" using dis by auto
  have c2: "ctx h2 fs k q" "tree_at h2 (Some p) (child h p d) S"
    "tree_at h2 (Some p) (child h n d) (paint HEV_RBTREE_BLACK X)"
    "tree_at h2 (Some n) (child h n (opp d)) Y" "tree_at h2 (Some g) k' U"
    unfolding h2_def using c1 dj
    by (simp_all add: if_node_other [OF c1(3)] rep_recolor [OF c1(3)])
  have f2: "child h2 p d = child h p d" "child h2 p (opp d) = child h n d" "child h2 n d = Some p"
    "child h2 n (opp d) = child h n (opp d)" "child h2 g = child h g"
    "pc_parent h2 g = pc_parent h g" "pc_color h2 g = pc_color h g"
    using tn dis by (auto simp: h2_def h1_def if_node_fields)
  have np: "p \<notin> set (inorder S)" "p \<notin> set (inorder X)" "p \<notin> set (inorder Y)" "p \<notin> set (inorder U)"
    "p \<notin> set (cnodes fs)" "p \<noteq> n" "p \<noteq> g" using dis by auto
  show "ctx (ins_case2 d n p h) fs k q"
    "tree_at (ins_case2 d n p h) (Some n) (child (ins_case2 d n p h) n d)
      (mk d HEV_RBTREE_RED S p (paint HEV_RBTREE_BLACK X))"
    "tree_at (ins_case2 d n p h) (Some n) (child (ins_case2 d n p h) n (opp d)) Y"
    "tree_at (ins_case2 d n p h) (Some g) k' U"
    "pc_parent (ins_case2 d n p h) g = pc_parent h g" "pc_color (ins_case2 d n p h) g = pc_color h g"
    "child (ins_case2 d n p h) g = child h g"
    using c2 f2 np by (simp_all add: e)
qed

lemma side_of_child:
  assumes "child h g d = Some p" "tree_at h q (child h g (opp d)) u" "p \<notin> set (inorder u)"
  shows "(if child h g RIGHT \<noteq> Some p then LEFT else RIGHT) = d"
  using assms by (cases d; cases u) auto

lemma ins_recolor_rep:
  assumes cx: "ctx h fs (Some g) (pc_parent h g)" and p: "tree_at h (Some g) (Some p) (mk e c' T p S)"
    and ch: "child h g d = Some p" and u: "tree_at h (Some g) (child h g (opp d)) U"
    and dis: "distinct (cnodes fs @ g # p # inorder T @ inorder S @ inorder U)"
    and h': "h' = hev_rbtree_node_set_parent_color g (pc_parent h g) HEV_RBTREE_RED
      (hev_rbtree_node_set_parent_color p (Some g) HEV_RBTREE_BLACK
      (if_node (child h g (opp d)) (\<lambda>t. hev_rbtree_node_set_parent_color t (Some g) HEV_RBTREE_BLACK) h))"
  shows "ctx h' fs (Some g) (pc_parent h g)"
    and "tree_at h' (pc_parent h g) (Some g)
      (mk d HEV_RBTREE_RED (mk e HEV_RBTREE_BLACK T p S) g (paint HEV_RBTREE_BLACK U))"
proof -
  define h1 where "h1 = if_node (child h g (opp d)) (\<lambda>t. hev_rbtree_node_set_parent_color t (Some g) HEV_RBTREE_BLACK) h"
  have dj: "set (inorder U) \<inter> set (cnodes fs) = {}" "set (inorder U) \<inter> set (inorder T) = {}"
    "set (inorder U) \<inter> set (inorder S) = {}" "distinct (inorder U)" using dis by auto
  from p have ts: "tree_at h (Some p) (child h p e) T" "tree_at h (Some p) (child h p (opp e)) S" by auto
  have c1: "ctx h1 fs (Some g) (pc_parent h g)" "tree_at h1 (Some p) (child h p e) T"
    "tree_at h1 (Some p) (child h p (opp e)) S" "tree_at h1 (Some g) (child h g (opp d)) (paint HEV_RBTREE_BLACK U)"
    "child h1 = child h"
    unfolding h1_def using cx ts u dj
    by (simp_all add: if_node_other [OF u] rep_recolor [OF u] if_node_fields)
  show "ctx h' fs (Some g) (pc_parent h g)" "tree_at h' (pc_parent h g) (Some g)
      (mk d HEV_RBTREE_RED (mk e HEV_RBTREE_BLACK T p S) g (paint HEV_RBTREE_BLACK U))"
    unfolding h' h1_def [symmetric] using c1 ch dis by auto
qed

lemma insert_loop_refines:
  "fits fs n \<Longrightarrow> ctx h fs (Some node) q \<Longrightarrow> tree_at h q (Some node) t \<Longrightarrow> tcolor t = HEV_RBTREE_RED \<Longrightarrow>
   distinct (cnodes fs @ inorder t) \<Longrightarrow>
   \<exists>h'. insert_loop node q h = Some h' \<and> tree_at h' None (root h') (ins_fix fs t)"
proof (induction fs t arbitrary: h node q n rule: ins_fix.induct)
  case (1 t)
  then obtain l r where t: "t = Node HEV_RBTREE_RED l node r" by (cases t) auto
  from 1 t show ?case
    by (subst insert_loop.simps) auto
next
  case (2 e p s fs t)
  then have q: "q = Some p" "pc_color h p = HEV_RBTREE_BLACK" by auto
  from 2 have "tree_at h None (root h) (plug (Frame e HEV_RBTREE_BLACK p s # fs) t)"
    unfolding rep_plug by blast
  with q show ?case
    by (subst insert_loop.simps) (simp add: hev_rbtree_node_is_black_def)
next
  case (3 e p s t)
  then show ?case by simp
next
  case (4 e p s d c g u fs t)
  from 4(3) have q: "q = Some p" "child h p e = Some node" "pc_color h p = HEV_RBTREE_RED"
    and s: "tree_at h (Some p) (child h p (opp e)) s" and pg: "pc_parent h p = Some g"
    "child h g d = Some p" "pc_color h g = c" and u: "tree_at h (Some g) (child h g (opp d)) u"
    and cx: "ctx h fs (Some g) (pc_parent h g)" by auto
  from 4(5) obtain l r where t: "t = Node HEV_RBTREE_RED l node r" using 4(4) by (cases t) auto
  note dis = 4(6)
  from 4(2) have fit: "fits fs (Suc n)" "c = HEV_RBTREE_BLACK"
    by (auto simp: fits_frame red_fits_def)
  have "p \<notin> set (inorder u)" using dis by auto
  note dd = side_of_child [OF pg(2) u this]
  have gp: "pc_parent (if_node (child h g (opp d)) f h) g = pc_parent h g"
    if "f = (\<lambda>t. hev_rbtree_node_set_parent_color t (Some g) HEV_RBTREE_BLACK)" for f
    using rep_key [OF u] dis that by (cases u) auto
  show ?case
  proof (cases "tcolor u = HEV_RBTREE_RED")
    case True
    define h' where "h' = hev_rbtree_node_set_parent_color g (pc_parent h g) HEV_RBTREE_RED
      (hev_rbtree_node_set_parent_color p (Some g) HEV_RBTREE_BLACK
      (if_node (child h g (opp d)) (\<lambda>t. hev_rbtree_node_set_parent_color t (Some g) HEV_RBTREE_BLACK) h))"
    have pn: "g \<noteq> p" using dis by auto
    have step: "insert_loop node q h = insert_loop g (pc_parent h g) h'"
      using q pg True rep_red [OF u] dd gp [OF refl] pn
      by (subst insert_loop.simps)
        (simp add: Let_def h'_def hev_rbtree_node_is_black_def hev_rbtree_node_parent_def)
    have rp: "tree_at h (Some g) (Some p) (mk e HEV_RBTREE_RED t p s)" using q pg s 4(4) by auto
    have dis': "distinct (cnodes fs @ g # p # inorder t @ inorder s @ inorder u)" using dis by auto
    note r = ins_recolor_rep [OF cx rp pg(2) u dis' h'_def]
    have "\<exists>h''. insert_loop g (pc_parent h g) h' = Some h'' \<and> tree_at h'' None (root h'') (ins_fix fs
      (mk d HEV_RBTREE_RED (mk e HEV_RBTREE_BLACK t p s) g (paint HEV_RBTREE_BLACK u)))"
      using dis by (intro 4(1) [OF True fit(1) r]) (auto simp: inorder_mk)
    with step True show ?thesis by simp
  next
    case False
    have nr: "\<not> red_ptr (child h g (opp d)) h" using False rep_red [OF u] by simp
    show ?thesis
    proof (cases "e = d")
      case True
      have "child h p (opp d) \<noteq> Some node"
        using s dis t True by (cases s) auto
      then have step: "insert_loop node q h = Some (ins_case3 d (child h p (opp d)) p g h)"
        using q pg nr dd by (subst insert_loop.simps) (simp add: Let_def hev_rbtree_node_is_black_def)
      have a: "tree_at h (Some p) (child h p d) t" using 4(4) q True by simp
      have "distinct (cnodes fs @ p # g # inorder t @ inorder s @ inorder u)" using dis by auto
      note r = ins_case3_rep [OF cx pg(3) a s [unfolded True] u this]
      from r have "tree_at (ins_case3 d (child h p (opp d)) p g h) None (root (ins_case3 d (child h p (opp d)) p g h))
        (ins_fix (Frame e HEV_RBTREE_RED p s # Frame d c g u # fs) t)"
        using True False by (simp add: rep_plug)
      with step show ?thesis by blast
    next
      case ne: False
      then have e: "e = opp d" by (simp add: opp_eq_iff)
      then have cp: "child h p (opp d) = Some node" using q by simp
      let ?h2 = "ins_case2 d node p h" and ?X = "sub d t" and ?Y = "sub (opp d) t"
      let ?h3 = "ins_case3 d (child ?h2 node (opp d)) node g ?h2"
      have step: "insert_loop node q h = Some ?h3"
        using q pg nr dd cp by (subst insert_loop.simps) (simp add: Let_def hev_rbtree_node_is_black_def)
      have tm: "mk d HEV_RBTREE_RED ?X node ?Y = t" using mk_sub [OF t] by simp
      have n: "tree_at h (Some p) (Some node) (mk d HEV_RBTREE_RED ?X node ?Y)" using 4(4) q tm by simp
      have dxy: "set (inorder t) = insert node (set (inorder ?X) \<union> set (inorder ?Y))"
        "distinct (inorder t) \<longleftrightarrow> distinct (node # inorder ?X @ inorder ?Y)"
        using t by (cases d; auto)+
      have d1: "distinct (cnodes fs @ p # node # g # inorder s @ inorder ?X @ inorder ?Y @ inorder u)"
        using dis dxy by auto
      have s': "tree_at h (Some p) (child h p d) s" using s e by simp
      note r2 = ins_case2_rep [OF cx s' n u d1]
      have d2: "distinct (cnodes fs @ node # g # inorder (mk d HEV_RBTREE_RED s p (paint HEV_RBTREE_BLACK ?X)) @
        inorder ?Y @ inorder u)" using d1 by (cases d) auto
      have cx2: "ctx ?h2 fs (Some g) (pc_parent ?h2 g)" "pc_color ?h2 g = c"
        "tree_at ?h2 (Some g) (child ?h2 g (opp d)) u" using r2 pg by simp_all
      note r3 = ins_case3_rep [OF cx2(1,2) r2(2,3) cx2(3) d2]
      from r3 have "tree_at ?h3 None (root ?h3) (ins_fix (Frame e HEV_RBTREE_RED p s # Frame d c g u # fs) t)"
        using ne False t by (simp add: rep_plug)
      with step show ?thesis by blast
    qed
  qed
qed

section \<open>Removal: rebalancing\<close>

lemma del_case4_rep:
  assumes cx: "ctx h fs (Some p) (pc_parent h p)" and col: "pc_color h p = c"
    and t: "tree_at h (Some p) (child h p d) T"
    and x: "tree_at h qx (child h s d) X" and y: "tree_at h qy (Some y) Y" and ys: "child h s (opp d) = Some y"
    and dis: "distinct (cnodes fs @ p # s # inorder T @ inorder X @ inorder Y)"
  shows "ctx (del_case4 d p s y h) fs (Some s) (pc_parent h p)"
    and "tree_at (del_case4 d p s y h) (pc_parent h p) (Some s)
      (mk d c (mk d HEV_RBTREE_BLACK T p X) s (paint HEV_RBTREE_BLACK Y))"
proof -
  define h1 where "h1 = set_child s d (Some p) (set_child p (opp d) (child h s d) h)"
  define h2 where "h2 = hev_rbtree_node_set_parent_color y (Some s) HEV_RBTREE_BLACK h1"
  define h3 where "h3 = if_node (child h s d) (\<lambda>t. hev_rbtree_node_set_parent t (Some p)) h2"
  have e: "del_case4 d p s y h = hev_rbtree_rotate_set_parents p s HEV_RBTREE_BLACK h3"
    by (simp add: del_case4_def h1_def h2_def h3_def Let_def)
  have kx: "child h s d = key X" using x by (rule rep_key)
  have yk: "Some y = key Y" using y by (rule rep_key)
  have "y \<in> set (inorder Y)" using yk by (cases Y) auto
  then have yn: "y \<notin> set (cnodes fs)" "y \<notin> set (inorder T)" "y \<notin> set (inorder X)" "y \<noteq> p" "y \<noteq> s"
    using dis by auto
  have tn: "child h s d \<noteq> Some p" "child h s d \<noteq> Some s" "child h s d \<noteq> Some y"
    using kx dis yn by (cases X; simp)+
  have c1: "ctx h1 fs (Some p) (pc_parent h p)" "tree_at h1 (Some p) (child h p d) T"
    "tree_at h1 qx (child h s d) X" "tree_at h1 qy (Some y) Y"
    using cx t x y dis by (auto simp: h1_def)
  have c2: "ctx h2 fs (Some p) (pc_parent h p)" "tree_at h2 (Some p) (child h p d) T"
    "tree_at h2 qx (child h s d) X"
    unfolding h2_def using c1 yn by simp_all
  have y2: "tree_at h2 (Some s) (Some y) (paint HEV_RBTREE_BLACK Y)"
    using rep_recolor [OF c1(4), of "Some s" HEV_RBTREE_BLACK] dis by (simp add: h2_def)
  have dj: "set (inorder X) \<inter> set (cnodes fs) = {}" "set (inorder X) \<inter> set (inorder T) = {}"
    "set (inorder X) \<inter> set (inorder (paint HEV_RBTREE_BLACK Y)) = {}" "distinct (inorder X)" using dis by auto
  have c3: "ctx h3 fs (Some p) (pc_parent h p)" "tree_at h3 (Some p) (child h p d) T"
    "tree_at h3 (Some p) (child h s d) X" "tree_at h3 (Some s) (Some y) (paint HEV_RBTREE_BLACK Y)"
    unfolding h3_def using c2 y2 dj
    by (simp_all add: if_node_other [OF c2(3)] rep_reparent [OF c2(3)])
  have f3: "pc_parent h3 p = pc_parent h p" "pc_color h3 p = c" "child h3 p d = child h p d"
    "child h3 p (opp d) = child h s d" "child h3 s d = Some p" "child h3 s (opp d) = Some y"
    using tn col dis yn ys by (auto simp: h3_def h2_def h1_def if_node_fields)
  have cx3: "ctx h3 fs (Some p) (pc_parent h3 p)" using c3(1) f3(1) by simp
  have ps: "p \<noteq> s" and np: "p \<notin> set (cnodes fs)" "s \<notin> set (cnodes fs)" using dis by auto
  show "ctx (del_case4 d p s y h) fs (Some s) (pc_parent h p)"
    using rotate_ctx [of h3 fs p s] cx3 f3(1) np dis by (simp add: e)
  note rf = rotate_fields [OF cx3 np(1) ps] rotate_fields [OF cx3 np(2) ps]
  have r: "tree_at (hev_rbtree_rotate_set_parents p s HEV_RBTREE_BLACK h3) q' p' t = tree_at h3 q' p' t"
    if "t \<in> {T, X, paint HEV_RBTREE_BLACK Y}" for q' p' t
    using that dis by (intro rotate_rep [OF cx3 _ ps]) auto
  show "tree_at (del_case4 d p s y h) (pc_parent h p) (Some s)
      (mk d c (mk d HEV_RBTREE_BLACK T p X) s (paint HEV_RBTREE_BLACK Y))"
    using rf r f3 c3 ps by (simp add: e)
qed

lemma del_case3_rep:
  assumes cx: "ctx h fs k q" and t: "tree_at h (Some p) (child h p d) T"
    and x: "tree_at h (Some s) (Some x) (mk d cx XX x XY)" and y: "tree_at h (Some s) (child h s (opp d)) Y"
    and dis: "distinct (cnodes fs @ p # s # x # inorder T @ inorder XX @ inorder XY @ inorder Y)"
  shows "ctx (del_case3 d p s x h) fs k q"
    and "tree_at (del_case3 d p s x h) (Some p) (child (del_case3 d p s x h) p d) T"
    and "tree_at (del_case3 d p s x h) (Some x) (child (del_case3 d p s x h) x d) XX"
    and "tree_at (del_case3 d p s x h) (pc_parent h s) (Some s)
      (mk d (pc_color h s) (paint HEV_RBTREE_BLACK XY) s Y)"
    and "child (del_case3 d p s x h) x (opp d) = Some s"
    and "pc_parent (del_case3 d p s x h) p = pc_parent h p" "pc_color (del_case3 d p s x h) p = pc_color h p"
proof -
  define h1 where "h1 = set_child p (opp d) (Some x) (set_child x (opp d) (Some s)
    (set_child s d (child h x (opp d)) h))"
  have e: "del_case3 d p s x h = if_node (child h x (opp d))
      (\<lambda>t. hev_rbtree_node_set_parent_color t (Some s) HEV_RBTREE_BLACK) h1"
    by (simp add: del_case3_def h1_def Let_def)
  from x have xx: "tree_at h (Some x) (child h x d) XX" "tree_at h (Some x) (child h x (opp d)) XY" by auto
  have k: "child h x (opp d) = key XY" using xx(2) by (rule rep_key)
  have tn: "child h x (opp d) \<noteq> Some p" "child h x (opp d) \<noteq> Some s" "child h x (opp d) \<noteq> Some x"
    using k dis by (cases XY; auto)+
  have c1: "ctx h1 fs k q" "tree_at h1 (Some p) (child h p d) T" "tree_at h1 (Some x) (child h x d) XX"
    "tree_at h1 (Some x) (child h x (opp d)) XY" "tree_at h1 (Some s) (child h s (opp d)) Y"
    using cx t xx y dis by (auto simp: h1_def)
  have dj: "set (inorder XY) \<inter> set (cnodes fs) = {}" "set (inorder XY) \<inter> set (inorder T) = {}"
    "set (inorder XY) \<inter> set (inorder XX) = {}" "set (inorder XY) \<inter> set (inorder Y) = {}"
    "distinct (inorder XY)" using dis by auto
  have f1: "child h1 p d = child h p d" "child h1 x d = child h x d" "child h1 x (opp d) = Some s"
    "child h1 s d = child h x (opp d)" "child h1 s (opp d) = child h s (opp d)"
    using dis by (auto simp: h1_def)
  have pc1: "pc_parent h1 = pc_parent h" "pc_color h1 = pc_color h" by (simp_all add: h1_def)
  show "ctx (del_case3 d p s x h) fs k q"
    "tree_at (del_case3 d p s x h) (Some p) (child (del_case3 d p s x h) p d) T"
    "tree_at (del_case3 d p s x h) (Some x) (child (del_case3 d p s x h) x d) XX"
    "tree_at (del_case3 d p s x h) (pc_parent h s) (Some s)
      (mk d (pc_color h s) (paint HEV_RBTREE_BLACK XY) s Y)"
    "child (del_case3 d p s x h) x (opp d) = Some s"
    "pc_parent (del_case3 d p s x h) p = pc_parent h p" "pc_color (del_case3 d p s x h) p = pc_color h p"
    unfolding e using c1 dj f1 pc1 tn
    by (simp_all add: if_node_other [OF c1(4)] rep_recolor [OF c1(4)] if_node_fields)
qed

lemma del_case1_rep:
  assumes cx: "ctx h fs (Some p) (pc_parent h p)" and col: "pc_color h p = c"
    and t: "tree_at h (Some p) (child h p d) T"
    and s: "tree_at h (Some p) (child h p (opp d)) (mk d cs X s Y)" and x: "X = Node cx xl x xr"
    and dis: "distinct (cnodes fs @ p # s # inorder T @ inorder X @ inorder Y)"
  shows "child h p (opp d) = Some s \<and> child h s d = Some x"
    and "ctx (del_case1 d p s x h)
      (Frame d HEV_RBTREE_RED p (paint HEV_RBTREE_BLACK X) # Frame d c s Y # fs) (child h p d) (Some p)"
    and "tree_at (del_case1 d p s x h) (Some p) (child h p d) T"
proof -
  define h2 where "h2 = hev_rbtree_node_set_parent_color x (Some p) HEV_RBTREE_BLACK
    (set_child s d (Some p) (set_child p (opp d) (Some x) h))"
  have e: "del_case1 d p s x h = hev_rbtree_rotate_set_parents p s HEV_RBTREE_RED h2"
    by (simp add: del_case1_def h2_def Let_def)
  from s x show k: "child h p (opp d) = Some s \<and> child h s d = Some x" by auto
  have xn: "x \<notin> set (cnodes fs)" "x \<notin> set (inorder T)" "x \<notin> set (inorder Y)" "x \<noteq> p" "x \<noteq> s"
    using dis x by auto
  from s have xy: "tree_at h (Some s) (child h s d) X" "tree_at h (Some s) (child h s (opp d)) Y" by auto
  have c2: "ctx h2 fs (Some p) (pc_parent h p)" "tree_at h2 (Some p) (child h p d) T"
    "tree_at h2 (Some s) (child h s (opp d)) Y"
    using cx t xy dis xn by (auto simp: h2_def)
  have x2: "tree_at h2 (Some p) (Some x) (paint HEV_RBTREE_BLACK X)"
  proof -
    have "tree_at (set_child s d (Some p) (set_child p (opp d) (Some x) h)) (Some s) (Some x) X"
      using xy(1) k dis by auto
    from rep_recolor [OF this, of "Some p" HEV_RBTREE_BLACK] dis show ?thesis by (simp add: h2_def)
  qed
  have f2: "pc_parent h2 p = pc_parent h p" "pc_color h2 p = c" "child h2 p d = child h p d"
    "child h2 p (opp d) = Some x" "child h2 s d = Some p" "child h2 s (opp d) = child h s (opp d)"
    using col dis xn by (auto simp: h2_def)
  have cx2: "ctx h2 fs (Some p) (pc_parent h2 p)" using c2(1) f2(1) by simp
  have ps: "p \<noteq> s" and np: "p \<notin> set (cnodes fs)" "s \<notin> set (cnodes fs)" using dis by auto
  have cr: "ctx (hev_rbtree_rotate_set_parents p s HEV_RBTREE_RED h2) fs (Some s) (pc_parent h p)"
    using rotate_ctx [of h2 fs p s] cx2 f2(1) np dis by simp
  note rf = rotate_fields [OF cx2 np(1) ps] rotate_fields [OF cx2 np(2) ps]
  have r: "tree_at (hev_rbtree_rotate_set_parents p s HEV_RBTREE_RED h2) q' p' t = tree_at h2 q' p' t"
    if "t \<in> {T, Y, paint HEV_RBTREE_BLACK X}" for q' p' t
    using that dis by (intro rotate_rep [OF cx2 _ ps]) auto
  show "ctx (del_case1 d p s x h)
      (Frame d HEV_RBTREE_RED p (paint HEV_RBTREE_BLACK X) # Frame d c s Y # fs) (child h p d) (Some p)"
    using cr rf r f2 c2 x2 ps by (simp add: e)
  show "tree_at (del_case1 d p s x h) (Some p) (child h p d) T"
    using r c2 by (simp add: e)
qed

text \<open>The second half of a round: the sibling \<open>s\<close> is black.\<close>

lemma del_rest_rep:
  assumes cx: "ctx h (Frame d c p sib # fs) k (Some p)" and t: "tree_at h (Some p) k t"
    and sib: "sib = Node HEV_RBTREE_BLACK l s r"
    and dis: "distinct (cnodes (Frame d c p sib # fs) @ inorder t)"
  shows "\<exists>h' again. del_rest d p s h = Some (h', again) \<and>
    (case del_sib d c p sib t of
       Inl u \<Rightarrow> \<not> again \<and> tree_at h' None (root h') (plug fs u)
     | Inr u \<Rightarrow> again \<and> ctx h' fs (Some p) (pc_parent h' p) \<and> tree_at h' (pc_parent h' p) (Some p) u)"
proof -
  let ?X = "sub d sib" and ?Y = "sub (opp d) sib"
  have tm: "sib = mk d HEV_RBTREE_BLACK ?X s ?Y" using mk_sub [OF sib, of d] sib by simp
  from cx have cf: "ctx h fs (Some p) (pc_parent h p)" "pc_color h p = c" "child h p d = k"
    and rs: "tree_at h (Some p) (child h p (opp d)) sib" by auto
  have sx: "child h p (opp d) = Some s" "pc_parent h s = Some p" "pc_color h s = HEV_RBTREE_BLACK"
    "tree_at h (Some s) (child h s d) ?X" "tree_at h (Some s) (child h s (opp d)) ?Y"
    using rs by (subst (asm) tm; simp)+
  have din: "set (inorder sib) = insert s (set (inorder ?X) \<union> set (inorder ?Y))"
    "distinct (inorder sib) \<longleftrightarrow> distinct (s # inorder ?X @ inorder ?Y)"
    using sib by (cases d; auto)+
  have dis0: "distinct (cnodes fs @ p # s # inorder t @ inorder ?X @ inorder ?Y)"
    using dis din by auto
  have T: "tree_at h (Some p) (child h p d) t" using t cf by simp
  have ds: "del_sib d c p sib t =
     (if tcolor ?Y \<noteq> HEV_RBTREE_RED then
        if tcolor ?X \<noteq> HEV_RBTREE_RED then
          if c = HEV_RBTREE_RED then Inl (mk d HEV_RBTREE_BLACK t p (mk d HEV_RBTREE_RED ?X s ?Y))
          else Inr (mk d c t p (mk d HEV_RBTREE_RED ?X s ?Y))
        else (case ?X of Leaf \<Rightarrow> Inl Leaf
          | Node _ _ xn _ \<Rightarrow> Inl (mk d c (mk d HEV_RBTREE_BLACK t p (sub d ?X)) xn
                (mk d HEV_RBTREE_BLACK (paint HEV_RBTREE_BLACK (sub (opp d) ?X)) s ?Y)))
      else Inl (mk d c (mk d HEV_RBTREE_BLACK t p ?X) s (paint HEV_RBTREE_BLACK ?Y)))"
    by (simp only: sib del_sib.simps Let_def)
  note red = rep_red [OF sx(4)] rep_red [OF sx(5)]
  show ?thesis
  proof (cases "tcolor ?Y = HEV_RBTREE_RED")
    case True
    then obtain y where y: "child h s (opp d) = Some y" using rep_key [OF sx(5)] by (cases ?Y) auto
    have st: "del_rest d p s h = Some (del_case4 d p s y h, False)"
      using True red y by (simp add: del_rest_def Let_def)
    from del_case4_rep [OF cf(1,2) T sx(4) sx(5) [unfolded y] y dis0]
    have "tree_at (del_case4 d p s y h) None (root (del_case4 d p s y h))
      (plug fs (mk d c (mk d HEV_RBTREE_BLACK t p ?X) s (paint HEV_RBTREE_BLACK ?Y)))"
      unfolding rep_plug by blast
    with st ds True show ?thesis
      by (intro exI [of _ "del_case4 d p s y h"] exI [of _ False]) simp
  next
    case yb: False
    show ?thesis
    proof (cases "tcolor ?X = HEV_RBTREE_RED")
      case True
      then obtain xl x xr where X: "?X = Node HEV_RBTREE_RED xl x xr" by (cases ?X) auto
      then have kx: "child h s d = Some x" using rep_key [OF sx(4)] by simp
      have rx: "tree_at h (Some s) (Some x) (mk d HEV_RBTREE_RED (sub d ?X) x (sub (opp d) ?X))"
        using sx(4) kx mk_sub [OF X, of d] X by simp
      have dx: "set (inorder ?X) = insert x (set (inorder (sub d ?X)) \<union> set (inorder (sub (opp d) ?X)))"
        "distinct (inorder ?X) \<longleftrightarrow> distinct (x # inorder (sub d ?X) @ inorder (sub (opp d) ?X))"
        using X by (cases d; auto)+
      have d3: "distinct (cnodes fs @ p # s # x # inorder t @ inorder (sub d ?X) @ inorder (sub (opp d) ?X) @ inorder ?Y)"
        using dis0 dx by auto
      let ?h3 = "del_case3 d p s x h"
      note r3 = del_case3_rep [OF cf(1) T rx sx(5) d3]
      have d4: "distinct (cnodes fs @ p # x # inorder t @ inorder (sub d ?X) @
        inorder (mk d (pc_color h s) (paint HEV_RBTREE_BLACK (sub (opp d) ?X)) s ?Y))"
        by (rule distinct_perm [OF _ d3]) (simp add: inorder_mk)
      have cx3: "ctx ?h3 fs (Some p) (pc_parent ?h3 p)" "pc_color ?h3 p = c"
        using r3(1,6,7) cf by simp_all
      note r4 = del_case4_rep [OF cx3 r3(2,3,4,5) d4]
      have "tree_at (del_case4 d p x s ?h3) None (root (del_case4 d p x s ?h3))
        (plug fs (mk d c (mk d HEV_RBTREE_BLACK t p (sub d ?X)) x
          (mk d HEV_RBTREE_BLACK (paint HEV_RBTREE_BLACK (sub (opp d) ?X)) s ?Y)))"
        using r4 unfolding rep_plug paint_mk by blast
      moreover have "del_rest d p s h = Some (del_case4 d p x s ?h3, False)"
        using True yb red kx by (simp add: del_rest_def Let_def)
      ultimately show ?thesis using ds yb True X
        by (intro exI [of _ "del_case4 d p x s ?h3"] exI [of _ False]) simp
    next
      case xb: False
      let ?h1 = "hev_rbtree_node_set_parent_color s (Some p) HEV_RBTREE_RED h"
      have ps: "p \<noteq> s" using dis0 by auto
      have c1: "ctx ?h1 fs (Some p) (pc_parent h p)" "tree_at ?h1 (Some p) (child h p d) t"
        "tree_at ?h1 (Some p) (Some s) (mk d HEV_RBTREE_RED ?X s ?Y)"
        using cf T sx dis0 by auto
      show ?thesis
      proof (cases c)
        case HEV_RBTREE_RED
        let ?h2 = "hev_rbtree_node_set_black p ?h1"
        have "del_rest d p s h = Some (?h2, False)"
          using xb yb red HEV_RBTREE_RED cf ps by (simp add: del_rest_def Let_def hev_rbtree_node_is_red_def)
        moreover have "ctx ?h2 fs (Some p) (pc_parent h p)" "tree_at ?h2 (pc_parent h p) (Some p)
            (mk d HEV_RBTREE_BLACK t p (mk d HEV_RBTREE_RED ?X s ?Y))"
          using c1 sx ps dis0 cf by auto
        then have "tree_at ?h2 None (root ?h2) (plug fs (mk d HEV_RBTREE_BLACK t p (mk d HEV_RBTREE_RED ?X s ?Y)))"
          unfolding rep_plug by blast
        ultimately show ?thesis using ds xb yb HEV_RBTREE_RED
          by (intro exI [of _ ?h2] exI [of _ False]) simp
      next
        case HEV_RBTREE_BLACK
        have "del_rest d p s h = Some (?h1, True)"
          using xb yb red HEV_RBTREE_BLACK cf ps by (simp add: del_rest_def Let_def hev_rbtree_node_is_red_def)
        moreover have "tree_at ?h1 (pc_parent h p) (Some p) (mk d c t p (mk d HEV_RBTREE_RED ?X s ?Y))"
          using c1 sx ps cf by auto
        ultimately show ?thesis using ds xb yb HEV_RBTREE_BLACK c1(1) ps
          by (intro exI [of _ ?h1] exI [of _ True]) simp
      qed
    qed
  qed
qed

lemma side_of_hole:
  assumes "child h p d = k" "tree_at h q (child h p (opp d)) (Node cs l s r)" "k \<noteq> Some s"
  shows "(if k \<noteq> child h p RIGHT then LEFT else RIGHT) = d"
  using assms by (cases d) auto

lemma inorder_del_sib_set:
  assumes "del_sib d c p sib t = Inr u"
  shows "mset (inorder u) = mset (p # inorder sib @ inorder t)"
  using inorder_del_sib [of d c p sib t] assms by (simp add: inorder_mk split: if_splits)

lemma erase_color_refines:
  "fits fs n \<Longrightarrow> n = Suc m \<Longrightarrow> ctx h fs k (Some p) \<Longrightarrow> tree_at h (Some p) k t \<Longrightarrow> no_red_red t \<Longrightarrow>
   blacks t m \<Longrightarrow> tcolor t = HEV_RBTREE_BLACK \<Longrightarrow> distinct (cnodes fs @ inorder t) \<Longrightarrow>
   \<exists>h'. erase_color_loop k p h = Some h' \<and> tree_at h' None (root h') (del_fix fs t)"
proof (induction fs arbitrary: n m h k p t)
  case Nil
  then show ?case by simp
next
  case (Cons f fs)
  note cx = Cons.prems(3) and t = Cons.prems(4) and dis = Cons.prems(8)
  obtain d c sib where f: "f = Frame d c p sib" using cx by (cases f) auto
  from Cons.prems(1,2) f have s: "no_red_red sib" "blacks sib (Suc m)"
    and c: "if c = HEV_RBTREE_BLACK then fits fs (Suc (Suc m))
      else tcolor sib = HEV_RBTREE_BLACK \<and> red_fits fs \<and> fits fs (Suc m)"
    by (auto simp: fits_frame)
  from s obtain cs l a r where sib: "sib = Node cs l a r" by (cases sib) auto
  from cx f have cf: "ctx h fs (Some p) (pc_parent h p)" "pc_color h p = c" "child h p d = k"
    and rs: "tree_at h (Some p) (child h p (opp d)) sib" by auto
  have ka: "k \<noteq> Some a" using rep_key [OF t] dis f sib by (cases t) auto
  note dd = side_of_hole [OF cf(3) rs [unfolded sib] ka]
  have ca: "child h p (opp d) = Some a" "pc_color h a = cs" using rs sib by auto
  show ?case
  proof (cases cs)
    case HEV_RBTREE_RED
    let ?X = "sub d sib" and ?Y = "sub (opp d) sib"
    from HEV_RBTREE_RED s sib have xy: "no_red_red ?X" "blacks ?X (Suc m)" "tcolor ?X = HEV_RBTREE_BLACK"
      by (cases d; auto)+
    then obtain xl x xr where X: "?X = Node HEV_RBTREE_BLACK xl x xr" by (cases ?X) auto
    have T: "tree_at h (Some p) (child h p d) t" using t cf by simp
    have rs': "tree_at h (Some p) (child h p (opp d)) (mk d cs ?X a ?Y)"
      using rs mk_sub [OF sib, of d] by simp
    have d1: "distinct (cnodes fs @ p # a # inorder t @ inorder ?X @ inorder ?Y)"
      by (rule distinct_perm [OF _ dis]) (cases d; simp add: f sib)
    note r1 = del_case1_rep [OF cf(1,2) T rs' X d1]
    let ?h1 = "del_case1 d p a x h" and ?F = "Frame d c a ?Y # fs"
    have px: "paint HEV_RBTREE_BLACK ?X = ?X" using xy(3) by (rule paint_id)
    have cx1: "ctx ?h1 (Frame d HEV_RBTREE_RED p ?X # ?F) k (Some p)" "tree_at ?h1 (Some p) k t"
      using r1(2,3) px cf(3) by simp_all
    have d2: "distinct (cnodes (Frame d HEV_RBTREE_RED p ?X # ?F) @ inorder t)"
      by (rule distinct_perm [OF _ d1]) simp
    from del_sib_ok [OF xy Cons.prems(5-7), where d = d and c = HEV_RBTREE_RED and p = p]
    obtain u where u: "del_sib d HEV_RBTREE_RED p ?X t = Inl u" by (auto split: sum.splits)
    from del_rest_rep [OF cx1 X d2] u obtain h' where
      h': "del_rest d p x ?h1 = Some (h', False)" "tree_at h' None (root h') (plug ?F u)" by auto
    have "erase_color_loop k p h = Some h'"
      using ca HEV_RBTREE_RED r1(1) h'(1) dd
      by (subst erase_color_loop.simps) (simp add: Let_def hev_rbtree_node_is_red_def)
    moreover have "del_fix (f # fs) t = plug ?F u"
      using f sib HEV_RBTREE_RED u px by simp
    ultimately show ?thesis using h'(2) by simp
  next
    case HEV_RBTREE_BLACK
    have sb: "tcolor sib = HEV_RBTREE_BLACK" using sib HEV_RBTREE_BLACK by simp
    note ok = del_sib_ok [OF s sb Cons.prems(5-7), where d = d and c = c and p = p]
    from del_rest_rep [OF cx [unfolded f] t sib [unfolded HEV_RBTREE_BLACK] dis [unfolded f]]
    obtain h' again where h': "del_rest d p a h = Some (h', again)" "case del_sib d c p sib t of
       Inl u \<Rightarrow> \<not> again \<and> tree_at h' None (root h') (plug fs u)
     | Inr u \<Rightarrow> again \<and> ctx h' fs (Some p) (pc_parent h' p) \<and> tree_at h' (pc_parent h' p) (Some p) u" by blast
    have st: "erase_color_loop k p h =
      (if again then (case pc_parent h' p of None \<Rightarrow> Some h' | Some p' \<Rightarrow> erase_color_loop (Some p) p' h') else Some h')"
      using ca HEV_RBTREE_BLACK h'(1) dd
      by (subst erase_color_loop.simps) (simp add: Let_def hev_rbtree_node_is_red_def hev_rbtree_node_parent_def)
    show ?thesis
    proof (cases "del_sib d c p sib t")
      case (Inl u)
      with h'(2) st f sib HEV_RBTREE_BLACK show ?thesis by simp
    next
      case (Inr u)
      with h'(2) have r: "again" "ctx h' fs (Some p) (pc_parent h' p)" "tree_at h' (pc_parent h' p) (Some p) u" by auto
      from ok Inr c have u: "c = HEV_RBTREE_BLACK" "no_red_red u" "blacks u (Suc m)" "tcolor u = HEV_RBTREE_BLACK"
        "fits fs (Suc (Suc m))" by auto
      have df: "del_fix (f # fs) t = del_fix fs u" using Inr f sib HEV_RBTREE_BLACK by simp
      show ?thesis
      proof (cases "pc_parent h' p")
        case None
        with r(2) have "fs = []" by (cases fs) (auto split: frame.splits)
        with None r st df show ?thesis by simp
      next
        case (Some p')
        have "distinct (cnodes fs @ inorder u)"
          by (rule distinct_perm [OF _ dis]) (simp add: f inorder_del_sib_set [OF Inr])
        from Cons.IH [OF u(5) refl r(2) [unfolded Some] r(3) [unfolded Some] u(2,3,4) this] Some r(1) st df
        show ?thesis by simp
      qed
    qed
  qed
qed

section \<open>Removal: unlinking\<close>

text \<open>A path between two places of the tree, for the way down to the successor.\<close>

primrec rseg :: "rbtree \<Rightarrow> ptr \<Rightarrow> ptr \<Rightarrow> frame list \<Rightarrow> ptr \<Rightarrow> ptr \<Rightarrow> bool" where
  "rseg h r0 q0 [] p q = (p = r0 \<and> q = q0)"
| "rseg h r0 q0 (f # fs) p q = (case f of Frame d c a s \<Rightarrow>
     q = Some a \<and> child h a d = p \<and> pc_color h a = c \<and> tree_at h (Some a) (child h a (opp d)) s \<and>
     rseg h r0 q0 fs (Some a) (pc_parent h a))"

lemma ctx_append: "ctx h (gs @ fs) p q \<longleftrightarrow> (\<exists>p1 q1. ctx h fs p1 q1 \<and> rseg h p1 q1 gs p q)"
proof (induction gs arbitrary: p q)
  case (Cons f gs)
  then show ?case by (cases f) auto
qed simp

lemma rep_plug_rseg: "tree_at h q0 p0 (plug gs t) \<longleftrightarrow> (\<exists>p q. rseg h p0 q0 gs p q \<and> tree_at h q p t)"
proof (induction gs arbitrary: t)
  case (Cons f gs)
  then show ?case by (cases f) auto
qed auto

lemma rseg_cong:
  "(\<And>a. a \<in> set (cnodes fs) \<Longrightarrow>
     pc_parent h' a = pc_parent h a \<and> pc_color h' a = pc_color h a \<and> child h' a = child h a) \<Longrightarrow>
   rseg h' p0 q0 fs p q = rseg h p0 q0 fs p q"
proof (induction fs arbitrary: p q)
  case (Cons f fs)
  obtain d c a s where f: "f = Frame d c a s" by (cases f)
  have "tree_at h' (Some a) (child h' a (opp d)) s = tree_at h (Some a) (child h' a (opp d)) s"
    using Cons.prems f by (intro rep_cong) auto
  with Cons f show ?case by auto
qed simp

lemma rseg_upd [simp]:
  "a \<notin> set (cnodes fs) \<Longrightarrow> rseg (set_child a d v h) p0 q0 fs p q = rseg h p0 q0 fs p q"
  "a \<notin> set (cnodes fs) \<Longrightarrow> rseg (hev_rbtree_node_set_parent_color a q' c h) p0 q0 fs p q = rseg h p0 q0 fs p q"
  "a \<notin> set (cnodes fs) \<Longrightarrow> rseg (hev_rbtree_node_set_parent a q' h) p0 q0 fs p q = rseg h p0 q0 fs p q"
  by (rule rseg_cong; auto)+

lemma rseg_change_child:
  "(\<And>a. q' = Some a \<Longrightarrow> a \<notin> set (cnodes fs)) \<Longrightarrow>
   rseg (hev_rbtree_change_child o' n q' h) p0 q0 fs p q = rseg h p0 q0 fs p q"
  by (rule rseg_cong) (metis change_child_simps(1-3))

lemma rseg_set_parent:
  "rseg h (Some a) q0 gs p q \<Longrightarrow> gs \<noteq> [] \<Longrightarrow> distinct (cnodes gs) \<Longrightarrow>
   rseg (hev_rbtree_node_set_parent a q1 h) (Some a) q1 gs p q"
proof (induction gs arbitrary: p q)
  case (Cons f gs)
  obtain d c b s where f: "f = Frame d c b s" by (cases f)
  show ?case
  proof (cases "gs = []")
    case True
    with Cons.prems f show ?thesis by auto
  next
    case False
    have "a \<in> set (cnodes gs)"
      using Cons.prems(1) False f
    proof (induction gs arbitrary: f d c b s p q)
      case (Cons g gs)
      then show ?case by (cases g; cases gs) (auto split: frame.splits)
    qed simp
    with Cons.prems f have "a \<noteq> b" "a \<notin> set (inorder s)" by auto
    with Cons False f show ?thesis by auto
  qed
qed simp

end
