(* ===== verification/RBTree_Erase.thy ===== *)
theory RBTree_Erase
  imports RBTree_Rep
begin

text \<open>
  Unlinking a node from the pointer tree (\<open>_hev_rbtree_erase\<close>): the three cases of the code, a
  missing left child, a missing right child, and the replacement by the successor, each against
  the zipper function \<open>unlink\<close> of \<open>RBTree_Zip\<close>; together with the rebalancing loop they give the
  refinement of \<open>hev_rbtree_erase\<close>.
\<close>

section \<open>The way to the successor\<close>

lemma rseg_set_hole:
  "rseg h r0 q0 (Frame d c a s # gs) p q \<Longrightarrow> a \<notin> set (inorder s) \<Longrightarrow> a \<notin> set (cnodes gs) \<Longrightarrow>
   rseg (set_child a d v h) r0 q0 (Frame d c a s # gs) v q"
  by auto

lemma find_successor_refines:
  "tree_at h (Some parent) (Some a) t \<Longrightarrow> rseg h r0 q0 gs (Some a) (Some parent) \<Longrightarrow>
   gs = Frame LEFT cf parent sf # gf \<Longrightarrow> down t gs = (gs', cs, s, sr) \<Longrightarrow>
   \<exists>p' c1 s1 gs1. find_successor parent a h = Some (p', s) \<and> gs' = Frame LEFT c1 p' s1 # gs1 \<and>
     rseg h r0 q0 gs' (Some s) (Some p') \<and> tree_at h (Some p') (Some s) (Node cs Leaf s sr)"
proof (induction t gs arbitrary: parent a cf sf gf rule: down.induct)
  case (2 c b r gs)
  then show ?case by (subst find_successor.simps) auto
next
  case (3 c v va vb vc b r gs)
  from "3.prems"(1) have a: "b = a" "tree_at h (Some a) (child h a LEFT) (Node v va vb vc)"
    "pc_parent h a = Some parent" "pc_color h a = c" "tree_at h (Some a) (child h a RIGHT) r" by auto
  from a(2) have l: "child h a LEFT = Some vb" by simp
  have "\<exists>p' c1 s1 gs1. find_successor a vb h = Some (p', s) \<and> gs' = Frame LEFT c1 p' s1 # gs1 \<and>
     rseg h r0 q0 gs' (Some s) (Some p') \<and> tree_at h (Some p') (Some s) (Node cs Leaf s sr)"
    using "3.prems" a l by (intro "3.IH" [where cf = c and sf = r]) auto
  with l show ?case by (subst find_successor.simps) auto
qed auto

lemma rseg_top: "rseg h (Some x) q0 gs p q \<Longrightarrow> gs \<noteq> [] \<Longrightarrow> x \<in> set (cnodes gs)"
proof (induction gs arbitrary: p q)
  case (Cons f gs)
  then show ?case by (cases f; cases gs) auto
qed simp

section \<open>The three cases\<close>

lemma unlink_left:
  assumes cx: "ctx h fs (Some n) q" and t: "tree_at h q (Some n) (Node c Leaf n r)"
    and dis: "distinct (cnodes fs @ n # inorder r)"
  shows "\<exists>h' k. rb_unlink n h = Some (if r = Leaf \<and> c = HEV_RBTREE_BLACK then q else None, h') \<and>
    ctx h' fs k q \<and> tree_at h' q k (paint c r)"
proof -
  from t have n: "child h n LEFT = None" "pc_parent h n = q" "pc_color h n = c"
    "tree_at h (Some n) (child h n RIGHT) r" by auto
  let ?k = "child h n RIGHT" and ?h1 = "hev_rbtree_change_child n (child h n RIGHT) q h"
  have c1: "ctx ?h1 fs ?k q" using ctx_change_child [OF cx] dis by auto
  have "tree_at ?h1 (Some n) ?k r = tree_at h (Some n) ?k r"
    using ctx_parent [OF cx] dis by (intro rep_change_child) auto
  with n(4) have r1: "tree_at ?h1 (Some n) ?k r" by simp
  let ?h2 = "if_node ?k (\<lambda>x. hev_rbtree_node_set_parent_color x q c) ?h1"
  have "ctx ?h2 fs ?k q" "tree_at ?h2 q ?k (paint c r)"
    using c1 r1 dis by (auto simp: if_node_other(3) [OF r1] Int_commute intro!: rep_recolor)
  moreover have "rb_unlink n h = Some (if r = Leaf \<and> c = HEV_RBTREE_BLACK then q else None, ?h2)"
    using n rep_key [OF n(4)] by (cases r) (auto simp: rb_unlink_def Let_def)
  ultimately show ?thesis by blast
qed

lemma unlink_right:
  assumes cx: "ctx h fs (Some n) q" and t: "tree_at h q (Some n) (Node c l n Leaf)" and l: "l \<noteq> Leaf"
    and dis: "distinct (cnodes fs @ n # inorder l)"
  shows "\<exists>h' k. rb_unlink n h = Some (None, h') \<and> ctx h' fs k q \<and> tree_at h' q k (paint c l)"
proof -
  from t have n: "child h n RIGHT = None" "pc_parent h n = q" "pc_color h n = c"
    "tree_at h (Some n) (child h n LEFT) l" by auto
  obtain tmp where k: "child h n LEFT = Some tmp" using rep_key [OF n(4)] l by (cases l) auto
  let ?h1 = "hev_rbtree_node_set_parent_color tmp q c h"
  have tm: "tmp \<in> set (inorder l)" using rep_key [OF n(4)] k by (cases l) auto
  have r1: "tree_at ?h1 q (Some tmp) (paint c l)"
    using rep_recolor [OF n(4), where q' = q and c = c] dis k by simp
  from tm dis have "tmp \<notin> set (cnodes fs)" by auto
  with cx have c1: "ctx ?h1 fs (Some n) q" by simp
  let ?h2 = "hev_rbtree_change_child n (Some tmp) q ?h1"
  have "ctx ?h2 fs (Some tmp) q" using ctx_change_child [OF c1] dis by auto
  moreover have "tree_at ?h2 q (Some tmp) (paint c l) = tree_at ?h1 q (Some tmp) (paint c l)"
    using ctx_parent [OF cx] dis by (intro rep_change_child) auto
  moreover have "rb_unlink n h = Some (None, ?h2)"
    using n k by (simp add: rb_unlink_def Let_def)
  ultimately show ?thesis using r1 by blast
qed

text \<open>The end of the third case, once \<open>s\<close> is off its place and has its right subtree.\<close>

definition put_successor :: "addr \<Rightarrow> addr \<Rightarrow> ptr \<Rightarrow> addr \<Rightarrow> addr \<Rightarrow> rbtree \<Rightarrow> rbtree" where
  "put_successor node parent child2 s tmp h =
     (let h = set_child s LEFT (Some tmp) h;
          h = hev_rbtree_node_set_parent tmp (Some s) h;
          pp = pc_parent h node;
          c = pc_color h node;
          h = hev_rbtree_change_child node (Some s) pp h;
          h = if_node child2 (\<lambda>x. hev_rbtree_node_set_parent_color x (Some parent) HEV_RBTREE_BLACK) h
      in hev_rbtree_node_set_parent_color s pp c h)"

lemma put_successor_rep:
  assumes cx: "ctx h fs (Some n) q" and n: "pc_parent h n = q" "pc_color h n = c"
    and l: "tree_at h (Some n) (Some tmp) l"
    and sg: "rseg h (child h s RIGHT) (Some s) gs k (Some p)" and sr: "tree_at h qs k sr"
    and dis: "distinct (n # s # cnodes fs @ cnodes gs @ inorder l @ inorder sr)"
  shows "ctx (put_successor n p k s tmp h) (gs @ Frame RIGHT c s l # fs) k (Some p)"
    and "tree_at (put_successor n p k s tmp h) (Some p) k (paint HEV_RBTREE_BLACK sr)"
proof -
  define h1 where "h1 = hev_rbtree_node_set_parent tmp (Some s) (set_child s LEFT (Some tmp) h)"
  define h2 where "h2 = hev_rbtree_change_child n (Some s) q h1"
  define h3 where "h3 = if_node k (\<lambda>x. hev_rbtree_node_set_parent_color x (Some p) HEV_RBTREE_BLACK) h2"
  have tm: "tmp \<in> set (inorder l)" using rep_key [OF l] by (cases l) auto
  from tm dis have td: "tmp \<notin> set (cnodes fs)" "tmp \<notin> set (cnodes gs)" "tmp \<notin> set (inorder sr)" "tmp \<noteq> n"
    by auto
  have f1: "pc_parent h1 n = q" "pc_color h1 n = c" "child h1 s LEFT = Some tmp"
    "child h1 s RIGHT = child h s RIGHT" using n td dis by (simp_all add: h1_def)
  have e: "put_successor n p k s tmp h = hev_rbtree_node_set_parent_color s q c h3"
    by (simp only: put_successor_def Let_def h1_def [symmetric] f1(1,2) h2_def [symmetric] h3_def [symmetric])
  have c1: "ctx h1 fs (Some n) q" "rseg h1 (child h s RIGHT) (Some s) gs k (Some p)" "tree_at h1 qs k sr"
    using cx sg sr td dis by (simp_all add: h1_def)
  have "tree_at (set_child s LEFT (Some tmp) h) (Some n) (Some tmp) l" using l dis by simp
  from rep_reparent [OF this, where q' = "Some s"] dis have l1: "tree_at h1 (Some s) (Some tmp) l"
    by (simp add: h1_def)
  have qn: "q \<noteq> Some a" if "a \<notin> set (cnodes fs)" for a using ctx_parent [OF cx] that by auto
  have c2: "ctx h2 fs (Some s) q" unfolding h2_def using c1(1) dis by (intro ctx_change_child) auto
  have o2: "rseg h2 (child h s RIGHT) (Some s) gs k (Some p)" "tree_at h2 qs k sr" "tree_at h2 (Some s) (Some tmp) l"
    unfolding h2_def using c1 l1 qn dis
    by (subst rseg_change_child rep_change_child; auto)+
  have f2: "child h2 s = child h1 s" unfolding h2_def using qn dis by auto
  have dj: "set (inorder sr) \<inter> set (cnodes fs) = {}" "set (inorder sr) \<inter> set (inorder l) = {}"
    "distinct (inorder sr)" using dis by auto
  have c3: "ctx h3 fs (Some s) q" "tree_at h3 (Some s) (Some tmp) l" "tree_at h3 (Some p) k (paint HEV_RBTREE_BLACK sr)"
    unfolding h3_def using c2 o2 dj
    by (simp_all add: if_node_other(1,3) [OF o2(2)] rep_recolor [OF o2(2)])
  have "k \<noteq> Some a" if "a \<notin> set (inorder sr)" for a using rep_key [OF sr] that by (cases sr) auto
  then have s3: "rseg h3 (child h s RIGHT) (Some s) gs k (Some p)"
    using o2(1) dis unfolding h3_def by (subst rseg_cong [of _ _ h2]) (auto simp: if_node_fields)
  have f3: "child h3 s = child h1 s" by (simp add: h3_def if_node_fields f2)
  show "tree_at (put_successor n p k s tmp h) (Some p) k (paint HEV_RBTREE_BLACK sr)"
    using c3 dis by (simp add: e)
  show "ctx (put_successor n p k s tmp h) (gs @ Frame RIGHT c s l # fs) k (Some p)"
    unfolding ctx_append e using c3 s3 f3 f1(3,4) dis
    by (intro exI [of _ "child h s RIGHT"] exI [of _ "Some s"]) auto
qed

lemma unlink_successor:
  assumes cx: "ctx h fs (Some n) q" and t: "tree_at h q (Some n) (Node c l n r)"
    and ne: "l \<noteq> Leaf" "r \<noteq> Leaf" and d: "down r [] = (gs, cs, s, sr)"
    and dis: "distinct (cnodes fs @ n # inorder l @ inorder r)"
  shows "\<exists>h' k p. rb_unlink n h = Some (if sr = Leaf \<and> cs = HEV_RBTREE_BLACK then Some p else None, h') \<and>
    ctx h' (gs @ Frame RIGHT c s l # fs) k (Some p) \<and> tree_at h' (Some p) k (paint HEV_RBTREE_BLACK sr)"
proof -
  from t have n: "pc_parent h n = q" "pc_color h n = c" "tree_at h (Some n) (child h n LEFT) l"
    "tree_at h (Some n) (child h n RIGHT) r" by auto
  obtain tmp where tmp: "child h n LEFT = Some tmp" using rep_key [OF n(3)] ne by (cases l) auto
  obtain cr rl x rr where r: "r = Node cr rl x rr" using ne by (cases r) auto
  then have x: "child h n RIGHT = Some x" "tree_at h (Some x) (child h x LEFT) rl"
    "tree_at h (Some n) (Some x) r" using n(4) by auto
  have rp: "r = plug gs (Node cs Leaf s sr)" using down_plug [OF ne(2) d] by simp
  have dg: "distinct (n # s # cnodes fs @ cnodes gs @ inorder l @ inorder sr)"
    by (rule distinct_perm [OF _ dis]) (simp add: rp mset_plug)
  show ?thesis
  proof (cases "rl = Leaf")
    case True
    with r d have g: "gs = []" "cs = cr" "s = x" "sr = rr" by auto
    let ?k = "child h x RIGHT" and ?h = "put_successor n x (child h x RIGHT) x tmp h"
    from n(4) r x have rr: "tree_at h (Some x) ?k rr" "pc_color h x = cr" "child h x LEFT = None" using True by auto
    have "ctx ?h (gs @ Frame RIGHT c s l # fs) ?k (Some x)" "tree_at ?h (Some x) ?k (paint HEV_RBTREE_BLACK sr)"
      using put_successor_rep [OF cx n(1,2) n(3) [unfolded tmp], of x gs ?k x] rr g dg by auto
    moreover have "n \<noteq> x" "tmp \<noteq> x" using dg rep_key [OF n(3)] tmp g by (cases l; auto)+
    then have "rb_unlink n h = Some (if sr = Leaf \<and> cs = HEV_RBTREE_BLACK then Some x else None, ?h)"
      using tmp x rr rep_key [OF rr(1)] n(1,2) cx dg g ctx_parent [OF cx]
      by (cases rr) (auto simp: rb_unlink_def Let_def put_successor_def hev_rbtree_node_is_black_def)
    ultimately show ?thesis by blast
  next
    case False
    then obtain y where y: "child h x LEFT = Some y" using rep_key [OF x(2)] by (cases rl) auto
    from r d False have dl: "down rl [Frame LEFT cr x rr] = (gs, cs, s, sr)" by (cases rl) auto
    have "tree_at h (Some x) (Some y) rl" "rseg h (Some x) (Some n) [Frame LEFT cr x rr] (Some y) (Some x)"
      using x(2,3) y r by auto
    from find_successor_refines [OF this refl dl] obtain p cp sp g' where
      fs: "find_successor x y h = Some (p, s)" "gs = Frame LEFT cp p sp # g'"
        "rseg h (Some x) (Some n) gs (Some s) (Some p)" "tree_at h (Some p) (Some s) (Node cs Leaf s sr)"
      by blast
    let ?k = "child h s RIGHT"
    define h1 where "h1 = hev_rbtree_node_set_parent x (Some s) (set_child s RIGHT (Some x) (set_child p LEFT ?k h))"
    from fs(4) have sr: "tree_at h (Some s) ?k sr" "pc_color h s = cs" by auto
    have xg: "x \<in> set (cnodes gs)"
      using fs(3) by (auto simp: fs(2) intro: rseg_top)
    have pg: "p \<in> set (cnodes gs)" using fs(2) by simp
    have "rseg (set_child p LEFT ?k h) (Some x) (Some n) gs ?k (Some p)"
      using fs(3) dg unfolding fs(2) by (intro rseg_set_hole) auto
    then have "rseg (set_child s RIGHT (Some x) (set_child p LEFT ?k h)) (Some x) (Some n) gs ?k (Some p)"
      using dg by auto
    then have s1: "rseg h1 (Some x) (Some s) gs ?k (Some p)"
      unfolding h1_def using dg fs(2) by (intro rseg_set_parent) auto
    from xg pg dg have nx: "z \<notin> set (cnodes fs)" "z \<notin> set (inorder l)" "z \<notin> set (inorder sr)" "z \<noteq> n"
      if "z \<in> {x, p, s}" for z using that by auto
    have ctx1: "ctx h1 fs (Some n) q" "tree_at h1 (Some n) (Some tmp) l" "tree_at h1 (Some s) ?k sr"
      unfolding h1_def using cx n(3) tmp sr nx by simp_all
    have f1: "pc_parent h1 n = q" "pc_color h1 n = c" "child h1 s RIGHT = Some x" "child h1 n LEFT = Some tmp"
      "pc_color h1 s = cs"
      using n tmp nx [of x] nx [of p] nx [of s] sr(2) by (auto simp: h1_def)
    let ?h = "put_successor n p ?k s tmp h1"
    have "ctx ?h (gs @ Frame RIGHT c s l # fs) ?k (Some p)" "tree_at ?h (Some p) ?k (paint HEV_RBTREE_BLACK sr)"
      using put_successor_rep [OF ctx1(1) f1(1,2) ctx1(2), of s gs ?k p] s1 ctx1(3) f1(3) dg by auto
    moreover have "n \<noteq> s" "tmp \<noteq> s" using dg rep_key [OF n(3)] tmp by (cases l; auto)+
    then have "rb_unlink n h = Some (if sr = Leaf \<and> cs = HEV_RBTREE_BLACK then Some p else None, ?h)"
      using tmp x(1) y fs(1) rep_key [OF sr(1)] f1(1,2,5) ctx_parent [OF cx] dg
      by (cases sr) (auto simp: rb_unlink_def Let_def put_successor_def hev_rbtree_node_is_black_def h1_def)
    ultimately show ?thesis by blast
  qed
qed

end
