(* ===== verification/RBTree_Index.thy ===== *)
theory RBTree_Index
  imports RBTree_Erase
begin

text \<open>
  The contract of the red-black tree: a heap \<open>h\<close> holds the list of nodes \<open>xs\<close> in order
  (\<open>rbt_ok h xs\<close>), and every operation of \<open>core/src/hev-rbtree.c\<close> acts on that list. Searching and
  linking are done by the users of the tree, with the same loop in \<open>src/hev-mapped-dns.c\<close> and
  \<open>core/src/hev-socks5-authenticator.c\<close>; it is here once, with the comparison as a parameter. The
  locale \<open>node_index\<close> is what those users need from the tree, the locale \<open>keyed_index\<close> what they get
  for a comparison of keys.
\<close>

definition rbt_ok :: "rbtree \<Rightarrow> addr list \<Rightarrow> bool" where
  "rbt_ok h xs \<longleftrightarrow> (\<exists>t. tree_at h None (root h) t \<and> rb_tree t \<and> inorder t = xs \<and> distinct xs)"

lemma rbt_okI: "tree_at h None (root h) t \<Longrightarrow> rb_tree t \<Longrightarrow> inorder t = xs \<Longrightarrow> distinct xs \<Longrightarrow> rbt_ok h xs"
  unfolding rbt_ok_def by blast

lemma rbt_ok_distinct: "rbt_ok h xs \<Longrightarrow> distinct xs"
  unfolding rbt_ok_def by blast

lemma rbt_ok_empty: "rbt_ok rb_empty []"
  by (rule rbt_okI [of _ Leaf]) (auto simp: rb_empty_def rb_tree_def intro: exI [of _ 0])

section \<open>Searching and linking\<close>

definition at_link :: "(addr \<times> side) option \<Rightarrow> rbtree \<Rightarrow> ptr" where
  "at_link link h = (case link of None \<Rightarrow> root h | Some (a, d) \<Rightarrow> child h a d)"

partial_function (option) rb_search ::
    "(addr \<Rightarrow> int) \<Rightarrow> (addr \<times> side) option \<Rightarrow> rbtree \<Rightarrow> ((addr \<times> side) option + addr) option" where
  "rb_search cmp link h =
     (case at_link link h of
        None \<Rightarrow> Some (Inl link)
      | Some n \<Rightarrow>
          if cmp n < 0 then rb_search cmp (Some (n, LEFT)) h
          else if cmp n > 0 then rb_search cmp (Some (n, RIGHT)) h
          else Some (Inr n))"

definition rb_add :: "addr \<Rightarrow> (addr \<times> side) option \<Rightarrow> rbtree \<Rightarrow> rbtree option" where
  "rb_add n link h = hev_rbtree_insert_color n (hev_rbtree_node_link n (map_option fst link) link h)"

text \<open>The nodes with a positive comparison come first, then the equal ones, then the negative ones.\<close>

definition falls :: "(addr \<Rightarrow> int) \<Rightarrow> addr list \<Rightarrow> bool" where
  "falls cmp xs \<longleftrightarrow> sorted_wrt (\<lambda>a b. sgn (cmp b) \<le> sgn (cmp a)) xs"

fun link_of :: "frame list \<Rightarrow> (addr \<times> side) option" where
  "link_of [] = None"
| "link_of (Frame d c a s # fs) = Some (a, d)"

lemma at_link_of: "ctx h fs p q \<Longrightarrow> at_link (link_of fs) h = p"
  by (cases fs rule: link_of.cases) (auto simp: at_link_def)

lemma parent_of_link: "ctx h fs p q \<Longrightarrow> q = map_option fst (link_of fs)"
  by (cases fs rule: link_of.cases) auto

lemma falls_node:
  assumes "falls cmp (xs @ a # ys)"
  shows "cmp a < 0 \<Longrightarrow> y \<in> set ys \<Longrightarrow> cmp y < 0" "cmp a > 0 \<Longrightarrow> x \<in> set xs \<Longrightarrow> cmp x > 0"
    "falls cmp xs" "falls cmp ys"
  using assms by (auto simp: falls_def sorted_wrt_append sgn_if split: if_splits)

lemma rb_search_refines:
  "ctx h fs p q \<Longrightarrow> tree_at h q p t \<Longrightarrow> falls cmp (inorder t) \<Longrightarrow>
   (if \<exists>a \<in> set (inorder t). cmp a = 0
    then \<exists>a \<in> set (inorder t). cmp a = 0 \<and> rb_search cmp (link_of fs) h = Some (Inr a)
    else \<exists>gs. rb_search cmp (link_of fs) h = Some (Inl (link_of gs)) \<and> plug gs Leaf = plug fs t \<and>
      before gs = before fs @ filter (\<lambda>a. 0 < cmp a) (inorder t) \<and>
      after gs = filter (\<lambda>a. cmp a < 0) (inorder t) @ after fs)"
proof (induction t arbitrary: fs p q)
  case Leaf
  then show ?case by (subst rb_search.simps, subst rb_search.simps) (auto simp: at_link_of)
next
  case (Node c l a r)
  from Node.prems have n: "p = Some a" "pc_parent h a = q" "pc_color h a = c"
    "tree_at h (Some a) (child h a LEFT) l" "tree_at h (Some a) (child h a RIGHT) r" by auto
  have fo: "falls cmp (inorder l @ a # inorder r)" using Node.prems(3) by simp
  note st = rb_search.simps [of cmp "link_of fs" h] at_link_of [OF Node.prems(1)]
  consider "cmp a < 0" | "cmp a > 0" | "cmp a = 0" by linarith
  then show ?case
  proof cases
    case 1
    from falls_node(1) [OF fo 1] have r: "\<forall>y \<in> set (inorder r). cmp y < 0" by blast
    then have fr: "filter (\<lambda>a. 0 < cmp a) (inorder r) = []" "filter (\<lambda>a. cmp a < 0) (inorder r) = inorder r"
      "\<not> (\<exists>y \<in> set (inorder r). cmp y = 0)" by (auto simp: filter_empty_conv)
    have "ctx h (Frame LEFT c a r # fs) (child h a LEFT) (Some a)" using n Node.prems(1) by simp
    from Node.IH(1) [OF this n(4) falls_node(3) [OF fo]] 1 r fr st n(1)
    show ?thesis by (auto split: if_splits)
  next
    case 2
    from falls_node(2) [OF fo 2] have l: "\<forall>y \<in> set (inorder l). cmp y > 0" by blast
    then have fl: "filter (\<lambda>a. cmp a < 0) (inorder l) = []" "filter (\<lambda>a. 0 < cmp a) (inorder l) = inorder l"
      "\<not> (\<exists>y \<in> set (inorder l). cmp y = 0)" by (auto simp: filter_empty_conv)
    have "ctx h (Frame RIGHT c a l # fs) (child h a RIGHT) (Some a)" using n Node.prems(1) by simp
    from Node.IH(2) [OF this n(5) falls_node(4) [OF fo]] 2 l fl st n(1)
    show ?thesis by (auto split: if_splits)
  next
    case 3
    with st n(1) show ?thesis by auto
  qed
qed

lemma link_rep:
  assumes cx: "ctx h fs None q" and n: "n \<notin> set (cnodes fs)" "distinct (cnodes fs)"
  shows "ctx (hev_rbtree_node_link n q (link_of fs) h) fs (Some n) q"
    and "tree_at (hev_rbtree_node_link n q (link_of fs) h) q (Some n) (Node HEV_RBTREE_RED Leaf n Leaf)"
proof -
  let ?h = "set_child n RIGHT None (set_child n LEFT None (hev_rbtree_node_set_parent_color n q HEV_RBTREE_RED h))"
  have c: "ctx ?h fs None q" using cx n by simp
  show "ctx (hev_rbtree_node_link n q (link_of fs) h) fs (Some n) q"
  proof (cases fs rule: link_of.cases)
    case 1
    with c show ?thesis by (simp add: hev_rbtree_node_link_def Let_def)
  next
    case (2 d col a s gs)
    with n have "a \<notin> set (inorder s)" "a \<notin> set (cnodes gs)" by auto
    with c 2 show ?thesis by (auto simp: hev_rbtree_node_link_def Let_def)
  qed
  show "tree_at (hev_rbtree_node_link n q (link_of fs) h) q (Some n) (Node HEV_RBTREE_RED Leaf n Leaf)"
    using n by (cases fs rule: link_of.cases) (auto simp: hev_rbtree_node_link_def Let_def)
qed

lemma rb_add_at:
  assumes ok: "tree_at h None (root h) (plug fs Leaf)" "rb_tree (plug fs Leaf)" "distinct (before fs @ after fs)"
    and n: "n \<notin> set (before fs @ after fs)"
  shows "\<exists>h'. rb_add n (link_of fs) h = Some h' \<and> rbt_ok h' (before fs @ n # after fs)"
proof -
  from ok(1) obtain q where cx: "ctx h fs None q" unfolding rep_plug by auto
  have "distinct (inorder (plug fs Leaf))" using ok(3) by (simp add: inorder_plug)
  then have dis: "distinct (cnodes fs)" by (simp add: distinct_plug)
  have "set (inorder (plug fs Leaf)) = set (before fs @ after fs)" by (simp add: inorder_plug)
  with n have nc: "n \<notin> set (cnodes fs)" by (simp add: set_plug)
  let ?h = "hev_rbtree_node_link n q (link_of fs) h" and ?t = "Node HEV_RBTREE_RED Leaf n Leaf"
  note l = link_rep [OF cx nc dis]
  from plug_fits [OF ok(2)] obtain m where m: "blacks Leaf m" "fits fs m" by blast
  from insert_loop_refines [OF m(2) l(1,2)] dis nc obtain h' where
    h': "insert_loop n q ?h = Some h'" "tree_at h' None (root h') (ins_fix fs ?t)" by auto
  have "rb_tree (ins_fix fs ?t)" using m by (intro rb_ins_fix [OF m(2)]) auto
  moreover have "inorder (ins_fix fs ?t) = before fs @ n # after fs"
    by (subst inorder_ins_fix) (auto simp: inorder_plug)
  moreover have "distinct (before fs @ n # after fs)" using ok(3) n by auto
  ultimately have "rbt_ok h' (before fs @ n # after fs)" using h'(2) by (intro rbt_okI)
  moreover have "rb_add n (link_of fs) h = Some h'"
    using l(2) h'(1) parent_of_link [OF cx] by (simp add: rb_add_def hev_rbtree_insert_color_def)
  ultimately show ?thesis by blast
qed

lemma rb_search_miss:
  assumes ok: "rbt_ok h xs" and f: "falls cmp xs" and z: "\<forall>a \<in> set xs. cmp a \<noteq> 0"
  shows "\<exists>link. rb_search cmp None h = Some (Inl link) \<and> (\<forall>n. n \<notin> set xs \<longrightarrow>
     (\<exists>h'. rb_add n link h = Some h' \<and>
        rbt_ok h' (filter (\<lambda>a. 0 < cmp a) xs @ n # filter (\<lambda>a. cmp a < 0) xs)))"
proof -
  from ok obtain t where t: "tree_at h None (root h) t" "rb_tree t" "inorder t = xs" "distinct xs"
    unfolding rbt_ok_def by blast
  from rb_search_refines [of h "[]" "root h" None t cmp] t(1,3) f z obtain gs where
    gs: "rb_search cmp None h = Some (Inl (link_of gs))" "plug gs Leaf = t"
      "before gs = filter (\<lambda>a. 0 < cmp a) xs" "after gs = filter (\<lambda>a. cmp a < 0) xs" by auto
  have "distinct (before gs @ after gs)" using gs(3,4) t(4) by auto
  with rb_add_at [of h gs] gs t(1,2) show ?thesis by (intro exI [of _ "link_of gs"]) auto
qed

lemma rb_search_hit:
  assumes ok: "rbt_ok h xs" and f: "falls cmp xs" and z: "a \<in> set xs" "cmp a = 0"
  shows "\<exists>b \<in> set xs. cmp b = 0 \<and> rb_search cmp None h = Some (Inr b)"
proof -
  from ok obtain t where "tree_at h None (root h) t" "inorder t = xs" unfolding rbt_ok_def by blast
  with rb_search_refines [of h "[]" "root h" None t cmp] f z show ?thesis by (auto split: if_splits)
qed

section \<open>Removal\<close>

lemma plug_at:
  assumes "a \<in> set (inorder t)"
  obtains fs c l r where "t = plug fs (Node c l a r)"
proof -
  have "\<exists>fs' c l r. plug fs t = plug fs' (Node c l a r)" if "a \<in> set (inorder t)" for fs
    using that
  proof (induction t arbitrary: fs)
    case (Node c l b r)
    consider "a = b" | "a \<in> set (inorder l)" | "a \<in> set (inorder r)" using Node.prems by auto
    then show ?case
    proof cases
      case 1
      then show ?thesis by blast
    next
      case 2
      from Node.IH(1) [OF this, of "Frame LEFT c b r # fs"] show ?thesis by simp
    next
      case 3
      from Node.IH(2) [OF this, of "Frame RIGHT c b l # fs"] show ?thesis by simp
    qed
  qed simp
  from this [of "[]"] assms that show ?thesis by auto
qed

lemma rb_unlink_refines:
  assumes cx: "ctx h fs (Some n) q" and t: "tree_at h q (Some n) (Node c l n r)"
    and dis: "distinct (cnodes fs @ n # inorder l @ inorder r)" and u: "unlink fs c l r = (fs', t', bal)"
  shows "\<exists>h' k q'. rb_unlink n h = Some (if bal then q' else None, h') \<and> ctx h' fs' k q' \<and> tree_at h' q' k t'"
proof -
  consider "l = Leaf" | "l \<noteq> Leaf" "r = Leaf" | "l \<noteq> Leaf" "r \<noteq> Leaf" by blast
  then show ?thesis
  proof cases
    case 1
    with u have e: "fs' = fs" "t' = paint c r" "bal = (r = Leaf \<and> c = HEV_RBTREE_BLACK)"
      by (auto simp: unlink_def)
    have "distinct (cnodes fs @ n # inorder r)" using dis 1 by simp
    from unlink_left [OF cx t [unfolded 1] this] show ?thesis unfolding e by blast
  next
    case 2
    with u have e: "fs' = fs" "t' = paint c l" "bal = False" by (auto simp: unlink_def)
    have "distinct (cnodes fs @ n # inorder l)" using dis 2 by simp
    from unlink_right [OF cx t [unfolded 2] 2(1) this] show ?thesis unfolding e if_False by blast
  next
    case 3
    obtain gs cs s sr where d: "down r [] = (gs, cs, s, sr)" by (metis prod_cases4)
    with u 3 have e: "fs' = gs @ Frame RIGHT c s l # fs" "t' = paint HEV_RBTREE_BLACK sr"
      "bal = (sr = Leaf \<and> cs = HEV_RBTREE_BLACK)" by (auto simp: unlink_def)
    from unlink_successor [OF cx t 3 d dis] obtain h' k p where
      "rb_unlink n h = Some (if sr = Leaf \<and> cs = HEV_RBTREE_BLACK then Some p else None, h')"
      "ctx h' (gs @ Frame RIGHT c s l # fs) k (Some p)" "tree_at h' (Some p) k (paint HEV_RBTREE_BLACK sr)"
      by blast
    then show ?thesis unfolding e by blast
  qed
qed

lemma only_black: "rb_tree (plug fs (Node HEV_RBTREE_BLACK Leaf a Leaf)) \<Longrightarrow> fits fs (Suc 0)"
proof -
  assume "rb_tree (plug fs (Node HEV_RBTREE_BLACK Leaf a Leaf))"
  from plug_fits [OF this] obtain m where "blacks (Node HEV_RBTREE_BLACK Leaf a Leaf) m" "fits fs m" by blast
  moreover from this(1) have "m = Suc 0" by auto
  ultimately show ?thesis by simp
qed

lemma unlink_fits:
  assumes rb: "rb_tree (plug fs (Node c l a r))" and u: "unlink fs c l r = (fs', t', True)"
  shows "fits fs' (Suc 0)" "t' = Leaf"
proof -
  have "fits fs' (Suc 0) \<and> t' = Leaf"
  proof (cases "l = Leaf")
    case True
    with u have "fs' = fs" "t' = Leaf" "r = Leaf" "c = HEV_RBTREE_BLACK" by (auto simp: unlink_def)
    with only_black [of fs a] rb True show ?thesis by simp
  next
    case False
    with u have r: "r \<noteq> Leaf" by (auto simp: unlink_def split: if_splits)
    obtain gs cs s sr where d: "down r [] = (gs, cs, s, sr)" by (metis prod_cases4)
    with u False r have e: "fs' = gs @ Frame RIGHT c s l # fs" "t' = Leaf" "sr = Leaf" "cs = HEV_RBTREE_BLACK"
      by (auto simp: unlink_def)
    from down_plug [OF r d] e(3,4) have
      "plug fs (Node c l a r) = plug (gs @ Frame RIGHT c a l # fs) (Node HEV_RBTREE_BLACK Leaf s Leaf)"
      by (simp add: plug_append)
    with only_black rb have "fits (gs @ Frame RIGHT c a l # fs) (Suc 0)" by metis
    with e show ?thesis by (simp add: fits_rename [where a = a and b = s])
  qed
  then show "fits fs' (Suc 0)" "t' = Leaf" by simp_all
qed

lemma cnodes_unlink:
  assumes "unlink fs c l r = (fs', t', bal)"
  shows "mset (cnodes fs' @ inorder t') = mset (cnodes fs @ inorder l @ inorder r)"
proof (cases "l = Leaf \<or> r = Leaf")
  case True
  with assms show ?thesis by (auto simp: unlink_def split: if_splits)
next
  case False
  obtain gs cs s sr where d: "down r [] = (gs, cs, s, sr)" by (metis prod_cases4)
  moreover have "cnodes (gs @ Frame RIGHT c s l # fs) = cnodes gs @ s # inorder l @ cnodes fs"
    by (induction gs) (auto split: frame.split)
  ultimately show ?thesis using assms False down_plug [OF _ d]
    by (auto simp: unlink_def mset_plug)
qed

lemma hev_rbtree_erase_ok:
  assumes ok: "rbt_ok h xs" and a: "a \<in> set xs"
  shows "\<exists>h'. hev_rbtree_erase a h = Some h' \<and> rbt_ok h' (remove1 a xs)"
proof -
  from ok obtain t where t: "tree_at h None (root h) t" "rb_tree t" "inorder t = xs" "distinct xs"
    unfolding rbt_ok_def by blast
  from a t(3) plug_at obtain fs c l r where fs: "t = plug fs (Node c l a r)" by metis
  from t(1) fs rep_plug obtain q where q: "ctx h fs (Some a) q" "tree_at h q (Some a) (Node c l a r)" by auto
  from t(3,4) fs distinct_plug have dis: "distinct (cnodes fs @ inorder (Node c l a r))" by metis
  obtain fs' t' bal where u: "unlink fs c l r = (fs', t', bal)" by (metis prod_cases3)
  have d1: "distinct (cnodes fs @ a # inorder l @ inorder r)" using dis by auto
  from rb_unlink_refines [OF q d1 u] obtain h1 k q' where
    h1: "rb_unlink a h = Some (if bal then q' else None, h1)" "ctx h1 fs' k q'" "tree_at h1 q' k t'" by blast
  have d2: "distinct (cnodes fs' @ inorder t')"
    by (rule distinct_perm [OF cnodes_unlink [OF u, symmetric]]) (use d1 in auto)
  have "\<exists>h'. hev_rbtree_erase a h = Some h' \<and> tree_at h' None (root h') (erased fs c l r)"
  proof (cases "bal \<and> q' \<noteq> None")
    case True
    then obtain p where p: "q' = Some p" "bal" by blast
    from unlink_fits [of fs c l a r fs' t'] u p t(2) fs have f: "fits fs' (Suc 0)" "t' = Leaf" by auto
    with h1(3) have k: "k = None" by simp
    from erase_color_refines [OF f(1) refl h1(2) [unfolded p] h1(3) [unfolded p]] f(2) d2
    obtain h' where "erase_color_loop k p h1 = Some h'" "tree_at h' None (root h') (del_fix fs' t')" by auto
    with h1(1) p k u show ?thesis by (simp add: hev_rbtree_erase_def erased_def)
  next
    case False
    from h1(2,3) have pl: "tree_at h1 None (root h1) (plug fs' t')" unfolding rep_plug by blast
    have "(if bal then del_fix fs' t' else plug fs' t') = plug fs' t'"
    proof (cases bal)
      case True
      with False h1(2) have "fs' = []" by (cases fs') (auto split: frame.splits)
      then show ?thesis by simp
    qed simp
    with pl h1(1) False u show ?thesis by (auto simp: hev_rbtree_erase_def erased_def)
  qed
  then obtain h' where h': "hev_rbtree_erase a h = Some h'" "tree_at h' None (root h') (erased fs c l r)" by blast
  have x: "xs = (before fs @ inorder l) @ a # (inorder r @ after fs)"
    using t(3) by (simp add: fs inorder_plug)
  with t(4) have "remove1 a xs = (before fs @ inorder l) @ inorder r @ after fs"
    by (simp add: remove1_append)
  then have "inorder (erased fs c l r) = remove1 a xs" by (simp add: inorder_erased)
  with h' rb_erased [of fs c l a r] t(2,4) fs have "rbt_ok h' (remove1 a xs)"
    by (intro rbt_okI [OF h'(2)]) auto
  with h'(1) show ?thesis by blast
qed

section \<open>Walking\<close>

lemma rb_descend_refines:
  "tree_at h q (Some a) t \<Longrightarrow> rb_descend d a h = Some (if d = LEFT then hd (inorder t) else last (inorder t))"
proof (induction t arbitrary: q a)
  case (Node c l b r)
  then have b: "b = a" "tree_at h (Some a) (child h a LEFT) l" "tree_at h (Some a) (child h a RIGHT) r" by auto
  show ?case
  proof (cases d)
    case LEFT
    with b Node.IH(1) [of "Some a"] show ?thesis
      by (subst rb_descend.simps; cases l) (auto simp: hd_append)
  next
    case RIGHT
    with b Node.IH(2) [of "Some a"] show ?thesis
      by (subst rb_descend.simps; cases r) auto
  qed
qed simp

lemma hev_rbtree_first_ok: "rbt_ok h xs \<Longrightarrow>
  hev_rbtree_first h = Some (if xs = [] then None else Some (hd xs))"
proof -
  assume "rbt_ok h xs"
  then obtain t where t: "tree_at h None (root h) t" "inorder t = xs" unfolding rbt_ok_def by blast
  show ?thesis
  proof (cases t)
    case (Node c l a r)
    with t(1) have "root h = Some a" by simp
    with t Node show ?thesis
      by (auto simp: hev_rbtree_first_def rb_descend_refines [where q = None and t = t])
  qed (use t in \<open>auto simp: hev_rbtree_first_def\<close>)
qed

lemma hev_rbtree_last_ok: "rbt_ok h xs \<Longrightarrow>
  hev_rbtree_last h = Some (if xs = [] then None else Some (last xs))"
proof -
  assume "rbt_ok h xs"
  then obtain t where t: "tree_at h None (root h) t" "inorder t = xs" unfolding rbt_ok_def by blast
  show ?thesis
  proof (cases t)
    case (Node c l a r)
    with t(1) have "root h = Some a" by simp
    with t Node show ?thesis
      by (auto simp: hev_rbtree_last_def rb_descend_refines [where q = None and t = t])
  qed (use t in \<open>auto simp: hev_rbtree_last_def\<close>)
qed

text \<open>Climbing from a node to the first ancestor on whose other side it is.\<close>

lemma rb_climb_refines:
  "ctx h fs (Some a) (pc_parent h a) \<Longrightarrow> distinct (cnodes fs) \<Longrightarrow> a \<notin> set (cnodes fs) \<Longrightarrow>
   rb_climb d a h = Some (if d = RIGHT then (if after fs = [] then None else Some (hd (after fs)))
     else (if before fs = [] then None else Some (last (before fs))))"
proof (induction fs arbitrary: a)
  case Nil
  then show ?case by (subst rb_climb.simps) auto
next
  case (Cons f fs)
  obtain e c p s where f: "f = Frame e c p s" by (cases f)
  with Cons.prems have p: "pc_parent h a = Some p" "child h p e = Some a"
    "tree_at h (Some p) (child h p (opp e)) s" "ctx h fs (Some p) (pc_parent h p)" "a \<notin> set (inorder s)"
    "distinct (cnodes fs)" "p \<notin> set (cnodes fs)" by auto
  from p(3,5) have ne: "child h p (opp e) \<noteq> Some a" by (cases s) auto
  note IH = Cons.IH [OF p(4,6,7)]
  show ?case
  proof (cases "d = e")
    case True
    with p IH f show ?thesis by (subst rb_climb.simps) (cases e; auto)
  next
    case False
    then have "d = opp e" by (simp add: opp_eq_iff)
    with p ne f show ?thesis by (subst rb_climb.simps) (cases e; auto)
  qed
qed

lemma rb_step_refines:
  assumes cx: "ctx h fs (Some a) q" and t: "tree_at h q (Some a) (Node c l a r)"
    and dis: "distinct (cnodes fs @ inorder (Node c l a r))"
  shows "rb_step d a h = Some (if d = RIGHT
     then (if inorder r @ after fs = [] then None else Some (hd (inorder r @ after fs)))
     else (if before fs @ inorder l = [] then None else Some (last (before fs @ inorder l))))"
proof -
  from t have n: "pc_parent h a = q" "tree_at h (Some a) (child h a LEFT) l" "tree_at h (Some a) (child h a RIGHT) r"
    by auto
  from ctx_parent [OF cx] dis have ne: "\<not> hev_rbtree_node_empty a h"
    by (auto simp: hev_rbtree_node_empty_def n(1))
  have cl: "rb_climb d a h = Some (if d = RIGHT then (if after fs = [] then None else Some (hd (after fs)))
     else (if before fs = [] then None else Some (last (before fs))))"
    using cx dis n(1) by (intro rb_climb_refines) auto
  show ?thesis
  proof (cases d)
    case LEFT
    have "child h a LEFT = Some b \<Longrightarrow> rb_descend RIGHT b h = Some (last (inorder l)) \<and> l \<noteq> Leaf" for b
      using rb_descend_refines [of h "Some a" b l RIGHT] n(2) by auto
    with LEFT ne cl rep_key [OF n(2)] show ?thesis
      by (cases "child h a LEFT"; cases l) (auto simp: rb_step_def)
  next
    case RIGHT
    have "child h a RIGHT = Some b \<Longrightarrow> rb_descend LEFT b h = Some (hd (inorder r)) \<and> r \<noteq> Leaf" for b
      using rb_descend_refines [of h "Some a" b r LEFT] n(3) by auto
    with RIGHT ne cl rep_key [OF n(3)] show ?thesis
      by (cases "child h a RIGHT"; cases r) (auto simp: rb_step_def hd_append)
  qed
qed

lemma node_split:
  assumes "inorder (plug fs (Node c l a r)) = xs @ a # ys" "distinct (xs @ a # ys)"
  shows "before fs @ inorder l = xs \<and> inorder r @ after fs = ys"
proof -
  have e: "(before fs @ inorder l) @ a # (inorder r @ after fs) = xs @ a # ys"
    using assms(1) by (simp add: inorder_plug)
  with assms(2) have "distinct ((before fs @ inorder l) @ a # (inorder r @ after fs))" by metis
  then have "a \<notin> set (before fs @ inorder l)" "a \<notin> set (inorder r @ after fs)" by auto
  from append_Cons_eq_iff [OF this] e show ?thesis by blast
qed

lemma rb_step_ok:
  assumes ok: "rbt_ok h (xs @ a # ys)"
  shows "hev_rbtree_node_next a h = Some (if ys = [] then None else Some (hd ys))"
    and "hev_rbtree_node_prev a h = Some (if xs = [] then None else Some (last xs))"
proof -
  from ok obtain t where t: "tree_at h None (root h) t" "inorder t = xs @ a # ys" "distinct (xs @ a # ys)"
    unfolding rbt_ok_def by blast
  from t(2) have "a \<in> set (inorder t)" by simp
  then obtain fs c l r where fs: "t = plug fs (Node c l a r)" by (rule plug_at)
  from t(1) fs rep_plug obtain q where q: "ctx h fs (Some a) q" "tree_at h q (Some a) (Node c l a r)" by auto
  from t(2,3) fs distinct_plug have dis: "distinct (cnodes fs @ inorder (Node c l a r))" by metis
  from node_split t(2,3) fs have "before fs @ inorder l = xs" "inorder r @ after fs = ys" by metis+
  with rb_step_refines [OF q dis] show
    "hev_rbtree_node_next a h = Some (if ys = [] then None else Some (hd ys))"
    "hev_rbtree_node_prev a h = Some (if xs = [] then None else Some (last xs))"
    by (simp_all add: hev_rbtree_node_next_def hev_rbtree_node_prev_def)
qed

section \<open>Replacement\<close>

lemma key_Some: "key t = Some n \<Longrightarrow> n \<in> set (inorder t)"
  by (cases t) auto

lemma hev_rbtree_replace_ok:
  assumes ok: "rbt_ok h (xs @ a # ys)" and n: "n \<notin> set (xs @ a # ys)"
  shows "rbt_ok (hev_rbtree_replace a n h) (xs @ n # ys)"
proof -
  from ok obtain t where t: "tree_at h None (root h) t" "rb_tree t" "inorder t = xs @ a # ys" "distinct (xs @ a # ys)"
    unfolding rbt_ok_def by blast
  from t(3) have "a \<in> set (inorder t)" by simp
  then obtain fs c l r where fs: "t = plug fs (Node c l a r)" by (rule plug_at)
  from t(1) fs rep_plug obtain q where cx: "ctx h fs (Some a) q" and ra: "tree_at h q (Some a) (Node c l a r)" by auto
  from t(3,4) fs distinct_plug have dis: "distinct (cnodes fs @ inorder (Node c l a r))" by metis
  have "set (inorder t) = set (cnodes fs @ inorder (Node c l a r))" by (simp add: fs set_plug)
  with n t(3) have nn: "n \<notin> set (cnodes fs)" "n \<notin> set (inorder l)" "n \<notin> set (inorder r)" "n \<noteq> a" by auto
  from ra have f: "pc_parent h a = q" "pc_color h a = c" "tree_at h (Some a) (child h a LEFT) l"
    "tree_at h (Some a) (child h a RIGHT) r" by auto
  define h1 where "h1 = h\<lparr>pc_parent := (pc_parent h)(n := q), pc_color := (pc_color h)(n := c),
    child := (child h)(n := child h a)\<rparr>"
  define h2 where "h2 = if_node (child h a LEFT) (\<lambda>x. hev_rbtree_node_set_parent x (Some n)) h1"
  define h3 where "h3 = if_node (child h a RIGHT) (\<lambda>x. hev_rbtree_node_set_parent x (Some n)) h2"
  have e: "hev_rbtree_replace a n h = hev_rbtree_change_child a (Some n) q h3"
    using nn(4) by (auto simp: hev_rbtree_replace_def Let_def hev_rbtree_node_parent_def f h1_def h2_def h3_def
        if_node_fields)
  have dj: "set (inorder l) \<inter> set (cnodes fs) = {}" "set (inorder r) \<inter> set (cnodes fs) = {}"
    "set (inorder l) \<inter> set (inorder r) = {}" "set (inorder r) \<inter> set (inorder l) = {}"
    "distinct (inorder l)" "distinct (inorder r)" using dis by auto
  have c1: "ctx h1 fs (Some a) q" "tree_at h1 (Some a) (child h a LEFT) l" "tree_at h1 (Some a) (child h a RIGHT) r"
    using cx f nn unfolding h1_def
    by (subst ctx_cong [of _ _ h] rep_cong [of _ _ h]; (simp; fail | auto))+
  have c2: "ctx h2 fs (Some a) q" "tree_at h2 (Some n) (child h a LEFT) l" "tree_at h2 (Some a) (child h a RIGHT) r"
    unfolding h2_def using c1 dj
    by (simp_all add: if_node_other(2,4) [OF c1(2)] rep_reparent [OF c1(2)])
  have c3: "ctx h3 fs (Some a) q" "tree_at h3 (Some n) (child h a LEFT) l" "tree_at h3 (Some n) (child h a RIGHT) r"
    unfolding h3_def using c2 dj
    by (simp_all add: if_node_other(2,4) [OF c2(3)] rep_reparent [OF c2(3)])
  have "child h a LEFT \<noteq> Some n" "child h a RIGHT \<noteq> Some n"
    using rep_key [OF f(3)] rep_key [OF f(4)] nn by (auto dest: key_Some)
  then have f3: "pc_parent h3 n = q" "pc_color h3 n = c" "child h3 n = child h a"
    by (auto simp: h3_def h2_def h1_def if_node_fields)
  have qn: "q \<noteq> Some b" if "b \<notin> set (cnodes fs)" for b using ctx_parent [OF cx] that by auto
  let ?h = "hev_rbtree_change_child a (Some n) q h3"
  have "ctx ?h fs (Some n) q" using c3(1) dis by (intro ctx_change_child) auto
  moreover have "tree_at ?h (Some n) (child h a LEFT) l" "tree_at ?h (Some n) (child h a RIGHT) r"
    using c3 qn dj by (subst rep_change_child; blast)+
  then have "tree_at ?h q (Some n) (Node c l n r)" using f3 qn [OF nn(1)] by simp
  ultimately have "tree_at ?h None (root ?h) (plug fs (Node c l n r))" unfolding rep_plug by blast
  moreover have "before fs @ inorder l = xs" "inorder r @ after fs = ys"
    using node_split t(3,4) fs by metis+
  then have "inorder (plug fs (Node c l n r)) = xs @ n # ys" by (auto simp: inorder_plug)
  moreover have "rb_tree (plug fs (Node c l n r))"
  proof -
    from plug_fits [OF t(2) [unfolded fs]] obtain m where m: "no_red_red (Node c l a r)"
      "blacks (Node c l a r) m" "fits fs m" "c = HEV_RBTREE_BLACK \<or> red_fits fs" by auto
    then show ?thesis by (intro rb_plug [OF m(3)]) (cases c; auto)+
  qed
  ultimately show ?thesis using n t(4) unfolding e by (intro rbt_okI) auto
qed

section \<open>Interfaces\<close>

locale node_index =
  fixes ok :: "'t \<Rightarrow> addr list \<Rightarrow> bool"
    and search :: "(addr \<Rightarrow> int) \<Rightarrow> 't \<Rightarrow> ('l + addr) option"
    and add :: "addr \<Rightarrow> 'l \<Rightarrow> 't \<Rightarrow> 't option"
    and erase :: "addr \<Rightarrow> 't \<Rightarrow> 't option"
    and first :: "'t \<Rightarrow> ptr option"
  assumes ok_distinct: "ok t xs \<Longrightarrow> distinct xs"
    and search_hit: "ok t xs \<Longrightarrow> falls cmp xs \<Longrightarrow> a \<in> set xs \<Longrightarrow> cmp a = 0 \<Longrightarrow>
      \<exists>b \<in> set xs. cmp b = 0 \<and> search cmp t = Some (Inr b)"
    and search_miss: "ok t xs \<Longrightarrow> falls cmp xs \<Longrightarrow> \<forall>a \<in> set xs. cmp a \<noteq> 0 \<Longrightarrow>
      \<exists>link. search cmp t = Some (Inl link) \<and> (\<forall>n. n \<notin> set xs \<longrightarrow>
        (\<exists>t'. add n link t = Some t' \<and>
           ok t' (filter (\<lambda>a. 0 < cmp a) xs @ n # filter (\<lambda>a. cmp a < 0) xs)))"
    and erase_ok: "ok t xs \<Longrightarrow> a \<in> set xs \<Longrightarrow> \<exists>t'. erase a t = Some t' \<and> ok t' (remove1 a xs)"
    and first_ok: "ok t xs \<Longrightarrow> first t = Some (if xs = [] then None else Some (hd xs))"

lemma sorted_wrt_remove1: "sorted_wrt P xs \<Longrightarrow> sorted_wrt P (remove1 a xs)"
  by (induction xs) (auto dest: notin_set_remove1 set_remove1_subset [THEN subsetD])

definition sorted_by :: "('k \<Rightarrow> 'k \<Rightarrow> int) \<Rightarrow> (addr \<Rightarrow> 'k) \<Rightarrow> addr list \<Rightarrow> bool" where
  "sorted_by compare k xs \<longleftrightarrow> sorted_wrt (\<lambda>a b. 0 < compare (k a) (k b)) xs"

locale keyed_index = node_index ok search add erase first
  for ok :: "'t \<Rightarrow> addr list \<Rightarrow> bool"
    and search :: "(addr \<Rightarrow> int) \<Rightarrow> 't \<Rightarrow> ('l + addr) option"
    and add :: "addr \<Rightarrow> 'l \<Rightarrow> 't \<Rightarrow> 't option"
    and erase :: "addr \<Rightarrow> 't \<Rightarrow> 't option"
    and first :: "'t \<Rightarrow> ptr option" +
  fixes compare :: "'k \<Rightarrow> 'k \<Rightarrow> int"
  assumes compare_eq: "compare x y = 0 \<longleftrightarrow> x = y"
    and compare_sym: "compare x y < 0 \<longleftrightarrow> 0 < compare y x"
    and compare_trans: "0 < compare x y \<Longrightarrow> 0 < compare y z \<Longrightarrow> 0 < compare x z"
begin

lemma falls_sorted:
  assumes "sorted_by compare k xs"
  shows "falls (\<lambda>n. compare (k n) x) xs"
proof -
  have "sgn (compare (k b) x) \<le> sgn (compare (k a) x)" if "0 < compare (k a) (k b)" for a b
    using that compare_trans [of "k a" "k b" x] compare_eq [of "k b" x] by (auto simp: sgn_if)
  with assms show ?thesis by (auto simp: falls_def sorted_by_def elim: sorted_wrt_mono_rel [rotated])
qed

lemma inj_key:
  assumes "sorted_by compare k xs" "a \<in> set xs" "b \<in> set xs" "k a = k b"
  shows "a = b"
proof -
  have "compare (k c) (k d) \<noteq> 0" if "c \<in> set xs" "d \<in> set xs" "c \<noteq> d" for c d
    using assms(1) that unfolding sorted_by_def
  proof (induction xs)
    case (Cons e xs)
    then show ?case using compare_eq by (metis compare_sym less_irrefl set_ConsD sorted_wrt.simps(2))
  qed simp
  with assms compare_eq show ?thesis by metis
qed

lemma find_present:
  assumes "ok t xs" "sorted_by compare k xs" "a \<in> set xs"
  shows "search (\<lambda>n. compare (k n) (k a)) t = Some (Inr a)"
proof -
  from search_hit [OF assms(1) falls_sorted [OF assms(2)] assms(3), of "k a"] compare_eq obtain b where
    b: "b \<in> set xs" "k b = k a" "search (\<lambda>n. compare (k n) (k a)) t = Some (Inr b)" by auto
  with inj_key assms(2,3) have "b = a" by metis
  with b show ?thesis by simp
qed

lemma find_absent:
  assumes "ok t xs" "sorted_by compare k xs" "x \<notin> k ` set xs"
  shows "\<exists>link ys zs. search (\<lambda>n. compare (k n) x) t = Some (Inl link) \<and> set ys \<union> set zs = set xs \<and>
    (\<forall>n. n \<notin> set xs \<longrightarrow> (\<exists>t'. add n link t = Some t' \<and> ok t' (ys @ n # zs) \<and>
      sorted_by compare (k(n := x)) (ys @ n # zs)))"
proof -
  let ?c = "\<lambda>n. compare (k n) x"
  have ne: "\<forall>a \<in> set xs. ?c a \<noteq> 0" using assms(3) compare_eq by auto
  let ?ys = "filter (\<lambda>a. 0 < ?c a) xs" and ?zs = "filter (\<lambda>a. ?c a < 0) xs"
  have "sorted_by compare (k(n := x)) (?ys @ n # ?zs)" if n: "n \<notin> set xs" for n
  proof -
    have "sorted_by compare (k(n := x)) ?ys" "sorted_by compare (k(n := x)) ?zs"
      using assms(2) n unfolding sorted_by_def by (auto intro!: sorted_wrt_filter elim!: sorted_wrt_mono_rel [rotated])
    moreover have "0 < compare (k a) (k b)" if "0 < compare (k a) x" "compare (k b) x < 0" for a b
      using that compare_trans compare_sym by blast
    ultimately show ?thesis using n compare_sym by (auto simp: sorted_by_def sorted_wrt_append)
  qed
  moreover have "set ?ys \<union> set ?zs = set xs" using ne by auto
  ultimately show ?thesis using search_miss [OF assms(1) falls_sorted [OF assms(2)] ne] by meson
qed

lemma remove_sorted: "sorted_by compare k xs \<Longrightarrow> sorted_by compare k (remove1 a xs)"
  unfolding sorted_by_def by (rule sorted_wrt_remove1)

end

interpretation rbt: node_index rbt_ok "\<lambda>cmp h. rb_search cmp None h" rb_add hev_rbtree_erase hev_rbtree_first
  by unfold_locales
    (auto simp: hev_rbtree_first_ok intro: rbt_ok_distinct hev_rbtree_erase_ok dest: rb_search_hit rb_search_miss)

section \<open>Balance\<close>

primrec rb_height :: "rtree \<Rightarrow> nat" where
  "rb_height Leaf = 0"
| "rb_height (Node c l a r) = Suc (max (rb_height l) (rb_height r))"

lemma rb_height_blacks:
  "blacks t n \<Longrightarrow> no_red_red t \<Longrightarrow>
   rb_height t \<le> 2 * n + (if tcolor t = HEV_RBTREE_RED then 1 else 0) \<and> 2 ^ n \<le> Suc (length (inorder t))"
proof (induction t arbitrary: n)
  case (Node c l a r)
  show ?case
  proof (cases c)
    case HEV_RBTREE_RED
    with Node.prems Node.IH [of n] show ?thesis by auto
  next
    case HEV_RBTREE_BLACK
    with Node.prems obtain m where m: "n = Suc m" "blacks l m" "blacks r m" "no_red_red l" "no_red_red r"
      by (cases n) auto
    from Node.IH(1) [OF m(2,4)] Node.IH(2) [OF m(3,5)]
    have "rb_height l \<le> 2 * m + 1" "rb_height r \<le> 2 * m + 1"
      "2 ^ m \<le> Suc (length (inorder l))" "2 ^ m \<le> Suc (length (inorder r))" by (auto split: if_splits)
    with m(1) HEV_RBTREE_BLACK show ?thesis by auto
  qed
qed simp

section \<open>Properties\<close>

text \<open>
  C24: Searching with the loop of the tree's users, linking the new node where the loop stopped
  (\<open>hev_rbtree_node_link\<close>) and rebalancing (\<open>hev_rbtree_insert_color\<close>) returns, dereferences no
  NULL, keeps the red-black invariant and puts the node between the nodes that compare greater and
  the nodes that compare smaller, whatever the tree.
\<close>
theorem rbtree_insert:
  assumes "rbt_ok h xs" "falls cmp xs" "\<forall>a \<in> set xs. cmp a \<noteq> 0" "n \<notin> set xs"
  shows "\<exists>link h'. rb_search cmp None h = Some (Inl link) \<and>
    hev_rbtree_insert_color n (hev_rbtree_node_link n (map_option fst link) link h) = Some h' \<and>
    rbt_ok h' (filter (\<lambda>a. 0 < cmp a) xs @ n # filter (\<lambda>a. cmp a < 0) xs)"
  using rbt.search_miss [OF assms(1-3)] assms(4) by (auto simp: rb_add_def)

text \<open>
  C25: \<open>hev_rbtree_erase\<close> of a node of the tree returns, dereferences no NULL, and the heap then
  holds exactly the other nodes, in the same order, as a red-black tree: all three unlinking cases
  and every rebalancing case, on both sides.
\<close>
theorem rbtree_erase:
  assumes "rbt_ok h xs" "a \<in> set xs"
  shows "\<exists>h'. hev_rbtree_erase a h = Some h' \<and> rbt_ok h' (remove1 a xs)"
  using assms by (rule rbt.erase_ok)

text \<open>
  \<open>hev_rbtree_node_next\<close> and \<open>hev_rbtree_node_prev\<close> return the neighbours of a node in the
  order of the tree and NULL at its ends.
\<close>
theorem rbtree_next_prev:
  assumes "rbt_ok h (xs @ a # ys)"
  shows "hev_rbtree_node_next a h = Some (if ys = [] then None else Some (hd ys)) \<and>
    hev_rbtree_node_prev a h = Some (if xs = [] then None else Some (last xs))"
  using rb_step_ok [OF assms] by simp

text \<open>
  \<open>hev_rbtree_replace\<close> puts the new node in the place of the victim and leaves the order of
  all the others as it was.
\<close>
theorem rbtree_replace:
  assumes "rbt_ok h (xs @ a # ys)" "n \<notin> set (xs @ a # ys)"
  shows "rbt_ok (hev_rbtree_replace a n h) (xs @ n # ys)"
  using assms by (rule hev_rbtree_replace_ok)

text \<open>
  A search that starts at the root makes a number of steps that is logarithmic in the number
  of nodes: the tree a heap holds has a height \<open>k\<close> with \<open>2 ^ (k div 2)\<close> at most the number of its
  nodes plus one.
\<close>
theorem rbtree_balanced:
  assumes "rbt_ok h xs" "tree_at h None (root h) t"
  shows "2 ^ (rb_height t div 2) \<le> length xs + 1"
proof -
  have u: "tree_at h q p u \<Longrightarrow> tree_at h q p v \<Longrightarrow> u = v" for q p u v
  proof (induction u arbitrary: q p v)
    case Leaf
    then show ?case by (cases v) auto
  next
    case (Node c l a r)
    then show ?case by (cases v) auto
  qed
  from assms obtain n where t: "blacks t n" "no_red_red t" "tcolor t = HEV_RBTREE_BLACK" "inorder t = xs"
    using u unfolding rbt_ok_def rb_tree_def by blast
  from rb_height_blacks [OF t(1,2)] t(3,4) have "rb_height t div 2 \<le> n" "2 ^ n \<le> length xs + 1" by auto
  then show ?thesis by (meson le_trans one_le_numeral power_increasing)
qed

section \<open>Witnesses\<close>

text \<open>Five nodes: 4 is the root, 2 a red node with the black children 1 and 3, 5 black.\<close>

definition rb_sample :: rbtree where
  "rb_sample = \<lparr>root = Some 4,
     pc_parent = (\<lambda>_. None)(4 := None, 2 := Some 4, 5 := Some 4, 1 := Some 2, 3 := Some 2),
     pc_color = (\<lambda>_. HEV_RBTREE_BLACK)(2 := HEV_RBTREE_RED),
     child = (\<lambda>_ _. None)(4 := (\<lambda>d. if d = LEFT then Some 2 else Some 5),
       2 := (\<lambda>d. if d = LEFT then Some 1 else Some 3))\<rparr>"

definition rb_sample_tree :: rtree where
  "rb_sample_tree = Node HEV_RBTREE_BLACK
     (Node HEV_RBTREE_RED (Node HEV_RBTREE_BLACK Leaf 1 Leaf) 2 (Node HEV_RBTREE_BLACK Leaf 3 Leaf)) 4
     (Node HEV_RBTREE_BLACK Leaf 5 Leaf)"

lemma rb_sample_rep: "tree_at rb_sample None (root rb_sample) rb_sample_tree"
  by (simp add: rb_sample_def rb_sample_tree_def)

lemma rb_sample_ok: "rbt_ok rb_sample [1, 2, 3, 4, 5]"
proof (rule rbt_okI [OF rb_sample_rep])
  have "blacks rb_sample_tree 2" by (simp add: rb_sample_tree_def)
  then show "rb_tree rb_sample_tree" by (auto simp: rb_tree_def rb_sample_tree_def)
qed (simp_all add: rb_sample_tree_def)

theorem rbtree_insert_witness:
  "\<exists>link h'. rb_search (\<lambda>a. 7 - 2 * int a) None rb_sample = Some (Inl link) \<and>
    hev_rbtree_insert_color 9 (hev_rbtree_node_link 9 (map_option fst link) link rb_sample) = Some h' \<and>
    rbt_ok h' [1, 2, 3, 9, 4, 5]"
proof -
  have "falls (\<lambda>a. 7 - 2 * int a) [1, 2, 3, 4, 5]" by (simp add: falls_def)
  from rbtree_insert [OF rb_sample_ok this, of 9] show ?thesis by auto
qed

theorem rbtree_erase_witness: "\<exists>h'. hev_rbtree_erase 5 rb_sample = Some h' \<and> rbt_ok h' [1, 2, 3, 4]"
  using rbtree_erase [OF rb_sample_ok, of 5] by simp

theorem rbtree_next_prev_witness:
  "hev_rbtree_node_next 3 rb_sample = Some (Some 4) \<and> hev_rbtree_node_prev 3 rb_sample = Some (Some 2)"
  using rbtree_next_prev [of rb_sample "[1, 2]" 3 "[4, 5]"] rb_sample_ok by simp

theorem rbtree_replace_witness: "rbt_ok (hev_rbtree_replace 3 9 rb_sample) [1, 2, 9, 4, 5]"
  using rbtree_replace [of rb_sample "[1, 2]" 3 "[4, 5]" 9] rb_sample_ok by simp

theorem rbtree_balanced_witness: "2 ^ (rb_height rb_sample_tree div 2) \<le> length [1, 2, 3, 4, 5 :: nat] + 1"
  using rbtree_balanced [OF rb_sample_ok rb_sample_rep] by simp

end
