(* ===== verification/Socks5_Client.thy ===== *)
theory Socks5_Client
  imports Dialogue
begin

text \<open>
  The client side of the handshake: \<open>core/src/hev-socks5-client.c\<close> and its two subclasses
  \<open>hev-socks5-client-tcp.c\<close> and \<open>hev-socks5-client-udp.c\<close>. A step returns the C status, the
  object and the world. Virtual calls go through a record of functions, as the code's class
  structures do.
\<close>

section \<open>The process-wide settings of \<open>hev-socks5-misc.c\<close>\<close>

record misc =
  connect_timeout :: int
  tcp_timeout :: int
  udp_timeout :: int
  task_stack_size :: int
  udp_recv_buffer_size :: int
  udp_copy_buffer_nums :: int

definition misc_init :: misc where
  "misc_init = \<lparr>connect_timeout = 10000, tcp_timeout = 300000, udp_timeout = 60000,
     task_stack_size = 8192, udp_recv_buffer_size = 512 * 1024, udp_copy_buffer_nums = 10\<rparr>"

section \<open>Objects and classes\<close>

record hev_socks5_client = hev_socks5 +
  auth_user :: "bytes option"
  auth_pass :: "bytes option"

type_synonym 'o step = "'o \<Rightarrow> world \<Rightarrow> int \<times> 'o \<times> world"

record 'o client_class =
  get_upstream_addr :: "'o \<Rightarrow> world \<Rightarrow> HevSocks5Addr option \<times> 'o \<times> world"
  set_upstream_addr :: "HevSocks5Addr \<Rightarrow> 'o step"
  klass_binder :: "int \<Rightarrow> sockaddr_in6 \<Rightarrow> 'o step"

definition hev_socks5_client_set_auth ::
  "'a hev_socks5_client_scheme \<Rightarrow> bytes option \<Rightarrow> bytes option \<Rightarrow> 'a hev_socks5_client_scheme" where
  "hev_socks5_client_set_auth self user pass = self\<lparr>auth_user := user, auth_pass := pass\<rparr>"

definition hev_socks5_client_construct ::
  "HevSocks5Type \<Rightarrow> 'a hev_socks5_client_scheme \<Rightarrow> 'a hev_socks5_client_scheme" where
  "hev_socks5_client_construct t self = hev_socks5_construct t self"

definition hev_socks5_client_destruct :: "'a hev_socks5_client_scheme \<Rightarrow> world \<Rightarrow> world" where
  "hev_socks5_client_destruct self w = hev_socks5_destruct self w"

section \<open>Writing\<close>

definition has_creds :: "'a hev_socks5_client_scheme \<Rightarrow> bool" where
  "has_creds self \<longleftrightarrow> auth_user self \<noteq> None \<and> auth_pass self \<noteq> None"

definition hev_socks5_client_write_auth_methods :: "'a hev_socks5_client_scheme step" where
  "hev_socks5_client_write_auth_methods self w =
     (let method = (if \<not> has_creds self then HEV_SOCKS5_AUTH_METHOD_NONE
                    else HEV_SOCKS5_AUTH_METHOD_USER);
          (res, self, w) = hev_task_io_socket_send (fd self) [HEV_SOCKS5_VERSION_5, 1, method]
                             True False hev_socks5_task_io_yielder self w
      in if res \<le> 0 then (-1, self, w) else (0, self, w))"

definition hev_socks5_client_write_auth_creds :: "'a hev_socks5_client_scheme step" where
  "hev_socks5_client_write_auth_creds self w =
     (case (auth_user self, auth_pass self) of
        (Some user, Some pass) \<Rightarrow>
          let ub1 = of_nat (length user) :: u8;
              ub2 = of_nat (length pass) :: u8;
              iov = [[HEV_SOCKS5_AUTH_VERSION_1, ub1], take (unat ub1) user,
                     [ub2], take (unat ub2) pass];
              (res, self, w) = hev_task_io_socket_sendmsg (fd self) iov
                                 True False hev_socks5_task_io_yielder self w
          in if res \<le> 0 then (-1, self, w) else (0, self, w)
      | _ \<Rightarrow> (0, self, w))"

fun req_cmd :: "HevSocks5Type \<Rightarrow> u8 option" where
  "req_cmd HEV_SOCKS5_TYPE_TCP = Some HEV_SOCKS5_REQ_CMD_CONNECT"
| "req_cmd HEV_SOCKS5_TYPE_UDP_IN_TCP = Some HEV_SOCKS5_REQ_CMD_FWD_UDP"
| "req_cmd HEV_SOCKS5_TYPE_UDP_IN_UDP = Some HEV_SOCKS5_REQ_CMD_UDP_ASC"
| "req_cmd HEV_SOCKS5_TYPE_NONE = None"

text \<open>The address object is freed on the success path only.\<close>

definition hev_socks5_client_write_request ::
  "'a hev_socks5_client_scheme client_class \<Rightarrow> 'a hev_socks5_client_scheme step" where
  "hev_socks5_client_write_request klass self w =
     (case req_cmd (stype self) of
        None \<Rightarrow> (-1, self, w)
      | Some cmd \<Rightarrow>
          (case get_upstream_addr klass self w of
             (None, self, w) \<Rightarrow> (-1, self, w\<lparr>crashed := True\<rparr>)
           | (Some addr, self, w) \<Rightarrow>
               if \<not> (atype addr = HEV_SOCKS5_ADDR_TYPE_IPV4 \<or> atype addr = HEV_SOCKS5_ADDR_TYPE_IPV6 \<or>
                     atype addr = HEV_SOCKS5_ADDR_TYPE_NAME) then (-1, self, w)
               else
                 let addrlen = (if atype addr = HEV_SOCKS5_ADDR_TYPE_IPV4 then 7
                                else if atype addr = HEV_SOCKS5_ADDR_TYPE_IPV6 then 19
                                else 4 + domain_len addr);
                     iov = [[HEV_SOCKS5_VERSION_5, cmd, 0], take addrlen addr];
                     (ret, self, w) = hev_task_io_socket_sendmsg (fd self) iov
                                        True False hev_socks5_task_io_yielder self w
                 in if ret \<le> 0 then (-1, self, w) else (0, self, hev_free w)))"

section \<open>Reading\<close>

definition hev_socks5_client_read_auth_method :: "'a hev_socks5_client_scheme step" where
  "hev_socks5_client_read_auth_method self w =
     (let (res, auth, self, w) = hev_task_io_socket_recv (fd self) 2 True False
                                   hev_socks5_task_io_yielder self w
      in if res \<noteq> 2 then (-1, self, w)
         else if auth ! 0 \<noteq> HEV_SOCKS5_VERSION_5 then (-1, self, w)
         else (uint (auth ! 1), self, w))"

definition hev_socks5_client_read_auth_creds :: "'a hev_socks5_client_scheme step" where
  "hev_socks5_client_read_auth_creds self w =
     (let (ret, res, self, w) = hev_task_io_socket_recv (fd self) 2 True False
                                  hev_socks5_task_io_yielder self w
      in if ret \<noteq> 2 then (-1, self, w)
         else if res ! 0 \<noteq> HEV_SOCKS5_AUTH_VERSION_1 then (-1, self, w)
         else if res ! 1 \<noteq> HEV_SOCKS5_RES_REP_SUCC then (-1, self, w)
         else (0, self, w))"

text \<open>
  \<open>res\<close> is the 263-byte reply on the stack; the address object begins at its byte 3. Bytes that
  were never received keep what the stack held, \<open>0\<close> here; they are not read for the two address
  types that are accepted.
\<close>

definition hev_socks5_client_read_response ::
  "'a hev_socks5_client_scheme client_class \<Rightarrow> 'a hev_socks5_client_scheme step" where
  "hev_socks5_client_read_response klass self w =
     (let (ret, res, self, w) = hev_task_io_socket_recv (fd self) 4 True False
                                  hev_socks5_task_io_yielder self w
      in if ret \<noteq> 4 then (-1, self, w)
         else if res ! 0 \<noteq> HEV_SOCKS5_VERSION_5 then (-1, self, w)
         else if res ! 1 \<noteq> HEV_SOCKS5_RES_REP_SUCC then (-1, self, w)
         else if \<not> (res ! 3 = HEV_SOCKS5_ADDR_TYPE_IPV4 \<or> res ! 3 = HEV_SOCKS5_ADDR_TYPE_IPV6) then
           (-1, self, w)
         else
           let addrlen = (if res ! 3 = HEV_SOCKS5_ADDR_TYPE_IPV4 then 6 else 18);
               (ret, more, self, w) = hev_task_io_socket_recv (fd self) addrlen True False
                                        hev_socks5_task_io_yielder self w
           in if ret \<noteq> int addrlen then (-1, self, w)
              else
                let addr = patch 1 more (patch 0 [res ! 3] (replicate addr_size 0));
                    (ret, self, w) = set_upstream_addr klass addr self w
                in if ret < 0 then (-1, self, w) else (0, self, w))"

section \<open>Connecting\<close>

definition sockaddr_zero :: sockaddr_in6 where
  "sockaddr_zero = \<lparr>sin6_family = 0, sin6_port = 0, sin6_addr = replicate 16 0\<rparr>"

definition hev_socks5_client_connect ::
  "misc \<Rightarrow> net_env \<Rightarrow> 'a hev_socks5_client_scheme client_class \<Rightarrow> bytes \<Rightarrow> u16 \<Rightarrow>
   'a hev_socks5_client_scheme step" where
  "hev_socks5_client_connect m env klass addr port self w =
     (let self = hev_socks5_set_timeout self (connect_timeout m);
          (res, saddr, family) = hev_socks5_name_into_sockaddr6 env addr port sockaddr_zero
                                   (hev_socks5_get_addr_family self)
      in if res < 0 then (-1, self, w)
         else
           let (f, w) = hev_socks5_socket SOCK_STREAM w in
           if f < 0 then (-1, self, w)
           else
             let (res, self, w) = klass_binder klass f saddr self w in
             if res < 0 then (-1, self, sys_close f w)
             else
               let (res, self, w) = hev_task_io_socket_connect f saddr hev_socks5_task_io_yielder self w in
               if res < 0 then (-1, self, sys_close f w)
               else (0, hev_socks5_set_addr_family (self\<lparr>fd := f\<rparr>) family, w))"

section \<open>The handshake\<close>

text \<open>
  \<open>res = f (self); if (res < 0) return -1;\<close> is \<open>checked f\<close>; what follows may use \<open>res\<close>.
\<close>

definition checked :: "'o step \<Rightarrow> (int \<Rightarrow> 'o step) \<Rightarrow> 'o step" where
  "checked f g self w = (let (res, self, w) = f self w in if res < 0 then (-1, self, w) else g res self w)"

definition return_c :: "int \<Rightarrow> 'o step" where
  "return_c r self w = (r, self, w)"

definition hev_socks5_client_handshake_standard ::
  "'a hev_socks5_client_scheme client_class \<Rightarrow> 'a hev_socks5_client_scheme step" where
  "hev_socks5_client_handshake_standard klass =
     checked hev_socks5_client_write_auth_methods (\<lambda>_.
     checked hev_socks5_client_read_auth_method (\<lambda>res.
     checked
       (if res = uint HEV_SOCKS5_AUTH_METHOD_USER then
          checked hev_socks5_client_write_auth_creds (\<lambda>_.
          checked hev_socks5_client_read_auth_creds (\<lambda>_. return_c 0))
        else if res \<noteq> uint HEV_SOCKS5_AUTH_METHOD_NONE then return_c (-1)
        else return_c 0) (\<lambda>_.
     checked (hev_socks5_client_write_request klass) (\<lambda>_.
     checked (hev_socks5_client_read_response klass) (\<lambda>_.
     return_c 0)))))"

definition hev_socks5_client_handshake_pipeline ::
  "'a hev_socks5_client_scheme client_class \<Rightarrow> 'a hev_socks5_client_scheme step" where
  "hev_socks5_client_handshake_pipeline klass =
     checked hev_socks5_client_write_auth_methods (\<lambda>_.
     checked hev_socks5_client_write_auth_creds (\<lambda>_.
     checked (hev_socks5_client_write_request klass) (\<lambda>_.
     checked hev_socks5_client_read_auth_method (\<lambda>res.
     checked
       (if res = uint HEV_SOCKS5_AUTH_METHOD_USER then
          checked hev_socks5_client_read_auth_creds (\<lambda>_. return_c 0)
        else if res \<noteq> uint HEV_SOCKS5_AUTH_METHOD_NONE then return_c (-1)
        else return_c 0) (\<lambda>_.
     checked (hev_socks5_client_read_response klass) (\<lambda>_.
     return_c 0))))))"

definition hev_socks5_client_handshake ::
  "misc \<Rightarrow> 'a hev_socks5_client_scheme client_class \<Rightarrow> bool \<Rightarrow> 'a hev_socks5_client_scheme step" where
  "hev_socks5_client_handshake m klass pipeline self w =
     (let self = hev_socks5_set_timeout self (tcp_timeout m);
          (res, self, w) = (if pipeline then hev_socks5_client_handshake_pipeline klass self w
                            else hev_socks5_client_handshake_standard klass self w);
          self = (case stype self of
                    HEV_SOCKS5_TYPE_UDP_IN_TCP \<Rightarrow> hev_socks5_set_timeout self (udp_timeout m)
                  | HEV_SOCKS5_TYPE_UDP_IN_UDP \<Rightarrow> hev_socks5_set_timeout self (udp_timeout m)
                  | _ \<Rightarrow> self)
      in (res, self, w))"

section \<open>The TCP client\<close>

record hev_socks5_client_tcp = hev_socks5_client +
  up_addr :: "HevSocks5Addr option"

text \<open>
  The session object that embeds the client has been allocated by the caller (\<open>live\<close> counts the
  address block only). A failing allocation of the address leaves the object without one.
\<close>

definition hev_socks5_client_tcp_construct :: "HevSocks5Addr \<Rightarrow> 'a hev_socks5_client_tcp_scheme step" where
  "hev_socks5_client_tcp_construct addr self w =
     (let self = hev_socks5_client_construct HEV_SOCKS5_TYPE_TCP self;
          len = hev_socks5_addr_len addr;
          (ok, w) = hev_malloc w
      in if \<not> ok then (-1, self\<lparr>up_addr := None\<rparr>, w)
         else (0, self\<lparr>up_addr := Some (take (nat len) addr)\<rparr>, w))"

definition hev_socks5_client_tcp_get_upstream_addr ::
  "'a hev_socks5_client_tcp_scheme \<Rightarrow> world \<Rightarrow> HevSocks5Addr option \<times> 'a hev_socks5_client_tcp_scheme \<times> world" where
  "hev_socks5_client_tcp_get_upstream_addr self w = (up_addr self, self\<lparr>up_addr := None\<rparr>, w)"

definition hev_socks5_client_tcp_set_upstream_addr ::
  "HevSocks5Addr \<Rightarrow> 'a hev_socks5_client_tcp_scheme step" where
  "hev_socks5_client_tcp_set_upstream_addr addr self w = (0, self, w)"

definition hev_socks5_client_tcp_destruct :: "'a hev_socks5_client_tcp_scheme \<Rightarrow> world \<Rightarrow> world" where
  "hev_socks5_client_tcp_destruct self w =
     hev_socks5_client_destruct self (if up_addr self \<noteq> None then hev_free w else w)"

definition client_binder :: "int \<Rightarrow> sockaddr_in6 \<Rightarrow> 'a hev_socks5_scheme step" where
  "client_binder sock dest self w = (hev_socks5_bind self sock dest, self, w)"

definition hev_socks5_client_tcp_class :: "'a hev_socks5_client_tcp_scheme client_class" where
  "hev_socks5_client_tcp_class =
     \<lparr>get_upstream_addr = hev_socks5_client_tcp_get_upstream_addr,
      set_upstream_addr = hev_socks5_client_tcp_set_upstream_addr,
      klass_binder = client_binder\<rparr>"

section \<open>The UDP client\<close>

record hev_socks5_client_udp = hev_socks5_client +
  udp_fd :: int

definition hev_socks5_client_udp_construct ::
  "HevSocks5Type \<Rightarrow> 'a hev_socks5_client_udp_scheme \<Rightarrow> 'a hev_socks5_client_udp_scheme" where
  "hev_socks5_client_udp_construct t self = (hev_socks5_client_construct t self)\<lparr>udp_fd := -1\<rparr>"

definition hev_socks5_client_udp_get_upstream_addr ::
  "'a hev_socks5_client_udp_scheme \<Rightarrow> world \<Rightarrow> HevSocks5Addr option \<times> 'a hev_socks5_client_udp_scheme \<times> world" where
  "hev_socks5_client_udp_get_upstream_addr base w =
     (let family = hev_socks5_get_addr_family base in
      if family = AF_INET then
        let (ok, w) = hev_malloc w in
        (if ok then Some (patch 0 [HEV_SOCKS5_ADDR_TYPE_IPV4] (replicate 7 0)) else None, base, w)
      else if family = AF_INET6 then
        let (ok, w) = hev_malloc w in
        (if ok then Some (patch 0 [HEV_SOCKS5_ADDR_TYPE_IPV6] (replicate 19 0)) else None, base, w)
      else (None, base, w))"

definition hev_socks5_client_udp_set_upstream_addr ::
  "net_env \<Rightarrow> (int \<Rightarrow> sockaddr_in6 \<Rightarrow> 'a hev_socks5_client_udp_scheme step) \<Rightarrow> HevSocks5Addr \<Rightarrow>
   'a hev_socks5_client_udp_scheme step" where
  "hev_socks5_client_udp_set_upstream_addr env bnd addr self w =
     (if stype self \<noteq> HEV_SOCKS5_TYPE_UDP_IN_UDP then (0, self, w)
      else
        let (res, saddr, family) = hev_socks5_addr_into_sockaddr6 env addr sockaddr_zero
                                     (hev_socks5_get_addr_family self) in
        if res < 0 then (-1, self, w)
        else
          let (f, w) = hev_socks5_socket SOCK_DGRAM w in
          if f < 0 then (-1, self, w)
          else
            let (res, self, w) = bnd f saddr self w in
            if res < 0 then (-1, self, sys_close f w)
            else
              let (res, self, w) = hev_task_io_socket_connect f saddr hev_socks5_task_io_yielder self w in
              if res < 0 then (-1, self, sys_close f w)
              else (0, self\<lparr>udp_associated := True, udp_fd := f\<rparr>, w))"

definition hev_socks5_client_udp_get_fd :: "'a hev_socks5_client_udp_scheme \<Rightarrow> int" where
  "hev_socks5_client_udp_get_fd self =
     (case stype self of
        HEV_SOCKS5_TYPE_UDP_IN_TCP \<Rightarrow> fd self
      | HEV_SOCKS5_TYPE_UDP_IN_UDP \<Rightarrow> udp_fd self
      | _ \<Rightarrow> -1)"

definition hev_socks5_client_udp_destruct :: "'a hev_socks5_client_udp_scheme \<Rightarrow> world \<Rightarrow> world" where
  "hev_socks5_client_udp_destruct self w =
     hev_socks5_client_destruct self (if udp_fd self \<ge> 0 then sys_close (udp_fd self) w else w)"

definition hev_socks5_client_udp_class ::
  "net_env \<Rightarrow> 'a hev_socks5_client_udp_scheme client_class" where
  "hev_socks5_client_udp_class env =
     \<lparr>get_upstream_addr = hev_socks5_client_udp_get_upstream_addr,
      set_upstream_addr = hev_socks5_client_udp_set_upstream_addr env client_binder,
      klass_binder = client_binder\<rparr>"

section \<open>The messages of RFC 1928 and RFC 1929\<close>

definition methods_msg :: "'a hev_socks5_client_scheme \<Rightarrow> bytes" where
  "methods_msg self = [5, 1, if has_creds self then 2 else 0]"

definition creds_msg :: "'a hev_socks5_client_scheme \<Rightarrow> bytes" where
  "creds_msg self =
     (case (auth_user self, auth_pass self) of
        (Some u, Some p) \<Rightarrow> [1, of_nat (length u)] @ u @ [of_nat (length p)] @ p
      | _ \<Rightarrow> [])"

definition creds_wf :: "'a hev_socks5_client_scheme \<Rightarrow> bool" where
  "creds_wf self \<longleftrightarrow>
     (\<forall>u. auth_user self = Some u \<longrightarrow> length u < 256) \<and> (\<forall>p. auth_pass self = Some p \<longrightarrow> length p < 256)"

definition request_msg :: "HevSocks5Type \<Rightarrow> endpoint \<Rightarrow> bytes" where
  "request_msg t ep = [5, the (req_cmd t), 0] @ encode_ep ep"

text \<open>A reply the client takes: version 5, status 0, an IPv4 or IPv6 bound address.\<close>

definition reply_ok :: "bytes \<Rightarrow> bool" where
  "reply_ok r \<longleftrightarrow>
     (length r = 10 \<and> r ! 3 = 1 \<or> length r = 22 \<and> r ! 3 = 4) \<and> r ! 0 = 5 \<and> r ! 1 = 0"

definition server_says :: "u8 \<Rightarrow> bytes \<Rightarrow> bytes" where
  "server_says m reply = [5, m] @ (if m = 2 then [1, 0] else []) @ reply"

section \<open>The steps as dialogues\<close>

lemma fd_upd [simp]:
  "fd (self\<lparr>timeout := t\<rparr>) = fd self" "fd (self'\<lparr>up_addr := a\<rparr>) = fd self'"
  by simp_all

lemma dialogue_client:
  assumes "dialogue self w tx rx self' w'"
  shows "methods_msg self' = methods_msg self" "creds_msg self' = creds_msg self"
    "creds_wf self' = creds_wf self" "has_creds self' = has_creds self"
  using dialogueD(16) [OF assms]
  by (auto simp: methods_msg_def creds_msg_def creds_wf_def has_creds_def split: option.splits)

lemma send_flows_dialogue:
  assumes "tx_flows (txq w (fd self))" "buf \<noteq> []"
  obtains w' where "dialogue self w buf [] self w'" "rx_sim self w self w'" "rxq w' = rxq w"
    "hev_task_io_socket_send (fd self) buf True dw y self w = (int (length buf), self, w')"
proof -
  from send_flows [OF assms] obtain es where es: "tx_flows es"
    "hev_task_io_socket_send (fd self) buf True dw y self w =
    (int (length buf), self, w\<lparr>txq := (txq w)(fd self := es), wire := (wire w)(fd self := wire w (fd self) @ buf)\<rparr>)" .
  show thesis by (rule that [OF _ _ _ es(2)]) (use es(1) in \<open>auto simp: dialogue_def rx_sim_def\<close>)
qed

lemma write_auth_methods_flows:
  assumes "tx_flows (txq w (fd self))"
  obtains w' where "hev_socks5_client_write_auth_methods self w = (0, self, w')"
    "dialogue self w (methods_msg self) [] self w'" "rx_sim self w self w'" "rxq w' = rxq w"
proof -
  have "methods_msg self \<noteq> []" by (simp add: methods_msg_def)
  from send_flows_dialogue [OF assms this] obtain w' where
    "dialogue self w (methods_msg self) [] self w'" "rx_sim self w self w'" "rxq w' = rxq w"
    "hev_task_io_socket_send (fd self) (methods_msg self) True False hev_socks5_task_io_yielder self w =
      (int (length (methods_msg self)), self, w')" by blast
  then show thesis
    by (intro that [of w'])
      (cases "has_creds self"; simp add: hev_socks5_client_write_auth_methods_def methods_msg_def)+
qed

lemma write_auth_creds_flows:
  assumes "tx_flows (txq w (fd self))" "creds_wf self"
  obtains w' where "hev_socks5_client_write_auth_creds self w = (0, self, w')"
    "dialogue self w (creds_msg self) [] self w'" "rx_sim self w self w'" "rxq w' = rxq w"
proof (cases "has_creds self")
  case False
  then show thesis
    by (intro that [of w])
      (auto simp: hev_socks5_client_write_auth_creds_def creds_msg_def has_creds_def rx_sim_def
        split: option.splits)
next
  case True
  then obtain u p where u: "auth_user self = Some u" "auth_pass self = Some p"
    by (auto simp: has_creds_def)
  with assms(2) have len: "length u < 256" "length p < 256" by (auto simp: creds_wf_def)
  have ne: "creds_msg self \<noteq> []" using u by (simp add: creds_msg_def)
  from send_flows_dialogue [OF assms(1) ne] obtain w' where
    "dialogue self w (creds_msg self) [] self w'" "rx_sim self w self w'" "rxq w' = rxq w"
    "hev_task_io_socket_send (fd self) (creds_msg self) True False hev_socks5_task_io_yielder self w =
      (int (length (creds_msg self)), self, w')" by blast
  then show thesis
    by (intro that [of w'])
      (use u len in \<open>simp_all add: hev_socks5_client_write_auth_creds_def creds_msg_def sendmsg_eq_send\<close>)
qed

lemma read_auth_method_success:
  assumes "hev_socks5_client_read_auth_method self w = (r, self', w')"
  shows "(r = -1 \<and> (\<exists>rx. dialogue self w [] rx self' w')) \<or>
    (\<exists>m. r = uint m \<and> dialogue self w [] [5, m] self' w')"
proof -
  obtain r0 bs s1 w1 where rc: "hev_task_io_socket_recv (fd self) 2 True False hev_socks5_task_io_yielder self w =
    (r0, bs, s1, w1)" by (metis prod_cases4)
  note d = recv_dialogue [OF rc]
  have "r0 = 2 \<Longrightarrow> bs = [bs ! 0, bs ! 1]"
    using d by (cases bs rule: list.exhaust; cases "tl bs") auto
  with d assms rc show ?thesis
    by (auto simp: hev_socks5_client_read_auth_method_def split: if_splits)
qed

lemma read_auth_creds_success:
  assumes "hev_socks5_client_read_auth_creds self w = (r, self', w')"
  shows "(r = -1 \<and> (\<exists>rx. dialogue self w [] rx self' w')) \<or>
    (r = 0 \<and> dialogue self w [] [1, 0] self' w')"
proof -
  obtain r0 bs s1 w1 where rc: "hev_task_io_socket_recv (fd self) 2 True False hev_socks5_task_io_yielder self w =
    (r0, bs, s1, w1)" by (metis prod_cases4)
  note d = recv_dialogue [OF rc]
  have "r0 = 2 \<Longrightarrow> bs = [bs ! 0, bs ! 1]"
    using d by (cases bs rule: list.exhaust; cases "tl bs") auto
  with d assms rc show ?thesis
    by (auto simp: hev_socks5_client_read_auth_creds_def split: if_splits)
qed

text \<open>
  The reading part of the reply does not depend on the class; only what is done with the address
  does. \<open>keeps_addr\<close> is a class that ignores it, as the TCP client does.
\<close>

definition keeps_addr :: "'a hev_socks5_client_scheme client_class \<Rightarrow> bool" where
  "keeps_addr klass \<longleftrightarrow> (\<forall>addr self w. set_upstream_addr klass addr self w = (0, self, w))"

lemma tcp_keeps_addr [simp]: "keeps_addr (hev_socks5_client_tcp_class)"
  by (simp add: keeps_addr_def hev_socks5_client_tcp_class_def hev_socks5_client_tcp_set_upstream_addr_def)

lemma read_response_success:
  assumes k: "keeps_addr klass" and r: "hev_socks5_client_read_response klass self w = (r, self', w')"
  shows "(r = -1 \<and> (\<exists>rx. dialogue self w [] rx self' w')) \<or>
    (r = 0 \<and> (\<exists>reply. reply_ok reply \<and> dialogue self w [] reply self' w'))"
proof -
  obtain r0 bs s1 w1 where r1: "hev_task_io_socket_recv (fd self) 4 True False hev_socks5_task_io_yielder self w =
    (r0, bs, s1, w1)" by (metis prod_cases4)
  define n :: nat where "n = (if bs ! 3 = 1 then 6 else 18)"
  obtain r2 more s2 w2 where r2: "hev_task_io_socket_recv (fd s1) n True False hev_socks5_task_io_yielder s1 w1 =
    (r2, more, s2, w2)" by (metis prod_cases4)
  note d1 = recv_dialogue [OF r1] and d2 = recv_dialogue [OF r2]
  show ?thesis
  proof (cases "r0 = 4 \<and> bs ! 0 = 5 \<and> bs ! 1 = 0 \<and> (bs ! 3 = 1 \<or> bs ! 3 = 4)")
    case False
    with r r1 have "r = -1" "self' = s1" "w' = w1"
      by (auto simp: hev_socks5_client_read_response_def split: if_splits)
    with d1 show ?thesis by auto
  next
    case True
    with r r1 r2 k have e: "self' = s2" "w' = w2" "r = (if r2 = int n then 0 else -1)"
      by (auto simp: hev_socks5_client_read_response_def n_def keeps_addr_def Let_def split: if_splits)
    have d: "dialogue self w [] (bs @ more) s2 w2"
      using dialogue_trans d1 d2 by fastforce
    have "r2 = int n \<Longrightarrow> reply_ok (bs @ more)"
      using True d1 d2 by (auto simp: reply_ok_def n_def nth_append split: if_splits)
    with d e show ?thesis by auto
  qed
qed

lemma dialogue_up_addr:
  "dialogue self w tx rx self' w' \<Longrightarrow>
   dialogue (self\<lparr>up_addr := a\<rparr>) w tx rx (self'\<lparr>up_addr := a\<rparr>) w'"
  by (auto simp: dialogue_def)

lemma hev_free_simps [simp]:
  "rxq (hev_free w) = rxq w" "txq (hev_free w) = txq w" "wire (hev_free w) = wire w"
  "sys (hev_free w) = sys w" "opened (hev_free w) = opened w" "peer (hev_free w) = peer w"
  "allocs (hev_free w) = allocs w" "crashed (hev_free w) = crashed w" "yields (hev_free w) = yields w"
  "live (hev_free w) = live w - 1"
  by (simp_all add: hev_free_def)

lemma dialogue_free:
  "dialogue self w tx rx self' w' \<Longrightarrow> dialogue self (hev_free w) tx rx self' (hev_free w')"
  by (auto simp: dialogue_def)

lemma encode_ep_head:
  "encode_ep ep ! 0 \<in> {1, 3, 4}" "encode_ep ep \<noteq> []"
  by (cases ep; simp)+

lemma write_request_flows:
  assumes "tx_flows (txq w (fd self))" "up_addr self = Some (encode_ep ep)" "ep_wf ep"
    "stype self \<noteq> HEV_SOCKS5_TYPE_NONE"
  obtains w' where
    "hev_socks5_client_write_request hev_socks5_client_tcp_class self w = (0, self\<lparr>up_addr := None\<rparr>, w')"
    "dialogue (self\<lparr>up_addr := None\<rparr>) (hev_free w) (request_msg (stype self) ep) [] (self\<lparr>up_addr := None\<rparr>) w'"
    "rx_sim self w (self\<lparr>up_addr := None\<rparr>) w'" "rxq w' = rxq w"
proof -
  let ?s = "self\<lparr>up_addr := None\<rparr>" and ?a = "encode_ep ep"
  obtain cmd where cmd: "req_cmd (stype self) = Some cmd"
    using assms(4) by (cases "stype self") auto
  have len: "(if atype ?a = 1 then 7 else if atype ?a = 4 then 19 else 4 + domain_len ?a) = length ?a"
    using assms(3) by (cases ep) (auto simp: addr_simps)
  have ty: "atype ?a = 1 \<or> atype ?a = 4 \<or> atype ?a = 3" by (cases ep) (auto simp: addr_simps)
  have "request_msg (stype self) ep \<noteq> []" by (simp add: request_msg_def)
  with assms(1) send_flows_dialogue [of w ?s] obtain w' where
    w': "dialogue ?s w (request_msg (stype self) ep) [] ?s w'" "rx_sim ?s w ?s w'" "rxq w' = rxq w"
    "hev_task_io_socket_send (fd ?s) (request_msg (stype self) ep) True False hev_socks5_task_io_yielder ?s w =
      (int (length (request_msg (stype self) ep)), ?s, w')" by (metis fd_upd(2))
  show thesis
  proof (rule that [of "hev_free w'"])
    have "hev_socks5_client_write_request hev_socks5_client_tcp_class self w =
      (let (ret, self, w) = hev_task_io_socket_send (fd ?s) ([5, cmd, 0] @ ?a) True False hev_socks5_task_io_yielder ?s w
       in if ret \<le> 0 then (-1, self, w) else (0, self, hev_free w))"
      using ty assms(2) cmd len
      by (simp add: hev_socks5_client_write_request_def hev_socks5_client_tcp_class_def
          hev_socks5_client_tcp_get_upstream_addr_def sendmsg_eq_send Let_def)
    then show "hev_socks5_client_write_request hev_socks5_client_tcp_class self w = (0, ?s, hev_free w')"
      using w'(4) cmd by (simp add: request_msg_def)
    show "dialogue ?s (hev_free w) (request_msg (stype self) ep) [] ?s (hev_free w')"
      using w'(1) by (rule dialogue_free)
  qed (use w' in \<open>auto simp: rx_sim_def\<close>)
qed

section \<open>The standard and the pipelined handshake\<close>

lemma checkedE:
  assumes "checked f g self w = (0, self', w')"
  obtains r s1 w1 where "f self w = (r, s1, w1)" "\<not> r < 0" "g r s1 w1 = (0, self', w')"
  using assms by (cases "f self w") (auto simp: checked_def split: if_splits)

lemma return_cE: "return_c r self w = (r', self', w') \<Longrightarrow> r' = r \<and> self' = self \<and> w' = w"
  by (simp add: return_c_def)

lemma auth_standard_success:
  assumes "(if m = uint (2 :: u8) then checked hev_socks5_client_write_auth_creds (\<lambda>_.
        checked hev_socks5_client_read_auth_creds (\<lambda>_. return_c 0))
      else if m \<noteq> uint (0 :: u8) then return_c (-1) else return_c 0) self w = (r, self', w')" "\<not> r < 0"
    and "tx_flows (txq w (fd self))" "creds_wf self"
  shows "(m = 0 \<or> m = 2) \<and> dialogue self w (if m = 2 then creds_msg self else [])
      (if m = 2 then [1, 0] else []) self' w'"
proof (cases "m = 2")
  case True
  from assms(3,4) obtain w1 where a: "hev_socks5_client_write_auth_creds self w = (0, self, w1)"
    "dialogue self w (creds_msg self) [] self w1" by (rule write_auth_creds_flows)
  obtain r2 s2 w2 where b: "hev_socks5_client_read_auth_creds self w1 = (r2, s2, w2)"
    by (metis prod_cases3)
  with True assms(1,2) a have "\<not> r2 < 0" "self' = s2" "w' = w2"
    by (auto simp: checked_def return_c_def split: if_splits)
  with read_auth_creds_success [OF b] dialogue_trans [OF a(2)] True show ?thesis by fastforce
next
  case False
  with assms(1,2) show ?thesis by (auto simp: return_c_def split: if_splits)
qed

lemma request_response_success:
  assumes "tx_flows (txq w (fd self))" "up_addr self = Some (encode_ep ep)" "ep_wf ep"
    "stype self \<noteq> HEV_SOCKS5_TYPE_NONE"
    and "hev_socks5_client_write_request hev_socks5_client_tcp_class self w = (r1, s1, w1)"
  shows "r1 = 0 \<and> s1 = self\<lparr>up_addr := None\<rparr> \<and>
    dialogue s1 (hev_free w) (request_msg (stype self) ep) [] s1 w1"
  using write_request_flows [OF assms(1-4)] assms(5) by (metis prod.inject)

lemma standard_success:
  assumes fl: "tx_flows (txq w (fd self))" and up: "up_addr self = Some (encode_ep ep)" "ep_wf ep"
    and ty: "stype self \<noteq> HEV_SOCKS5_TYPE_NONE" and cw: "creds_wf self"
    and r: "hev_socks5_client_handshake_standard hev_socks5_client_tcp_class self w = (0, self', w')"
  shows "\<exists>m reply. (m = 0 \<or> m = 2) \<and> reply_ok reply \<and>
    dialogue (self\<lparr>up_addr := None\<rparr>) (hev_free w)
      (methods_msg self @ (if m = 2 then creds_msg self else []) @ request_msg (stype self) ep)
      (server_says m reply) self' w'"
proof -
  from r [unfolded hev_socks5_client_handshake_standard_def]
  obtain m1 s1 w1 m2 s2 w2 r3 s3 w3 r4 s4 w4 r5 where
    a: "hev_socks5_client_write_auth_methods self w = (m1, s1, w1)"
    and b: "hev_socks5_client_read_auth_method s1 w1 = (m2, s2, w2)" "\<not> m2 < 0"
    and c: "(if m2 = uint (2 :: u8) then checked hev_socks5_client_write_auth_creds (\<lambda>_.
          checked hev_socks5_client_read_auth_creds (\<lambda>_. return_c 0))
        else if m2 \<noteq> uint (0 :: u8) then return_c (-1) else return_c 0) s2 w2 = (r3, s3, w3)" "\<not> r3 < 0"
    and d: "hev_socks5_client_write_request hev_socks5_client_tcp_class s3 w3 = (r4, s4, w4)"
    and e: "hev_socks5_client_read_response hev_socks5_client_tcp_class s4 w4 = (r5, self', w')" "\<not> r5 < 0"
    by (elim checkedE) (auto dest: return_cE)
  from write_auth_methods_flows [OF fl] a have s1: "s1 = self"
    and d1: "dialogue self w (methods_msg self) [] self w1" by (metis prod.inject)+
  from read_auth_method_success [OF b(1)] b(2) obtain m where m: "m2 = uint m"
    "dialogue self w1 [] [5, m] s2 w2" by (auto simp: s1)
  from dialogue_trans [OF d1 m(2)] have d2: "dialogue self w (methods_msg self) [5, m] s2 w2" by simp
  note s2 = dialogueD [OF d2] dialogue_client [OF d2]
  have u: "m2 = 2 \<longleftrightarrow> m = 2" "m2 = 0 \<longleftrightarrow> m = 0" using m(1) by (auto simp: word_uint_eq_iff)
  have "tx_flows (txq w2 (fd s2))" "creds_wf s2" using s2 fl cw by simp_all
  from auth_standard_success [OF c this] have mm: "m = 0 \<or> m = 2"
    and d3: "dialogue s2 w2 (if m = 2 then creds_msg self else []) (if m = 2 then [1, 0] else []) s3 w3"
    by (simp_all only: u s2(18))
  from dialogue_trans [OF d2 d3] have d4: "dialogue self w
    (methods_msg self @ (if m = 2 then creds_msg self else [])) ([5, m] @ (if m = 2 then [1, 0] else [])) s3 w3"
    by simp
  note s3 = dialogueD [OF d4]
  have "up_addr s3 = Some (encode_ep ep)" using s3(16) up(1) by auto
  with request_response_success [OF _ _ up(2) _ d] s3 fl ty have s4: "s4 = s3\<lparr>up_addr := None\<rparr>"
    and d5: "dialogue s4 (hev_free w3) (request_msg (stype self) ep) [] s4 w4" by auto
  from read_response_success [OF tcp_keeps_addr e(1)] e(2) obtain reply where
    rp: "reply_ok reply" "dialogue s4 w4 [] reply self' w'" by auto
  have "dialogue (self\<lparr>up_addr := None\<rparr>) (hev_free w)
    (methods_msg self @ (if m = 2 then creds_msg self else [])) ([5, m] @ (if m = 2 then [1, 0] else [])) s4 (hev_free w3)"
    unfolding s4 using dialogue_free [OF dialogue_up_addr [OF d4]] .
  from dialogue_trans [OF dialogue_trans [OF this d5] rp(2)] mm rp(1) show ?thesis
    by (intro exI [of _ m] exI [of _ reply]) (auto simp: server_says_def)
qed

lemma standard_success_stream:
  assumes "tx_flows (txq w (fd self))" "up_addr self = Some (encode_ep ep)" "ep_wf ep"
    "stype self \<noteq> HEV_SOCKS5_TYPE_NONE" "creds_wf self"
    "hev_socks5_client_handshake_standard hev_socks5_client_tcp_class self w = (0, self', w')"
  shows "\<exists>m reply rest. (m = 0 \<or> m = 2) \<and> reply_ok reply \<and>
    rx_bytes (rxq w (fd self)) = server_says m reply @ rest"
proof -
  from standard_success [OF assms] obtain m reply tx where "m = 0 \<or> m = 2" "reply_ok reply"
    and d: "dialogue (self\<lparr>up_addr := None\<rparr>) (hev_free w) tx (server_says m reply) self' w'" by blast
  with dialogueD(8) [OF d] show ?thesis by auto
qed

lemma auth_pipeline_success:
  assumes "(if m = uint (2 :: u8) then checked hev_socks5_client_read_auth_creds (\<lambda>_. return_c 0)
      else if m \<noteq> uint (0 :: u8) then return_c (-1) else return_c 0) self w = (r, self', w')" "\<not> r < 0"
  shows "(m = 0 \<or> m = 2) \<and> dialogue self w [] (if m = 2 then [1, 0] else []) self' w'"
proof (cases "m = 2")
  case True
  obtain r2 s2 w2 where b: "hev_socks5_client_read_auth_creds self w = (r2, s2, w2)"
    by (metis prod_cases3)
  with True assms have "\<not> r2 < 0" "self' = s2" "w' = w2"
    by (auto simp: checked_def return_c_def split: if_splits)
  with read_auth_creds_success [OF b] True show ?thesis by auto
next
  case False
  with assms show ?thesis by (auto simp: return_c_def split: if_splits)
qed

lemma pipeline_success:
  assumes fl: "tx_flows (txq w (fd self))" and up: "up_addr self = Some (encode_ep ep)" "ep_wf ep"
    and ty: "stype self \<noteq> HEV_SOCKS5_TYPE_NONE" and cw: "creds_wf self"
    and r: "hev_socks5_client_handshake_pipeline hev_socks5_client_tcp_class self w = (0, self', w')"
  shows "\<exists>m reply. (m = 0 \<or> m = 2) \<and> reply_ok reply \<and>
    dialogue (self\<lparr>up_addr := None\<rparr>) (hev_free w)
      (methods_msg self @ creds_msg self @ request_msg (stype self) ep)
      (server_says m reply) self' w'"
proof -
  from r [unfolded hev_socks5_client_handshake_pipeline_def]
  obtain m1 s1 w1 m2 s2 w2 r3 s3 w3 m4 s4 w4 r5 s5 w5 r6 where
    a: "hev_socks5_client_write_auth_methods self w = (m1, s1, w1)"
    and b: "hev_socks5_client_write_auth_creds s1 w1 = (m2, s2, w2)"
    and c: "hev_socks5_client_write_request hev_socks5_client_tcp_class s2 w2 = (r3, s3, w3)"
    and d: "hev_socks5_client_read_auth_method s3 w3 = (m4, s4, w4)" "\<not> m4 < 0"
    and e: "(if m4 = uint (2 :: u8) then checked hev_socks5_client_read_auth_creds (\<lambda>_. return_c 0)
        else if m4 \<noteq> uint (0 :: u8) then return_c (-1) else return_c 0) s4 w4 = (r5, s5, w5)" "\<not> r5 < 0"
    and f: "hev_socks5_client_read_response hev_socks5_client_tcp_class s5 w5 = (r6, self', w')" "\<not> r6 < 0"
    by (elim checkedE) (auto dest: return_cE)
  from write_auth_methods_flows [OF fl] a have s1: "s1 = self"
    and d1: "dialogue self w (methods_msg self) [] self w1" by (metis prod.inject)+
  from dialogueD(9) [OF d1 fl] have "tx_flows (txq w1 (fd self))" .
  from write_auth_creds_flows [OF this cw] b have s2: "s2 = self"
    and d2: "dialogue self w1 (creds_msg self) [] self w2" by (metis s1 prod.inject)+
  from dialogue_trans [OF d1 d2] have d12: "dialogue self w (methods_msg self @ creds_msg self) [] self w2"
    by simp
  from request_response_success [OF _ up ty c [unfolded s2]] dialogueD(9) [OF d12 fl]
  have s3: "s3 = self\<lparr>up_addr := None\<rparr>"
    and d3: "dialogue s3 (hev_free w2) (request_msg (stype self) ep) [] s3 w3" by auto
  from read_auth_method_success [OF d(1)] d(2) obtain m where m: "m4 = uint m"
    "dialogue s3 w3 [] [5, m] s4 w4" by auto
  have u: "m4 = 2 \<longleftrightarrow> m = 2" "m4 = 0 \<longleftrightarrow> m = 0" using m(1) by (auto simp: word_uint_eq_iff)
  from auth_pipeline_success [OF e] have mm: "m = 0 \<or> m = 2"
    and d5: "dialogue s4 w4 [] (if m = 2 then [1, 0] else []) s5 w5" by (simp_all only: u)
  from read_response_success [OF tcp_keeps_addr f(1)] f(2) obtain reply where
    rp: "reply_ok reply" "dialogue s5 w5 [] reply self' w'" by auto
  have "dialogue (self\<lparr>up_addr := None\<rparr>) (hev_free w) (methods_msg self @ creds_msg self) [] s3 (hev_free w2)"
    unfolding s3 using dialogue_free [OF dialogue_up_addr [OF d12]] .
  from dialogue_trans [OF dialogue_trans [OF dialogue_trans [OF dialogue_trans [OF this d3] m(2)] d5] rp(2)]
    mm rp(1) show ?thesis
    by (intro exI [of _ m] exI [of _ reply]) (auto simp: server_says_def)
qed

section \<open>Both handshakes decide alike\<close>

lemma rx_sim_refl [simp]: "rx_sim s w s w"
  by (simp add: rx_sim_def)

lemma rx_sim_sym: "rx_sim s w t v \<Longrightarrow> rx_sim t v s w"
  by (simp add: rx_sim_def)

lemma rx_sim_trans: "rx_sim s w t v \<Longrightarrow> rx_sim t v u x \<Longrightarrow> rx_sim s w u x"
  by (simp add: rx_sim_def)

text \<open>\<open>rx_det f\<close>: the status of a step depends only on what \<open>rx_sim\<close> keeps.\<close>

definition rx_det :: "'a hev_socks5_scheme step \<Rightarrow> bool" where
  "rx_det f \<longleftrightarrow> (\<forall>s w t v. rx_sim s w t v \<longrightarrow>
     (case (f s w, f t v) of ((r, s', w'), (q, t', v')) \<Rightarrow> q = r \<and> rx_sim s' w' t' v'))"

lemma rx_detD:
  assumes "rx_det f" "rx_sim s w t v" "f s w = (r, s', w')" "f t v = (q, t', v')"
  shows "q = r" "rx_sim s' w' t' v'"
  using assms(1) [unfolded rx_det_def, rule_format, OF assms(2)] assms(3,4) by simp_all

lemma rx_det_return [intro]: "rx_det (return_c r)"
  by (simp add: rx_det_def return_c_def)

lemma rx_det_checked:
  fixes f :: "'a hev_socks5_scheme step"
  assumes "rx_det f" "\<And>r. rx_det (g r)"
  shows "rx_det (checked f g)"
  unfolding rx_det_def
proof (intro allI impI)
  fix s t :: "'a hev_socks5_scheme" and w v
  assume sim: "rx_sim s w t v"
  obtain r s' w' q t' v' where e: "f s w = (r, s', w')" "f t v = (q, t', v')"
    by (metis prod_cases3)
  from rx_detD [OF assms(1) sim e] have "q = r" "rx_sim s' w' t' v'" .
  with assms(2) [of r, unfolded rx_det_def, rule_format, of s' w' t' v'] e
  show "case (checked f g s w, checked f g t v) of
      ((r, s', w'), (q, t', v')) \<Rightarrow> q = r \<and> rx_sim s' w' t' v'"
    by (auto simp: checked_def)
qed

lemma recv_det:
  assumes "rx_sim s w t v"
    "hev_task_io_socket_recv (fd s) n wa dw hev_socks5_task_io_yielder s w = (r, bs, s', w')"
    "hev_task_io_socket_recv (fd t) n wa dw hev_socks5_task_io_yielder t v = (q, cs, t', v')"
  shows "q = r \<and> cs = bs \<and> rx_sim s' w' t' v'"
  using recv_sim [OF assms(1,2)] assms(3) by (metis prod.inject)

lemma recv_then_det:
  "rx_det (\<lambda>s w. case hev_task_io_socket_recv (fd s) n wa dw hev_socks5_task_io_yielder s w of
     (r, bs, s, w) \<Rightarrow> (h r bs, s, w))"
  unfolding rx_det_def
proof (intro allI impI)
  fix s t :: "'a hev_socks5_scheme" and w v
  assume sim: "rx_sim s w t v"
  obtain r b s1 w1 q c t1 v1 where
    a: "hev_task_io_socket_recv (fd s) n wa dw hev_socks5_task_io_yielder s w = (r, b, s1, w1)"
      "hev_task_io_socket_recv (fd t) n wa dw hev_socks5_task_io_yielder t v = (q, c, t1, v1)"
    by (metis prod_cases4)
  from recv_det [OF sim a] a show "case
      (case hev_task_io_socket_recv (fd s) n wa dw hev_socks5_task_io_yielder s w of
         (r, bs, s, w) \<Rightarrow> (h r bs, s, w),
       case hev_task_io_socket_recv (fd t) n wa dw hev_socks5_task_io_yielder t v of
         (r, bs, s, w) \<Rightarrow> (h r bs, s, w)) of
      ((r, s', w'), (q, t', v')) \<Rightarrow> q = r \<and> rx_sim s' w' t' v'" by simp
qed

lemma read_auth_method_det: "rx_det hev_socks5_client_read_auth_method"
proof -
  have "hev_socks5_client_read_auth_method =
    (\<lambda>s w. case hev_task_io_socket_recv (fd s) 2 True False hev_socks5_task_io_yielder s w of
       (r, b, s, w) \<Rightarrow> (if r \<noteq> 2 \<or> b ! 0 \<noteq> 5 then -1 else uint (b ! 1), s, w))"
    by (simp add: fun_eq_iff hev_socks5_client_read_auth_method_def split: prod.split)
  then show ?thesis by (rule ssubst) (rule recv_then_det)
qed

lemma read_auth_creds_det: "rx_det hev_socks5_client_read_auth_creds"
proof -
  have "hev_socks5_client_read_auth_creds =
    (\<lambda>s w. case hev_task_io_socket_recv (fd s) 2 True False hev_socks5_task_io_yielder s w of
       (r, b, s, w) \<Rightarrow> (if r \<noteq> 2 \<or> b ! 0 \<noteq> 1 \<or> b ! 1 \<noteq> 0 then -1 else 0, s, w))"
    by (simp add: fun_eq_iff hev_socks5_client_read_auth_creds_def split: prod.split)
  then show ?thesis by (rule ssubst) (rule recv_then_det)
qed

lemma read_response_eq:
  assumes "keeps_addr klass"
    and "hev_task_io_socket_recv (fd s) 4 True False hev_socks5_task_io_yielder s w = (r, b, s1, w1)"
    and "hev_task_io_socket_recv (fd s1) (if b ! 3 = 1 then 6 else 18) True False
      hev_socks5_task_io_yielder s1 w1 = (r', b', s2, w2)"
  shows "hev_socks5_client_read_response klass s w =
    (if r = 4 \<and> b ! 0 = 5 \<and> b ! 1 = 0 \<and> (b ! 3 = 1 \<or> b ! 3 = 4)
     then (if r' = (if b ! 3 = 1 then 6 else 18) then 0 else -1, s2, w2) else (-1, s1, w1))"
  using assms
  by (cases "b ! 3 = 1") (simp_all add: hev_socks5_client_read_response_def keeps_addr_def Let_def)

lemma read_response_det:
  fixes klass :: "'a hev_socks5_client_scheme client_class"
  assumes "keeps_addr klass"
  shows "rx_det (hev_socks5_client_read_response klass)"
  unfolding rx_det_def
proof (intro allI impI)
  fix s t :: "'a hev_socks5_client_scheme" and w v
  assume sim: "rx_sim s w t v"
  obtain r b s1 w1 q c t1 v1 where
    a: "hev_task_io_socket_recv (fd s) 4 True False hev_socks5_task_io_yielder s w = (r, b, s1, w1)"
      "hev_task_io_socket_recv (fd t) 4 True False hev_socks5_task_io_yielder t v = (q, c, t1, v1)"
    by (metis prod_cases4)
  from recv_det [OF sim a] have e1: "q = r" "c = b" and s1: "rx_sim s1 w1 t1 v1" by auto
  define n :: nat where "n = (if b ! 3 = 1 then 6 else 18)"
  obtain r' b' s2 w2 q' c' t2 v2 where
    d: "hev_task_io_socket_recv (fd s1) n True False hev_socks5_task_io_yielder s1 w1 = (r', b', s2, w2)"
      "hev_task_io_socket_recv (fd t1) n True False hev_socks5_task_io_yielder t1 v1 = (q', c', t2, v2)"
    by (metis prod_cases4)
  from recv_det [OF s1 d] have e2: "q' = r'" "c' = b'" and s2: "rx_sim s2 w2 t2 v2" by auto
  show "case (hev_socks5_client_read_response klass s w, hev_socks5_client_read_response klass t v) of
      ((r, s', w'), (q, t', v')) \<Rightarrow> q = r \<and> rx_sim s' w' t' v'"
    using e1 e2 s1 s2 read_response_eq [OF assms a(1) d(1) [unfolded n_def]]
      read_response_eq [OF assms a(2), unfolded e1, OF d(2) [unfolded n_def]] by auto
qed

text \<open>Writes that flow leave everything as it is for the reads that follow.\<close>

lemma auth_sim:
  assumes "tx_flows (txq w (fd s))" "creds_wf s" "rx_sim s w t v"
    and a: "(if m = uint (2 :: u8) then checked hev_socks5_client_write_auth_creds (\<lambda>_.
        checked hev_socks5_client_read_auth_creds (\<lambda>_. return_c 0))
      else if m \<noteq> uint (0 :: u8) then return_c (-1) else return_c 0) s w = (r, s', w')"
    and b: "(if m = uint (2 :: u8) then checked hev_socks5_client_read_auth_creds (\<lambda>_. return_c 0)
      else if m \<noteq> uint (0 :: u8) then return_c (-1) else return_c 0) t v = (q, t', v')"
  shows "q = r \<and> rx_sim s' w' t' v'"
proof (cases "m = 2")
  case True
  from assms(1,2) obtain w1 where w: "hev_socks5_client_write_auth_creds s w = (0, s, w1)"
    "rx_sim s w s w1" by (rule write_auth_creds_flows)
  have sim: "rx_sim s w1 t v" using w(2) assms(3) rx_sim_sym rx_sim_trans by blast
  from a w True have a': "checked hev_socks5_client_read_auth_creds (\<lambda>_. return_c 0) s w1 = (r, s', w')"
    by (simp add: checked_def)
  from b True have b': "checked hev_socks5_client_read_auth_creds (\<lambda>_. return_c 0) t v = (q, t', v')"
    by simp
  show ?thesis
    using rx_detD [OF rx_det_checked [OF read_auth_creds_det rx_det_return] sim a' b'] by simp
next
  case False
  with assms show ?thesis by (auto simp: return_c_def split: if_splits)
qed

lemma standard_pipeline_sim:
  assumes fl: "tx_flows (txq w (fd self))" and up: "up_addr self = Some (encode_ep ep)" "ep_wf ep"
    and ty: "stype self \<noteq> HEV_SOCKS5_TYPE_NONE" and cw: "creds_wf self"
    and s: "hev_socks5_client_handshake_standard hev_socks5_client_tcp_class self w = (r, s', w')"
    and p: "hev_socks5_client_handshake_pipeline hev_socks5_client_tcp_class self w = (q, t', v')"
  shows "q = r \<and> rx_sim s' w' t' v'"
proof -
  let ?n = "self\<lparr>up_addr := None\<rparr>" and ?c = hev_socks5_client_tcp_class
  obtain w1 where a: "hev_socks5_client_write_auth_methods self w = (0, self, w1)"
    "dialogue self w (methods_msg self) [] self w1" "rx_sim self w self w1"
    using write_auth_methods_flows [OF fl] by metis
  note fl1 = dialogueD(9) [OF a(2) fl]
  obtain w2 where b: "hev_socks5_client_write_auth_creds self w1 = (0, self, w2)"
    "dialogue self w1 (creds_msg self) [] self w2" "rx_sim self w1 self w2"
    using write_auth_creds_flows [OF fl1 cw] by metis
  obtain w3 where c: "hev_socks5_client_write_request ?c self w2 = (0, ?n, w3)" "rx_sim self w2 ?n w3"
    using write_request_flows [OF dialogueD(9) [OF b(2) fl1] up ty] by metis
  have sim3: "rx_sim self w1 ?n w3" using b(3) c(2) by (rule rx_sim_trans)
  obtain m s4 w4 where d: "hev_socks5_client_read_auth_method self w1 = (m, s4, w4)"
    by (metis prod_cases3)
  obtain m' t4 v4 where d': "hev_socks5_client_read_auth_method ?n w3 = (m', t4, v4)"
    by (metis prod_cases3)
  from rx_detD [OF read_auth_method_det sim3 d d'] have m': "m' = m" and sim4: "rx_sim s4 w4 t4 v4" .
  show ?thesis
  proof (cases "m < 0")
    case True
    with s p a b c d d' m' sim4 show ?thesis
      by (simp add: hev_socks5_client_handshake_standard_def hev_socks5_client_handshake_pipeline_def
          checked_def)
  next
    case m: False
    obtain ok s6 w6 where e: "(if m = uint (2 :: u8) then checked hev_socks5_client_write_auth_creds (\<lambda>_.
        checked hev_socks5_client_read_auth_creds (\<lambda>_. return_c 0))
      else if m \<noteq> uint (0 :: u8) then return_c (-1) else return_c 0) s4 w4 = (ok, s6, w6)"
      by (metis prod_cases3)
    obtain ok' t6 v6 where e': "(if m = uint (2 :: u8) then checked hev_socks5_client_read_auth_creds (\<lambda>_. return_c 0)
      else if m \<noteq> uint (0 :: u8) then return_c (-1) else return_c 0) t4 v4 = (ok', t6, v6)"
      by (metis prod_cases3)
    from read_auth_method_success [OF d] m obtain k where dl: "dialogue self w1 [] [5, k] s4 w4" by auto
    note s4 = dialogueD [OF dl] dialogue_client [OF dl]
    have fl4: "tx_flows (txq w4 (fd s4))" "creds_wf s4" using s4 fl1 cw by simp_all
    from auth_sim [OF fl4 sim4 e e'] have ok': "ok' = ok" and sim6: "rx_sim s6 w6 t6 v6" by auto
    have sm: "hev_socks5_client_handshake_standard ?c self w =
      checked (\<lambda>_ _. (ok, s6, w6)) (\<lambda>_. checked (hev_socks5_client_write_request ?c) (\<lambda>_.
        checked (hev_socks5_client_read_response ?c) (\<lambda>_. return_c 0))) self w"
      using a(1) d m e unfolding hev_socks5_client_handshake_standard_def by (simp add: checked_def)
    have pm: "hev_socks5_client_handshake_pipeline ?c self w =
      checked (\<lambda>_ _. (ok, t6, v6)) (\<lambda>_. checked (hev_socks5_client_read_response ?c) (\<lambda>_. return_c 0)) self w"
      using a(1) b(1) c(1) d' m' m e' ok' unfolding hev_socks5_client_handshake_pipeline_def
      by (simp add: checked_def)
    show ?thesis
    proof (cases "ok < 0")
      case True
      with s p sm pm sim6 show ?thesis by (simp add: checked_def)
    next
      case False
      from auth_standard_success [OF e False fl4] obtain tx rx where "dialogue s4 w4 tx rx s6 w6" by auto
      note s6 = dialogueD [OF this]
      have up6: "up_addr s6 = Some (encode_ep ep)" "stype s6 \<noteq> HEV_SOCKS5_TYPE_NONE" "tx_flows (txq w6 (fd s6))"
        using s4 s6 up(1) ty fl4 by auto
      obtain w7 where g: "hev_socks5_client_write_request ?c s6 w6 = (0, s6\<lparr>up_addr := None\<rparr>, w7)"
        "rx_sim s6 w6 (s6\<lparr>up_addr := None\<rparr>) w7"
        using write_request_flows [OF up6(3,1) up(2) up6(2)] by metis
      have "rx_sim (s6\<lparr>up_addr := None\<rparr>) w7 t6 v6"
        using g(2) sim6 rx_sim_sym rx_sim_trans by blast
      from rx_detD [OF rx_det_checked [OF read_response_det [OF tcp_keeps_addr] rx_det_return] this]
      show ?thesis using s p sm pm False g(1) by (auto simp: checked_def)
    qed
  qed
qed

section \<open>When the peer answers correctly\<close>

text \<open>
  The peer may take its time. A connection that brings data, in pieces and with waits in between,
  and reports no error; \<open>rx_waits\<close> counts the waits.
\<close>

definition rx_arrives :: "recv_ev list \<Rightarrow> bool" where
  "rx_arrives es \<longleftrightarrow> (\<forall>e \<in> set es. case e of RData bs \<Rightarrow> bs \<noteq> [] | RAgain \<Rightarrow> True | RErr \<Rightarrow> False)"

lemma rx_arrives_simps [simp]:
  "rx_arrives []" "rx_arrives (RData bs # es) \<longleftrightarrow> bs \<noteq> [] \<and> rx_arrives es"
  "rx_arrives (RAgain # es) = rx_arrives es" "\<not> rx_arrives (RErr # es)"
  by (auto simp: rx_arrives_def)

fun rx_waits :: "recv_ev list \<Rightarrow> nat" where
  "rx_waits [] = 0"
| "rx_waits (RAgain # es) = Suc (rx_waits es)"
| "rx_waits (_ # es) = rx_waits es"

text \<open>
  The next \<open>n\<close> waits under the timeout \<open>t\<close> end in time: the task is woken before its timeout has
  run down, and nobody terminates the session meanwhile. A negative timeout never runs down.
\<close>

definition in_time :: "int \<Rightarrow> yield_ev list \<Rightarrow> nat \<Rightarrow> bool" where
  "in_time t ys n \<longleftrightarrow> n = 0 \<or> t \<noteq> 0 \<and> (\<forall>y \<in> set (take n ys). \<not> ended y \<and> (0 < t \<longrightarrow> 0 < remain y)) \<and>
     (0 < t \<longrightarrow> n \<le> length ys)"

lemma in_time_0 [simp]: "in_time t ys 0"
  by (simp add: in_time_def)

lemma in_time_wait:
  assumes "in_time (timeout self) (yields w) (Suc n)"
  shows "hev_socks5_task_io_yielder HEV_TASK_WAITIO self w = (0, self, w\<lparr>yields := tl (yields w)\<rparr>)"
    and "in_time (timeout self) (tl (yields w)) n"
proof -
  show "hev_socks5_task_io_yielder HEV_TASK_WAITIO self w = (0, self, w\<lparr>yields := tl (yields w)\<rparr>)"
    using assms by (cases "yields w")
      (auto simp: in_time_def hev_socks5_task_io_yielder_def hev_task_sleep_def task_switch_def)
  show "in_time (timeout self) (tl (yields w)) n"
    using assms by (cases "yields w") (auto simp: in_time_def)
qed

lemma recv_loop_arrives:
  "rx_arrives es \<Longrightarrow> in_time (timeout self) (yields w) (rx_waits es) \<Longrightarrow> length got < n \<Longrightarrow>
   \<exists>es' ys. recv_loop hev_socks5_task_io_yielder True False n got es self w =
       ((int (length (got @ take (n - length got) (rx_bytes es))), got @ take (n - length got) (rx_bytes es)),
        es', self, w\<lparr>yields := ys\<rparr>) \<and>
     rx_arrives es' \<and> rx_bytes es' = drop (n - length got) (rx_bytes es) \<and>
     in_time (timeout self) ys (rx_waits es')"
proof (induction es arbitrary: got w)
  case Nil
  then show ?case by (auto intro!: exI [of _ "[]"] exI [of _ "yields w"])
next
  case (Cons e es)
  show ?case
  proof (cases e)
    case RErr
    with Cons.prems show ?thesis by simp
  next
    case RAgain
    with Cons.prems have t: "in_time (timeout self) (yields w) (Suc (rx_waits es))" by simp
    note y = in_time_wait [OF t]
    have "in_time (timeout self) (yields (w\<lparr>yields := tl (yields w)\<rparr>)) (rx_waits es)" using y(2) by simp
    from Cons.IH [OF _ this Cons.prems(3)] Cons.prems(1) RAgain y(1) show ?thesis by auto
  next
    case (RData b)
    define k where "k = min (n - length got) (length b)"
    define rest where "rest = (if k < length b then RData (drop k b) # es else es)"
    have k: "0 < k" "k \<le> length b" using Cons.prems RData by (auto simp: k_def)
    have e: "recv_loop hev_socks5_task_io_yielder True False n got (e # es) self w =
        (if length (got @ take k b) < n then recv_loop hev_socks5_task_io_yielder True False n (got @ take k b) es self w
         else ((int (length (got @ take k b)), got @ take k b), rest, self, w))"
      by (simp only: RData recv_loop.simps Let_def k_def [symmetric] rest_def [symmetric]
          not_True_eq_False if_False) (use k in simp)
    show ?thesis
    proof (cases "length (got @ take k b) < n")
      case True
      then have kb: "k = length b" using k by (auto simp: k_def)
      have "in_time (timeout self) (yields w) (rx_waits es)" "rx_arrives es" using Cons.prems RData by simp_all
      from Cons.IH [OF this(2,1) True] True k kb RData show ?thesis
        unfolding e by (auto simp: take_Cons' algebra_simps)
    next
      case False
      then have "n - length got \<le> length b" and kn: "k = n - length got"
        using k Cons.prems by (auto simp: k_def)
      then show ?thesis unfolding e using False Cons.prems RData
        by (intro exI [of _ rest] exI [of _ "yields w"]) (auto simp: rest_def)
    qed
  qed
qed

text \<open>
  \<open>ready self w rest\<close>: what is written is taken at once, the stream still brings \<open>rest\<close>, in
  whatever pieces and with waits that end in time, and then ends.
\<close>

definition ready :: "'a hev_socks5_scheme \<Rightarrow> world \<Rightarrow> bytes \<Rightarrow> bool" where
  "ready self w rest \<longleftrightarrow>
     tx_flows (txq w (fd self)) \<and> rx_arrives (rxq w (fd self)) \<and> rx_bytes (rxq w (fd self)) = rest \<and>
     in_time (timeout self) (yields w) (rx_waits (rxq w (fd self)))"

lemma ready_send:
  assumes "ready self w rest" "dialogue self w tx [] self' w'" "rx_sim self w self' w'"
  shows "ready self' w' rest"
  using assms(1,3) dialogueD(1,9) [OF assms(2)] by (simp add: ready_def rx_sim_def)

lemma ready_free [simp]: "ready self (hev_free w) rest = ready self w rest"
  by (simp add: ready_def)

lemma ready_up_addr [simp]: "ready (self\<lparr>up_addr := a\<rparr>) w rest = ready self w rest"
  by (simp add: ready_def)

lemma recv_ready:
  assumes "ready self w (xs @ rest)" "length xs = n" "0 < n"
  obtains w' where "hev_task_io_socket_recv (fd self) n True False hev_socks5_task_io_yielder self w =
      (int n, xs, self, w')" "ready self w' rest"
proof -
  from assms have fl: "rx_arrives (rxq w (fd self))" "rx_bytes (rxq w (fd self)) = xs @ rest"
    "in_time (timeout self) (yields w) (rx_waits (rxq w (fd self)))" "length [] < n"
    by (auto simp: ready_def)
  obtain es ys where es: "rx_arrives es" "rx_bytes es = rest" "in_time (timeout self) ys (rx_waits es)"
    "recv_loop hev_socks5_task_io_yielder True False n [] (rxq w (fd self)) self w =
       ((int n, xs), es, self, w\<lparr>yields := ys\<rparr>)"
    using recv_loop_arrives [OF fl(1,3,4)] fl(2) assms(2) by auto
  show thesis
    by (rule that [of "w\<lparr>yields := ys, rxq := (rxq w)(fd self := es)\<rparr>"])
      (use es assms in \<open>auto simp: ready_def hev_task_io_socket_recv_def\<close>)
qed

lemma read_auth_method_ready:
  assumes "ready self w ([5, m] @ rest)"
  obtains w' where "hev_socks5_client_read_auth_method self w = (uint m, self, w')" "ready self w' rest"
proof -
  obtain w' where "hev_task_io_socket_recv (fd self) 2 True False hev_socks5_task_io_yielder self w =
      (int 2, [5, m], self, w')" "ready self w' rest"
    by (rule recv_ready [OF assms, of 2]) simp_all
  then show thesis
    by (intro that [of w']) (simp_all add: hev_socks5_client_read_auth_method_def)
qed

lemma read_auth_creds_ready:
  assumes "ready self w ([1, 0] @ rest)"
  obtains w' where "hev_socks5_client_read_auth_creds self w = (0, self, w')" "ready self w' rest"
proof -
  obtain w' where "hev_task_io_socket_recv (fd self) 2 True False hev_socks5_task_io_yielder self w =
      (int 2, [1, 0], self, w')" "ready self w' rest"
    by (rule recv_ready [OF assms, of 2]) simp_all
  then show thesis
    by (intro that [of w']) (simp_all add: hev_socks5_client_read_auth_creds_def)
qed

lemma read_response_ready:
  assumes k: "keeps_addr klass" and ok: "reply_ok reply" and r: "ready self w (reply @ rest)"
  obtains w' where "hev_socks5_client_read_response klass self w = (0, self, w')" "ready self w' rest"
proof -
  define n :: nat where "n = (if reply ! 3 = 1 then 6 else 18)"
  have len: "length reply = 4 + n" using ok by (auto simp: reply_ok_def n_def)
  have sp: "reply @ rest = take 4 reply @ (drop 4 reply @ rest)" by simp
  obtain w1 where a: "hev_task_io_socket_recv (fd self) 4 True False hev_socks5_task_io_yielder self w =
      (int 4, take 4 reply, self, w1)" "ready self w1 (drop 4 reply @ rest)"
    by (rule recv_ready [OF r [unfolded sp], of 4]) (use len in simp_all)
  obtain w2 where b: "hev_task_io_socket_recv (fd self) n True False hev_socks5_task_io_yielder self w1 =
      (int n, drop 4 reply, self, w2)" "ready self w2 rest"
    by (rule recv_ready [OF a(2), of n]) (use len in \<open>simp_all add: n_def\<close>)
  have n: "n = (if take 4 reply ! 3 = 1 then 6 else 18)" by (simp add: n_def)
  from read_response_eq [OF k a(1), folded n, OF b(1)] ok a b show thesis
    by (intro that [of w2]) (auto simp: reply_ok_def n_def)
qed

lemma standard_complete:
  assumes fl: "ready self w (server_says m reply @ rest)"
    and up: "up_addr self = Some (encode_ep ep)" "ep_wf ep"
    and ty: "stype self \<noteq> HEV_SOCKS5_TYPE_NONE" and cw: "creds_wf self"
    and m: "m = 0 \<or> m = 2" and ok: "reply_ok reply"
  shows "fst (hev_socks5_client_handshake_standard hev_socks5_client_tcp_class self w) = 0"
proof -
  let ?c = hev_socks5_client_tcp_class
  from fl have tx: "tx_flows (txq w (fd self))" by (simp add: ready_def)
  obtain w1 where a: "hev_socks5_client_write_auth_methods self w = (0, self, w1)"
    "dialogue self w (methods_msg self) [] self w1" "rx_sim self w self w1"
    using write_auth_methods_flows [OF tx] by metis
  have "ready self w1 ([5, m] @ ((if m = 2 then [1, 0] else []) @ reply @ rest))"
    using ready_send [OF fl a(2,3)] by (simp add: server_says_def)
  from this obtain w2 where b: "hev_socks5_client_read_auth_method self w1 = (uint m, self, w2)"
    "ready self w2 ((if m = 2 then [1, 0] else []) @ reply @ rest)" by (rule read_auth_method_ready)
  obtain w4 where c: "(if uint m = uint (2 :: u8) then checked hev_socks5_client_write_auth_creds (\<lambda>_.
        checked hev_socks5_client_read_auth_creds (\<lambda>_. return_c 0))
      else if uint m \<noteq> uint (0 :: u8) then return_c (-1) else return_c 0) self w2 = (0, self, w4)"
    "ready self w4 (reply @ rest)"
  proof (cases "m = 2")
    case True
    from b(2) have tx2: "tx_flows (txq w2 (fd self))" by (simp add: ready_def)
    obtain w3 where d: "hev_socks5_client_write_auth_creds self w2 = (0, self, w3)"
      "dialogue self w2 (creds_msg self) [] self w3" "rx_sim self w2 self w3"
      using write_auth_creds_flows [OF tx2 cw] by metis
    from ready_send [OF b(2) d(2,3)] True have "ready self w3 ([1, 0] @ (reply @ rest))" by simp
    from this obtain w4 where "hev_socks5_client_read_auth_creds self w3 = (0, self, w4)"
      "ready self w4 (reply @ rest)" by (rule read_auth_creds_ready)
    with that [of w4] d True show thesis by (simp add: checked_def return_c_def)
  next
    case False
    with that [of w2] b m show thesis by (simp add: return_c_def)
  qed
  from c(2) have tx4: "tx_flows (txq w4 (fd self))" by (simp add: ready_def)
  obtain w5 where e: "hev_socks5_client_write_request ?c self w4 = (0, self\<lparr>up_addr := None\<rparr>, w5)"
    "dialogue (self\<lparr>up_addr := None\<rparr>) (hev_free w4) (request_msg (stype self) ep) [] (self\<lparr>up_addr := None\<rparr>) w5"
    "rx_sim self w4 (self\<lparr>up_addr := None\<rparr>) w5"
    using write_request_flows [OF tx4 up ty] by metis
  have "ready (self\<lparr>up_addr := None\<rparr>) w5 (reply @ rest)"
    by (rule ready_send [OF _ e(2)]) (use e(3) c(2) in \<open>simp_all add: rx_sim_def\<close>)
  from this obtain w6 where "hev_socks5_client_read_response ?c (self\<lparr>up_addr := None\<rparr>) w5 =
    (0, self\<lparr>up_addr := None\<rparr>, w6)" by (rule read_response_ready [OF tcp_keeps_addr ok])
  with a b c e show ?thesis
    by (simp add: hev_socks5_client_handshake_standard_def checked_def return_c_def)
qed

section \<open>Sessions that were terminated\<close>

text \<open>\<open>no_wait f\<close>: on a terminated object the step never gives the processor away.\<close>

definition no_wait :: "'a hev_socks5_scheme step \<Rightarrow> bool" where
  "no_wait f \<longleftrightarrow> (\<forall>s w. timeout s = 0 \<longrightarrow>
     (case f s w of (r, s', w') \<Rightarrow> timeout s' = 0 \<and> yields w' = yields w))"

lemma no_waitD:
  assumes "no_wait f" "timeout s = 0" "f s w = (r, s', w')"
  shows "timeout s' = 0" "yields w' = yields w"
  using assms(1) [unfolded no_wait_def, rule_format, OF assms(2), of w] assms(3) by simp_all

lemma no_wait_return [intro]: "no_wait (return_c r)"
  by (simp add: no_wait_def return_c_def)

lemma no_wait_checked:
  fixes f :: "'a hev_socks5_scheme step"
  assumes "no_wait f" "\<And>r. no_wait (g r)"
  shows "no_wait (checked f g)"
  unfolding no_wait_def
proof (intro allI impI)
  fix s :: "'a hev_socks5_scheme" and w
  assume t: "timeout s = 0"
  obtain r s1 w1 where f: "f s w = (r, s1, w1)" by (metis prod_cases3)
  note n = no_waitD [OF assms(1) t f]
  with assms(2) [of r, unfolded no_wait_def, rule_format, of s1 w1] f
  show "case checked f g s w of (r, s', w') \<Rightarrow> timeout s' = 0 \<and> yields w' = yields w"
    by (auto simp: checked_def)
qed

lemma recv_loop_terminated:
  "timeout self = 0 \<Longrightarrow>
   recv_loop hev_socks5_task_io_yielder wa dw n got es self w = (p, es', self', w') \<Longrightarrow>
   self' = self \<and> yields w' = yields w"
proof (induction "hev_socks5_task_io_yielder :: 'a hev_socks5_scheme yielder" wa dw n got es self w
    rule: recv_loop.induct)
  case (4 wa dw n got b es self w)
  then show ?case by (auto simp: Let_def split: if_splits)
qed (auto simp: yielder_terminated split: if_splits)

lemma send_loop_terminated:
  "timeout self = 0 \<Longrightarrow>
   send_loop hev_socks5_task_io_yielder wa dw buf sz es self w = (p, es', self', w') \<Longrightarrow>
   self' = self \<and> yields w' = yields w"
proof (induction "hev_socks5_task_io_yielder :: 'a hev_socks5_scheme yielder" wa dw buf sz es self w
    rule: send_loop.induct)
  case (4 wa dw buf sz m es self w)
  then show ?case by (auto simp: Let_def split: if_splits)
qed (auto simp: yielder_terminated split: if_splits)

lemma recv_terminated:
  assumes "timeout self = 0"
    "hev_task_io_socket_recv f n wa dw hev_socks5_task_io_yielder self w = (r, bs, self', w')"
  shows "self' = self \<and> yields w' = yields w"
  using assms(2) recv_loop_terminated [OF assms(1)]
  by (auto simp: hev_task_io_socket_recv_def split: prod.splits)

lemma send_terminated:
  assumes "timeout self = 0"
    "hev_task_io_socket_send f buf wa dw hev_socks5_task_io_yielder self w = (r, self', w')"
  shows "self' = self \<and> yields w' = yields w"
  using assms(2) send_loop_terminated [OF assms(1)]
  by (auto simp: hev_task_io_socket_send_def split: prod.splits)

lemma write_auth_methods_no_wait: "no_wait hev_socks5_client_write_auth_methods"
  by (auto simp: no_wait_def hev_socks5_client_write_auth_methods_def Let_def
      split: prod.split dest: send_terminated)

lemma write_auth_creds_no_wait: "no_wait hev_socks5_client_write_auth_creds"
  by (auto simp: no_wait_def hev_socks5_client_write_auth_creds_def Let_def sendmsg_eq_send
      split: prod.split option.split dest: send_terminated)

lemma read_auth_method_no_wait: "no_wait hev_socks5_client_read_auth_method"
  by (auto simp: no_wait_def hev_socks5_client_read_auth_method_def
      split: prod.split dest: recv_terminated)

lemma read_auth_creds_no_wait: "no_wait hev_socks5_client_read_auth_creds"
  by (auto simp: no_wait_def hev_socks5_client_read_auth_creds_def
      split: prod.split dest: recv_terminated)

lemma read_response_no_wait:
  fixes klass :: "'a hev_socks5_client_scheme client_class"
  assumes "keeps_addr klass"
  shows "no_wait (hev_socks5_client_read_response klass)"
  unfolding no_wait_def
proof (intro allI impI)
  fix s :: "'a hev_socks5_client_scheme" and w
  assume t: "timeout s = 0"
  obtain r b s1 w1 where a: "hev_task_io_socket_recv (fd s) 4 True False hev_socks5_task_io_yielder s w =
    (r, b, s1, w1)" by (metis prod_cases4)
  obtain r' b' s2 w2 where d: "hev_task_io_socket_recv (fd s1) (if b ! 3 = 1 then 6 else 18) True False
    hev_socks5_task_io_yielder s1 w1 = (r', b', s2, w2)" by (metis prod_cases4)
  from recv_terminated [OF t a] t recv_terminated [OF _ d] read_response_eq [OF assms a d]
  show "case hev_socks5_client_read_response klass s w of (r, s', w') \<Rightarrow>
      timeout s' = 0 \<and> yields w' = yields w" by auto
qed

lemma write_request_no_wait:
  "no_wait (hev_socks5_client_write_request hev_socks5_client_tcp_class)"
  by (auto simp: no_wait_def hev_socks5_client_write_request_def hev_socks5_client_tcp_class_def
      hev_socks5_client_tcp_get_upstream_addr_def Let_def sendmsg_eq_send
      split: prod.split option.split dest!: send_terminated [rotated])

lemmas client_no_wait = write_auth_methods_no_wait write_auth_creds_no_wait read_auth_method_no_wait
  read_auth_creds_no_wait write_request_no_wait read_response_no_wait [OF tcp_keeps_addr]

lemma handshake_no_wait:
  "no_wait (hev_socks5_client_handshake_standard hev_socks5_client_tcp_class)"
  "no_wait (hev_socks5_client_handshake_pipeline hev_socks5_client_tcp_class)"
  unfolding hev_socks5_client_handshake_standard_def hev_socks5_client_handshake_pipeline_def
  by (intro no_wait_checked client_no_wait no_wait_return; simp add: no_wait_return)+
    (auto intro!: no_wait_checked client_no_wait no_wait_return)

section \<open>Descriptors\<close>

lemma sys_call_eq: "sys_call w = (if sys w = [] then -1 else hd (sys w), w\<lparr>sys := tl (sys w)\<rparr>)"
  by (cases w) (auto simp: sys_call_def split: list.split)

lemma socket_opened:
  assumes "hev_socks5_socket t w = (f, w')"
  shows "(f < 0 \<and> opened w' = opened w) \<or> (0 \<le> f \<and> opened w' = f # opened w)"
  using assms
  by (auto simp: hev_socks5_socket_def sys_socket_def sys_close_def sys_call_eq Let_def
      split: if_splits)

lemma connect_frame:
  assumes "hev_task_io_socket_connect f sa hev_socks5_task_io_yielder self w = (c, self', w')"
  shows "opened w' = opened w" "peer w' f = Some sa" "fd self' = fd self"
    "self' = self \<or> self' = self\<lparr>timeout := 0\<rparr>" "live w' = live w" "crashed w' = crashed w"
proof -
  from assms obtain cs w1 where l: "connect_loop hev_socks5_task_io_yielder (sys w) self
      (w\<lparr>peer := (peer w)(f \<mapsto> sa)\<rparr>) = (c, cs, self', w1)" and w': "w' = w1\<lparr>sys := cs\<rparr>"
    by (auto simp: hev_task_io_socket_connect_def split: prod.splits)
  note wt = waited_fields [OF connect_loop_waited [OF l]]
  from wt w' show "opened w' = opened w" "peer w' f = Some sa" "fd self' = fd self" "live w' = live w"
    "crashed w' = crashed w" by simp_all
  from connect_loop_waited [OF l] show "self' = self \<or> self' = self\<lparr>timeout := 0\<rparr>"
    by (auto simp: waited_def)
qed

section \<open>Properties\<close>

lemma set_timeout_client [simp]:
  "up_addr (hev_socks5_set_timeout self t) = up_addr self"
  "methods_msg (hev_socks5_set_timeout s t) = methods_msg s"
  "creds_msg (hev_socks5_set_timeout s t) = creds_msg s"
  "creds_wf (hev_socks5_set_timeout s t) = creds_wf s"
  "udp_fd (hev_socks5_set_timeout u t) = udp_fd u"
  by (auto simp: hev_socks5_set_timeout_def methods_msg_def creds_msg_def creds_wf_def has_creds_def
      split: option.split)

lemma handshake_cases:
  assumes "hev_socks5_client_handshake m klass pipeline self w = (r, self', w')"
  obtains s1 where
    "(if pipeline then hev_socks5_client_handshake_pipeline klass (hev_socks5_set_timeout self (tcp_timeout m)) w
      else hev_socks5_client_handshake_standard klass (hev_socks5_set_timeout self (tcp_timeout m)) w) = (r, s1, w')"
    "self' = s1 \<or> self' = hev_socks5_set_timeout s1 (udp_timeout m)"
  using assms
  by (auto simp: hev_socks5_client_handshake_def Let_def split: prod.splits HevSocks5Type.splits if_splits)

definition tcp_client :: "bytes option \<Rightarrow> bytes option \<Rightarrow> endpoint \<Rightarrow> hev_socks5_client_tcp" where
  "tcp_client u p ep = \<lparr>fd = 3, timeout = -1, stype = HEV_SOCKS5_TYPE_TCP, udp_associated = False,
     addr_family = AF_UNSPEC, auth_user = u, auth_pass = p, up_addr = Some (encode_ep ep)\<rparr>"

text \<open>A server that asks for credentials, takes them and replies, in three oddly cut segments.\<close>

definition talkative :: world where
  "talkative = quiet\<lparr>rxq := (\<lambda>_. [RData [5, 2, 1], RData [0, 5, 0, 0, 1], RData [0, 0, 0, 0, 0, 0, 9]]),
     txq := (\<lambda>_. [SAccept 2, SAccept 100])\<rparr>"

lemmas tcp_client_simps = tcp_client_def talkative_def quiet_def creds_wf_def

lemma handshake_dialogue:
  assumes "tx_flows (txq w (fd self))" "up_addr self = Some (encode_ep ep)" "ep_wf ep"
    and "stype self \<noteq> HEV_SOCKS5_TYPE_NONE" "creds_wf self"
    and "hev_socks5_client_handshake m hev_socks5_client_tcp_class pipeline self w = (0, self', w')"
  shows "\<exists>meth reply. (meth = 0 \<or> meth = 2) \<and> reply_ok reply \<and>
    wire w' (fd self) = wire w (fd self) @ methods_msg self @
      (if pipeline \<or> meth = 2 then creds_msg self else []) @ request_msg (stype self) ep \<and>
    rx_bytes (rxq w (fd self)) = server_says meth reply @ rx_bytes (rxq w' (fd self)) \<and>
    up_addr self' = None \<and> live w' = live w - 1 \<and> fd self' = fd self \<and> opened w' = opened w"
proof -
  let ?s = "hev_socks5_set_timeout self (tcp_timeout m)"
  from assms(6) obtain s1 where h: "(if pipeline then
      hev_socks5_client_handshake_pipeline hev_socks5_client_tcp_class ?s w
      else hev_socks5_client_handshake_standard hev_socks5_client_tcp_class ?s w) = (0, s1, w')"
    and s1: "self' = s1 \<or> self' = hev_socks5_set_timeout s1 (udp_timeout m)"
    by (rule handshake_cases)
  have "\<exists>meth reply. (meth = 0 \<or> meth = 2) \<and> reply_ok reply \<and>
    dialogue (?s\<lparr>up_addr := None\<rparr>) (hev_free w)
      (methods_msg self @ (if pipeline \<or> meth = 2 then creds_msg self else []) @ request_msg (stype self) ep)
      (server_says meth reply) s1 w'"
    using h assms(1-5) standard_success [of w ?s ep s1 w'] pipeline_success [of w ?s ep s1 w']
    by (cases pipeline) (simp_all split del: if_split cong: if_cong)
  then obtain meth reply where mr: "meth = 0 \<or> meth = 2" "reply_ok reply" and
    d: "dialogue (?s\<lparr>up_addr := None\<rparr>) (hev_free w)
      (methods_msg self @ (if pipeline \<or> meth = 2 then creds_msg self else []) @ request_msg (stype self) ep)
      (server_says meth reply) s1 w'" by blast
  have "up_addr s1 = None" using dialogueD(16) [OF d] by auto
  with mr s1 dialogueD(1,7,8,11,14) [OF d] show ?thesis
    by (intro exI [of _ meth] exI [of _ reply]) auto
qed

text \<open>
  C2: The handshake speaks RFC 1928 and RFC 1929. When it succeeds on a connection that takes what
  is written, the client has sent exactly the method selection, the credentials (always when
  pipelined, else only when the server asked for them) and the request for its target, and has
  consumed exactly a method choice, the acceptance of the credentials when the choice was 2, and a
  success reply: the bytes behind the reply, the first of the tunnelled stream, are untouched.
  The address object is handed over and freed, the descriptor kept.
\<close>
theorem client_handshake_dialogue:
  assumes "tx_flows (txq w (fd self))" "up_addr self = Some (encode_ep ep)" "ep_wf ep"
    and "stype self \<noteq> HEV_SOCKS5_TYPE_NONE" "creds_wf self"
    and "hev_socks5_client_handshake m hev_socks5_client_tcp_class pipeline self w = (0, self', w')"
  shows "\<exists>meth reply. (meth = 0 \<or> meth = 2) \<and> reply_ok reply \<and>
    wire w' (fd self) = wire w (fd self) @ methods_msg self @
      (if pipeline \<or> meth = 2 then creds_msg self else []) @ request_msg (stype self) ep \<and>
    rx_bytes (rxq w (fd self)) = server_says meth reply @ rx_bytes (rxq w' (fd self)) \<and>
    up_addr self' = None \<and> live w' = live w - 1 \<and> fd self' = fd self \<and> opened w' = opened w"
  by (rule handshake_dialogue [OF assms])

theorem client_handshake_dialogue_witness:
  "\<exists>self' w' meth reply. hev_socks5_client_handshake misc_init hev_socks5_client_tcp_class True
       (tcp_client (Some [117]) (Some [112, 113]) (EpV4 [1, 2, 3, 4] 443)) talkative = (0, self', w') \<and>
     wire w' 3 = [5, 1, 2] @ [1, 1, 117, 2, 112, 113] @ [5, 1, 0] @ encode_ep (EpV4 [1, 2, 3, 4] 443) \<and>
     rx_bytes [RData [5, 2, 1], RData [0, 5, 0, 0, 1], RData [0, 0, 0, 0, 0, 0, 9]] =
       server_says meth reply @ rx_bytes (rxq w' 3)"
proof -
  let ?s = "tcp_client (Some [117]) (Some [112, 113]) (EpV4 [1, 2, 3, 4] 443)"
  have "fst (hev_socks5_client_handshake misc_init hev_socks5_client_tcp_class True ?s talkative) = 0"
    by code_simp
  then obtain s' w' where h:
    "hev_socks5_client_handshake misc_init hev_socks5_client_tcp_class True ?s talkative = (0, s', w')"
    by (metis prod.collapse)
  from client_handshake_dialogue [OF _ _ _ _ _ h, of "EpV4 [1, 2, 3, 4] 443"]
  have "\<exists>meth reply. wire w' 3 = [5, 1, 2] @ [1, 1, 117, 2, 112, 113] @ [5, 1, 0] @ encode_ep (EpV4 [1, 2, 3, 4] 443) \<and>
     rx_bytes [RData [5, 2, 1], RData [0, 5, 0, 0, 1], RData [0, 0, 0, 0, 0, 0, 9]] =
       server_says meth reply @ rx_bytes (rxq w' 3)"
    by (auto simp: tcp_client_simps methods_msg_def creds_msg_def has_creds_def request_msg_def)
  with h show ?thesis by blast
qed

lemma checked_result:
  assumes "\<And>r s w. fst (g r s w) \<in> {0, -1}"
  shows "fst (checked f g self w) \<in> {0, -1}"
  using assms by (simp add: checked_def split: prod.split)

lemma handshake_result: "fst (hev_socks5_client_handshake m klass pipeline self w) \<in> {0, -1}"
proof -
  have r: "fst (return_c 0 s w) \<in> {0, -1}" for s :: "'b hev_socks5_client_scheme" and w
    by (simp add: return_c_def)
  have "fst (hev_socks5_client_handshake_standard klass s w) \<in> {0, -1}"
    "fst (hev_socks5_client_handshake_pipeline klass s w) \<in> {0, -1}" for s :: "'a hev_socks5_client_scheme" and w
    unfolding hev_socks5_client_handshake_standard_def hev_socks5_client_handshake_pipeline_def
    by (intro checked_result r)+
  note two = this
  obtain r s' w' where h: "hev_socks5_client_handshake m klass pipeline self w = (r, s', w')" by (metis prod_cases3)
  from h show ?thesis
    by (rule handshake_cases)
      (use two [of "hev_socks5_set_timeout self (tcp_timeout m)" w] h in \<open>cases pipeline; simp\<close>)
qed

lemma handshake_accepts:
  assumes "ready (hev_socks5_set_timeout self (tcp_timeout m)) w stream"
    and "up_addr self = Some (encode_ep ep)" "ep_wf ep"
    and "stype self \<noteq> HEV_SOCKS5_TYPE_NONE" "creds_wf self"
  shows "fst (hev_socks5_client_handshake m hev_socks5_client_tcp_class pipeline self w) = 0 \<longleftrightarrow>
    (\<exists>meth reply rest. (meth = 0 \<or> meth = 2) \<and> reply_ok reply \<and> stream = server_says meth reply @ rest)"
proof -
  let ?s = "hev_socks5_set_timeout self (tcp_timeout m)" and ?c = hev_socks5_client_tcp_class
  have tx: "tx_flows (txq w (fd self))" and st: "rx_bytes (rxq w (fd self)) = stream"
    using assms(1) by (simp_all add: ready_def)
  have eq: "fst (hev_socks5_client_handshake m ?c pipeline self w) =
    fst (hev_socks5_client_handshake_standard ?c ?s w)"
  proof -
    obtain r s' w' q t' v' where "hev_socks5_client_handshake_standard ?c ?s w = (r, s', w')"
      "hev_socks5_client_handshake_pipeline ?c ?s w = (q, t', v')" by (metis prod_cases3)
    with standard_pipeline_sim [of w ?s ep] assms tx
    show ?thesis by (auto simp: hev_socks5_client_handshake_def Let_def)
  qed
  show ?thesis
  proof
    assume "fst (hev_socks5_client_handshake m ?c pipeline self w) = 0"
    then obtain s1 w1 where "hev_socks5_client_handshake_standard ?c ?s w = (0, s1, w1)"
      unfolding eq by (metis prod.collapse)
    with standard_success_stream [of w ?s ep s1 w1] assms tx st
    show "\<exists>meth reply rest. (meth = 0 \<or> meth = 2) \<and> reply_ok reply \<and> stream = server_says meth reply @ rest" by simp
  next
    assume "\<exists>meth reply rest. (meth = 0 \<or> meth = 2) \<and> reply_ok reply \<and> stream = server_says meth reply @ rest"
    then obtain k reply rest where k: "k = 0 \<or> k = 2" "reply_ok reply"
      "stream = server_says k reply @ rest" by blast
    with assms have "ready ?s w (server_says k reply @ rest)" by simp
    from standard_complete [OF this] assms k show "fst (hev_socks5_client_handshake m ?c pipeline self w) = 0"
      unfolding eq by simp
  qed
qed

text \<open>
  C4: On a connection that takes what is written and reports no error, however the answers are split
  into segments and however often the client waits for them, as long as each wait ends before the
  timeout and the session is not terminated, the handshake returns 0 on exactly the streams that
  begin with a valid answer, and -1 on all others (wrong version, refused method, refused
  credentials, non-zero reply, bad address type, early end of stream). It is the same with and
  without pipelining.
\<close>
theorem client_handshake_accepts:
  assumes "ready (hev_socks5_set_timeout self (tcp_timeout m)) w stream"
    and "up_addr self = Some (encode_ep ep)" "ep_wf ep"
    and "stype self \<noteq> HEV_SOCKS5_TYPE_NONE" "creds_wf self"
  shows "fst (hev_socks5_client_handshake m hev_socks5_client_tcp_class pipeline self w) =
    (if \<exists>meth reply rest. (meth = 0 \<or> meth = 2) \<and> reply_ok reply \<and> stream = server_says meth reply @ rest
     then 0 else -1)"
  using handshake_accepts [OF assms, of pipeline]
    handshake_result [of m hev_socks5_client_tcp_class pipeline self w] by auto

text \<open>The first segment is waited for, and the server refuses: no acceptable method.\<close>

definition late_refusal :: world where
  "late_refusal = quiet\<lparr>rxq := (\<lambda>_. [RAgain, RData [5], RAgain, RData [255]]),
     yields := [\<lparr>remain = 7, ended = False\<rparr>, \<lparr>remain = 1, ended = False\<rparr>]\<rparr>"

theorem client_handshake_accepts_witness:
  "fst (hev_socks5_client_handshake misc_init hev_socks5_client_tcp_class False
     (tcp_client None None (EpV4 [1, 2, 3, 4] 443)) late_refusal) = -1"
  using client_handshake_accepts [of "tcp_client None None (EpV4 [1, 2, 3, 4] 443)" misc_init late_refusal
      "[5, 255]" "EpV4 [1, 2, 3, 4] 443" False]
  by (auto simp: tcp_client_simps late_refusal_def ready_def in_time_def server_says_def
      hev_socks5_set_timeout_def misc_init_def)

text \<open>
  C5: Pipelining does not change the outcome: whatever the peer sends and however long it takes,
  the pipelined and the standard handshake return the same status, as long as the connection takes
  what is written.
\<close>
theorem client_pipeline_equiv:
  assumes "tx_flows (txq w (fd self))" "up_addr self = Some (encode_ep ep)" "ep_wf ep"
    and "stype self \<noteq> HEV_SOCKS5_TYPE_NONE" "creds_wf self"
  shows "fst (hev_socks5_client_handshake m hev_socks5_client_tcp_class True self w) =
    fst (hev_socks5_client_handshake m hev_socks5_client_tcp_class False self w)"
proof -
  let ?s = "hev_socks5_set_timeout self (tcp_timeout m)" and ?c = hev_socks5_client_tcp_class
  obtain r s' w' q t' v' where "hev_socks5_client_handshake_standard ?c ?s w = (r, s', w')"
    "hev_socks5_client_handshake_pipeline ?c ?s w = (q, t', v')" by (metis prod_cases3)
  with standard_pipeline_sim [of w ?s ep] assms
  show ?thesis by (auto simp: hev_socks5_client_handshake_def Let_def)
qed

theorem client_pipeline_equiv_witness:
  "fst (hev_socks5_client_handshake misc_init hev_socks5_client_tcp_class True
       (tcp_client (Some [117]) (Some [112]) (EpName [97] 80)) talkative) =
   fst (hev_socks5_client_handshake misc_init hev_socks5_client_tcp_class False
       (tcp_client (Some [117]) (Some [112]) (EpName [97] 80)) talkative)"
  by (rule client_pipeline_equiv [where ep = "EpName [97] 80"]) (simp_all add: tcp_client_simps)

text \<open>
  C31: A terminated session does not hang: once its timeout is 0, the handshake of either kind
  finishes without giving up the processor once, and the timeout stays 0.
\<close>
theorem client_handshake_terminated:
  assumes "timeout self = 0"
    and "hev_socks5_client_handshake m hev_socks5_client_tcp_class pipeline self w = (r, self', w')"
  shows "timeout self' = 0 \<and> yields w' = yields w"
proof -
  let ?s = "hev_socks5_set_timeout self (tcp_timeout m)"
  from assms(2) obtain s1 where h: "(if pipeline then
      hev_socks5_client_handshake_pipeline hev_socks5_client_tcp_class ?s w
      else hev_socks5_client_handshake_standard hev_socks5_client_tcp_class ?s w) = (r, s1, w')"
    and s1: "self' = s1 \<or> self' = hev_socks5_set_timeout s1 (udp_timeout m)"
    by (rule handshake_cases)
  have "timeout ?s = 0" using assms(1) by simp
  then have "timeout s1 = 0 \<and> yields w' = yields w"
    using no_waitD [OF handshake_no_wait(1), of ?s w r s1 w'] no_waitD [OF handshake_no_wait(2), of ?s w r s1 w'] h
    by (cases pipeline) simp_all
  with s1 show ?thesis by auto
qed

theorem client_handshake_terminated_witness:
  "\<exists>r self' w'. hev_socks5_client_handshake misc_init hev_socks5_client_tcp_class False
       ((tcp_client None None (EpV4 [1, 2, 3, 4] 443))\<lparr>timeout := 0\<rparr>)
       (quiet\<lparr>rxq := (\<lambda>_. [RAgain, RData [5, 0]]), yields := [\<lparr>remain = 7, ended = False\<rparr>]\<rparr>) = (r, self', w') \<and>
     timeout self' = 0 \<and> yields w' = [\<lparr>remain = 7, ended = False\<rparr>]"
proof -
  let ?s = "(tcp_client None None (EpV4 [1, 2, 3, 4] 443))\<lparr>timeout := 0\<rparr>"
    and ?w = "quiet\<lparr>rxq := (\<lambda>_. [RAgain, RData [5, 0]]), yields := [\<lparr>remain = 7, ended = False\<rparr>]\<rparr>"
  obtain r s' w' where h:
    "hev_socks5_client_handshake misc_init hev_socks5_client_tcp_class False ?s ?w = (r, s', w')"
    by (metis prod_cases3)
  from client_handshake_terminated [OF _ h]
  have "timeout s' = 0 \<and> yields w' = [\<lparr>remain = 7, ended = False\<rparr>]" by simp
  with h show ?thesis by blast
qed

text \<open>
  C33: Connecting to the server. The name is resolved with the family hint of the object (an IPv4
  literal first, then an IPv6 literal, then DNS); on success exactly one descriptor more is open,
  it is the object's, connected to the resolved address and port, and the family found is kept;
  on every failure no descriptor stays open.
\<close>
theorem client_connect_result:
  assumes "env_ok env"
    and "hev_socks5_client_connect m env hev_socks5_client_tcp_class name port self w = (r, self', w')"
  shows "(r = -1 \<and> opened w' = opened w \<and> fd self' = fd self) \<or>
    (r = 0 \<and> (\<exists>f fam ip. resolved env name (addr_family self) = Some (fam, ip) \<and> 0 \<le> f \<and>
       opened w' = f # opened w \<and> fd self' = f \<and> addr_family self' = fam \<and>
       peer w' f = Some \<lparr>sin6_family = AF_INET6, sin6_port = htons port, sin6_addr = ip\<rparr>))"
proof -
  let ?s = "hev_socks5_set_timeout self (connect_timeout m)"
  note nr = name_into_sockaddr6_resolved [OF assms(1), where s = sockaddr_zero and name = name
      and f = "addr_family self" and port = port]
  obtain res sa fam where n: "hev_socks5_name_into_sockaddr6 env name port sockaddr_zero (addr_family self) =
    (res, sa, fam)" by (metis prod_cases3)
  show ?thesis
  proof (cases "res < 0")
    case True
    with assms(2) n show ?thesis
      by (auto simp: hev_socks5_client_connect_def hev_socks5_get_addr_family_def)
  next
    case False
    with nr n obtain ip where rs: "resolved env name (addr_family self) = Some (fam, ip)"
      "sa = \<lparr>sin6_family = AF_INET6, sin6_port = htons port, sin6_addr = ip\<rparr>"
      by (auto simp: sockaddr_zero_def split: option.splits)
    obtain f w1 where so: "hev_socks5_socket SOCK_STREAM w = (f, w1)" by (cases "hev_socks5_socket SOCK_STREAM w")
    note so' = socket_opened [OF so]
    show ?thesis
    proof (cases "f < 0")
      case True
      with assms(2) n so so' False show ?thesis
        by (auto simp: hev_socks5_client_connect_def hev_socks5_get_addr_family_def)
    next
      case f: False
      obtain c s2 w2 where co: "hev_task_io_socket_connect f sa hev_socks5_task_io_yielder ?s w1 = (c, s2, w2)"
        by (metis prod_cases3)
      note co' = connect_frame [OF co]
      from assms(2) n so co False f have e: "(r, self', w') =
        (if c < 0 then (-1, s2, sys_close f w2) else (0, hev_socks5_set_addr_family (s2\<lparr>fd := f\<rparr>) fam, w2))"
        by (simp add: hev_socks5_client_connect_def hev_socks5_get_addr_family_def
            hev_socks5_client_tcp_class_def client_binder_def hev_socks5_bind_def split: if_splits)
      then show ?thesis
        using co' so' f rs by (auto simp: sys_close_def hev_socks5_set_addr_family_def split: if_splits)
    qed
  qed
qed

text \<open>A resolver that knows one IPv4 literal and one name.\<close>

definition small_env :: net_env where
  "small_env = \<lparr>pton4 = (\<lambda>n. if n = [49] then Some [1, 2, 3, 4] else None), pton6 = (\<lambda>_. None),
     gai = (\<lambda>n f. if n = [97] then Some (GaiV6 (replicate 16 7)) else None)\<rparr>"

lemma small_env_ok: "env_ok small_env"
  by (auto simp: env_ok_def small_env_def)

theorem client_connect_result_witness:
  "\<exists>self' w'. hev_socks5_client_connect misc_init small_env hev_socks5_client_tcp_class [97] 1080
       (tcp_client None None (EpV4 [1, 2, 3, 4] 443)) (quiet\<lparr>sys := [5, 0, 1, 0], yields := [\<lparr>remain = 9, ended = False\<rparr>]\<rparr>)
       = (0, self', w') \<and> opened w' = [fd self'] \<and> addr_family self' = AF_INET6"
proof -
  let ?s = "tcp_client None None (EpV4 [1, 2, 3, 4] 443)"
    and ?w = "quiet\<lparr>sys := [5, 0, 1, 0], yields := [\<lparr>remain = 9, ended = False\<rparr>]\<rparr>"
  have "fst (hev_socks5_client_connect misc_init small_env hev_socks5_client_tcp_class [97] 1080 ?s ?w) = 0"
    by code_simp
  then obtain s' w' where h:
    "hev_socks5_client_connect misc_init small_env hev_socks5_client_tcp_class [97] 1080 ?s ?w = (0, s', w')"
    by (metis prod.collapse)
  have "resolved small_env [97] AF_UNSPEC = Some (AF_INET6, replicate 16 7)"
    by (simp add: resolved_def small_env_def)
  with client_connect_result [OF small_env_ok h]
  have "opened w' = [fd s'] \<and> addr_family s' = AF_INET6" by (auto simp: tcp_client_simps)
  with h show ?thesis by blast
qed

text \<open>
  The reply to a UDP association. The client opens one datagram socket, connects it to the
  address the server named and uses it for the datagrams from then on; on any failure it has closed
  what it opened and its datagram descriptor is unchanged.
\<close>
theorem client_udp_associate:
  assumes "view_addr addr = Some (EpV4 ip p)" "7 \<le> length addr" "stype self = HEV_SOCKS5_TYPE_UDP_IN_UDP"
    and "hev_socks5_client_udp_set_upstream_addr env client_binder addr self w = (r, self', w')"
  shows "(r = -1 \<and> opened w' = opened w \<and> udp_fd self' = udp_fd self) \<or>
    (r = 0 \<and> (\<exists>f sa. 0 \<le> f \<and> opened w' = f # opened w \<and> udp_associated self' \<and>
       hev_socks5_client_udp_get_fd self' = f \<and> peer w' f = Some sa \<and> sockaddr_ep sa = EpV4 ip p))"
proof -
  obtain sa where n: "hev_socks5_addr_into_sockaddr6 env addr sockaddr_zero (addr_family self) = (0, sa, AF_INET)"
    "sockaddr_ep sa = EpV4 ip p"
    using into_sockaddr6_v4 [OF assms(1,2), of sockaddr_zero] by (auto simp: sockaddr_zero_def)
  obtain f w1 where so: "hev_socks5_socket SOCK_DGRAM w = (f, w1)" by (cases "hev_socks5_socket SOCK_DGRAM w")
  note so' = socket_opened [OF so]
  show ?thesis
  proof (cases "f < 0")
    case True
    with assms(3,4) n so so' show ?thesis
      by (auto simp: hev_socks5_client_udp_set_upstream_addr_def hev_socks5_get_addr_family_def)
  next
    case f: False
    obtain c s2 w2 where co: "hev_task_io_socket_connect f sa hev_socks5_task_io_yielder self w1 = (c, s2, w2)"
      by (metis prod_cases3)
    note co' = connect_frame [OF co]
    from assms(3,4) n(1) so co f have e: "(r, self', w') =
      (if c < 0 then (-1, s2, sys_close f w2) else (0, s2\<lparr>udp_associated := True, udp_fd := f\<rparr>, w2))"
      by (simp add: hev_socks5_client_udp_set_upstream_addr_def hev_socks5_get_addr_family_def
          client_binder_def hev_socks5_bind_def split: if_splits)
    from co'(4) assms(3) have "stype s2 = HEV_SOCKS5_TYPE_UDP_IN_UDP" "udp_fd s2 = udp_fd self" by auto
    with e co' so' f n(2) show ?thesis
      by (auto simp: sys_close_def hev_socks5_client_udp_get_fd_def split: if_splits)
  qed
qed

definition udp_client :: hev_socks5_client_udp where
  "udp_client = \<lparr>fd = 3, timeout = -1, stype = HEV_SOCKS5_TYPE_UDP_IN_UDP, udp_associated = False,
     addr_family = AF_UNSPEC, auth_user = None, auth_pass = None, udp_fd = -1\<rparr>"

theorem client_udp_associate_witness:
  "\<exists>self' w'. hev_socks5_client_udp_set_upstream_addr small_env client_binder
      (encode_ep (EpV4 [9, 8, 7, 6] 53) @ replicate 253 0) udp_client (quiet\<lparr>sys := [6, 0, 0, 0]\<rparr>) = (0, self', w') \<and>
    opened w' = [hev_socks5_client_udp_get_fd self']"
proof -
  let ?a = "encode_ep (EpV4 [9, 8, 7, 6] 53) @ replicate 253 0" and ?w = "quiet\<lparr>sys := [6, 0, 0, 0]\<rparr>"
  have "fst (hev_socks5_client_udp_set_upstream_addr small_env client_binder ?a udp_client ?w) = 0"
    by code_simp
  then obtain s' w' where h:
    "hev_socks5_client_udp_set_upstream_addr small_env client_binder ?a udp_client ?w = (0, s', w')"
    by (metis prod.collapse)
  have v: "view_addr ?a = Some (EpV4 [9, 8, 7, 6] 53)" by (rule view_encode) simp
  from client_udp_associate [OF v _ _ h] have "opened w' = [hev_socks5_client_udp_get_fd s']"
    by (auto simp: udp_client_def quiet_def)
  with h show ?thesis by blast
qed

text \<open>
  When the request cannot be sent, the address object has already been taken from the session
  and is freed by nobody: the destructor finds no address and frees the session's own block only.
\<close>
theorem client_request_leak:
  assumes "txq w (fd self) = SErr # es" "up_addr self = Some (encode_ep ep)" "ep_wf ep"
    and "stype self = HEV_SOCKS5_TYPE_TCP"
  shows "\<exists>self' w'. hev_socks5_client_write_request hev_socks5_client_tcp_class self w = (-1, self', w') \<and>
    up_addr self' = None \<and> live (hev_socks5_client_tcp_destruct self' w') = live w - 1"
proof -
  have ty: "atype (encode_ep ep) = 1 \<or> atype (encode_ep ep) = 4 \<or> atype (encode_ep ep) = 3"
    by (cases ep) (auto simp: addr_simps)
  show ?thesis
    using assms ty
    by (simp add: hev_socks5_client_write_request_def hev_socks5_client_tcp_class_def
        hev_socks5_client_tcp_get_upstream_addr_def sendmsg_eq_send hev_task_io_socket_send_def Let_def
        hev_socks5_client_tcp_destruct_def hev_socks5_client_destruct_def hev_socks5_destruct_def
        sys_close_def hev_free_def)
qed

theorem client_request_leak_witness:
  "\<exists>self' w'. hev_socks5_client_write_request hev_socks5_client_tcp_class
      (tcp_client None None (EpName [97] 80)) (quiet\<lparr>txq := (\<lambda>_. [SErr]), live := 2\<rparr>) = (-1, self', w') \<and>
    up_addr self' = None \<and> live (hev_socks5_client_tcp_destruct self' w') = 1"
  using client_request_leak [of "quiet\<lparr>txq := (\<lambda>_. [SErr]), live := 2\<rparr>"
      "tcp_client None None (EpName [97] 80)" "[]" "EpName [97] 80"]
  by (simp add: tcp_client_simps)

text \<open>
  A write that times out after its first byte counts as a success: the caller tests
  \<open>res <= 0\<close>, and the byte count of a truncated message is positive.
\<close>
theorem client_short_write:
  assumes "txq w (fd self) = [SAccept 1, SAgain]" "yields w = []" "0 < timeout self"
  shows "\<exists>w'. hev_socks5_client_write_auth_methods self w = (0, self, w') \<and>
    wire w' (fd self) = wire w (fd self) @ [5]"
  using assms
  by (simp add: hev_socks5_client_write_auth_methods_def hev_task_io_socket_send_def Let_def
      hev_socks5_task_io_yielder_def hev_task_sleep_def task_switch_def)

theorem client_short_write_witness:
  "\<exists>w'. hev_socks5_client_write_auth_methods ((tcp_client None None (EpV4 [1, 2, 3, 4] 443))\<lparr>timeout := 10\<rparr>)
      (quiet\<lparr>txq := (\<lambda>_. [SAccept 1, SAgain])\<rparr>) =
      (0, (tcp_client None None (EpV4 [1, 2, 3, 4] 443))\<lparr>timeout := 10\<rparr>, w') \<and> wire w' 3 = [5]"
  using client_short_write [of "quiet\<lparr>txq := (\<lambda>_. [SAccept 1, SAgain])\<rparr>"
      "(tcp_client None None (EpV4 [1, 2, 3, 4] 443))\<lparr>timeout := 10\<rparr>"]
  by (simp add: tcp_client_simps)

end
