(* ===== verification/Authenticator.thy ===== *)
theory Authenticator
  imports RBTree_Index
begin

text \<open>
  The users a SOCKS5 server knows: \<open>core/src/hev-socks5-user.c\<close> and
  \<open>core/src/hev-socks5-authenticator.c\<close>. An authenticator is a red-black tree of users ordered by
  the length of the name and then by its bytes; users and authenticators are shared objects with
  a reference count (\<open>hev-object-atomic.c\<close>). Seen from outside, an authenticator is a finite map
  from names to users.
\<close>

section \<open>State\<close>

record HevSocks5User =
  user_name :: bytes
  user_pass :: bytes

text \<open>
  The shared objects: the users and the trees of the authenticators by address, the reference
  counts, and the objects whose destructor has run.
\<close>

record store =
  users :: "addr \<Rightarrow> HevSocks5User"
  trees :: "addr \<Rightarrow> rbtree"
  ref_count :: "addr \<Rightarrow> int"
  destroyed :: "addr list"

definition hev_object_ref :: "addr \<Rightarrow> store \<Rightarrow> store" where
  "hev_object_ref a s = s\<lparr>ref_count := (ref_count s)(a := ref_count s a + 1)\<rparr>"

section \<open>Users\<close>

definition hev_socks5_user_construct :: "addr \<Rightarrow> bytes \<Rightarrow> bytes \<Rightarrow> store \<Rightarrow> store" where
  "hev_socks5_user_construct u name pass s =
     s\<lparr>ref_count := (ref_count s)(u := 1),
       users := (users s)(u := \<lparr>user_name = name, user_pass = pass\<rparr>)\<rparr>"

definition hev_socks5_user_checker :: "HevSocks5User \<Rightarrow> bytes \<Rightarrow> int" where
  "hev_socks5_user_checker self pass =
     (if length (user_pass self) \<noteq> length pass then -1
      else if bytes_cmp (user_pass self) pass \<noteq> 0 then -1
      else 0)"

definition hev_socks5_user_check :: "HevSocks5User \<Rightarrow> bytes \<Rightarrow> int" where
  "hev_socks5_user_check self pass = hev_socks5_user_checker self pass"

definition user_unref :: "addr \<Rightarrow> store \<Rightarrow> store" where
  "user_unref u s =
     (let rc = ref_count s u;
          s = s\<lparr>ref_count := (ref_count s)(u := rc - 1)\<rparr>
      in if rc > 1 then s else s\<lparr>destroyed := u # destroyed s\<rparr>)"

section \<open>The authenticator\<close>

definition user_cmp :: "bytes \<Rightarrow> bytes \<Rightarrow> int" where
  "user_cmp this name =
     (if length this < length name then -1
      else if length this > length name then 1
      else bytes_cmp this name)"

definition set_tree :: "addr \<Rightarrow> rbtree \<Rightarrow> store \<Rightarrow> store" where
  "set_tree self t s = s\<lparr>trees := (trees s)(self := t)\<rparr>"

definition hev_socks5_authenticator_construct :: "addr \<Rightarrow> store \<Rightarrow> store" where
  "hev_socks5_authenticator_construct self s =
     s\<lparr>ref_count := (ref_count s)(self := 1), trees := (trees s)(self := rb_empty)\<rparr>"

definition name_search :: "addr \<Rightarrow> bytes \<Rightarrow> store \<Rightarrow> ((addr \<times> side) option + addr) option" where
  "name_search self name s = rb_search (\<lambda>n. user_cmp (user_name (users s n)) name) None (trees s self)"

definition hev_socks5_authenticator_add :: "addr \<Rightarrow> addr \<Rightarrow> store \<Rightarrow> (int \<times> store) option" where
  "hev_socks5_authenticator_add self user s =
     (case name_search self (user_name (users s user)) s of
        None \<Rightarrow> None
      | Some (Inr _) \<Rightarrow> Some (-1, s)
      | Some (Inl link) \<Rightarrow>
          (case rb_add user link (trees s self) of
             None \<Rightarrow> None
           | Some t \<Rightarrow> Some (0, set_tree self t s)))"

definition hev_socks5_authenticator_del :: "addr \<Rightarrow> bytes \<Rightarrow> store \<Rightarrow> (int \<times> store) option" where
  "hev_socks5_authenticator_del self name s =
     (case name_search self name s of
        None \<Rightarrow> None
      | Some (Inl _) \<Rightarrow> Some (-1, s)
      | Some (Inr this) \<Rightarrow>
          (case hev_rbtree_erase this (trees s self) of
             None \<Rightarrow> None
           | Some t \<Rightarrow> Some (0, user_unref this (set_tree self t s))))"

definition hev_socks5_authenticator_get :: "addr \<Rightarrow> bytes \<Rightarrow> store \<Rightarrow> ptr option" where
  "hev_socks5_authenticator_get self name s =
     (case name_search self name s of
        None \<Rightarrow> None
      | Some (Inl _) \<Rightarrow> Some None
      | Some (Inr this) \<Rightarrow> Some (Some this))"

partial_function (option) hev_socks5_authenticator_clear :: "addr \<Rightarrow> store \<Rightarrow> store option" where
  "hev_socks5_authenticator_clear self s =
     (case hev_rbtree_first (trees s self) of
        None \<Rightarrow> None
      | Some None \<Rightarrow> Some s
      | Some (Some n) \<Rightarrow>
          (case hev_rbtree_erase n (trees s self) of
             None \<Rightarrow> None
           | Some t \<Rightarrow> hev_socks5_authenticator_clear self (user_unref n (set_tree self t s))))"

definition hev_socks5_authenticator_destruct :: "addr \<Rightarrow> store \<Rightarrow> store option" where
  "hev_socks5_authenticator_destruct self s =
     (case hev_socks5_authenticator_clear self s of
        None \<Rightarrow> None
      | Some s \<Rightarrow> Some (s\<lparr>destroyed := self # destroyed s\<rparr>))"

definition authenticator_unref :: "addr \<Rightarrow> store \<Rightarrow> store option" where
  "authenticator_unref self s =
     (let rc = ref_count s self;
          s = s\<lparr>ref_count := (ref_count s)(self := rc - 1)\<rparr>
      in if rc > 1 then Some s else hev_socks5_authenticator_destruct self s)"

section \<open>The map it stands for\<close>

definition auth_ok :: "addr \<Rightarrow> store \<Rightarrow> addr list \<Rightarrow> bool" where
  "auth_ok self s xs \<longleftrightarrow>
     rbt_ok (trees s self) xs \<and> sorted_by user_cmp (\<lambda>n. user_name (users s n)) xs"

definition auth_map :: "store \<Rightarrow> addr list \<Rightarrow> bytes \<rightharpoonup> addr" where
  "auth_map s xs = map_of (map (\<lambda>n. (user_name (users s n), n)) xs)"

lemma user_cmp_eq: "user_cmp x y = 0 \<longleftrightarrow> x = y"
  by (auto simp: user_cmp_def)

lemma user_cmp_sym: "user_cmp x y < 0 \<longleftrightarrow> 0 < user_cmp y x"
  by (auto simp: user_cmp_def bytes_cmp_sym)

lemma user_cmp_trans: "0 < user_cmp x y \<Longrightarrow> 0 < user_cmp y z \<Longrightarrow> 0 < user_cmp x z"
  using bytes_cmp_trans [of x y z] by (auto simp: user_cmp_def split: if_splits)

interpretation auth: keyed_index rbt_ok "\<lambda>cmp h. rb_search cmp None h" rb_add hev_rbtree_erase
    hev_rbtree_first user_cmp
  by unfold_locales (rule user_cmp_eq user_cmp_sym user_cmp_trans; assumption)+

lemma store_simps [simp]:
  "users (set_tree a t s) = users s" "trees (set_tree a t s) = (trees s)(a := t)"
  "ref_count (set_tree a t s) = ref_count s" "destroyed (set_tree a t s) = destroyed s"
  "users (user_unref u s) = users s" "trees (user_unref u s) = trees s"
  "ref_count (user_unref u s) = (ref_count s)(u := ref_count s u - 1)"
  "users (hev_object_ref u s) = users s" "trees (hev_object_ref u s) = trees s"
  by (simp_all add: set_tree_def user_unref_def hev_object_ref_def Let_def)

section \<open>Every operation acts on the map\<close>

lemma auth_inj: "auth_ok self s xs \<Longrightarrow> inj_on (\<lambda>n. user_name (users s n)) (set xs)"
  by (rule inj_onI) (auto simp: auth_ok_def dest: auth.inj_key)

lemma auth_map_Some:
  assumes "auth_ok self s xs"
  shows "auth_map s xs name = Some n \<longleftrightarrow> n \<in> set xs \<and> user_name (users s n) = name"
proof -
  have "distinct (map fst (map (\<lambda>n. (user_name (users s n), n)) xs))"
    using assms auth_inj [OF assms] rbt_ok_distinct by (auto simp: auth_ok_def distinct_map comp_def)
  then show ?thesis unfolding auth_map_def by (subst map_of_eq_Some_iff) auto
qed

lemma auth_map_None: "auth_map s xs name = None \<longleftrightarrow> name \<notin> (\<lambda>n. user_name (users s n)) ` set xs"
  by (auto simp: auth_map_def map_of_eq_None_iff image_image)

lemma name_search_hit:
  assumes "auth_ok self s xs" "auth_map s xs name = Some n"
  shows "name_search self name s = Some (Inr n)"
  using auth.find_present [of "trees s self" xs "\<lambda>n. user_name (users s n)" n] assms
  by (auto simp: auth_map_Some auth_ok_def name_search_def)

lemma name_search_miss:
  assumes "auth_ok self s xs" "auth_map s xs name = None"
  obtains link ys zs where "name_search self name s = Some (Inl link)" "set ys \<union> set zs = set xs"
    "\<And>n. n \<notin> set xs \<Longrightarrow> user_name (users s n) = name \<Longrightarrow>
      \<exists>t. rb_add n link (trees s self) = Some t \<and> auth_ok self (set_tree self t s) (ys @ n # zs)"
proof -
  from assms auth.find_absent [of "trees s self" xs "\<lambda>n. user_name (users s n)" name]
  obtain link ys zs where l: "name_search self name s = Some (Inl link)" "set ys \<union> set zs = set xs"
    "\<forall>n. n \<notin> set xs \<longrightarrow> (\<exists>t'. rb_add n link (trees s self) = Some t' \<and> rbt_ok t' (ys @ n # zs) \<and>
      sorted_by user_cmp ((\<lambda>n. user_name (users s n))(n := name)) (ys @ n # zs))"
    unfolding auth_ok_def auth_map_None name_search_def by blast
  show thesis
  proof (rule that [OF l(1,2)])
    fix n assume n: "n \<notin> set xs" "user_name (users s n) = name"
    then have "(\<lambda>n. user_name (users s n))(n := name) = (\<lambda>n. user_name (users s n))" by auto
    with l(3) n(1) show "\<exists>t. rb_add n link (trees s self) = Some t \<and> auth_ok self (set_tree self t s) (ys @ n # zs)"
      by (auto simp: auth_ok_def)
  qed
qed

lemma authenticator_get_map:
  "auth_ok self s xs \<Longrightarrow> hev_socks5_authenticator_get self name s = Some (auth_map s xs name)"
  by (cases "auth_map s xs name")
    (auto simp: hev_socks5_authenticator_get_def name_search_hit elim: name_search_miss)

lemma authenticator_erase:
  assumes "auth_ok self s xs" "n \<in> set xs"
  obtains t where "hev_rbtree_erase n (trees s self) = Some t"
    "auth_ok self (user_unref n (set_tree self t s)) (remove1 n xs)"
proof -
  from assms rbt.erase_ok [of "trees s self" xs n] obtain t where
    "hev_rbtree_erase n (trees s self) = Some t" "rbt_ok t (remove1 n xs)" by (auto simp: auth_ok_def)
  with assms(1) that show thesis by (auto simp: auth_ok_def intro: auth.remove_sorted)
qed

lemma auth_map_ext:
  assumes "auth_ok self s xs" "auth_ok self s' ys"
    "\<And>m n. n \<in> set ys \<and> user_name (users s' n) = m \<longleftrightarrow> f m = Some n"
  shows "auth_map s' ys = f"
proof
  fix m
  show "auth_map s' ys m = f m"
    using auth_map_Some [OF assms(2), of m] assms(3) [of _ m] by (cases "f m"; cases "auth_map s' ys m") auto
qed

section \<open>Properties\<close>

text \<open>
  C29: The authenticator is a finite map from names to users: \<open>get\<close> looks the name up; \<open>add\<close> refuses
  a name that is bound and otherwise binds it; \<open>del\<close> refuses a name that is not bound and otherwise
  unbinds it and drops the reference to the user. Every call returns, and the tree stays a
  red-black tree sorted by the names.
\<close>
theorem authenticator_is_map:
  assumes ok: "auth_ok self s xs" and u: "u \<notin> set xs"
  shows "hev_socks5_authenticator_get self name s = Some (auth_map s xs name) \<and>
    (case auth_map s xs (user_name (users s u)) of
       Some v \<Rightarrow> hev_socks5_authenticator_add self u s = Some (-1, s)
     | None \<Rightarrow> \<exists>s' ys. hev_socks5_authenticator_add self u s = Some (0, s') \<and> auth_ok self s' ys \<and>
         auth_map s' ys = (auth_map s xs)(user_name (users s u) \<mapsto> u)) \<and>
    (case auth_map s xs name of
       None \<Rightarrow> hev_socks5_authenticator_del self name s = Some (-1, s)
     | Some v \<Rightarrow> \<exists>s' ys. hev_socks5_authenticator_del self name s = Some (0, s') \<and> auth_ok self s' ys \<and>
         auth_map s' ys = (auth_map s xs)(name := None) \<and>
         ref_count s' = (ref_count s)(v := ref_count s v - 1))"
    (is "?get \<and> ?add \<and> ?del")
proof (intro conjI)
  show ?get using ok by (rule authenticator_get_map)
  show ?add
  proof (cases "auth_map s xs (user_name (users s u))")
    case (Some v)
    with name_search_hit [OF ok] show ?thesis by (simp add: hev_socks5_authenticator_add_def)
  next
    case None
    from name_search_miss [OF ok None] obtain link ys zs where
      l: "name_search self (user_name (users s u)) s = Some (Inl link)" "set ys \<union> set zs = set xs"
      "\<exists>t. rb_add u link (trees s self) = Some t \<and> auth_ok self (set_tree self t s) (ys @ u # zs)"
      using u by metis
    then obtain t where t: "rb_add u link (trees s self) = Some t" "auth_ok self (set_tree self t s) (ys @ u # zs)"
      by blast
    from None have nu: "\<forall>n \<in> set xs. user_name (users s n) \<noteq> user_name (users s u)"
      unfolding auth_map_None image_iff by metis
    have "auth_map (set_tree self t s) (ys @ u # zs) = (auth_map s xs)(user_name (users s u) \<mapsto> u)"
      using l(2) nu by (intro auth_map_ext [OF ok t(2)]) (auto simp: auth_map_Some [OF ok])
    with None l(1) t show ?thesis by (auto simp: hev_socks5_authenticator_add_def)
  qed
  show ?del
  proof (cases "auth_map s xs name")
    case None
    from name_search_miss [OF ok None] obtain link where "name_search self name s = Some (Inl link)" by metis
    with None show ?thesis by (simp add: hev_socks5_authenticator_del_def)
  next
    case (Some v)
    then have v: "v \<in> set xs" "user_name (users s v) = name" using auth_map_Some [OF ok] by auto
    from authenticator_erase [OF ok v(1)] obtain t where t: "hev_rbtree_erase v (trees s self) = Some t"
      "auth_ok self (user_unref v (set_tree self t s)) (remove1 v xs)" by blast
    have d: "distinct xs" using ok by (auto simp: auth_ok_def intro: rbt_ok_distinct)
    have "auth_map (user_unref v (set_tree self t s)) (remove1 v xs) = (auth_map s xs)(name := None)"
      using v d auth_map_Some [OF ok] by (intro auth_map_ext [OF ok t(2)]) (auto dest: inj_onD [OF auth_inj [OF ok]])
    with Some name_search_hit [OF ok Some] t show ?thesis by (auto simp: hev_socks5_authenticator_del_def)
  qed
qed

lemma authenticator_clear_ok:
  "auth_ok self s xs \<Longrightarrow> \<exists>s'. hev_socks5_authenticator_clear self s = Some s' \<and> auth_ok self s' [] \<and>
     ref_count s' = (\<lambda>a. if a \<in> set xs then ref_count s a - 1 else ref_count s a) \<and>
     set (destroyed s') = set (destroyed s) \<union> {u \<in> set xs. ref_count s u \<le> 1} \<and>
     destroyed s' = rev (filter (\<lambda>u. ref_count s u \<le> 1) xs) @ destroyed s \<and> users s' = users s"
proof (induction xs arbitrary: s)
  case Nil
  then show ?case
    by (subst hev_socks5_authenticator_clear.simps) (auto simp: auth_ok_def rbt.first_ok)
next
  case (Cons n xs)
  from authenticator_erase [OF Cons.prems, of n] obtain t where t: "hev_rbtree_erase n (trees s self) = Some t"
    "auth_ok self (user_unref n (set_tree self t s)) xs" by auto
  have f: "hev_rbtree_first (trees s self) = Some (Some n)" "n \<notin> set xs"
    using Cons.prems rbt_ok_distinct [of "trees s self" "n # xs"] by (auto simp: auth_ok_def rbt.first_ok)
  have d: "destroyed (user_unref n (set_tree self t s)) = (if ref_count s n \<le> 1 then [n] else []) @ destroyed s"
    by (auto simp: user_unref_def Let_def)
  have fl: "filter (\<lambda>u. ref_count (user_unref n (set_tree self t s)) u \<le> 1) xs = filter (\<lambda>u. ref_count s u \<le> 1) xs"
    using f(2) by (intro filter_cong) auto
  from Cons.IH [OF t(2)] obtain s' where s': "hev_socks5_authenticator_clear self (user_unref n (set_tree self t s)) = Some s'"
    "auth_ok self s' []" "users s' = users s"
    "ref_count s' = (\<lambda>a. if a \<in> set xs then ref_count (user_unref n (set_tree self t s)) a - 1
       else ref_count (user_unref n (set_tree self t s)) a)"
    "destroyed s' = rev (filter (\<lambda>u. ref_count s u \<le> 1) xs) @ (if ref_count s n \<le> 1 then [n] else []) @ destroyed s"
    unfolding fl d by auto
  have "hev_socks5_authenticator_clear self s = Some s'"
    using f(1) t(1) s'(1) by (subst hev_socks5_authenticator_clear.simps) simp
  moreover have "ref_count s' = (\<lambda>a. if a \<in> set (n # xs) then ref_count s a - 1 else ref_count s a)"
    using f(2) by (auto simp: s'(4) fun_eq_iff)
  ultimately show ?case using s'(2,3,5) by auto
qed

text \<open>
  Two ways to give up an authenticator: to drop the reference to it, and to take a reference to one
  of its users first, drop the authenticator and then the user. They leave the same counts and
  have destroyed the same objects.
\<close>

definition same_objects :: "store \<Rightarrow> store \<Rightarrow> bool" where
  "same_objects s s' \<longleftrightarrow> users s = users s' \<and> ref_count s = ref_count s' \<and> mset (destroyed s) = mset (destroyed s')"

lemma same_objects_refl [simp]: "same_objects s s"
  by (simp add: same_objects_def)

lemma unref_by_way_of_user:
  assumes ok: "auth_ok a s xs" "a \<notin> set xs" "u \<in> set xs" "1 \<le> ref_count s u"
    and s1: "authenticator_unref a (hev_object_ref u s) = Some s1"
  shows "\<exists>s2. authenticator_unref a s = Some s2 \<and> same_objects (user_unref u s1) s2"
proof (cases "ref_count s a > 1")
  case True
  have "u \<noteq> a" using ok by auto
  with True s1 have "s1 = s\<lparr>ref_count := (ref_count s)(u := ref_count s u + 1, a := ref_count s a - 1)\<rparr>"
    by (auto simp: authenticator_unref_def hev_object_ref_def Let_def fun_upd_twist)
  with True ok(4) \<open>u \<noteq> a\<close> show ?thesis
    by (auto simp: authenticator_unref_def same_objects_def user_unref_def Let_def fun_eq_iff)
next
  case False
  have ua: "u \<noteq> a" using ok by auto
  let ?t = "s\<lparr>ref_count := (ref_count s)(a := ref_count s a - 1)\<rparr>"
    and ?v = "s\<lparr>ref_count := (ref_count s)(u := ref_count s u + 1, a := ref_count s a - 1)\<rparr>"
  have okt: "auth_ok a ?t xs" "auth_ok a ?v xs" using ok(1) by (simp_all add: auth_ok_def)
  from authenticator_clear_ok [OF okt(1)] obtain t where t: "hev_socks5_authenticator_clear a ?t = Some t"
    "ref_count t = (\<lambda>x. if x \<in> set xs then ref_count ?t x - 1 else ref_count ?t x)"
    "destroyed t = rev (filter (\<lambda>u. ref_count ?t u \<le> 1) xs) @ destroyed s" "users t = users s" by auto
  from authenticator_clear_ok [OF okt(2)] obtain v where v: "hev_socks5_authenticator_clear a ?v = Some v"
    "ref_count v = (\<lambda>x. if x \<in> set xs then ref_count ?v x - 1 else ref_count ?v x)"
    "destroyed v = rev (filter (\<lambda>u. ref_count ?v u \<le> 1) xs) @ destroyed s" "users v = users s" by auto
  have "s1 = v\<lparr>destroyed := a # destroyed v\<rparr>"
    using s1 False ua v(1)
    by (simp add: authenticator_unref_def hev_object_ref_def hev_socks5_authenticator_destruct_def Let_def fun_upd_twist)
  moreover have "authenticator_unref a s = Some (t\<lparr>destroyed := a # destroyed t\<rparr>)"
    using False t(1) by (simp add: authenticator_unref_def hev_socks5_authenticator_destruct_def Let_def)
  moreover have "ref_count v u = ref_count s u" using v(2) ok(3) ua by simp
  moreover have "(ref_count v)(u := ref_count s u - 1) = ref_count t"
    using ok(2,3) ua by (auto simp: fun_eq_iff t(2) v(2))
  moreover have "mset (filter (\<lambda>x. ref_count ?t x \<le> 1) xs) =
      mset (filter (\<lambda>x. ref_count ?v x \<le> 1) xs) + (if ref_count s u \<le> 1 then {#u#} else {#})"
  proof -
    have "distinct xs" using ok(1) rbt_ok_distinct by (auto simp: auth_ok_def)
    from split_list [OF ok(3)] obtain ys zs where xs: "xs = ys @ u # zs" by blast
    with \<open>distinct xs\<close> have n: "u \<notin> set ys" "u \<notin> set zs" by auto
    have "filter (\<lambda>x. ref_count ?v x \<le> 1) ys = filter (\<lambda>x. ref_count ?t x \<le> 1) ys"
      "filter (\<lambda>x. ref_count ?v x \<le> 1) zs = filter (\<lambda>x. ref_count ?t x \<le> 1) zs"
      using n by (auto intro!: filter_cong)
    with ua ok(4) show ?thesis unfolding xs by simp
  qed
  ultimately show ?thesis
    using t(3,4) v(3,4) by (auto simp: same_objects_def user_unref_def Let_def)
qed

text \<open>
  C34: Dropping the last reference to an authenticator empties its tree: the loop over
  \<open>hev_rbtree_first\<close> ends, each user loses exactly one reference, and exactly the users that nobody
  else holds are destroyed; a user held by a session lives on.
\<close>
theorem authenticator_last_unref:
  assumes "auth_ok self s xs" "self \<notin> set xs" "ref_count s self = 1" "\<forall>u \<in> set xs. 1 \<le> ref_count s u"
  shows "\<exists>s'. authenticator_unref self s = Some s' \<and> auth_ok self s' [] \<and>
    (\<forall>u \<in> set xs. ref_count s' u = ref_count s u - 1) \<and>
    set (destroyed s') = set (destroyed s) \<union> {self} \<union> {u \<in> set xs. ref_count s u = 1}"
proof -
  let ?s = "s\<lparr>ref_count := (ref_count s)(self := 0)\<rparr>"
  have ok: "auth_ok self ?s xs" using assms(1) by (simp add: auth_ok_def)
  have "{u \<in> set xs. ref_count ?s u \<le> 1} = {u \<in> set xs. ref_count s u = 1}" using assms(2,4) by force
  with authenticator_clear_ok [OF ok] assms(2,3) show ?thesis
    by (fastforce simp: authenticator_unref_def hev_socks5_authenticator_destruct_def auth_ok_def Let_def)
qed

section \<open>Witnesses\<close>

text \<open>Five users with names of the lengths 5 to 1 in the sample tree; 100 is the authenticator.\<close>

definition auth_sample :: store where
  "auth_sample = \<lparr>users = (\<lambda>n. \<lparr>user_name = replicate (6 - n) 97, user_pass = replicate n 98\<rparr>),
     trees = (\<lambda>_. rb_empty)(100 := rb_sample), ref_count = (\<lambda>_. 1)(3 := 2), destroyed = []\<rparr>"

lemma auth_sample_ok: "auth_ok 100 auth_sample [1, 2, 3, 4, 5]"
  using rb_sample_ok by (simp add: auth_ok_def auth_sample_def sorted_by_def user_cmp_def)

theorem authenticator_is_map_witness:
  "hev_socks5_authenticator_get 100 [97, 97] auth_sample = Some (Some 4) \<and>
   (\<exists>s'. hev_socks5_authenticator_del 100 [97, 97] auth_sample = Some (0, s') \<and> ref_count s' 4 = 0)"
  using authenticator_is_map [OF auth_sample_ok, of 6 "[97, 97]"]
  by (auto simp: auth_sample_def auth_map_def numeral_eq_Suc)

theorem authenticator_last_unref_witness:
  "\<exists>s'. authenticator_unref 100 auth_sample = Some s' \<and> set (destroyed s') = {100, 1, 2, 4, 5}"
  using authenticator_last_unref [OF auth_sample_ok] by (auto simp: auth_sample_def)

end
