(* ===== verification/Socks5_Server.thy ===== *)
theory Socks5_Server
  imports Socks5_Client Authenticator
begin

text \<open>
  The server side: \<open>core/src/hev-socks5-server.c\<close>. The object holds in one union nothing, the
  authenticator it was given, or the user that has logged in (\<open>held\<close>); the store of the shared
  objects is threaded with the object. The two relays it ends in are arguments, as they are
  interfaces of the class in the code (\<open>HevSocks5TCPIface\<close>, \<open>HevSocks5UDPIface\<close>).
\<close>

section \<open>State\<close>

datatype held = NoObj | AuthObj addr | UserObj addr

record hev_socks5_server = hev_socks5 +
  fd0 :: int
  fd1 :: int
  obj :: held
  shared :: store

record 'o server_class =
  base_binder :: "int \<Rightarrow> sockaddr_in6 \<Rightarrow> 'o step"
  udp_binder :: "int \<Rightarrow> sockaddr_in6 \<Rightarrow> 'o \<Rightarrow> world \<Rightarrow> int \<times> sockaddr_in6 \<times> 'o \<times> world"
  tcp_splicer :: "int \<Rightarrow> 'o \<Rightarrow> world \<Rightarrow> 'o \<times> world"
  udp_splicer :: "int \<Rightarrow> 'o \<Rightarrow> world \<Rightarrow> 'o \<times> world"

definition hev_socks5_server_construct :: "int \<Rightarrow> 'a hev_socks5_server_scheme \<Rightarrow> 'a hev_socks5_server_scheme" where
  "hev_socks5_server_construct f self =
     (hev_socks5_construct HEV_SOCKS5_TYPE_NONE self)\<lparr>fd := f, fd0 := -1, fd1 := -1\<rparr>"

text \<open>\<open>hev_object_unref\<close> of what the union holds.\<close>

definition held_unref :: "held \<Rightarrow> store \<Rightarrow> store option" where
  "held_unref ob s =
     (case ob of
        NoObj \<Rightarrow> Some s
      | AuthObj a \<Rightarrow> authenticator_unref a s
      | UserObj u \<Rightarrow> Some (user_unref u s))"

definition hev_socks5_server_set_auth ::
  "'a hev_socks5_server_scheme \<Rightarrow> addr \<Rightarrow> 'a hev_socks5_server_scheme option" where
  "hev_socks5_server_set_auth self auth =
     (case held_unref (obj self) (shared self) of
        None \<Rightarrow> None
      | Some s \<Rightarrow> Some (self\<lparr>shared := hev_object_ref auth s, obj := AuthObj auth\<rparr>))"

section \<open>Authentication\<close>

definition server_recv :: "nat \<Rightarrow> 'a hev_socks5_scheme \<Rightarrow> world \<Rightarrow> int \<times> bytes \<times> 'a hev_socks5_scheme \<times> world" where
  "server_recv n self w = hev_task_io_socket_recv (fd self) n True False hev_socks5_task_io_yielder self w"

definition server_send :: "bytes \<Rightarrow> 'a hev_socks5_scheme step" where
  "server_send buf self w =
     (let (res, self, w) = hev_task_io_socket_send (fd self) buf True False hev_socks5_task_io_yielder self w
      in if res \<le> 0 then (-1, self, w) else (0, self, w))"

definition hev_socks5_server_read_auth_method :: "'a hev_socks5_server_scheme step" where
  "hev_socks5_server_read_auth_method self w =
     (let (res, auth, self, w) = server_recv 2 self w in
      if res \<noteq> 2 then (-1, self, w)
      else if auth ! 0 \<noteq> HEV_SOCKS5_VERSION_5 then (-1, self, w)
      else
        let method_len = unat (auth ! 1);
            (res, methods, self, w) = server_recv method_len self w in
        if res \<noteq> int method_len then (-1, self, w)
        else
          let method = (if obj self \<noteq> NoObj then HEV_SOCKS5_AUTH_METHOD_USER
                        else HEV_SOCKS5_AUTH_METHOD_NONE)
          in (if method \<in> set methods then uint method else -1, self, w))"

definition hev_socks5_server_write_auth_method :: "int \<Rightarrow> 'a hev_socks5_server_scheme step" where
  "hev_socks5_server_write_auth_method auth_method = server_send [HEV_SOCKS5_VERSION_5, word_of_int auth_method]"

definition hev_socks5_server_read_auth_user :: "'a hev_socks5_server_scheme step" where
  "hev_socks5_server_read_auth_user self w =
     (let (res, head, self, w) = server_recv 2 self w in
      if res \<noteq> 2 then (-1, self, w)
      else if head ! 0 \<noteq> 1 then (-1, self, w)
      else
        let nlen = unat (head ! 1) in
        if nlen = 0 then (-1, self, w)
        else
          let (res, name, self, w) = server_recv (nlen + 1) self w in
          if res \<noteq> int (nlen + 1) then (-1, self, w)
          else
            let plen = unat (name ! nlen) in
            if plen = 0 then (-1, self, w)
            else
              let (res, pass, self, w) = server_recv plen self w in
              if res \<noteq> int plen then (-1, self, w)
              else
                (case obj self of
                   AuthObj a \<Rightarrow>
                     (case hev_socks5_authenticator_get a (take nlen name) (shared self) of
                        None \<Rightarrow> (-1, self, w\<lparr>crashed := True\<rparr>)
                      | Some None \<Rightarrow> (-1, self, w)
                      | Some (Some user) \<Rightarrow>
                          if hev_socks5_user_check (users (shared self) user) pass < 0 then (-1, self, w)
                          else
                            (case authenticator_unref a (hev_object_ref user (shared self)) of
                               None \<Rightarrow> (-1, self, w\<lparr>crashed := True\<rparr>)
                             | Some s \<Rightarrow> (0, self\<lparr>shared := s, obj := UserObj user\<rparr>, w)))
                 | _ \<Rightarrow> (-1, self, w\<lparr>crashed := True\<rparr>)))"

definition hev_socks5_server_write_auth_user :: "int \<Rightarrow> 'a hev_socks5_server_scheme step" where
  "hev_socks5_server_write_auth_user auth_res = server_send [1, word_of_int auth_res]"

definition hev_socks5_server_auth :: "'a hev_socks5_server_scheme step" where
  "hev_socks5_server_auth self w =
     (let (method, self, w) = hev_socks5_server_read_auth_method self w;
          (res, self, w) = hev_socks5_server_write_auth_method method self w
      in if res < 0 then (-1, self, w)
         else if method = uint HEV_SOCKS5_AUTH_METHOD_NONE then (0, self, w)
         else if method = uint HEV_SOCKS5_AUTH_METHOD_USER then
           let (res, self, w) = hev_socks5_server_read_auth_user self w;
               (res', self, w) = hev_socks5_server_write_auth_user res self w
           in if res < 0 \<or> res' < 0 then (-1, self, w) else (0, self, w)
         else (-1, self, w))"

section \<open>The request\<close>

text \<open>
  The result carries what the code returns through pointers: the command, the reply code and the
  address. An address of the right length is always complete in the buffer.
\<close>

definition hev_socks5_server_read_request ::
  "net_env \<Rightarrow> int \<Rightarrow> u8 \<Rightarrow> sockaddr_in6 \<Rightarrow> 'a hev_socks5_server_scheme \<Rightarrow> world \<Rightarrow>
   (int \<times> int \<times> u8 \<times> sockaddr_in6) \<times> 'a hev_socks5_server_scheme \<times> world" where
  "hev_socks5_server_read_request env cmd rep addr self w =
     (let (res, req, self, w) = server_recv 5 self w in
      if res \<noteq> 5 then ((-1, cmd, rep, addr), self, w)
      else if req ! 0 \<noteq> HEV_SOCKS5_VERSION_5 then ((0, cmd, HEV_SOCKS5_RES_REP_FAIL, addr), self, w)
      else if \<not> (req ! 3 = HEV_SOCKS5_ADDR_TYPE_IPV4 \<or> req ! 3 = HEV_SOCKS5_ADDR_TYPE_IPV6 \<or>
                 req ! 3 = HEV_SOCKS5_ADDR_TYPE_NAME) then
        ((0, cmd, HEV_SOCKS5_RES_REP_ADDR, addr), self, w)
      else
        let addrlen = (if req ! 3 = HEV_SOCKS5_ADDR_TYPE_IPV4 then 5
                       else if req ! 3 = HEV_SOCKS5_ADDR_TYPE_IPV6 then 17
                       else 2 + unat (req ! 4));
            (res, more, self, w) = server_recv addrlen self w in
        if res \<noteq> int addrlen then ((0, cmd, HEV_SOCKS5_RES_REP_ADDR, addr), self, w)
        else
          let (res, addr, family) = hev_socks5_addr_into_sockaddr6 env (drop 3 req @ more) addr
                                      (hev_socks5_get_addr_family self) in
          if res < 0 then ((0, cmd, HEV_SOCKS5_RES_REP_ADDR, addr), self, w)
          else ((0, uint (req ! 1), rep, addr), hev_socks5_set_addr_family self family, w))"

definition hev_socks5_server_write_response :: "u8 \<Rightarrow> sockaddr_in6 \<Rightarrow> 'a hev_socks5_server_scheme step" where
  "hev_socks5_server_write_response rep addr =
     (let (ret, a) = hev_socks5_addr_from_sockaddr6 (replicate addr_size 0) addr
      in server_send (take (nat (3 + ret)) ([HEV_SOCKS5_VERSION_5, rep, 0] @ a)))"

definition hev_socks5_server_connect ::
  "misc \<Rightarrow> 'a hev_socks5_server_scheme server_class \<Rightarrow> sockaddr_in6 \<Rightarrow> 'a hev_socks5_server_scheme step" where
  "hev_socks5_server_connect m klass addr self w =
     (let (f, w) = hev_socks5_socket SOCK_STREAM w in
      if f < 0 then (-1, self, w)
      else
        let (res, self, w) = base_binder klass f addr self w in
        if res < 0 then (-1, self, sys_close f w)
        else
          let self = hev_socks5_set_timeout self (connect_timeout m);
              (res, self, w) = hev_task_io_socket_connect f addr hev_socks5_task_io_yielder self w in
          if res < 0 then (-1, self, sys_close f w)
          else (0, (hev_socks5_set_timeout self (tcp_timeout m))\<lparr>fd0 := f\<rparr>, w))"

text \<open>The binder writes the address it has bound back through the pointer, also when it fails later.\<close>

definition hev_socks5_server_bind ::
  "'a hev_socks5_server_scheme server_class \<Rightarrow> sockaddr_in6 option \<Rightarrow> 'a hev_socks5_server_scheme \<Rightarrow> world \<Rightarrow>
   int \<times> sockaddr_in6 option \<times> 'a hev_socks5_server_scheme \<times> world" where
  "hev_socks5_server_bind klass addr self w =
     (let (f, w) = hev_socks5_socket SOCK_DGRAM w in
      if f < 0 then (-1, addr, self, w)
      else
        let self = self\<lparr>fd0 := f\<rparr> in
        (case addr of
           None \<Rightarrow> (0, None, self, w)
         | Some src \<Rightarrow>
             let (f, w) = hev_socks5_socket SOCK_DGRAM w in
             if f < 0 then (-1, addr, self, w)
             else
               let (res, w) = sys_call w in
               if res < 0 then (-1, addr, self, sys_close f w)
               else
                 let (res, src, self, w) = udp_binder klass f src self w in
                 if res < 0 then (-1, Some src, self, sys_close f w)
                 else (0, Some src, self\<lparr>fd1 := f\<rparr>, w)))"

text \<open>\<open>sockname\<close> is what \<open>getsockname\<close> answers for a descriptor.\<close>

definition hev_socks5_server_udp_bind ::
  "(int \<Rightarrow> sockaddr_in6) \<Rightarrow> int \<Rightarrow> sockaddr_in6 \<Rightarrow> 'a hev_socks5_server_scheme \<Rightarrow> world \<Rightarrow>
   int \<times> sockaddr_in6 \<times> 'a hev_socks5_server_scheme \<times> world" where
  "hev_socks5_server_udp_bind sockname sock src self w =
     (let (res, w) = sys_call w in
      if res < 0 then (-1, src, self, w)
      else
        let src = (sockname (fd self))\<lparr>sin6_port := 0\<rparr>;
            (res, w) = sys_call w in
        if res < 0 then (-1, src, self, w)
        else
          let (res, w) = sys_call w in
          if res < 0 then (-1, src, self, w)
          else (0, sockname sock, self, w))"

section \<open>The handshake and the service\<close>

text \<open>The \<open>switch\<close> on the command, with the reply code and the address it leaves.\<close>

definition server_command ::
  "misc \<Rightarrow> 'a hev_socks5_server_scheme server_class \<Rightarrow> int \<Rightarrow> u8 \<Rightarrow> sockaddr_in6 \<Rightarrow>
   'a hev_socks5_server_scheme \<Rightarrow> world \<Rightarrow> u8 \<times> sockaddr_in6 \<times> 'a hev_socks5_server_scheme \<times> world" where
  "server_command m klass cmd rep addr self w =
     (if cmd = uint HEV_SOCKS5_REQ_CMD_CONNECT then
        let (res, self, w) = hev_socks5_server_connect m klass addr self w
        in (if res < 0 then HEV_SOCKS5_RES_REP_HOST else rep, addr,
            self\<lparr>stype := HEV_SOCKS5_TYPE_TCP\<rparr>, w)
      else if cmd = uint HEV_SOCKS5_REQ_CMD_UDP_ASC then
        let (res, src, self, w) = hev_socks5_server_bind klass (Some addr) self w
        in (if res < 0 then HEV_SOCKS5_RES_REP_FAIL else rep, the src,
            self\<lparr>stype := HEV_SOCKS5_TYPE_UDP_IN_UDP\<rparr>, w)
      else if cmd = uint HEV_SOCKS5_REQ_CMD_FWD_UDP then
        let (res, _, self, w) = hev_socks5_server_bind klass None self w
        in (if res < 0 then HEV_SOCKS5_RES_REP_FAIL else rep, addr,
            self\<lparr>stype := HEV_SOCKS5_TYPE_UDP_IN_TCP\<rparr>, w)
      else (HEV_SOCKS5_RES_REP_IMPL, addr, self, w))"

definition hev_socks5_server_handshake ::
  "misc \<Rightarrow> net_env \<Rightarrow> 'a hev_socks5_server_scheme server_class \<Rightarrow> 'a hev_socks5_server_scheme step" where
  "hev_socks5_server_handshake m env klass self w =
     (let self = hev_socks5_set_timeout self (tcp_timeout m);
          (res, self, w) = hev_socks5_server_auth self w in
      if res < 0 then (-1, self, w)
      else
        let ((res, cmd, rep, addr), self, w) =
              hev_socks5_server_read_request env 0 HEV_SOCKS5_RES_REP_SUCC sockaddr_zero self w in
        if res < 0 then (-1, self, w)
        else
          let (rep, addr, self, w) =
            (if rep = HEV_SOCKS5_RES_REP_SUCC then server_command m klass cmd rep addr self w
             else (rep, addr, self, w));
              (res, self, w) = hev_socks5_server_write_response rep addr self w
          in if res < 0 \<or> rep \<noteq> HEV_SOCKS5_RES_REP_SUCC then (-1, self, w) else (0, self, w))"

definition hev_socks5_server_service ::
  "misc \<Rightarrow> 'a hev_socks5_server_scheme server_class \<Rightarrow> 'a hev_socks5_server_scheme step" where
  "hev_socks5_server_service m klass self w =
     (case stype self of
        HEV_SOCKS5_TYPE_TCP \<Rightarrow> let (self, w) = tcp_splicer klass (fd0 self) self w in (0, self, w)
      | HEV_SOCKS5_TYPE_NONE \<Rightarrow> (-1, self, w)
      | _ \<Rightarrow>
          let self = hev_socks5_set_timeout self (udp_timeout m);
              (self, w) = udp_splicer klass (fd0 self) self w
          in (0, self, w))"

definition hev_socks5_server_run ::
  "misc \<Rightarrow> net_env \<Rightarrow> 'a hev_socks5_server_scheme server_class \<Rightarrow> 'a hev_socks5_server_scheme step" where
  "hev_socks5_server_run m env klass self w =
     (let (res, w) = sys_call w;
          w = (if res < 0 then snd (sys_call w) else w)
      in checked (hev_socks5_server_handshake m env klass) (\<lambda>_.
         checked (hev_socks5_server_service m klass) (\<lambda>_. return_c 0)) self w)"

definition hev_socks5_server_get_fd :: "'a hev_socks5_server_scheme \<Rightarrow> int" where
  "hev_socks5_server_get_fd self =
     (case stype self of
        HEV_SOCKS5_TYPE_UDP_IN_TCP \<Rightarrow> fd self
      | HEV_SOCKS5_TYPE_UDP_IN_UDP \<Rightarrow> fd1 self
      | _ \<Rightarrow> -1)"

definition hev_socks5_server_destruct :: "'a hev_socks5_server_scheme \<Rightarrow> world \<Rightarrow> (store \<times> world) option" where
  "hev_socks5_server_destruct self w =
     (let w = (if fd0 self \<ge> 0 then sys_close (fd0 self) w else w);
          w = (if fd1 self \<ge> 0 then sys_close (fd1 self) w else w)
      in case held_unref (obj self) (shared self) of
           None \<Rightarrow> None
         | Some s \<Rightarrow> Some (s, hev_socks5_destruct self w))"

definition server_binder :: "int \<Rightarrow> sockaddr_in6 \<Rightarrow> 'a hev_socks5_scheme step" where
  "server_binder sock dest self w = (hev_socks5_bind self sock dest, self, w)"

definition hev_socks5_server_class ::
  "(int \<Rightarrow> sockaddr_in6) \<Rightarrow> (int \<Rightarrow> 'a hev_socks5_server_scheme \<Rightarrow> world \<Rightarrow> 'a hev_socks5_server_scheme \<times> world) \<Rightarrow>
   (int \<Rightarrow> 'a hev_socks5_server_scheme \<Rightarrow> world \<Rightarrow> 'a hev_socks5_server_scheme \<times> world) \<Rightarrow>
   'a hev_socks5_server_scheme server_class" where
  "hev_socks5_server_class sockname tcp udp =
     \<lparr>base_binder = server_binder, udp_binder = hev_socks5_server_udp_bind sockname,
      tcp_splicer = tcp, udp_splicer = udp\<rparr>"

section \<open>The steps as dialogues\<close>

lemma server_recv_dialogue:
  "server_recv n self w = (r, bs, self', w') \<Longrightarrow>
   dialogue self w [] bs self' w' \<and> length bs \<le> n \<and> (r = int (length bs) \<or> r < 0 \<and> bs = [])"
  unfolding server_recv_def by (rule recv_dialogue)

lemma server_send_dialogue:
  assumes "server_send buf self w = (r, self', w')"
  shows "\<exists>n \<le> length buf. dialogue self w (take n buf) [] self' w' \<and> (r = 0 \<and> 0 < n \<or> r = -1)"
proof -
  obtain q s1 w1 where q: "hev_task_io_socket_send (fd self) buf True False hev_socks5_task_io_yielder self w = (q, s1, w1)"
    by (metis prod_cases3)
  from send_dialogue [OF q] obtain n where "dialogue self w (take n buf) [] s1 w1" "n \<le> length buf"
    "q = int n \<or> q < 0 \<and> n = 0" by metis
  with assms q show ?thesis by (auto simp: server_send_def split: if_splits intro!: exI [of _ n])
qed

lemma dialogue_server:
  assumes "dialogue self w tx rx self' w'"
  shows "obj self' = obj self" "shared self' = shared self" "fd0 self' = fd0 self" "fd1 self' = fd1 self"
  using dialogueD(16) [OF assms] by auto

definition wanted :: "'a hev_socks5_server_scheme \<Rightarrow> u8" where
  "wanted self = (if obj self \<noteq> NoObj then 2 else 0)"

lemma two_bytes: "length bs = 2 \<Longrightarrow> bs = [bs ! 0, bs ! 1]"
  by (cases bs; cases "tl bs") auto

lemma got_all: "r = int n \<Longrightarrow> r = int k \<or> r < 0 \<and> b \<Longrightarrow> k = n"
  by auto

lemma unat8_less: "unat (x :: u8) < 256"
  using unsigned_less [of x, where ?'a = nat] by simp

lemma of_nat_length_u8: "length bs = unat (m :: u8) \<Longrightarrow> (of_nat (length bs) :: u8) = m"
  by simp

lemma read_method_outcome:
  assumes "hev_socks5_server_read_auth_method self w = (r, self', w')"
  obtains rx where "dialogue self w [] rx self' w'"
    "r = -1 \<or> (\<exists>ms. rx = [5, of_nat (length ms)] @ ms \<and> length ms < 256 \<and> wanted self \<in> set ms \<and>
       r = uint (wanted self))"
proof -
  obtain r0 au s1 w1 where r0: "server_recv 2 self w = (r0, au, s1, w1)" by (metis prod_cases4)
  obtain r1 ms s2 w2 where r1: "server_recv (unat (au ! 1)) s1 w1 = (r1, ms, s2, w2)" by (metis prod_cases4)
  note d0 = server_recv_dialogue [OF r0] and d1 = server_recv_dialogue [OF r1]
  have d: "dialogue self w [] (au @ ms) s2 w2" using dialogue_trans [of self w "[]" au s1 w1 "[]" ms] d0 d1 by simp
  have wm: "wanted self = (if obj s2 \<noteq> NoObj then 2 else 0)"
    using dialogue_server [OF d] by (simp add: wanted_def)
  show thesis
  proof (cases "r0 = 2 \<and> au ! 0 = 5")
    case False
    with assms r0 have "r = -1" "self' = s1" "w' = w1"
      by (auto simp: hev_socks5_server_read_auth_method_def split: if_splits)
    with d0 that show thesis by blast
  next
    case True
    then have au: "au = [5, au ! 1]" using d0 two_bytes [of au] by auto
    from True assms r0 r1 wm have e: "self' = s2" "w' = w2"
      "r = (if r1 = int (unat (au ! 1)) \<and> wanted self \<in> set ms then uint (wanted self) else -1)"
      by (auto simp: hev_socks5_server_read_auth_method_def Let_def split: if_splits)
    show thesis
    proof (rule that [of "au @ ms"])
      show "dialogue self w [] (au @ ms) self' w'" using d e by simp
      show "r = -1 \<or> (\<exists>ms'. au @ ms = [5, of_nat (length ms')] @ ms' \<and> length ms' < 256 \<and>
          wanted self \<in> set ms' \<and> r = uint (wanted self))"
      proof (cases "r1 = int (unat (au ! 1)) \<and> wanted self \<in> set ms")
        case True
        with d1 have l: "length ms = unat (au ! 1)" using got_all by blast
        have "au @ ms = [5, of_nat (length ms)] @ ms"
          by (subst au) (simp only: of_nat_length_u8 [OF l] append_Cons append_Nil)
        moreover have "length ms < 256" using l unat8_less by simp
        ultimately show ?thesis using True e(3) by (intro disjI2 exI [of _ ms]) simp
      qed (use e in auto)
    qed
  qed
qed

text \<open>With a well-formed authenticator, looking a user up and dropping a reference always return.\<close>

definition server_ok :: "'a hev_socks5_server_scheme \<Rightarrow> addr list \<Rightarrow> bool" where
  "server_ok self xs \<longleftrightarrow>
     (case obj self of AuthObj a \<Rightarrow> auth_ok a (shared self) xs | NoObj \<Rightarrow> True | UserObj _ \<Rightarrow> False)"

lemma auth_ok_refs [simp]: "auth_ok a (s\<lparr>ref_count := f\<rparr>) xs = auth_ok a s xs"
  by (simp add: auth_ok_def)

lemma auth_ok_ref [simp]: "auth_ok a (hev_object_ref u s) xs = auth_ok a s xs"
  by (simp add: hev_object_ref_def)

lemma authenticator_unref_returns:
  "auth_ok a s xs \<Longrightarrow> \<exists>s'. authenticator_unref a s = Some s'"
  using authenticator_clear_ok [of a "s\<lparr>ref_count := (ref_count s)(a := ref_count s a - 1)\<rparr>" xs]
  by (auto simp: authenticator_unref_def hev_socks5_authenticator_destruct_def Let_def)

text \<open>
  The object has exchanged its reference to the authenticator for one to a user of it.
\<close>

definition exchanged :: "'a hev_socks5_server_scheme \<Rightarrow> store \<Rightarrow> held \<Rightarrow> bool" where
  "exchanged self s ob \<longleftrightarrow> (\<exists>a name u. obj self = AuthObj a \<and> ob = UserObj u \<and>
     hev_socks5_authenticator_get a name (shared self) = Some (Some u) \<and>
     authenticator_unref a (hev_object_ref u (shared self)) = Some s)"

definition login_msg :: "bytes \<Rightarrow> bytes \<Rightarrow> bytes" where
  "login_msg name pass = [1, of_nat (length name)] @ name @ [of_nat (length pass)] @ pass"

lemma user_check_ok: "hev_socks5_user_check u pass < 0 \<longleftrightarrow> user_pass u \<noteq> pass"
  by (auto simp: hev_socks5_user_check_def hev_socks5_user_checker_def)

lemma read_user_outcome:
  assumes r: "hev_socks5_server_read_auth_user self w = (r, self', w')"
    and a: "obj self = AuthObj a" "auth_ok a (shared self) xs"
  obtains (fail) rx where "r = -1" "dialogue self w [] rx self' w'"
    | (ok) name pass u s s1 where "r = 0" "dialogue self w [] (login_msg name pass) s1 w'"
      "name \<noteq> []" "pass \<noteq> []" "length name < 256" "length pass < 256"
      "auth_map (shared self) xs name = Some u" "user_pass (users (shared self) u) = pass"
      "authenticator_unref a (hev_object_ref u (shared self)) = Some s"
      "self' = s1\<lparr>shared := s, obj := UserObj u\<rparr>"
proof -
  obtain r0 hd s0 w0 where r0: "server_recv 2 self w = (r0, hd, s0, w0)" by (metis prod_cases4)
  let ?n = "unat (hd ! 1)"
  obtain r1 nm s1 w1 where r1: "server_recv (Suc ?n) s0 w0 = (r1, nm, s1, w1)" by (metis prod_cases4)
  let ?p = "unat (nm ! ?n)"
  obtain r2 ps s2 w2 where r2: "server_recv ?p s1 w1 = (r2, ps, s2, w2)" by (metis prod_cases4)
  note d0 = server_recv_dialogue [OF r0] and d1 = server_recv_dialogue [OF r1] and d2 = server_recv_dialogue [OF r2]
  have d01: "dialogue self w [] (hd @ nm) s1 w1" using dialogue_trans [of self w "[]" hd s0 w0 "[]" nm] d0 d1 by simp
  have d: "dialogue self w [] (hd @ nm @ ps) s2 w2" using dialogue_trans [OF d01, of "[]" ps s2 w2] d2 by simp
  note e = hev_socks5_server_read_auth_user_def [of self w] r0 r1 r2
  show thesis
  proof (cases "r0 = 2 \<and> hd ! 0 = 1 \<and> ?n \<noteq> 0")
    case False
    with r e have "r = -1" "self' = s0" "w' = w0" by (auto simp: Let_def split: if_splits)
    with d0 fail show thesis by blast
  next
    case c0: True
    show thesis
    proof (cases "r1 = int (Suc ?n) \<and> ?p \<noteq> 0")
      case False
      with r e c0 have "r = -1" "self' = s1" "w' = w1" by (auto simp: Let_def split: if_splits)
      with d01 fail show thesis by blast
    next
      case c1: True
      show thesis
      proof (cases "r2 = int ?p")
        case False
        with r e c0 c1 have "r = -1" "self' = s2" "w' = w2" by (auto simp: Let_def split: if_splits)
        with d fail show thesis by blast
      next
        case c2: True
        let ?name = "take ?n nm"
        from dialogue_server [OF d] a have s2: "obj s2 = AuthObj a" "shared s2 = shared self" by auto
        have get: "hev_socks5_authenticator_get a ?name (shared s2) = Some (auth_map (shared self) xs ?name)"
          using authenticator_get_map [OF a(2)] s2 by simp
        have st: "hev_socks5_server_read_auth_user self w =
          (case auth_map (shared self) xs ?name of
             None \<Rightarrow> (-1, s2, w2)
           | Some user \<Rightarrow> if hev_socks5_user_check (users (shared self) user) ps < 0 then (-1, s2, w2)
               else (case authenticator_unref a (hev_object_ref user (shared self)) of
                       None \<Rightarrow> (-1, s2, w2\<lparr>crashed := True\<rparr>)
                     | Some s \<Rightarrow> (0, s2\<lparr>shared := s, obj := UserObj user\<rparr>, w2)))"
          using e c0 c1 c2 get s2 by (simp add: Let_def split: option.split)
        show thesis
        proof (cases "auth_map (shared self) xs ?name")
          case None
          with st r d fail show thesis by auto
        next
          case (Some u)
          from authenticator_unref_returns [of a "hev_object_ref u (shared self)" xs] a(2) obtain s where
            s: "authenticator_unref a (hev_object_ref u (shared self)) = Some s" by auto
          show thesis
          proof (cases "user_pass (users (shared self) u) = ps")
            case False
            with st r d fail Some show thesis by (auto simp: user_check_ok)
          next
            case True
            have l: "length hd = 2" using c0 d0 by auto
            moreover have l: "length nm = Suc ?n" "length ps = ?p" using c1 c2 d1 d2 got_all by blast+
            ultimately have l: "length hd = 2" "length nm = Suc ?n" "length ps = ?p" by simp_all
            then have "hd = [1, hd ! 1]" "nm = ?name @ [nm ! ?n]"
              using two_bytes [of hd] c0 take_Suc_conv_app_nth [of ?n nm] by auto
            then have "hd @ nm @ ps = login_msg ?name ps" using l by (simp add: login_msg_def)
            with d have "dialogue self w [] (login_msg ?name ps) s2 w2" by simp
            moreover have "r = 0" "self' = s2\<lparr>shared := s, obj := UserObj u\<rparr>" "w' = w2"
              using st r Some True s by (auto simp: user_check_ok)
            moreover have "?name \<noteq> []" "ps \<noteq> []" "length ?name < 256" "length ps < 256"
              using l c0 c1 unat8_less [of "hd ! 1"] unat8_less [of "nm ! ?n"] by auto
            ultimately show thesis using Some True s by (intro ok [of ?name ps s2 u s]) simp_all
          qed
        qed
      qed
    qed
  qed
qed

text \<open>
  What a successful authentication means: without an authenticator the client offered method 0;
  with one it offered method 2 and then named a user the authenticator knows, with that user's
  password, and the object now holds the user instead of the authenticator.
\<close>

definition logged_in ::
  "'a hev_socks5_server_scheme \<Rightarrow> addr list \<Rightarrow> bytes \<Rightarrow> 'a hev_socks5_server_scheme \<Rightarrow>
   'a hev_socks5_server_scheme \<Rightarrow> bool" where
  "logged_in self xs rx s1 self' \<longleftrightarrow>
     (case obj self of
        NoObj \<Rightarrow> self' = s1 \<and> (\<exists>ms. rx = [5, of_nat (length ms)] @ ms \<and> length ms < 256 \<and> 0 \<in> set ms)
      | UserObj _ \<Rightarrow> False
      | AuthObj a \<Rightarrow> \<exists>ms name u s. rx = [5, of_nat (length ms)] @ ms @ login_msg name (user_pass (users (shared self) u)) \<and>
          length ms < 256 \<and> 2 \<in> set ms \<and> name \<noteq> [] \<and> length name < 256 \<and>
          user_pass (users (shared self) u) \<noteq> [] \<and> length (user_pass (users (shared self) u)) < 256 \<and>
          auth_map (shared self) xs name = Some u \<and>
          authenticator_unref a (hev_object_ref u (shared self)) = Some s \<and>
          self' = s1\<lparr>shared := s, obj := UserObj u\<rparr>)"

definition with_held :: "store \<Rightarrow> held \<Rightarrow> 'a hev_socks5_server_scheme \<Rightarrow> 'a hev_socks5_server_scheme" where
  "with_held s ob self = self\<lparr>shared := s, obj := ob\<rparr>"

lemma dialogue_held:
  "dialogue (with_held s ob self) w tx rx self' w' \<Longrightarrow>
   \<exists>s1. dialogue self w tx rx s1 w' \<and> self' = with_held s ob s1"
  by (auto simp: dialogue_def with_held_def intro: exI [of _ self] exI [of _ "self\<lparr>timeout := 0\<rparr>"])

lemma server_auth_outcome:
  assumes r: "hev_socks5_server_auth self w = (r, self', w')" and ok: "server_ok self xs"
  obtains tx rx s1 where "dialogue self w tx rx s1 w'" "r = -1 \<or> r = 0"
    "self' = s1 \<or> (\<exists>s u. exchanged self s (UserObj u) \<and> self' = with_held s (UserObj u) s1)"
    "r = 0 \<Longrightarrow> logged_in self xs rx s1 self'"
proof -
  obtain q s0 w0 where q: "hev_socks5_server_read_auth_method self w = (q, s0, w0)" by (metis prod_cases3)
  obtain q1 s1 w1 where q1: "hev_socks5_server_write_auth_method q s0 w0 = (q1, s1, w1)" by (metis prod_cases3)
  obtain q2 s2 w2 where q2: "hev_socks5_server_read_auth_user s1 w1 = (q2, s2, w2)" by (metis prod_cases3)
  obtain q3 s3 w3 where q3: "hev_socks5_server_write_auth_user q2 s2 w2 = (q3, s3, w3)" by (metis prod_cases3)
  from read_method_outcome [OF q] obtain rx where rx: "dialogue self w [] rx s0 w0"
    "q = -1 \<or> (\<exists>ms. rx = [5, of_nat (length ms)] @ ms \<and> length ms < 256 \<and> wanted self \<in> set ms \<and> q = uint (wanted self))" .
  from server_send_dialogue [OF q1 [unfolded hev_socks5_server_write_auth_method_def]] obtain n where
    n: "dialogue s0 w0 (take n [5, word_of_int q]) [] s1 w1" "q1 = 0 \<or> q1 = -1" by blast
  have d1: "dialogue self w (take n [5, word_of_int q]) rx s1 w1" using dialogue_trans [OF rx(1) n(1)] by simp
  have st: "hev_socks5_server_auth self w =
    (if q1 < 0 then (-1, s1, w1) else if q = 0 then (0, s1, w1)
     else if q = 2 then (if q2 < 0 \<or> q3 < 0 then (-1, s3, w3) else (0, s3, w3)) else (-1, s1, w1))"
    using q q1 q2 q3 by (simp add: hev_socks5_server_auth_def)
  show thesis
  proof (cases "q1 = 0 \<and> q = 2")
    case False
    then have e: "self' = s1" "w' = w1" "r = (if q1 = 0 \<and> q = 0 then 0 else -1)"
      using st r n(2) by (auto split: if_splits)
    have "logged_in self xs rx s1 self'" if "r = 0"
    proof -
      from that e(3) have "q = 0" by (simp split: if_splits)
      with rx(2) obtain ms where ms: "rx = [5, of_nat (length ms)] @ ms" "length ms < 256"
        "wanted self \<in> set ms" "uint (wanted self) = 0" by auto
      then have "obj self = NoObj" by (simp add: wanted_def split: if_splits)
      moreover from this have "wanted self = 0" by (simp add: wanted_def)
      ultimately show ?thesis using ms e(1) by (simp add: logged_in_def)
    qed
    then show thesis using d1 e by (intro that [of "take n [5, word_of_int q]" rx s1]) auto
  next
    case True
    then have ob: "obj self \<noteq> NoObj" using rx(2) by (auto simp: wanted_def split: if_splits)
    with ok obtain a where a: "obj self = AuthObj a" "auth_ok a (shared self) xs"
      by (auto simp: server_ok_def split: held.splits)
    from True rx(2) ob obtain ms where ms: "rx = [5, of_nat (length ms)] @ ms" "length ms < 256" "2 \<in> set ms"
      by (auto simp: wanted_def)
    from dialogue_server [OF d1] a have a1: "obj s1 = AuthObj a" "auth_ok a (shared s1) xs" "shared s1 = shared self"
      by auto
    from server_send_dialogue [OF q3 [unfolded hev_socks5_server_write_auth_user_def]] obtain n3 where
      n3: "dialogue s2 w2 (take n3 [1, word_of_int q2]) [] s3 w3" "q3 = 0 \<or> q3 = -1" by blast
    from st r True have e: "self' = s3" "w' = w3" "r = (if q2 < 0 \<or> q3 < 0 then -1 else 0)"
      by (auto split: if_splits)
    show thesis
    proof (cases rule: read_user_outcome [OF q2 a1(1,2)])
      case (1 rx2)
      show thesis using dialogue_trans [OF dialogue_trans [OF d1 1(2)] n3(1)] e 1(1) by (intro that) auto
    next
      case (2 name pass u s s4)
      then have "s2 = with_held s (UserObj u) s4" by (simp add: with_held_def)
      with n3(1) dialogue_held obtain s5 where s5: "dialogue s4 w2 (take n3 [1, word_of_int q2]) [] s5 w3"
        "s3 = with_held s (UserObj u) s5" by metis
      note d = dialogue_trans [OF dialogue_trans [OF d1 2(2)] s5(1)]
      have "logged_in self xs (rx @ login_msg name pass) s5 self'"
        unfolding logged_in_def a(1) held.case
        by (rule exI [of _ ms], rule exI [of _ name], rule exI [of _ u], rule exI [of _ s])
          (use ms 2(3-9) a1(3) e(1) s5(2) in \<open>simp add: with_held_def\<close>)
      moreover have "exchanged self s (UserObj u)"
        using 2(7,9) a authenticator_get_map [OF a(2)] a1(3) by (auto simp: exchanged_def)
      ultimately show thesis using d e s5(2) by (intro that [of _ "rx @ login_msg name pass" s5]) auto
    qed
  qed
qed

end
