(* ===== verification/Server_Handshake.thy ===== *)
theory Server_Handshake
  imports Socks5_Server
begin

text \<open>
  The properties of the server's handshake (\<open>core/src/hev-socks5-server.c\<close>): who gets past the
  authentication, what the client is answered, and what the session owns at every exit.
\<close>

section \<open>Accounting\<close>

text \<open>The descriptors a session has opened for itself.\<close>

definition owned :: "'a hev_socks5_server_scheme \<Rightarrow> int list" where
  "owned self = filter (\<lambda>f. 0 \<le> f) [fd0 self, fd1 self]"

text \<open>
  \<open>accounts\<close>: between two points of a session every descriptor opened and not closed is one the
  object holds, nothing was allocated, nothing crashed, and the union still holds what it held, or
  a user it was exchanged for.
\<close>

definition accounts ::
  "'a hev_socks5_server_scheme \<Rightarrow> world \<Rightarrow> 'a hev_socks5_server_scheme \<Rightarrow> world \<Rightarrow> bool" where
  "accounts self w self' w' \<longleftrightarrow>
     fd self' = fd self \<and> crashed w' = crashed w \<and> live w' = live w \<and>
     (obj self' = obj self \<and> shared self' = shared self \<or> exchanged self (shared self') (obj self')) \<and>
     mset (opened w') + mset (owned self) = mset (opened w) + mset (owned self')"

lemma accounts_refl [simp, intro]: "accounts self w self w"
  by (simp add: accounts_def)

lemma exchanged_once: "exchanged s (shared s') (obj s') \<Longrightarrow> \<not> exchanged s' t ob"
  by (auto simp: exchanged_def)

lemma exchanged_cong:
  "obj s = obj s' \<Longrightarrow> shared s = shared s' \<Longrightarrow> exchanged s t ob = exchanged s' t ob"
  by (simp add: exchanged_def)

lemma accounts_trans [trans]:
  assumes "accounts s w s' w'" "accounts s' w' s'' w''"
  shows "accounts s w s'' w''"
proof -
  let ?o = "\<lambda>w. mset (opened w)" and ?h = "\<lambda>s. mset (owned s)"
  have e: "?o w' + ?h s = ?o w + ?h s'" "?o w'' + ?h s' = ?o w' + ?h s''"
    using assms by (simp_all add: accounts_def)
  have "(?o w'' + ?h s') + ?h s = (?o w' + ?h s) + ?h s''" using e(2) by (simp add: ac_simps)
  then have "(?o w'' + ?h s) + ?h s' = (?o w + ?h s'') + ?h s'" unfolding e(1) by (simp add: ac_simps)
  then have "?o w'' + ?h s = ?o w + ?h s''" by simp
  with assms exchanged_once [of s s'] exchanged_cong [of s' s] show ?thesis by (auto simp: accounts_def)
qed

lemma dialogue_accounts:
  assumes "dialogue self w tx rx self' w'"
  shows "accounts self w self' w'"
  using dialogueD [OF assms] dialogue_server [OF assms] by (auto simp: accounts_def owned_def)

lemma accounts_upd [simp]:
  "accounts self w (self'\<lparr>stype := t\<rparr>) w' = accounts self w self' w'"
  "accounts self w (self'\<lparr>addr_family := f\<rparr>) w' = accounts self w self' w'"
  "accounts self w (self'\<lparr>timeout := n\<rparr>) w' = accounts self w self' w'"
  "accounts (self\<lparr>timeout := n\<rparr>) w self' w' = accounts self w self' w'"
  "accounts self w (hev_socks5_set_timeout self' n) w' = accounts self w self' w'"
  "accounts (hev_socks5_set_timeout self n) w self' w' = accounts self w self' w'"
  by (auto simp: accounts_def owned_def exchanged_def hev_socks5_set_timeout_def)

lemma set_timeout_server [simp]:
  "fd0 (hev_socks5_set_timeout s n) = fd0 s" "fd1 (hev_socks5_set_timeout s n) = fd1 s"
  "obj (hev_socks5_set_timeout s n) = obj s" "shared (hev_socks5_set_timeout s n) = shared s"
  by (simp_all add: hev_socks5_set_timeout_def)

lemma accounts_held [simp]:
  "accounts self w (with_held s (UserObj u) self') w' \<longleftrightarrow>
     fd self' = fd self \<and> crashed w' = crashed w \<and> live w' = live w \<and>
     mset (opened w') + mset (owned self) = mset (opened w) + mset (owned self') \<and>
     (obj self = UserObj u \<and> shared self = s \<or> exchanged self s (UserObj u))"
  by (auto simp: accounts_def with_held_def owned_def)

lemma read_request_outcome:
  assumes "hev_socks5_server_read_request env cmd rep addr self w = ((res, cmd', rep', addr'), self', w')"
  obtains rx s1 fam where "dialogue self w [] rx s1 w'" "self' = s1\<lparr>addr_family := fam\<rparr>" "res = 0 \<or> res = -1"
proof -
  obtain r0 rq s0 w0 where r0: "server_recv 5 self w = (r0, rq, s0, w0)" by (metis prod_cases4)
  let ?n = "if rq ! 3 = 1 then 5 else if rq ! 3 = 4 then 17 else 2 + unat (rq ! 4) :: nat"
  obtain r1 mo s1 w1 where r1: "server_recv ?n s0 w0 = (r1, mo, s1, w1)" by (metis prod_cases4)
  note d0 = server_recv_dialogue [OF r0] and d1 = server_recv_dialogue [OF r1]
  have d: "dialogue self w [] (rq @ mo) s1 w1" using dialogue_trans [of self w "[]" rq s0 w0 "[]" mo] d0 d1 by simp
  have id: "s = s\<lparr>addr_family := addr_family s\<rparr>" for s :: "'a hev_socks5_server_scheme" by simp
  show thesis
  proof (cases "r0 = 5 \<and> rq ! 0 = 5 \<and> (rq ! 3 = 1 \<or> rq ! 3 = 4 \<or> rq ! 3 = 3)")
    case False
    with assms r0 have "self' = s0 \<and> w' = w0 \<and> (res = 0 \<or> res = -1)"
      by (auto simp: hev_socks5_server_read_request_def split: if_splits)
    with d0 that id show thesis by blast
  next
    case True
    with assms r0 r1 have "w' = w1 \<and> (res = 0 \<or> res = -1) \<and> (self' = s1 \<or> (\<exists>fam. self' = s1\<lparr>addr_family := fam\<rparr>))"
      by (simp add: hev_socks5_server_read_request_def hev_socks5_set_addr_family_def Let_def
          split: if_splits prod.splits) blast+
    with d that id show thesis by metis
  qed
qed

abbreviation (input) the_class where
  "the_class sockname tcp udp \<equiv> hev_socks5_server_class sockname tcp udp"

lemma sys_call_frame [simp]:
  "opened (snd (sys_call w)) = opened w" "crashed (snd (sys_call w)) = crashed w"
  "live (snd (sys_call w)) = live w"
  by (simp_all add: sys_call_eq)

lemma socket_frame:
  assumes "hev_socks5_socket t w = (f, w')"
  shows "crashed w' = crashed w" "live w' = live w"
  using assms
  by (auto simp: hev_socks5_socket_def sys_socket_def sys_close_def sys_call_eq Let_def split: if_splits)

lemma close_head [simp]: "opened w = f # os \<Longrightarrow> opened (sys_close f w) = os"
  "crashed (sys_close f w) = crashed w" "live (sys_close f w) = live w"
  by (simp_all add: sys_close_def)

lemma connect_accounts:
  assumes c: "hev_socks5_server_connect m (the_class sn tcp udp) a self w = (r, self', w')" and f: "fd0 self < 0"
  shows "accounts self w self' w' \<and> (r = 0 \<or> r = -1)"
proof -
  obtain g w1 where so: "hev_socks5_socket SOCK_STREAM w = (g, w1)" by (cases "hev_socks5_socket SOCK_STREAM w")
  let ?s = "hev_socks5_set_timeout self (connect_timeout m)"
  obtain c s2 w2 where co: "hev_task_io_socket_connect g a hev_socks5_task_io_yielder ?s w1 = (c, s2, w2)"
    by (metis prod_cases3)
  note so' = socket_opened [OF so] socket_frame [OF so] and co' = connect_frame [OF co]
  have e: "(r, self', w') = (if g < 0 then (-1, self, w1) else if c < 0 then (-1, s2, sys_close g w2)
      else (0, (hev_socks5_set_timeout s2 (tcp_timeout m))\<lparr>fd0 := g\<rparr>, w2))"
    using c so co by (simp add: hev_socks5_server_connect_def hev_socks5_server_class_def server_binder_def
        hev_socks5_bind_def split: if_splits)
  show ?thesis
  proof (cases "g < 0")
    case True
    with e so' show ?thesis by (auto simp: accounts_def)
  next
    case False
    with so' have o1: "opened w1 = g # opened w" by auto
    have o2: "owned s2 = owned self" "obj s2 = obj self" "shared s2 = shared self" "fd0 s2 = fd0 self" "fd1 s2 = fd1 self"
      using co'(4) by (auto simp: owned_def)
    show ?thesis
    proof (cases "c < 0")
      case True
      with e False o1 o2 so' co' show ?thesis by (simp add: accounts_def)
    next
      case False
      with e \<open>\<not> g < 0\<close> o1 o2 so' co' f show ?thesis by (simp add: accounts_def owned_def)
    qed
  qed
qed

lemma udp_bind_frame:
  assumes "hev_socks5_server_udp_bind sn f src self w = (r, src', self', w')"
  shows "self' = self" "opened w' = opened w" "crashed w' = crashed w" "live w' = live w" "r = 0 \<or> r = -1"
  using assms by (auto simp: hev_socks5_server_udp_bind_def sys_call_eq Let_def split: if_splits)

lemma bind_accounts:
  assumes b: "hev_socks5_server_bind (the_class sn tcp udp) a self w = (r, a', self', w')"
    and f: "fd0 self < 0" "fd1 self < 0"
  shows "accounts self w self' w' \<and> (r = 0 \<or> r = -1) \<and> (a = None \<longleftrightarrow> a' = None)"
proof -
  obtain g w1 where so: "hev_socks5_socket SOCK_DGRAM w = (g, w1)" by (cases "hev_socks5_socket SOCK_DGRAM w")
  note so' = socket_opened [OF so] socket_frame [OF so]
  show ?thesis
  proof (cases "g < 0")
    case True
    with b so so' show ?thesis by (auto simp: accounts_def hev_socks5_server_bind_def)
  next
    case g: False
    with so' have o1: "opened w1 = g # opened w" by auto
    let ?s = "self\<lparr>fd0 := g\<rparr>"
    have a1: "accounts self w ?s w1" using o1 so' g f by (simp add: accounts_def owned_def)
    show ?thesis
    proof (cases a)
      case None
      with b so g a1 show ?thesis by (simp add: hev_socks5_server_bind_def)
    next
      case (Some src)
      obtain k w2 where so2: "hev_socks5_socket SOCK_DGRAM w1 = (k, w2)" by (cases "hev_socks5_socket SOCK_DGRAM w1")
      note so2' = socket_opened [OF so2] socket_frame [OF so2]
      show ?thesis
      proof (cases "k < 0")
        case True
        with b so so2 g Some have "r = -1" "a' = a" "self' = ?s" "w' = w2"
          by (simp_all add: hev_socks5_server_bind_def)
        moreover have "accounts ?s w1 ?s w2" using so2' True by (simp add: accounts_def)
        ultimately show ?thesis using a1 Some by (auto intro: accounts_trans)
      next
        case k: False
        with so2' have o2: "opened w2 = k # opened w1" by auto
        obtain q w3 where q: "sys_call w2 = (q, w3)" by (cases "sys_call w2")
        then have q': "opened w3 = opened w2" "crashed w3 = crashed w2" "live w3 = live w2"
          using sys_call_frame [of w2] by simp_all
        obtain r2 src2 s4 w4 where u: "hev_socks5_server_udp_bind sn k src ?s w3 = (r2, src2, s4, w4)"
          by (metis prod_cases4)
        note u' = udp_bind_frame [OF u]
        have e: "(r, a', self', w') = (if q < 0 then (-1, a, ?s, sys_close k w3)
          else if r2 < 0 then (-1, Some src2, ?s, sys_close k w4)
          else (0, Some src2, ?s\<lparr>fd1 := k\<rparr>, w4))"
          using b so so2 g k q u u'(1) Some by (simp add: hev_socks5_server_bind_def hev_socks5_server_class_def Let_def split: if_splits)
        have "accounts ?s w1 self' w'"
          using e o2 q' u' so2' k f by (auto simp: accounts_def owned_def split: if_splits)
        moreover have "(r = 0 \<or> r = -1) \<and> (a' \<noteq> None)" using e Some by (auto split: if_splits)
        ultimately show ?thesis using a1 Some by (auto intro: accounts_trans)
      qed
    qed
  qed
qed

lemma command_accounts:
  assumes c: "server_command m (the_class sn tcp udp) cmd rep a self w = (rep', a', self', w')"
    and f: "fd0 self < 0" "fd1 self < 0"
  shows "accounts self w self' w'"
proof -
  obtain r1 s1 w1 where c1: "hev_socks5_server_connect m (the_class sn tcp udp) a self w = (r1, s1, w1)"
    by (metis prod_cases3)
  obtain r2 a2 s2 w2 where c2: "hev_socks5_server_bind (the_class sn tcp udp) (Some a) self w = (r2, a2, s2, w2)"
    by (metis prod_cases4)
  obtain r3 a3 s3 w3 where c3: "hev_socks5_server_bind (the_class sn tcp udp) None self w = (r3, a3, s3, w3)"
    by (metis prod_cases4)
  from connect_accounts [OF c1 f(1)] bind_accounts [OF c2 f] bind_accounts [OF c3 f] c c1 c2 c3
  show ?thesis by (auto simp: server_command_def split: if_splits)
qed

lemma write_response_dialogue:
  "hev_socks5_server_write_response rep a self w = (r, self', w') \<Longrightarrow> \<exists>tx. dialogue self w tx [] self' w'"
  using server_send_dialogue by (fastforce simp: hev_socks5_server_write_response_def split: prod.splits)

section \<open>A handshake from the outside\<close>

lemma logged_in_timeout [simp]:
  "server_ok (hev_socks5_set_timeout self n) xs = server_ok self xs"
  by (simp add: server_ok_def split: held.split)

lemma logged_in_cong:
  "obj s = obj s' \<Longrightarrow> shared s = shared s' \<Longrightarrow> logged_in s xs rx s1 s2 = logged_in s' xs rx s1 s2"
  by (simp only: logged_in_def)

lemma handshake_outcome:
  assumes h: "hev_socks5_server_handshake m env (the_class sn tcp udp) self w = (r, self', w')"
    and ok: "server_ok self xs" and f: "fd0 self < 0" "fd1 self < 0"
  obtains tx rx s1 s2 w2 where "dialogue (hev_socks5_set_timeout self (tcp_timeout m)) w tx rx s1 w2"
    "accounts self w self' w'" "r = 0 \<or> r = -1"
    "(r = -1 \<and> self' = s2 \<and> w' = w2 \<and> (s2 = s1 \<or> (\<exists>s u. s2 = with_held s (UserObj u) s1))) \<or>
     logged_in self xs rx s1 s2"
proof -
  let ?s = "hev_socks5_set_timeout self (tcp_timeout m)"
  obtain ra s2 w2 where a: "hev_socks5_server_auth ?s w = (ra, s2, w2)" by (metis prod_cases3)
  from ok have oks: "server_ok ?s xs" by simp
  obtain tx rx s1 where d: "dialogue ?s w tx rx s1 w2"
    "ra = -1 \<or> ra = 0" "s2 = s1 \<or> (\<exists>s u. exchanged ?s s (UserObj u) \<and> s2 = with_held s (UserObj u) s1)" "ra = 0 \<Longrightarrow> logged_in ?s xs rx s1 s2"
    by (rule server_auth_outcome [OF a oks]) (rule that; assumption)
  have ex: "exchanged ?s s ob = exchanged self s ob" for s ob by (rule exchanged_cong) simp_all
  have "accounts self w s1 w2" using dialogue_accounts [OF d(1)] by simp
  then have ac: "accounts self w s2 w2" using d(3) unfolding ex
    by (auto simp: with_held_def accounts_def owned_def)
  show thesis
  proof (cases "ra = 0")
    case False
    with h a d(2) have e: "r = -1" "self' = s2" "w' = w2" by (auto simp: hev_socks5_server_handshake_def Let_def)
    from that [OF d(1), of s2] ac e d(3) show thesis by auto
  next
    case True
    with d(4) have li: "logged_in self xs rx s1 s2" using logged_in_cong [of ?s self xs rx s1 s2] by simp
    obtain rr cmd rep ad s3 w3 where rq: "hev_socks5_server_read_request env 0 0 sockaddr_zero s2 w2 =
      ((rr, cmd, rep, ad), s3, w3)" by (metis prod_cases3 prod_cases4)
    from read_request_outcome [OF rq] obtain rx3 s4 fam where q: "dialogue s2 w2 [] rx3 s4 w3"
      "s3 = s4\<lparr>addr_family := fam\<rparr>" "rr = 0 \<or> rr = -1" .
    have ac3: "accounts self w s3 w3" using accounts_trans [OF ac dialogue_accounts [OF q(1)]] q(2) by simp
    have f3: "fd0 s3 < 0" "fd1 s3 < 0"
      using f q d(3) dialogue_server [OF d(1)] dialogue_server [OF q(1)] by (auto simp: with_held_def)
    obtain rep' ad' s5 w5 where c: "server_command m (the_class sn tcp udp) cmd rep ad s3 w3 = (rep', ad', s5, w5)"
      by (metis prod_cases4)
    define t where "t = (if rep = 0 then (rep', ad', s5, w5) else (rep, ad, s3, w3))"
    obtain rep2 ad2 s6 w6 where t: "t = (rep2, ad2, s6, w6)" by (metis prod_cases4)
    have ac6: "accounts self w s6 w6"
      using t ac3 accounts_trans [OF ac3 command_accounts [OF c f3]] by (auto simp: t_def split: if_splits)
    obtain q7 s7 w7 where wr: "hev_socks5_server_write_response rep2 ad2 s6 w6 = (q7, s7, w7)" by (metis prod_cases3)
    from write_response_dialogue [OF wr] obtain tx7 where "dialogue s6 w6 tx7 [] s7 w7" by blast
    from accounts_trans [OF ac6 dialogue_accounts [OF this]] have ac7: "accounts self w s7 w7" .
    have "(r, self', w') = (if rr < 0 then (-1, s3, w3) else if q7 < 0 \<or> rep2 \<noteq> 0 then (-1, s7, w7) else (0, s7, w7))"
    proof (cases "rr < 0")
      case True
      with h a \<open>ra = 0\<close> rq show ?thesis by (simp add: hev_socks5_server_handshake_def)
    next
      case False
      have u: "(let (rep, addr, self, w) = t; (res, self, w) = hev_socks5_server_write_response rep addr self w
         in if res < 0 \<or> rep \<noteq> 0 then (-1, self, w) else (0, self, w)) =
         (if q7 < 0 \<or> rep2 \<noteq> 0 then (-1, s7, w7) else (0, s7, w7))" by (simp add: t wr)
      have "hev_socks5_server_handshake m env (the_class sn tcp udp) self w =
        (let (rep, addr, self, w) = t; (res, self, w) = hev_socks5_server_write_response rep addr self w
         in if res < 0 \<or> rep \<noteq> 0 then (-1, self, w) else (0, self, w))"
        using a \<open>ra = 0\<close> rq False c
        by (cases "rep = 0") (simp_all add: hev_socks5_server_handshake_def t_def)
      with h False show ?thesis unfolding u by (simp only: if_False)
    qed
    then have "accounts self w self' w'" "r = 0 \<or> r = -1" using ac3 ac7 by (auto split: if_splits)
    with that [OF d(1)] li show thesis by blast
  qed
qed

text \<open>
  C26: A server that was given an authenticator opens no socket, connects nowhere and does not
  succeed unless the first bytes the client has sent are a method list that contains 2 followed by
  the name and the password of a user the authenticator knows: whatever else arrives, however it
  is cut into segments, and whatever the other tasks do meanwhile, the handshake fails with -1 and
  has touched nothing but its own connection.
\<close>
theorem server_requires_auth:
  assumes "hev_socks5_server_handshake m env (hev_socks5_server_class sn tcp udp) self w = (r, self', w')"
    and "obj self = AuthObj a" "auth_ok a (shared self) xs" "fd0 self < 0" "fd1 self < 0"
  shows "(r = -1 \<and> opened w' = opened w \<and> sys w' = sys w \<and> peer w' = peer w \<and> owned self' = []) \<or>
    (\<exists>ms name u rest. rx_bytes (rxq w (fd self)) =
         [5, of_nat (length ms)] @ ms @ login_msg name (user_pass (users (shared self) u)) @ rest \<and>
       2 \<in> set ms \<and> auth_map (shared self) xs name = Some u)"
proof -
  have ok: "server_ok self xs" using assms(2,3) by (simp add: server_ok_def)
  let ?s = "hev_socks5_set_timeout self (tcp_timeout m)"
  from handshake_outcome [OF assms(1) ok assms(4,5)] obtain tx rx s1 s2 w2 where
    d: "dialogue ?s w tx rx s1 w2" and
    c: "(r = -1 \<and> self' = s2 \<and> w' = w2 \<and> (s2 = s1 \<or> (\<exists>s u. s2 = with_held s (UserObj u) s1))) \<or>
     logged_in self xs rx s1 s2" by metis
  from c show ?thesis
  proof
    assume "r = -1 \<and> self' = s2 \<and> w' = w2 \<and> (s2 = s1 \<or> (\<exists>s u. s2 = with_held s (UserObj u) s1))"
    with dialogueD [OF d] dialogue_server [OF d] assms(4,5) show ?thesis
      by (auto simp: owned_def with_held_def)
  next
    assume "logged_in self xs rx s1 s2"
    then obtain ms name u where m: "rx = [5, of_nat (length ms)] @ ms @ login_msg name (user_pass (users (shared self) u))"
      "2 \<in> set ms" "auth_map (shared self) xs name = Some u"
      unfolding logged_in_def assms(2) held.case by blast
    have "rx_bytes (rxq w (fd self)) = rx @ rx_bytes (rxq w2 (fd self))" using dialogueD(8) [OF d] by simp
    then have "rx_bytes (rxq w (fd self)) = [5, of_nat (length ms)] @ ms @
        login_msg name (user_pass (users (shared self) u)) @ rx_bytes (rxq w2 (fd self))"
      by (simp add: m(1))
    with m(2,3) show ?thesis by blast
  qed
qed

text \<open>The addresses of the authenticator and of its users are distinct, and each user is referenced.\<close>

definition counted :: "'a hev_socks5_server_scheme \<Rightarrow> addr list \<Rightarrow> bool" where
  "counted self xs \<longleftrightarrow> (\<forall>a. obj self = AuthObj a \<longrightarrow> a \<notin> set xs) \<and> (\<forall>u \<in> set xs. 1 \<le> ref_count (shared self) u)"

lemma held_given_back:
  assumes ac: "accounts self w self' w'" and ok: "server_ok self xs" "counted self xs"
  shows "\<exists>s s0. held_unref (obj self') (shared self') = Some s \<and> held_unref (obj self) (shared self) = Some s0 \<and>
    same_objects s s0"
proof -
  consider "obj self' = obj self \<and> shared self' = shared self" | "exchanged self (shared self') (obj self')"
    using ac by (auto simp: accounts_def)
  then show ?thesis
  proof cases
    case 1
    with ok(1) authenticator_unref_returns show ?thesis
      by (fastforce simp: held_unref_def server_ok_def split: held.splits)
  next
    case 2
    then obtain a name u where e: "obj self = AuthObj a" "obj self' = UserObj u"
      "hev_socks5_authenticator_get a name (shared self) = Some (Some u)"
      "authenticator_unref a (hev_object_ref u (shared self)) = Some (shared self')"
      by (auto simp: exchanged_def)
    have ok': "auth_ok a (shared self) xs" using ok(1) e(1) by (simp add: server_ok_def)
    then have u: "u \<in> set xs" using e(3) authenticator_get_map auth_map_Some by fastforce
    from unref_by_way_of_user [OF ok' _ u _ e(4)] ok(2) u e(1,2) show ?thesis
      by (auto simp: counted_def held_unref_def)
  qed
qed

text \<open>
  C28: Whatever the outcome of the handshake, destroying the session closes every descriptor it has
  opened and its connection and nothing else, frees its own block, and no step dereferenced NULL or
  left memory allocated. What it holds is given back exactly once: whether it still holds the
  authenticator or, after a login, a user in its place, in the end the count of every shared object
  is what it would be had the session only dropped the reference it was given, and the same objects
  have been destroyed, each as often.
\<close>
theorem server_releases_all:
  assumes "hev_socks5_server_handshake m env (hev_socks5_server_class sn tcp udp) self w = (r, self', w')"
    and "server_ok self xs" "counted self xs" "fd0 self < 0" "fd1 self < 0" "0 \<le> fd self"
  shows "\<exists>s w2 s0. hev_socks5_server_destruct self' w' = Some (s, w2) \<and>
    held_unref (obj self) (shared self) = Some s0 \<and> ref_count s = ref_count s0 \<and>
    mset (destroyed s) = mset (destroyed s0) \<and>
    mset (opened w2) = mset (opened w) - {#fd self#} \<and> crashed w2 = crashed w \<and> live w2 = live w - 1"
proof -
  from handshake_outcome [OF assms(1,2,4,5)] have ac: "accounts self w self' w'" by metis
  have mo: "mset (opened w') = mset (opened w) + mset (owned self')"
    using ac assms(4,5) by (simp add: accounts_def owned_def)
  from held_given_back [OF ac assms(2,3)] obtain s s0 where s: "held_unref (obj self') (shared self') = Some s"
    "held_unref (obj self) (shared self) = Some s0" "same_objects s s0" by blast
  have fd: "fd self' = fd self" "crashed w' = crashed w" "live w' = live w" using ac by (auto simp: accounts_def)
  show ?thesis
    using s mo fd assms(6)
    by (auto simp: hev_socks5_server_destruct_def hev_socks5_destruct_def sys_close_def hev_free_def owned_def Let_def
        same_objects_def split: if_splits)
qed

section \<open>A client that speaks the protocol\<close>

lemma server_recv_ready:
  assumes "ready self w (xs @ rest)" "length xs = n" "0 < n"
  obtains w' where "server_recv n self w = (int n, xs, self, w')" "ready self w' rest"
    "dialogue self w [] xs self w'"
  using recv_ready [OF assms] recv_dialogue unfolding server_recv_def by metis

lemma server_send_ready:
  assumes "ready self w rest" "buf \<noteq> []"
  obtains w' where "server_send buf self w = (0, self, w')" "ready self w' rest" "dialogue self w buf [] self w'"
proof -
  from assms(1) have "tx_flows (txq w (fd self))" by (simp add: ready_def)
  from send_flows_dialogue [OF this assms(2)] obtain w' where w': "dialogue self w buf [] self w'" "rx_sim self w self w'"
    "hev_task_io_socket_send (fd self) buf True False hev_socks5_task_io_yielder self w = (int (length buf), self, w')"
    by metis
  with assms(2) ready_send [OF assms(1) w'(1,2)] show thesis
    by (intro that [of w']) (auto simp: server_send_def)
qed

lemma ready_held [simp]: "ready (with_held s ob self) w rest = ready self w rest"
  by (simp add: ready_def with_held_def)

lemma read_method_ready:
  assumes "ready self w (([5, of_nat (length ms)] @ ms) @ rest)" "wanted self \<in> set ms" "length ms < 256"
  obtains w' where "hev_socks5_server_read_auth_method self w = (uint (wanted self), self, w')"
    "ready self w' rest" "dialogue self w [] ([5, of_nat (length ms)] @ ms) self w'"
proof -
  have "ready self w ([5, of_nat (length ms)] @ (ms @ rest))" using assms(1) by simp
  from server_recv_ready [OF this, of 2] obtain w1 where
    a: "server_recv 2 self w = (2, [5, of_nat (length ms)], self, w1)" "ready self w1 (ms @ rest)"
      "dialogue self w [] [5, of_nat (length ms)] self w1" by auto
  have ne: "0 < length ms" using assms(2) by auto
  from server_recv_ready [OF a(2) refl ne] obtain w2 where
    b: "server_recv (length ms) self w1 = (int (length ms), ms, self, w2)" "ready self w2 rest"
      "dialogue self w1 [] ms self w2" by auto
  have "hev_socks5_server_read_auth_method self w = (uint (wanted self), self, w2)"
    using a(1) b(1) assms(2,3) by (simp add: hev_socks5_server_read_auth_method_def wanted_def)
  with b(2) dialogue_trans [OF a(3) b(3)] that show thesis by simp
qed

lemma read_user_ready:
  assumes "ready self w (login_msg name pass @ rest)" "obj self = AuthObj a" "auth_ok a (shared self) xs"
    "auth_map (shared self) xs name = Some u" "user_pass (users (shared self) u) = pass"
    "name \<noteq> []" "length name < 256" "pass \<noteq> []" "length pass < 256"
    "authenticator_unref a (hev_object_ref u (shared self)) = Some s"
  obtains w' where "hev_socks5_server_read_auth_user self w = (0, with_held s (UserObj u) self, w')"
    "ready self w' rest" "dialogue self w [] (login_msg name pass) self w'"
proof -
  have "ready self w ([1, of_nat (length name)] @ ((name @ [of_nat (length pass)]) @ (pass @ rest)))"
    using assms(1) by (simp add: login_msg_def)
  from server_recv_ready [OF this, of 2] obtain w1 where
    a: "server_recv 2 self w = (2, [1, of_nat (length name)], self, w1)"
      "ready self w1 ((name @ [of_nat (length pass)]) @ (pass @ rest))"
      "dialogue self w [] [1, of_nat (length name)] self w1" by auto
  from server_recv_ready [OF a(2), of "Suc (length name)"] obtain w2 where
    b: "server_recv (Suc (length name)) self w1 = (int (Suc (length name)), name @ [of_nat (length pass)], self, w2)"
      "ready self w2 (pass @ rest)" "dialogue self w1 [] (name @ [of_nat (length pass)]) self w2" by auto
  from server_recv_ready [OF b(2), of "length pass"] assms(8) obtain w3 where
    c: "server_recv (length pass) self w2 = (int (length pass), pass, self, w3)"
      "ready self w3 rest" "dialogue self w2 [] pass self w3" by auto
  have get: "hev_socks5_authenticator_get a name (shared self) = Some (Some u)"
    using authenticator_get_map [OF assms(3)] assms(4) by simp
  have "\<not> hev_socks5_user_check (users (shared self) u) pass < 0" using assms(5) by (simp add: user_check_ok)
  then have "hev_socks5_server_read_auth_user self w = (0, with_held s (UserObj u) self, w3)"
    using a(1) b(1) c(1) get assms(2,6-10)
    by (simp add: hev_socks5_server_read_auth_user_def with_held_def)
  moreover have "dialogue self w [] (login_msg name pass) self w3"
    using dialogue_trans [OF dialogue_trans [OF a(3) b(3)] c(3)] by (simp add: login_msg_def)
  ultimately show thesis using c(2) that by blast
qed

text \<open>What the server answers to a client it lets in.\<close>

definition greeting :: "'a hev_socks5_server_scheme \<Rightarrow> bytes" where
  "greeting self = (if obj self = NoObj then [5, 0] else [5, 2, 1, 0])"

lemma server_auth_ready:
  assumes r: "ready self w (hello @ rest)" and ok: "server_ok self xs" and l: "logged_in self xs hello self self'"
  obtains w' where "hev_socks5_server_auth self w = (0, self', w')" "ready self' w' rest"
    "\<exists>s1. dialogue self w (greeting self) hello s1 w'"
proof (cases "obj self")
  case NoObj
  with l obtain ms where ms: "hello = [5, of_nat (length ms)] @ ms" "length ms < 256" "0 \<in> set ms" "self' = self"
    by (auto simp: logged_in_def)
  have wa: "wanted self = 0" using NoObj by (simp add: wanted_def)
  from read_method_ready [OF r [unfolded ms(1)]] ms(2,3) wa obtain w1 where
    a: "hev_socks5_server_read_auth_method self w = (0, self, w1)" "ready self w1 rest"
      "dialogue self w [] hello self w1" using ms(1) by auto
  from server_send_ready [OF a(2), of "[5, 0]"] obtain w2 where
    b: "server_send [5, 0] self w1 = (0, self, w2)" "ready self w2 rest" "dialogue self w1 [5, 0] [] self w2" by auto
  have "hev_socks5_server_auth self w = (0, self', w2)"
    using a(1) b(1) ms(4) by (simp add: hev_socks5_server_auth_def hev_socks5_server_write_auth_method_def)
  with b(2) dialogue_trans [OF a(3) b(3)] NoObj ms(4) that show thesis by (auto simp: greeting_def)
next
  case (UserObj u)
  with l show thesis by (simp add: logged_in_def)
next
  case (AuthObj a)
  with l obtain ms name u s where ms: "hello = [5, of_nat (length ms)] @ ms @ login_msg name (user_pass (users (shared self) u))"
    "length ms < 256" "2 \<in> set ms" and nm: "name \<noteq> []" "length name < 256"
    "user_pass (users (shared self) u) \<noteq> []" "length (user_pass (users (shared self) u)) < 256"
    "auth_map (shared self) xs name = Some u"
    "authenticator_unref a (hev_object_ref u (shared self)) = Some s" "self' = with_held s (UserObj u) self"
    unfolding logged_in_def AuthObj held.case with_held_def by blast
  let ?lm = "login_msg name (user_pass (users (shared self) u))"
  have aok: "auth_ok a (shared self) xs" using ok AuthObj by (simp add: server_ok_def)
  have wa: "wanted self = 2" using AuthObj by (simp add: wanted_def)
  have "ready self w (([5, of_nat (length ms)] @ ms) @ (?lm @ rest))" using r ms(1) by simp
  from read_method_ready [OF this] ms(2,3) wa obtain w1 where
    a: "hev_socks5_server_read_auth_method self w = (2, self, w1)" "ready self w1 (?lm @ rest)"
      "dialogue self w [] ([5, of_nat (length ms)] @ ms) self w1" by auto
  from server_send_ready [OF a(2), of "[5, 2]"] obtain w2 where
    b: "server_send [5, 2] self w1 = (0, self, w2)" "ready self w2 (?lm @ rest)" "dialogue self w1 [5, 2] [] self w2"
    by auto
  from read_user_ready [OF b(2) AuthObj aok nm(5) refl nm(1-4) nm(6)] obtain w3 where
    c: "hev_socks5_server_read_auth_user self w2 = (0, self', w3)" "ready self w3 rest"
      "dialogue self w2 [] ?lm self w3" using nm(7) by metis
  have "ready self' w3 rest" using c(2) nm(7) by simp
  from server_send_ready [OF this, of "[1, 0]"] obtain w4 where
    d: "server_send [1, 0] self' w3 = (0, self', w4)" "ready self' w4 rest" "dialogue self' w3 [1, 0] [] self' w4" by auto
  from dialogue_held [OF d(3) [unfolded nm(7)]] obtain s1 where d4: "dialogue self w3 [1, 0] [] s1 w4" by blast
  have "hev_socks5_server_auth self w = (0, self', w4)"
    using a(1) b(1) c(1) d(1)
    by (simp add: hev_socks5_server_auth_def hev_socks5_server_write_auth_method_def
        hev_socks5_server_write_auth_user_def)
  moreover have "dialogue self w (greeting self) hello s1 w4"
    using dialogue_trans [OF dialogue_trans [OF dialogue_trans [OF a(3) b(3)] c(3)] d4] AuthObj ms(1)
    by (simp add: greeting_def)
  ultimately show thesis using d(2) that by blast
qed

section \<open>The answer to the request\<close>

lemma read_request_ready:
  assumes r: "ready self w ([5, cmd, 0] @ encode_ep ep @ rest)" and wf: "ep_wf ep"
    and t: "hev_socks5_addr_into_sockaddr6 env (encode_ep ep) ad (addr_family self) = (res, ad', fam)"
  obtains w' where "hev_socks5_server_read_request env c rp ad self w =
      (if res < 0 then ((0, c, 8, ad'), self, w') else ((0, uint cmd, rp, ad'), self\<lparr>addr_family := fam\<rparr>, w'))"
    "ready self w' rest" "dialogue self w [] ([5, cmd, 0] @ encode_ep ep) self w'"
proof -
  have "2 \<le> length (encode_ep ep)" by (cases ep) auto
  then obtain x0 x1 d where e: "encode_ep ep = x0 # x1 # d"
    by (cases "encode_ep ep"; cases "tl (encode_ep ep)") auto
  define n where "n = (if x0 = 1 then 5 else if x0 = 4 then 17 else 2 + unat x1 :: nat)"
  have le: "length d = n" "0 < n" "x0 = 1 \<or> x0 = 4 \<or> x0 = 3"
  proof -
    have "length (encode_ep ep) = length d + 2" "encode_ep ep ! 0 = x0" "encode_ep ep ! 1 = x1"
      by (simp_all add: e)
    then show "length d = n" "0 < n" "x0 = 1 \<or> x0 = 4 \<or> x0 = 3"
      using wf by (cases ep; force simp: n_def)+
  qed
  have "ready self w ([5, cmd, 0, x0, x1] @ (d @ rest))" using r by (simp add: e)
  from server_recv_ready [OF this, of 5] obtain w1 where
    a: "server_recv 5 self w = (5, [5, cmd, 0, x0, x1], self, w1)" "ready self w1 (d @ rest)"
      "dialogue self w [] [5, cmd, 0, x0, x1] self w1" by auto
  from server_recv_ready [OF a(2) le(1,2)] obtain w2 where
    b: "server_recv n self w1 = (int n, d, self, w2)" "ready self w2 rest" "dialogue self w1 [] d self w2" by auto
  have "hev_socks5_server_read_request env c rp ad self w =
      (if res < 0 then ((0, c, 8, ad'), self, w2) else ((0, uint cmd, rp, ad'), self\<lparr>addr_family := fam\<rparr>, w2))"
    using le(3) a(1) b(1) [unfolded n_def] t [unfolded e]
    by (elim disjE) (simp_all add: hev_socks5_server_read_request_def hev_socks5_get_addr_family_def
        hev_socks5_set_addr_family_def)
  with b(2) dialogue_trans [OF a(3) b(3)] e that show thesis by simp
qed

text \<open>The commands leave the connection of the session alone.\<close>

definition same_stream :: "world \<Rightarrow> world \<Rightarrow> bool" where
  "same_stream w w' \<longleftrightarrow> rxq w' = rxq w \<and> txq w' = txq w \<and> wire w' = wire w"

lemma same_stream_simps [simp, intro]:
  "same_stream w w" "same_stream w (sys_close f w') = same_stream w w'"
  "same_stream w (snd (sys_call w)) "
  by (simp_all add: same_stream_def sys_close_def sys_call_eq)

lemma same_stream_trans: "same_stream w w' \<Longrightarrow> same_stream w' w'' \<Longrightarrow> same_stream w w''"
  by (simp add: same_stream_def)

lemma socket_same_stream: "hev_socks5_socket t w = (f, w') \<Longrightarrow> same_stream w w'"
  by (auto simp: hev_socks5_socket_def sys_socket_def sys_close_def sys_call_eq same_stream_def Let_def
      split: if_splits)

lemma connect_same_stream:
  assumes "hev_task_io_socket_connect f sa hev_socks5_task_io_yielder self w = (c, self', w')"
  shows "same_stream w w'" "fd self' = fd self"
proof -
  from assms obtain cs w1 where l: "connect_loop hev_socks5_task_io_yielder (sys w) self
      (w\<lparr>peer := (peer w)(f \<mapsto> sa)\<rparr>) = (c, cs, self', w1)" and w': "w' = w1\<lparr>sys := cs\<rparr>"
    by (auto simp: hev_task_io_socket_connect_def split: prod.splits)
  from waited_fields [OF connect_loop_waited [OF l]] w' show "same_stream w w'" "fd self' = fd self"
    by (simp_all add: same_stream_def)
qed

lemma udp_bind_stream:
  "hev_socks5_server_udp_bind sn f src self w = (r, src', self', w') \<Longrightarrow>
   same_stream w w' \<and> (r = 0 \<longrightarrow> src' = sn f) \<and> (src' = src \<or> src' = (sn (fd self))\<lparr>sin6_port := 0\<rparr> \<or> src' = sn f)"
  by (auto simp: hev_socks5_server_udp_bind_def sys_call_eq same_stream_def Let_def split: if_splits)

lemma server_connect_result:
  assumes c: "hev_socks5_server_connect m (the_class sn tcp udp) a self w = (r, self', w')" and f: "fd0 self < 0"
  shows "same_stream w w' \<and> fd self' = fd self \<and>
    (r = 0 \<and> 0 \<le> fd0 self' \<and> peer w' (fd0 self') = Some a \<or> r = -1 \<and> fd0 self' < 0)"
proof -
  obtain g w1 where so: "hev_socks5_socket SOCK_STREAM w = (g, w1)" by (cases "hev_socks5_socket SOCK_STREAM w")
  let ?s = "hev_socks5_set_timeout self (connect_timeout m)"
  obtain c s2 w2 where co: "hev_task_io_socket_connect g a hev_socks5_task_io_yielder ?s w1 = (c, s2, w2)"
    by (metis prod_cases3)
  have e: "(r, self', w') = (if g < 0 then (-1, self, w1) else if c < 0 then (-1, s2, sys_close g w2)
      else (0, (hev_socks5_set_timeout s2 (tcp_timeout m))\<lparr>fd0 := g\<rparr>, w2))"
    using c so co by (simp add: hev_socks5_server_connect_def hev_socks5_server_class_def server_binder_def
        hev_socks5_bind_def split: if_splits)
  have ss: "same_stream w w1" "same_stream w w2"
    using socket_same_stream [OF so] connect_same_stream(1) [OF co] same_stream_trans by blast+
  have "fd0 s2 = fd0 self" using connect_frame(4) [OF co] by auto
  with e ss f connect_frame(2,3) [OF co] show ?thesis by (auto split: if_splits)
qed

lemma server_bind_result:
  assumes b: "hev_socks5_server_bind (the_class sn tcp udp) a self w = (r, a', self', w')"
    and f: "fd0 self < 0" "fd1 self < 0"
  shows "same_stream w w' \<and> fd self' = fd self \<and>
    (case a of None \<Rightarrow> (r = 0 \<and> 0 \<le> fd0 self' \<or> r = -1 \<and> fd0 self' < 0) \<and> fd1 self' < 0
     | Some src \<Rightarrow> (r = 0 \<and> 0 \<le> fd1 self' \<or> r = -1 \<and> fd1 self' < 0) \<and>
         (\<exists>k. a' \<in> {Some src, Some ((sn (fd self))\<lparr>sin6_port := 0\<rparr>), Some (sn k)}))"
proof -
  obtain g w1 where so: "hev_socks5_socket SOCK_DGRAM w = (g, w1)" by (cases "hev_socks5_socket SOCK_DGRAM w")
  let ?s = "self\<lparr>fd0 := g\<rparr>"
  obtain k w2 where so2: "hev_socks5_socket SOCK_DGRAM w1 = (k, w2)" by (cases "hev_socks5_socket SOCK_DGRAM w1")
  obtain q w3 where q: "sys_call w2 = (q, w3)" by (cases "sys_call w2")
  obtain r2 src2 s4 w4 where u: "hev_socks5_server_udp_bind sn k (the a) ?s w3 = (r2, src2, s4, w4)"
    by (metis prod_cases4)
  note u' = udp_bind_frame [OF u] udp_bind_stream [OF u]
  have e: "(r, a', self', w') = (if g < 0 then (-1, a, self, w1) else
      case a of None \<Rightarrow> (0, None, ?s, w1)
      | Some _ \<Rightarrow> if k < 0 then (-1, a, ?s, w2) else if q < 0 then (-1, a, ?s, sys_close k w3)
          else if r2 < 0 then (-1, Some src2, ?s, sys_close k w4) else (0, Some src2, ?s\<lparr>fd1 := k\<rparr>, w4))"
    using b so so2 q u u'(1)
    by (cases a) (simp_all add: hev_socks5_server_bind_def hev_socks5_server_class_def Let_def split: if_splits)
  have "same_stream w2 w3" using same_stream_simps(3) [of w2] q by simp
  then have ss: "same_stream w w1" "same_stream w w2" "same_stream w w3" "same_stream w w4"
    using socket_same_stream [OF so] socket_same_stream [OF so2] u'(6) same_stream_trans by metis+
  show ?thesis
  proof (cases a)
    case None
    with e ss f show ?thesis by (auto split: if_splits)
  next
    case (Some src)
    with e ss f u'(6) show ?thesis by (auto split: if_splits)
  qed
qed

lemma into_sockaddr6_length:
  assumes "hev_socks5_addr_into_sockaddr6 env a ad f = (res, ad', fam)" "env_ok env" "length (sin6_addr ad) = 16"
  shows "length (sin6_addr ad') = 16"
proof -
  have p: "length (patch k xs b) = 16" if "length b = 16" "k + length xs \<le> 16" for k xs and b :: bytes
    using that by simp
  have l: "length (bslice k n a) \<le> n" for k n by (simp add: bslice_def)
  show ?thesis
    using assms l [of 1 4] l [of 1 16]
    by (auto simp: hev_socks5_addr_into_sockaddr6_def hev_socks5_ipv4_into_sockaddr6_def
        hev_socks5_ipv6_into_sockaddr6_def hev_socks5_name_into_sockaddr6_def Let_def env_ok_def
        hev_socks5_name_resolve_ipv4_def hev_socks5_name_resolve_ipv6_def ipv4_addr_def ipv6_addr_def
        hev_socks5_name_resolve_name_def split: option.splits gai_result.splits if_splits)
qed

lemma server_send_writable:
  assumes "tx_flows (txq w (fd self))" "buf \<noteq> []"
  obtains w' where "server_send buf self w = (0, self, w')" "rx_bytes (rxq w' (fd self)) = rx_bytes (rxq w (fd self))"
    "dialogue self w buf [] self w'"
proof -
  from send_flows_dialogue [OF assms] obtain w' where w': "dialogue self w buf [] self w'" "rxq w' = rxq w"
    "hev_task_io_socket_send (fd self) buf True False hev_socks5_task_io_yielder self w = (int (length buf), self, w')"
    by metis
  with assms(2) show thesis by (intro that [of w']) (auto simp: server_send_def)
qed

lemma write_response_writable:
  assumes r: "tx_flows (txq w (fd self))" and l: "length (sin6_addr a) = 16"
  obtains w' where "hev_socks5_server_write_response rp a self w = (0, self, w')" "rx_bytes (rxq w' (fd self)) = rx_bytes (rxq w (fd self))"
    "dialogue self w ([5, rp, 0] @ encode_ep (sockaddr_ep a)) [] self w'"
proof -
  let ?e = "encode_ep (sockaddr_ep a)"
  obtain ret b where fa: "hev_socks5_addr_from_sockaddr6 (replicate addr_size 0) a = (ret, b)" by fastforce
  from from_sockaddr6_encodes [of "replicate addr_size 0" a] l fa have
    "ret = int (length ?e)" "take (length ?e) b = ?e" by auto
  then have m: "take (nat (3 + ret)) ([5, rp, 0] @ b) = [5, rp, 0] @ ?e"
    by (simp add: nat_add_distrib numeral_3_eq_3)
  from server_send_writable [OF r, of "[5, rp, 0] @ ?e"] that m fa show thesis
    by (auto simp: hev_socks5_server_write_response_def)
qed

text \<open>The reply code for a command, given what the session then holds.\<close>

definition reply_code :: "u8 \<Rightarrow> 'a hev_socks5_server_scheme \<Rightarrow> u8" where
  "reply_code cmd self =
     (if cmd = 1 then if 0 \<le> fd0 self then 0 else 4
      else if cmd = 3 then if 0 \<le> fd1 self then 0 else 1
      else if cmd = 5 then if 0 \<le> fd0 self then 0 else 1
      else 7)"

lemma server_command_result:
  assumes c: "server_command m (the_class sn tcp udp) (uint (cmd :: u8)) 0 a self w = (rp, a', self', w')"
    and f: "fd0 self < 0" "fd1 self < 0" and l: "length (sin6_addr a) = 16" "\<And>k. length (sin6_addr (sn k)) = 16"
  shows "same_stream w w' \<and> fd self' = fd self \<and> length (sin6_addr a') = 16 \<and> rp = reply_code cmd self' \<and>
    (cmd = 1 \<and> rp = 0 \<longrightarrow> peer w' (fd0 self') = Some a \<and> a' = a)"
proof -
  obtain r1 s1 w1 where c1: "hev_socks5_server_connect m (the_class sn tcp udp) a self w = (r1, s1, w1)"
    by (metis prod_cases3)
  obtain r2 a2 s2 w2 where c2: "hev_socks5_server_bind (the_class sn tcp udp) (Some a) self w = (r2, a2, s2, w2)"
    by (metis prod_cases4)
  obtain r3 a3 s3 w3 where c3: "hev_socks5_server_bind (the_class sn tcp udp) None self w = (r3, a3, s3, w3)"
    by (metis prod_cases4)
  have u: "uint cmd = uint k \<longleftrightarrow> cmd = k" for k :: u8 by (simp add: word_uint_eq_iff)
  note res = server_connect_result [OF c1 f(1)] server_bind_result [OF c2 f] server_bind_result [OF c3 f]
  consider "cmd = 1" | "cmd = 3" | "cmd = 5" | "cmd \<noteq> 1" "cmd \<noteq> 3" "cmd \<noteq> 5" by blast
  then show ?thesis
  proof cases
    case 4
    with c f l show ?thesis unfolding server_command_def u by (simp add: reply_code_def)
  next
    case 1
    with c c1 res(1) l show ?thesis unfolding server_command_def u by (auto simp: reply_code_def)
  next
    case 2
    with c c2 res(2) l show ?thesis unfolding server_command_def u by (auto simp: reply_code_def)
  next
    case 3
    with c c3 res(3) l show ?thesis unfolding server_command_def u by (auto simp: reply_code_def)
  qed
qed

lemma server_answers:
  assumes h: "hev_socks5_server_handshake m env (hev_socks5_server_class sn tcp udp) self w = (r, self', w')"
    and r: "ready (hev_socks5_set_timeout self (tcp_timeout m)) w (hello @ [5, cmd, 0] @ encode_ep ep @ rest)" and wf: "ep_wf ep"
    and ok: "server_ok self xs" and li: "logged_in self xs hello (hev_socks5_set_timeout self (tcp_timeout m)) s2"
    and f: "fd0 self < 0" "fd1 self < 0" and e: "env_ok env" and l: "\<And>k. length (sin6_addr (sn k)) = 16"
    and t: "hev_socks5_addr_into_sockaddr6 env (encode_ep ep) sockaddr_zero (addr_family self) = (res, target, fam)"
  shows "\<exists>rp bnd ad. wire w' (fd self) = wire w (fd self) @ greeting self @ [5, rp, 0] @ encode_ep bnd \<and>
    bnd = sockaddr_ep ad \<and> length (sin6_addr ad) = 16 \<and>
    rx_bytes (rxq w' (fd self)) = rest \<and> r = (if rp = 0 then 0 else -1) \<and>
    rp = (if res < 0 then 8 else reply_code cmd self') \<and>
    (cmd = 1 \<and> rp = 0 \<longrightarrow> peer w' (fd0 self') = Some target \<and> bnd = sockaddr_ep target)"
proof -
  let ?s = "hev_socks5_set_timeout self (tcp_timeout m)" and ?K = "the_class sn tcp udp"
  have rs: "ready ?s w (hello @ ([5, cmd, 0] @ encode_ep ep @ rest))" using r by simp
  have ls: "logged_in ?s xs hello ?s s2" using li logged_in_cong [of ?s self] by simp
  have oks: "server_ok ?s xs" using ok by simp
  have g: "greeting ?s = greeting self" by (simp add: greeting_def)
  from server_auth_ready [OF rs oks ls] obtain w1 s1 where a: "hev_socks5_server_auth ?s w = (0, s2, w1)"
    "ready s2 w1 ([5, cmd, 0] @ encode_ep ep @ rest)" and da: "dialogue ?s w (greeting self) hello s1 w1"
    unfolding g by blast
  have s2: "fd s2 = fd self" "addr_family s2 = addr_family self" "fd0 s2 < 0" "fd1 s2 < 0"
    using ls f by (auto simp: logged_in_def split: held.splits)
  have t2: "hev_socks5_addr_into_sockaddr6 env (encode_ep ep) sockaddr_zero (addr_family s2) = (res, target, fam)"
    using t s2 by simp
  from read_request_ready [OF a(2) wf t2, of 0 0] obtain w2 where
    q: "hev_socks5_server_read_request env 0 0 sockaddr_zero s2 w1 =
      (if res < 0 then ((0, 0, 8, target), s2, w2) else ((0, uint cmd, 0, target), s2\<lparr>addr_family := fam\<rparr>, w2))"
    "ready s2 w2 rest" and dq: "dialogue s2 w1 [] ([5, cmd, 0] @ encode_ep ep) s2 w2" by blast
  have lt: "length (sin6_addr target) = 16"
    using into_sockaddr6_length [OF t e] by (simp add: sockaddr_zero_def)
  obtain rp ad s3 w3 where c: "(if res < 0 then (8, target, s2, w2)
     else server_command m ?K (uint cmd) 0 target (s2\<lparr>addr_family := fam\<rparr>) w2) = (rp, ad, s3, w3)"
    by (metis prod_cases4)
  have cr: "same_stream w2 w3 \<and> fd s3 = fd s2 \<and> length (sin6_addr ad) = 16 \<and>
    rp = (if res < 0 then 8 else reply_code cmd s3) \<and>
    (cmd = 1 \<and> rp = 0 \<longrightarrow> peer w3 (fd0 s3) = Some target \<and> ad = target)"
  proof (cases "res < 0")
    case True
    with c lt show ?thesis by auto
  next
    case False
    with c have "server_command m ?K (uint cmd) 0 target (s2\<lparr>addr_family := fam\<rparr>) w2 = (rp, ad, s3, w3)" by simp
    from server_command_result [OF this] s2(3,4) lt l False show ?thesis by auto
  qed
  have w3: "tx_flows (txq w3 (fd s3))" "rx_bytes (rxq w3 (fd s3)) = rest"
    using q(2) cr by (auto simp: ready_def same_stream_def)
  from write_response_writable [OF w3(1), of ad rp] cr w3(2) obtain w4 where
    d: "hev_socks5_server_write_response rp ad s3 w3 = (0, s3, w4)" "rx_bytes (rxq w4 (fd s3)) = rest"
      "dialogue s3 w3 ([5, rp, 0] @ encode_ep (sockaddr_ep ad)) [] s3 w4" by blast
  have "hev_socks5_server_handshake m env ?K self w = ((if rp = 0 then 0 else -1), s3, w4)"
    using a(1) q(1) c d(1) by (auto simp: hev_socks5_server_handshake_def split: if_splits)
  with h have hr: "r = (if rp = 0 then 0 else -1)" "self' = s3" "w' = w4" by simp_all
  have "wire w1 (fd self) = wire w (fd self) @ greeting self" using dialogueD(7) [OF da] by simp
  moreover have "wire w2 (fd self) = wire w1 (fd self)" using dialogueD(7) [OF dq] s2 by simp
  moreover have "wire w4 (fd self) = wire w3 (fd self) @ [5, rp, 0] @ encode_ep (sockaddr_ep ad)"
    using dialogueD(7) [OF d(3)] cr s2 by simp
  moreover have "peer w4 = peer w3" using dialogueD(12) [OF d(3)] .
  ultimately show ?thesis using hr cr d(2) s2(1)
    by (intro exI [of _ rp] exI [of _ "sockaddr_ep ad"] exI [of _ ad]) (auto simp: same_stream_def ready_def)
qed

text \<open>
  C27: What a client that is let in is answered, on a connection that reports no error, takes what is
  written and on which each wait for the client ends before the timeout and the session is not
  terminated meanwhile. The server consumes exactly the client's greeting and its request, and writes
  its greeting and one reply: code 8 for a target it cannot resolve, 7 for an unknown command, 4 when
  it cannot connect, 1 when it cannot bind, and 0, with success, exactly when it holds the descriptor
  the command asks for; for CONNECT that descriptor is then connected to the resolved target, which
  the reply names. Connecting may fail, wait, or time out in every way.
\<close>
theorem server_replies:
  assumes h: "hev_socks5_server_handshake m env (hev_socks5_server_class sn tcp udp) self w = (r, self', w')"
    and r: "ready (hev_socks5_set_timeout self (tcp_timeout m)) w (hello @ [5, cmd, 0] @ encode_ep ep @ rest)" and wf: "ep_wf ep"
    and ok: "server_ok self xs" and li: "logged_in self xs hello (hev_socks5_set_timeout self (tcp_timeout m)) s2"
    and f: "fd0 self < 0" "fd1 self < 0" and e: "env_ok env" and l: "\<And>k. length (sin6_addr (sn k)) = 16"
    and t: "hev_socks5_addr_into_sockaddr6 env (encode_ep ep) sockaddr_zero (addr_family self) = (res, target, fam)"
  shows "\<exists>rp bnd. wire w' (fd self) = wire w (fd self) @ greeting self @ [5, rp, 0] @ encode_ep bnd \<and>
    rx_bytes (rxq w' (fd self)) = rest \<and> r = (if rp = 0 then 0 else -1) \<and>
    rp = (if res < 0 then 8 else reply_code cmd self') \<and>
    (cmd = 1 \<and> rp = 0 \<longrightarrow> peer w' (fd0 self') = Some target \<and> bnd = sockaddr_ep target)"
  using server_answers [OF assms] by blast

section \<open>Witnesses\<close>

definition a_server :: "held \<Rightarrow> hev_socks5_server" where
  "a_server ob = \<lparr>fd = 7, timeout = -1, stype = HEV_SOCKS5_TYPE_NONE, udp_associated = False,
     addr_family = AF_UNSPEC, fd0 = -1, fd1 = -1, obj = ob, shared = auth_sample\<rparr>"

definition no_relay :: "int \<Rightarrow> hev_socks5_server \<Rightarrow> world \<Rightarrow> hev_socks5_server \<times> world" where
  "no_relay f self w = (self, w)"

definition any_class :: "hev_socks5_server server_class" where
  "any_class = hev_socks5_server_class (\<lambda>_. sockaddr_zero) no_relay no_relay"

theorem server_requires_auth_witness:
  "case hev_socks5_server_handshake misc_init small_env any_class (a_server (AuthObj 100))
      (quiet\<lparr>rxq := (\<lambda>_. [RData [5, 1], RAgain, RData [2, 1, 1, 97, 1, 98]]), opened := [7]\<rparr>)
   of (r, self', w') \<Rightarrow> r = -1 \<and> opened w' = [7]"
proof -
  let ?w = "quiet\<lparr>rxq := (\<lambda>_. [RData [5, 1], RAgain, RData [2, 1, 1, 97, 1, 98]]), opened := [7]\<rparr>"
  obtain r s' w' where h: "hev_socks5_server_handshake misc_init small_env any_class (a_server (AuthObj 100)) ?w = (r, s', w')"
    by (metis prod_cases3)
  have no: "\<not> (\<exists>ms name u rest. rx_bytes (rxq ?w (fd (a_server (AuthObj 100)))) =
      [5, of_nat (length ms)] @ ms @ login_msg name (user_pass (users (shared (a_server (AuthObj 100))) u)) @ rest \<and>
      2 \<in> set ms \<and> auth_map (shared (a_server (AuthObj 100))) [1, 2, 3, 4, 5] name = Some u)" (is "\<not> ?P")
  proof
    assume ?P
    then obtain ms name u rest where e: "[5, 1, 2, 1, 1, 97, 1, 98] =
        [5, of_nat (length ms) :: u8] @ ms @ login_msg name (replicate u 98) @ rest"
      and u: "auth_map auth_sample [1, 2, 3, 4, 5] name = Some u" and two: "2 \<in> set ms"
      by (auto simp: a_server_def auth_sample_def)
    from e have "length ms \<le> 6" by (auto dest: arg_cong [of _ _ length])
    moreover from e have "unat (of_nat (length ms) :: u8) = 1" by auto
    then have "length ms mod 256 = 1" by (simp add: unat_of_nat)
    ultimately have "length ms = 1" by simp
    then obtain k where "ms = [k]" by (cases ms) auto
    with e have n: "[1, 97, 1, 98] = of_nat (length name) # name @ of_nat (length (replicate u (98 :: u8))) # replicate u 98 @ rest"
      by (auto simp: login_msg_def)
    from u have "u \<in> {1, 2, 3, 4, 5} \<and> name = replicate (6 - u) 97"
      using auth_map_Some [OF auth_sample_ok] by (auto simp: auth_sample_def)
    with n show False by (auto simp: numeral_eq_Suc)
  qed
  from server_requires_auth [OF h [unfolded any_class_def], of 100 "[1, 2, 3, 4, 5]"] no auth_sample_ok h
  show ?thesis by (auto simp: a_server_def quiet_def)
qed

text \<open>A client logs in as user 4 and then breaks off; the authenticator goes with the session.\<close>

theorem server_releases_all_witness:
  "case hev_socks5_server_handshake misc_init small_env any_class (a_server (AuthObj 100))
      (quiet\<lparr>rxq := (\<lambda>_. [RData [5, 1, 2, 1, 2, 97, 97, 4, 98, 98, 98, 98]]), opened := [7]\<rparr>)
   of (r, self', w') \<Rightarrow> \<exists>s w2. hev_socks5_server_destruct self' w' = Some (s, w2) \<and> opened w2 = [] \<and>
     mset (destroyed s) = {#100, 1, 2, 4, 5#} \<and> ref_count s 3 = 1"
proof -
  let ?w = "quiet\<lparr>rxq := (\<lambda>_. [RData [5, 1, 2, 1, 2, 97, 97, 4, 98, 98, 98, 98]]), opened := [7]\<rparr>"
  obtain r s' w' where h: "hev_socks5_server_handshake misc_init small_env any_class (a_server (AuthObj 100)) ?w = (r, s', w')"
    by (metis prod_cases3)
  let ?t = "auth_sample\<lparr>ref_count := (ref_count auth_sample)(100 := 0)\<rparr>"
  have "auth_ok 100 ?t [1, 2, 3, 4, 5]" using auth_sample_ok by simp
  from authenticator_clear_ok [OF this]
  have "\<exists>s0. held_unref (AuthObj 100) auth_sample = Some s0 \<and> ref_count s0 3 = 1 \<and>
    mset (destroyed s0) = {#100, 1, 2, 4, 5#}"
    by (auto simp: held_unref_def authenticator_unref_def hev_socks5_authenticator_destruct_def auth_sample_def Let_def)
  then obtain s0 where s0: "held_unref (AuthObj 100) auth_sample = Some s0" "ref_count s0 3 = 1"
    "mset (destroyed s0) = {#100, 1, 2, 4, 5#}" by blast
  have "counted (a_server (AuthObj 100)) [1, 2, 3, 4, 5]" by (simp add: counted_def a_server_def auth_sample_def)
  from server_releases_all [OF h [unfolded any_class_def] _ this] auth_sample_ok h s0
  show ?thesis by (auto simp: a_server_def server_ok_def quiet_def)
qed

theorem server_replies_witness:
  "case hev_socks5_server_handshake misc_init small_env any_class (a_server NoObj)
     (quiet\<lparr>rxq := (\<lambda>_. [RAgain, RData [5, 1, 0, 5], RAgain, RData [9, 0, 1, 1, 2, 3, 4, 1, 187, 42]]),
        yields := [\<lparr>remain = 5, ended = False\<rparr>, \<lparr>remain = 2, ended = False\<rparr>]\<rparr>)
   of (r, self', w') \<Rightarrow> r = -1 \<and> rx_bytes (rxq w' 7) = [42] \<and> (\<exists>bnd. wire w' 7 = [5, 0, 5, 7, 0] @ encode_ep bnd)"
proof -
  let ?w = "quiet\<lparr>rxq := (\<lambda>_. [RAgain, RData [5, 1, 0, 5], RAgain, RData [9, 0, 1, 1, 2, 3, 4, 1, 187, 42]]),
      yields := [\<lparr>remain = 5, ended = False\<rparr>, \<lparr>remain = 2, ended = False\<rparr>]\<rparr>"
  obtain r s' w' where h: "hev_socks5_server_handshake misc_init small_env any_class (a_server NoObj) ?w = (r, s', w')"
    by (metis prod_cases3)
  let ?ep = "EpV4 [1, 2, 3, 4] 443"
  have enc: "encode_ep ?ep = [1, 1, 2, 3, 4, 1, 187]" by (simp add: hi8_def lo8_def)
  obtain res tg fam where t: "hev_socks5_addr_into_sockaddr6 small_env (encode_ep ?ep) sockaddr_zero
    (addr_family (a_server NoObj)) = (res, tg, fam)" by (metis prod_cases3)
  then have "\<not> res < 0" by (auto simp: hev_socks5_addr_into_sockaddr6_def atype_def)
  moreover have "\<exists>rp bnd. wire w' (fd (a_server NoObj)) = wire ?w (fd (a_server NoObj)) @ greeting (a_server NoObj) @
      [5, rp, 0] @ encode_ep bnd \<and> rx_bytes (rxq w' (fd (a_server NoObj))) = [42] \<and>
      r = (if rp = 0 then 0 else -1) \<and> rp = (if res < 0 then 8 else reply_code 9 s') \<and>
      (9 = (1 :: u8) \<and> rp = 0 \<longrightarrow> peer w' (fd0 s') = Some tg \<and> bnd = sockaddr_ep tg)"
  proof (rule server_replies [OF h [unfolded any_class_def], where hello = "[5, 1, 0]" and xs = "[]"
        and ?s2.0 = "hev_socks5_set_timeout (a_server NoObj) (tcp_timeout misc_init)"])
    show "ready (hev_socks5_set_timeout (a_server NoObj) (tcp_timeout misc_init)) ?w
        ([5, 1, 0] @ [5, 9, 0] @ encode_ep ?ep @ [42])"
      unfolding enc by (simp add: ready_def in_time_def a_server_def quiet_def hev_socks5_set_timeout_def misc_init_def)
  qed (use t small_env_ok in \<open>auto simp: logged_in_def a_server_def server_ok_def sockaddr_zero_def
      intro!: exI [of _ "[0]"]\<close>)
  ultimately show ?thesis
    using h by (auto simp: a_server_def greeting_def quiet_def reply_code_def)
qed

end
