(* ===== verification/Mapped_DNS.thy ===== *)
theory Mapped_DNS
  imports Hev_List RBTree_Index
begin

text \<open>
  The mapped DNS of \<open>src/hev-mapped-dns.c\<close>: names that are asked for get an address of a
  reserved network, and a session that connects to such an address is given the name back. The
  table of the names is a red-black tree over \<open>strcmp\<close>, an array from indices to nodes, and a list
  of the nodes in the order of their last use, the oldest of which is evicted when the table is
  full. Seen from outside it is a least-recently-used cache of pairs of a name and an index.
\<close>

section \<open>State\<close>

record dns_node =
  node_name :: bytes
  name_mem :: addr
  node_idx :: int

text \<open>
  The object with the memory it works on: its nodes by address, and the heap blocks that are
  allocated. \<open>name_mem\<close> is the address of the copy of the name, \<open>node_name\<close> its contents. The C
  library's allocator is a function from the blocks in use to a new block or NULL.
\<close>

record HevMappedDNS =
  dns_use :: int
  dns_max :: int
  dns_net :: u32
  dns_mask :: u32
  dns_list :: lstate
  dns_tree :: rbtree
  records :: "ptr list"
  nodes :: "addr \<Rightarrow> dns_node"
  blocks :: "addr list"

type_synonym allocator = "addr list \<Rightarrow> ptr"

definition allocates :: "allocator \<Rightarrow> bool" where
  "allocates malloc \<longleftrightarrow> (\<forall>bs a. malloc bs = Some a \<longrightarrow> a \<notin> set bs)"

section \<open>Operations\<close>

text \<open>
  \<open>None\<close> stands for undefined behaviour (an access outside of the array, a NULL dereference, a
  search that does not end): the theorems show that it does not occur.
\<close>

definition hev_mapped_dns_construct :: "u32 \<Rightarrow> u32 \<Rightarrow> int \<Rightarrow> HevMappedDNS \<Rightarrow> int \<times> HevMappedDNS" where
  "hev_mapped_dns_construct net msk cap self =
     (if cap > sint (NOT msk) then (-1, self)
      else (0, self\<lparr>dns_max := cap, dns_net := net, dns_mask := msk\<rparr>))"

definition hev_mapped_dns_new :: "allocator \<Rightarrow> u32 \<Rightarrow> u32 \<Rightarrow> int \<Rightarrow> addr list \<Rightarrow> (addr \<times> HevMappedDNS) option" where
  "hev_mapped_dns_new malloc net msk cap bs =
     (case malloc bs of
        None \<Rightarrow> None
      | Some a \<Rightarrow>
          (let self = \<lparr>dns_use = 0, dns_max = 0, dns_net = 0, dns_mask = 0,
                 dns_list = (empty_list, \<lparr>nxt = (\<lambda>_. None), prv = (\<lambda>_. None)\<rparr>), dns_tree = rb_empty,
                 records = replicate (nat cap) None,
                 nodes = (\<lambda>_. \<lparr>node_name = [], name_mem = 0, node_idx = 0\<rparr>), blocks = a # bs\<rparr>;
               (res, self) = hev_mapped_dns_construct net msk cap self
           in if res < 0 then None else Some (a, self)))"

definition hev_mapped_dns_node_alloc :: "allocator \<Rightarrow> bytes \<Rightarrow> HevMappedDNS \<Rightarrow> ptr \<times> HevMappedDNS" where
  "hev_mapped_dns_node_alloc malloc name self =
     (case malloc (blocks self) of
        None \<Rightarrow> (None, self)
      | Some n \<Rightarrow>
          (case malloc (n # blocks self) of
             None \<Rightarrow> (None, self)
           | Some s \<Rightarrow> (Some n, self\<lparr>blocks := s # n # blocks self,
               nodes := (nodes self)(n := \<lparr>node_name = name, name_mem = s, node_idx = 0\<rparr>)\<rparr>)))"

definition hev_mapped_dns_node_free :: "addr \<Rightarrow> HevMappedDNS \<Rightarrow> HevMappedDNS" where
  "hev_mapped_dns_node_free n self =
     self\<lparr>blocks := remove1 n (remove1 (name_mem (nodes self n)) (blocks self))\<rparr>"

definition dns_touch :: "addr \<Rightarrow> HevMappedDNS \<Rightarrow> HevMappedDNS" where
  "dns_touch n self = self\<lparr>dns_list := hev_list_add_tail n (hev_list_del n (dns_list self))\<rparr>"

definition dns_evict :: "HevMappedDNS \<Rightarrow> (int \<times> HevMappedDNS) option" where
  "dns_evict self =
     (case hev_list_first (dns_list self) of
        None \<Rightarrow> None
      | Some nf \<Rightarrow>
          (case hev_rbtree_erase nf (dns_tree self) of
             None \<Rightarrow> None
           | Some t \<Rightarrow> Some (node_idx (nodes self nf),
               hev_mapped_dns_node_free nf (self\<lparr>dns_tree := t, dns_list := hev_list_del nf (dns_list self)\<rparr>))))"

definition dns_store :: "int \<Rightarrow> addr \<Rightarrow> HevMappedDNS \<Rightarrow> (int \<times> HevMappedDNS) option" where
  "dns_store idx n self =
     (if 0 \<le> idx \<and> nat idx < length (records self)
      then Some (idx, self\<lparr>records := (records self)[nat idx := Some n],
             nodes := (nodes self)(n := nodes self n\<lparr>node_idx := idx\<rparr>)\<rparr>)
      else None)"

definition dns_search :: "bytes \<Rightarrow> HevMappedDNS \<Rightarrow> ((addr \<times> side) option + addr) option" where
  "dns_search name self = rb_search (\<lambda>n. bytes_cmp (node_name (nodes self n)) name) None (dns_tree self)"

definition hev_mapped_dns_find :: "allocator \<Rightarrow> bytes \<Rightarrow> HevMappedDNS \<Rightarrow> (int \<times> HevMappedDNS) option" where
  "hev_mapped_dns_find malloc name self =
     (case dns_search name self of
        None \<Rightarrow> None
      | Some (Inr node) \<Rightarrow> Some (node_idx (nodes self node), dns_touch node self)
      | Some (Inl link) \<Rightarrow>
          (case hev_mapped_dns_node_alloc malloc name self of
             (None, self) \<Rightarrow> Some (-1, self)
           | (Some node, self) \<Rightarrow>
               (case rb_add node link (dns_tree self) of
                  None \<Rightarrow> None
                | Some t \<Rightarrow>
                    (let self = self\<lparr>dns_tree := t, dns_list := hev_list_add_tail node (dns_list self)\<rparr>
                     in case (if dns_use self < dns_max self
                              then Some (dns_use self, self\<lparr>dns_use := dns_use self + 1\<rparr>)
                              else dns_evict self) of
                          None \<Rightarrow> None
                        | Some (idx, self) \<Rightarrow> dns_store idx node self))))"

definition hev_mapped_dns_lookup :: "u32 \<Rightarrow> HevMappedDNS \<Rightarrow> (bytes option \<times> HevMappedDNS) option" where
  "hev_mapped_dns_lookup ip self =
     (let idx = sint (ip AND NOT (dns_mask self))
      in if idx \<ge> dns_max self then Some (None, self)
         else if idx < 0 \<or> nat idx \<ge> length (records self) then None
         else (case records self ! nat idx of
                 None \<Rightarrow> Some (None, self)
               | Some node \<Rightarrow> Some (Some (node_name (nodes self node)), dns_touch node self)))"

partial_function (option) dns_free_nodes :: "ptr \<Rightarrow> HevMappedDNS \<Rightarrow> HevMappedDNS option" where
  "dns_free_nodes n self =
     (case n of
        None \<Rightarrow> Some self
      | Some t \<Rightarrow> dns_free_nodes (hev_list_node_next (snd (dns_list self)) t)
                    (hev_mapped_dns_node_free t self))"

definition hev_mapped_dns_destruct :: "addr \<Rightarrow> HevMappedDNS \<Rightarrow> addr list option" where
  "hev_mapped_dns_destruct a self =
     (case dns_free_nodes (hev_list_first (dns_list self)) self of
        None \<Rightarrow> None
      | Some self \<Rightarrow> Some (remove1 a (blocks self)))"

section \<open>The cache it stands for\<close>

type_synonym cache = "(bytes \<times> int) list"

text \<open>Oldest entry first; an index is handed on from the entry that is evicted.\<close>

definition cache_use :: "nat \<Rightarrow> bytes \<Rightarrow> cache \<Rightarrow> int \<times> cache" where
  "cache_use cap name c =
     (case map_of c name of
        Some i \<Rightarrow> (i, remove1 (name, i) c @ [(name, i)])
      | None \<Rightarrow>
          if length c < cap then (int (length c), c @ [(name, int (length c))])
          else (snd (hd c), tl c @ [(name, snd (hd c))]))"

definition cache_of :: "HevMappedDNS \<Rightarrow> addr list \<Rightarrow> cache" where
  "cache_of self lru = map (\<lambda>n. (node_name (nodes self n), node_idx (nodes self n))) lru"

definition tree_ok :: "HevMappedDNS \<Rightarrow> addr list \<Rightarrow> bool" where
  "tree_ok self lru \<longleftrightarrow> (\<exists>xs. rbt_ok (dns_tree self) xs \<and>
     sorted_by bytes_cmp (\<lambda>n. node_name (nodes self n)) xs \<and> set xs = set lru)"

definition slots_ok :: "HevMappedDNS \<Rightarrow> addr list \<Rightarrow> bool" where
  "slots_ok self lru \<longleftrightarrow>
     dns_use self = int (length lru) \<and> dns_max self = int (length (records self)) \<and>
     length lru \<le> length (records self) \<and> records self \<noteq> [] \<and>
     (\<forall>n \<in> set lru. 0 \<le> node_idx (nodes self n) \<and> node_idx (nodes self n) < int (length lru) \<and>
        records self ! nat (node_idx (nodes self n)) = Some n) \<and>
     (\<forall>i < length (records self). length lru \<le> i \<longrightarrow> records self ! i = None)"

text \<open>
  \<open>rest\<close> are the blocks of the heap that do not belong to nodes: every block of a node is
  reachable from the list, so none is lost.
\<close>

definition dns_linked :: "addr multiset \<Rightarrow> HevMappedDNS \<Rightarrow> addr list \<Rightarrow> bool" where
  "dns_linked rest self lru \<longleftrightarrow>
     dll (dns_list self) lru \<and> tree_ok self lru \<and>
     mset (blocks self) = mset lru + image_mset (\<lambda>n. name_mem (nodes self n)) (mset lru) + rest"

definition dns_ok :: "addr multiset \<Rightarrow> HevMappedDNS \<Rightarrow> addr list \<Rightarrow> bool" where
  "dns_ok rest self lru \<longleftrightarrow> dns_linked rest self lru \<and> slots_ok self lru"

interpretation dns: keyed_index rbt_ok "\<lambda>cmp h. rb_search cmp None h" rb_add hev_rbtree_erase
    hev_rbtree_first bytes_cmp
  by unfold_locales (rule bytes_cmp_eq bytes_cmp_sym bytes_cmp_trans; assumption)+

lemma dns_new_ok:
  assumes "hev_mapped_dns_new malloc net msk cap bs = Some (a, self)" "0 < cap"
  shows "dns_ok (mset (a # bs)) self []" "dns_net self = net" "dns_mask self = msk" "dns_max self = cap"
    "cap \<le> sint (NOT msk)"
  using assms rbt_ok_empty
  by (auto simp: hev_mapped_dns_new_def hev_mapped_dns_construct_def dns_ok_def dns_linked_def tree_ok_def slots_ok_def
      dll_empty sorted_by_def Let_def split: option.splits if_splits)

lemma linked_names:
  assumes "dns_linked rest self lru" "a \<in> set lru" "b \<in> set lru" "node_name (nodes self a) = node_name (nodes self b)"
  shows "a = b"
  using assms dns.inj_key [of "\<lambda>n. node_name (nodes self n)"] by (auto simp: dns_linked_def tree_ok_def)

lemma linked_distinct: "dns_linked rest self lru \<Longrightarrow> distinct lru"
  by (auto simp: dns_linked_def dest: dll_distinct)

lemma linked_fresh: "dns_linked rest self lru \<Longrightarrow> n \<notin> set (blocks self) \<Longrightarrow> n \<notin> set lru"
  unfolding dns_linked_def by (metis set_mset_mset set_mset_union UnI1)

lemma linked_touch:
  assumes "dns_linked rest self lru" "n \<in> set lru"
  shows "dns_linked rest (dns_touch n self) (remove1 n lru @ [n])"
proof -
  from assms have "dll (dns_list (dns_touch n self)) (remove1 n lru @ [n])"
    by (auto simp: dns_linked_def dns_touch_def intro: lru.rep_touch)
  moreover have "mset (remove1 n lru @ [n]) = mset lru" "set (remove1 n lru @ [n]) = set lru"
    using assms linked_distinct [OF assms(1)] by auto
  ultimately show ?thesis
    using assms(1) by (simp only: dns_linked_def tree_ok_def) (simp add: dns_touch_def)
qed

lemma search_hit:
  assumes "dns_linked rest self lru" "n \<in> set lru" "node_name (nodes self n) = name"
  shows "dns_search name self = Some (Inr n)"
  using assms dns.find_present [of "dns_tree self" _ "\<lambda>n. node_name (nodes self n)" n]
  by (auto simp: dns_linked_def tree_ok_def dns_search_def)

lemma search_absent:
  assumes "dns_linked rest self lru" "name \<notin> (\<lambda>n. node_name (nodes self n)) ` set lru"
  shows "\<exists>link. dns_search name self = Some (Inl link)"
proof -
  from assms obtain xs where "rbt_ok (dns_tree self) xs" "sorted_by bytes_cmp (\<lambda>n. node_name (nodes self n)) xs"
    "name \<notin> (\<lambda>n. node_name (nodes self n)) ` set xs" by (auto simp: dns_linked_def tree_ok_def)
  from dns.find_absent [OF this] show ?thesis unfolding dns_search_def by blast
qed

lemma map_remove1_inj: "inj_on f (set (n # xs)) \<Longrightarrow> map f (remove1 n xs) = remove1 (f n) (map f xs)"
  by (induction xs) (auto simp: inj_on_def)

lemma linked_cache_inj: "dns_linked rest self lru \<Longrightarrow> n \<in> set lru \<Longrightarrow>
  cache_of self (remove1 n lru) = remove1 (node_name (nodes self n), node_idx (nodes self n)) (cache_of self lru)"
  unfolding cache_of_def by (rule map_remove1_inj) (auto intro!: inj_onI dest: linked_names)

lemma cache_Some:
  assumes "dns_linked rest self lru"
  shows "map_of (cache_of self lru) name = Some i \<longleftrightarrow>
    (\<exists>n \<in> set lru. node_name (nodes self n) = name \<and> node_idx (nodes self n) = i)"
proof -
  have "distinct (map fst (cache_of self lru))"
    using linked_names [OF assms] linked_distinct [OF assms]
    by (auto simp: cache_of_def distinct_map inj_on_def comp_def)
  then show ?thesis by (subst map_of_eq_Some_iff) (auto simp: cache_of_def)
qed

lemma cache_None:
  "map_of (cache_of self lru) name = None \<longleftrightarrow> name \<notin> (\<lambda>n. node_name (nodes self n)) ` set lru"
  by (auto simp: cache_of_def map_of_eq_None_iff image_image)

lemma node_alloc_cases:
  assumes "allocates malloc"
  obtains "hev_mapped_dns_node_alloc malloc name self = (None, self)"
  | n s where "n \<notin> set (blocks self)"
      "hev_mapped_dns_node_alloc malloc name self = (Some n, self\<lparr>blocks := s # n # blocks self,
         nodes := (nodes self)(n := \<lparr>node_name = name, name_mem = s, node_idx = 0\<rparr>)\<rparr>)"
proof (cases "malloc (blocks self)")
  case None
  then show ?thesis by (intro that(1)) (simp add: hev_mapped_dns_node_alloc_def)
next
  case (Some n)
  with assms have n: "n \<notin> set (blocks self)" by (auto simp: allocates_def)
  show ?thesis
  proof (cases "malloc (n # blocks self)")
    case None
    with Some show ?thesis by (intro that(1)) (simp add: hev_mapped_dns_node_alloc_def)
  next
    case (Some s)
    with \<open>malloc (blocks self) = Some n\<close> n show ?thesis by (intro that(2)) (simp_all add: hev_mapped_dns_node_alloc_def)
  qed
qed

lemma linked_insert:
  assumes ok: "dns_linked rest self lru" and new: "name \<notin> (\<lambda>n. node_name (nodes self n)) ` set lru"
    and n: "n \<notin> set (blocks self)"
    and self': "self' = self\<lparr>blocks := s # n # blocks self,
      nodes := (nodes self)(n := \<lparr>node_name = name, name_mem = s, node_idx = 0\<rparr>)\<rparr>"
  obtains link t where "dns_search name self = Some (Inl link)" "rb_add n link (dns_tree self) = Some t"
    "dns_linked rest (self'\<lparr>dns_tree := t, dns_list := hev_list_add_tail n (dns_list self)\<rparr>) (lru @ [n])"
proof -
  have nl: "n \<notin> set lru" using ok n by (rule linked_fresh)
  from ok obtain xs where xs: "rbt_ok (dns_tree self) xs" "set xs = set lru"
    "sorted_by bytes_cmp (\<lambda>n. node_name (nodes self n)) xs" by (auto simp: dns_linked_def tree_ok_def)
  from new xs(2) have "name \<notin> (\<lambda>n. node_name (nodes self n)) ` set xs" by simp
  from dns.find_absent [OF xs(1,3) this] nl xs(2) obtain link ys zs t where l:
    "dns_search name self = Some (Inl link)" "rb_add n link (dns_tree self) = Some t"
    "rbt_ok t (ys @ n # zs)" "set ys \<union> set zs = set lru"
    "sorted_by bytes_cmp ((\<lambda>n. node_name (nodes self n))(n := name)) (ys @ n # zs)"
    unfolding dns_search_def by metis
  have names: "(\<lambda>m. node_name (nodes self' m)) = (\<lambda>n. node_name (nodes self n))(n := name)"
    by (auto simp: self')
  have "tree_ok (self'\<lparr>dns_tree := t, dns_list := hev_list_add_tail n (dns_list self)\<rparr>) (lru @ [n])"
    unfolding tree_ok_def using l(3-5) names by (intro exI [of _ "ys @ n # zs"]) auto
  moreover have "image_mset (\<lambda>m. name_mem (nodes self' m)) (mset lru) = image_mset (\<lambda>m. name_mem (nodes self m)) (mset lru)"
    using nl by (intro image_mset_cong) (auto simp: self')
  ultimately have "dns_linked rest (self'\<lparr>dns_tree := t, dns_list := hev_list_add_tail n (dns_list self)\<rparr>) (lru @ [n])"
    using ok nl by (simp add: dns_linked_def dll_add_tail) (simp add: self')
  with l(1,2) show thesis by (rule that)
qed

lemma linked_evict:
  assumes "dns_linked rest self (nf # lru)"
  shows "\<exists>self'. dns_evict self = Some (node_idx (nodes self nf), self') \<and> dns_linked rest self' lru \<and>
    nodes self' = nodes self \<and> records self' = records self \<and> dns_use self' = dns_use self \<and>
    dns_max self' = dns_max self \<and> dns_net self' = dns_net self \<and> dns_mask self' = dns_mask self"
proof -
  let ?k = "\<lambda>n. node_name (nodes self n)"
  from assms obtain xs where xs: "rbt_ok (dns_tree self) xs" "set xs = set (nf # lru)"
    "sorted_by bytes_cmp ?k xs" "dll (dns_list self) (nf # lru)" "nf \<notin> set lru"
    by (auto simp: dns_linked_def tree_ok_def dest: dll_distinct)
  then obtain t where t: "hev_rbtree_erase nf (dns_tree self) = Some t" "rbt_ok t (remove1 nf xs)"
    using rbt.erase_ok [of _ xs nf] by auto
  have "sorted_by bytes_cmp ?k (remove1 nf xs)" "set (remove1 nf xs) = set lru"
    using xs rbt_ok_distinct [OF xs(1)] dns.remove_sorted by auto
  moreover have "hev_list_first (dns_list self) = Some nf" using xs(4) by (simp add: lru.rep_first)
  moreover have "dll (hev_list_del nf (dns_list self)) lru" using lru.rep_del [OF xs(4), of nf] by simp
  ultimately show ?thesis
    using t assms by (auto simp: dns_evict_def dns_linked_def tree_ok_def hev_mapped_dns_node_free_def)
qed

definition same_net :: "HevMappedDNS \<Rightarrow> HevMappedDNS \<Rightarrow> bool" where
  "same_net self self' \<longleftrightarrow> dns_net self' = dns_net self \<and> dns_mask self' = dns_mask self \<and>
     dns_max self' = dns_max self \<and> length (records self') = length (records self)"

lemma same_net_refl [simp]: "same_net self self"
  by (simp add: same_net_def)

lemma same_net_trans [trans]: "same_net a b \<Longrightarrow> same_net b c \<Longrightarrow> same_net a c"
  by (simp add: same_net_def)

lemma slots_touch: "slots_ok self lru \<Longrightarrow> n \<in> set lru \<Longrightarrow> distinct lru \<Longrightarrow>
    slots_ok (dns_touch n self) (remove1 n lru @ [n])"
  by (auto simp: slots_ok_def dns_touch_def length_remove1 Suc_leI length_pos_if_in_set)

lemma dns_touch_ok:
  assumes "dns_ok rest self lru" "n \<in> set lru"
  shows "dns_ok rest (dns_touch n self) (remove1 n lru @ [n])" "same_net self (dns_touch n self)"
    "cache_of (dns_touch n self) (remove1 n lru @ [n]) =
       remove1 (node_name (nodes self n), node_idx (nodes self n)) (cache_of self lru) @
       [(node_name (nodes self n), node_idx (nodes self n))]"
proof -
  from assms have l: "dns_linked rest self lru" by (simp add: dns_ok_def)
  from l assms(2) have "cache_of (dns_touch n self) (remove1 n lru @ [n]) = cache_of self (remove1 n lru) @
      [(node_name (nodes self n), node_idx (nodes self n))]"
    by (simp add: cache_of_def dns_touch_def)
  with linked_cache_inj [OF l assms(2)]
  show "cache_of (dns_touch n self) (remove1 n lru @ [n]) =
       remove1 (node_name (nodes self n), node_idx (nodes self n)) (cache_of self lru) @
       [(node_name (nodes self n), node_idx (nodes self n))]" by simp
qed (use assms linked_touch slots_touch linked_distinct in \<open>auto simp: dns_ok_def same_net_def dns_touch_def\<close>)

lemma linked_store:
  assumes "dns_linked rest self lru" "0 \<le> idx" "nat idx < length (records self)"
  shows "\<exists>self'. dns_store idx n self = Some (idx, self') \<and> dns_linked rest self' lru \<and>
    records self' = (records self)[nat idx := Some n] \<and>
    nodes self' = (nodes self)(n := nodes self n\<lparr>node_idx := idx\<rparr>) \<and>
    dns_use self' = dns_use self \<and> same_net self self'"
proof -
  have "image_mset (\<lambda>m. name_mem (((nodes self)(n := nodes self n\<lparr>node_idx := idx\<rparr>)) m)) M =
      image_mset (\<lambda>m. name_mem (nodes self m)) M" for M
    by (rule image_mset_cong) auto
  moreover have "(\<lambda>m. node_name (((nodes self)(n := nodes self n\<lparr>node_idx := idx\<rparr>)) m)) = (\<lambda>m. node_name (nodes self m))"
    by auto
  ultimately show ?thesis
    using assms by (auto simp: dns_store_def dns_linked_def tree_ok_def same_net_def)
qed

text \<open>The slot of the new node: the next free one, or the one of the oldest node.\<close>

lemma slots_okI:
  assumes "dns_use self = int (length lru)" "dns_max self = int (length (records self))"
    "length lru \<le> length (records self)" "records self \<noteq> []"
    "\<And>n. n \<in> set lru \<Longrightarrow> 0 \<le> node_idx (nodes self n) \<and> node_idx (nodes self n) < int (length lru) \<and>
        records self ! nat (node_idx (nodes self n)) = Some n"
    "\<And>i. i < length (records self) \<Longrightarrow> length lru \<le> i \<Longrightarrow> records self ! i = None"
  shows "slots_ok self lru"
  using assms by (simp add: slots_ok_def)

lemma slots_idx:
  assumes "slots_ok self lru" "n \<in> set lru"
  shows "0 \<le> node_idx (nodes self n)" "node_idx (nodes self n) < int (length lru)"
    "records self ! nat (node_idx (nodes self n)) = Some n" "nat (node_idx (nodes self n)) < length lru"
  using assms by (auto simp: slots_ok_def)

lemma slots_append:
  assumes s: "slots_ok self lru" and n: "n \<notin> set lru" and lt: "dns_use self < dns_max self"
    and r: "records self' = (records self)[nat (dns_use self) := Some n]"
    and x: "node_idx (nodes self' n) = dns_use self" and nd: "\<forall>m \<in> set lru. nodes self' m = nodes self m"
    and u: "dns_use self' = dns_use self + 1" "dns_max self' = dns_max self"
  shows "slots_ok self' (lru @ [n])"
proof -
  from s have k: "nat (dns_use self) = length lru" "length lru < length (records self)"
    using lt by (auto simp: slots_ok_def)
  show ?thesis
  proof (rule slots_okI)
    fix m assume "m \<in> set (lru @ [n])"
    then show "0 \<le> node_idx (nodes self' m) \<and> node_idx (nodes self' m) < int (length (lru @ [n])) \<and>
        records self' ! nat (node_idx (nodes self' m)) = Some m"
      using s k r x nd unfolding slots_ok_def by (cases "m = n") force+
  qed (use s k r u in \<open>auto simp: slots_ok_def\<close>)
qed

lemma slots_reuse:
  assumes s: "slots_ok self (nf # lru)" and n: "n \<notin> set (nf # lru)" and d: "nf \<notin> set lru"
    and eq: "dns_use self = dns_max self"
    and r: "records self' = (records self)[nat (node_idx (nodes self nf)) := Some n]"
    and x: "node_idx (nodes self' n) = node_idx (nodes self nf)"
    and nd: "\<forall>m \<in> set lru. nodes self' m = nodes self m"
    and u: "dns_use self' = dns_use self" "dns_max self' = dns_max self"
  shows "slots_ok self' (lru @ [n])"
proof -
  have old: "0 \<le> node_idx (nodes self m)" "node_idx (nodes self m) < int (length (records self))"
    "records self ! nat (node_idx (nodes self m)) = Some m" if "m \<in> set (nf # lru)" for m
    using that s by (auto simp: slots_ok_def)
  have len: "length (records self) = Suc (length lru)" using s eq by (simp add: slots_ok_def)
  show ?thesis
  proof (rule slots_okI)
    fix m assume m: "m \<in> set (lru @ [n])"
    show "0 \<le> node_idx (nodes self' m) \<and> node_idx (nodes self' m) < int (length (lru @ [n])) \<and>
        records self' ! nat (node_idx (nodes self' m)) = Some m"
    proof (cases "m = n")
      case True
      with r x len old [of nf] show ?thesis by auto
    next
      case False
      with m have "m \<in> set lru" by simp
      moreover from this have "nat (node_idx (nodes self m)) \<noteq> nat (node_idx (nodes self nf))"
        using d old [of m] old [of nf] by (metis list.set_intros(1,2) option.inject)
      ultimately show ?thesis using old [of m] r nd len by simp
    qed
  qed (use s r u len in \<open>auto simp: slots_ok_def\<close>)
qed

section \<open>Finding and looking up\<close>

abbreviation find_post ::
    "addr multiset \<Rightarrow> HevMappedDNS \<Rightarrow> addr list \<Rightarrow> bytes \<Rightarrow> int \<times> HevMappedDNS \<Rightarrow> bool" where
  "find_post rest self lru name r \<equiv> \<exists>lru'. dns_ok rest (snd r) lru' \<and> same_net self (snd r) \<and>
     (fst r, cache_of (snd r) lru') = cache_use (length (records self)) name (cache_of self lru)"

lemma find_bound:
  assumes ok: "dns_ok rest self lru" and n: "n \<in> set lru" "node_name (nodes self n) = name"
  shows "\<exists>r. hev_mapped_dns_find malloc name self = Some r \<and> find_post rest self lru name r"
proof -
  from ok have l: "dns_linked rest self lru" by (simp add: dns_ok_def)
  then have "map_of (cache_of self lru) name = Some (node_idx (nodes self n))" using n by (auto simp: cache_Some)
  with search_hit [OF l n] dns_touch_ok [OF ok n(1)] n(2) show ?thesis
    by (auto simp: hev_mapped_dns_find_def cache_use_def)
qed

lemma find_appends:
  assumes l: "dns_linked rest self1 (lru @ [n])" and s: "slots_ok self lru" and lt: "dns_use self < dns_max self"
    and new: "map_of (cache_of self lru) name = None" and n: "n \<notin> set lru"
    and self1: "same_net self self1" "records self1 = records self" "dns_use self1 = dns_use self"
      "nodes self1 = (nodes self)(n := \<lparr>node_name = name, name_mem = s1, node_idx = 0\<rparr>)"
  shows "\<exists>r. dns_store (dns_use self) n (self1\<lparr>dns_use := dns_use self + 1\<rparr>) = Some r \<and>
    find_post rest self lru name r"
proof -
  let ?self2 = "self1\<lparr>dns_use := dns_use self + 1\<rparr>"
  have k: "0 \<le> dns_use self" "dns_use self = int (length lru)" "nat (dns_use self) < length (records self)"
    "dns_max self = int (length (records self))"
    using s lt by (auto simp: slots_ok_def)
  have "dns_linked rest ?self2 (lru @ [n])" using l by (simp add: dns_linked_def tree_ok_def)
  from linked_store [OF this, of "dns_use self" n] k self1 obtain self' where
    st: "dns_store (dns_use self) n ?self2 = Some (dns_use self, self')" "dns_linked rest self' (lru @ [n])"
      "records self' = (records self)[nat (dns_use self) := Some n]"
      "nodes self' = (nodes self1)(n := nodes self1 n\<lparr>node_idx := dns_use self\<rparr>)"
      "dns_use self' = dns_use self + 1" "same_net self1 self'"
    by (auto simp: same_net_def)
  have sm: "same_net self self'" using self1(1) st(6) by (rule same_net_trans)
  have nd: "\<forall>m \<in> set lru. nodes self' m = nodes self m" using n st(4) self1(4) by auto
  have "slots_ok self' (lru @ [n])"
    using sm by (intro slots_append [OF s n lt st(3) _ nd st(5)]) (auto simp: st(4) same_net_def)
  moreover have "cache_of self' (lru @ [n]) = cache_of self lru @ [(name, dns_use self)]"
    using nd self1(4) st(4) by (simp add: cache_of_def)
  moreover have "length lru < length (records self)" using k lt by simp
  ultimately show ?thesis
    using st(1,2) sm new k(2) by (auto simp: dns_ok_def cache_use_def cache_of_def)
qed

lemma find_evicts:
  assumes l: "dns_linked rest self1 (lru @ [n])" and s: "slots_ok self lru" and eq: "\<not> dns_use self < dns_max self"
    and new: "map_of (cache_of self lru) name = None" and n: "n \<notin> set lru" "distinct lru"
    and self1: "same_net self self1" "records self1 = records self" "dns_use self1 = dns_use self"
      "nodes self1 = (nodes self)(n := \<lparr>node_name = name, name_mem = s1, node_idx = 0\<rparr>)"
  shows "\<exists>idx self2 r. dns_evict self1 = Some (idx, self2) \<and> dns_store idx n self2 = Some r \<and>
    find_post rest self lru name r"
proof -
  from s eq have full: "length lru = length (records self)" "dns_use self = dns_max self" "lru \<noteq> []"
    by (auto simp: slots_ok_def)
  then obtain nf lru0 where lru: "lru = nf # lru0" by (cases lru) auto
  have ne: "nf \<noteq> n" "n \<notin> set lru0" "nf \<notin> set lru0" using n lru by auto
  let ?i = "node_idx (nodes self nf)"
  from linked_evict [of rest self1 nf "lru0 @ [n]"] l lru obtain self2 where
    ev: "dns_evict self1 = Some (?i, self2)" "dns_linked rest self2 (lru0 @ [n])" "nodes self2 = nodes self1"
      "records self2 = records self" "dns_use self2 = dns_use self" "same_net self self2"
    using ne self1 by (auto simp: same_net_def)
  have i: "0 \<le> ?i" "nat ?i < length (records self2)" using s lru full(1) ev(4) by (auto simp: slots_ok_def)
  from linked_store [OF ev(2) i, of n] obtain self' where
    st: "dns_store ?i n self2 = Some (?i, self')" "dns_linked rest self' (lru0 @ [n])"
      "records self' = (records self)[nat ?i := Some n]"
      "nodes self' = (nodes self1)(n := nodes self1 n\<lparr>node_idx := ?i\<rparr>)" "dns_use self' = dns_use self"
      "same_net self2 self'"
    using ev(3,4,5) by auto
  have sm: "same_net self self'" using ev(6) st(6) by (rule same_net_trans)
  have nd: "\<forall>m \<in> set lru0. nodes self' m = nodes self m" using ne st(4) self1(4) by auto
  have "slots_ok self' (lru0 @ [n])"
    using s n sm ne nd unfolding lru
    by (intro slots_reuse [OF _ _ _ full(2) st(3)]) (auto simp: st(4,5) same_net_def)
  moreover have "cache_of self' (lru0 @ [n]) = tl (cache_of self lru) @ [(name, ?i)]"
    using nd self1(4) st(4) by (simp add: cache_of_def lru)
  ultimately have "find_post rest self lru name (?i, self')"
    using st(2) sm new full(1) by (intro exI [of _ "lru0 @ [n]"]) (simp add: dns_ok_def cache_use_def cache_of_def lru)
  with ev(1) st(1) show ?thesis by blast
qed

lemma find_ok:
  assumes "allocates malloc" and ok: "dns_ok rest self lru"
  shows "\<exists>r self' lru'. hev_mapped_dns_find malloc name self = Some (r, self') \<and>
    dns_ok rest self' lru' \<and> same_net self self' \<and>
    (if map_of (cache_of self lru) name = None \<and> fst (hev_mapped_dns_node_alloc malloc name self) = None
     then r = -1 \<and> self' = self \<and> lru' = lru
     else (r, cache_of self' lru') = cache_use (length (records self)) name (cache_of self lru))"
proof (cases "map_of (cache_of self lru) name")
  case (Some i)
  then obtain n where "n \<in> set lru" "node_name (nodes self n) = name"
    using ok by (auto simp: cache_Some dns_ok_def)
  from find_bound [OF ok this] Some show ?thesis by auto
next
  case None
  then have new: "name \<notin> (\<lambda>n. node_name (nodes self n)) ` set lru" by (rule cache_None [THEN iffD1])
  from ok have l: "dns_linked rest self lru" and s: "slots_ok self lru" by (simp_all add: dns_ok_def)
  from assms(1) show ?thesis
  proof (cases rule: node_alloc_cases [of malloc name self])
    case 1
    from search_absent [OF l new] obtain link where "dns_search name self = Some (Inl link)" by blast
    with 1 None ok show ?thesis by (simp add: hev_mapped_dns_find_def)
  next
    case (2 n s1)
    define self0 where "self0 = self\<lparr>blocks := s1 # n # blocks self,
         nodes := (nodes self)(n := \<lparr>node_name = name, name_mem = s1, node_idx = 0\<rparr>)\<rparr>"
    from linked_insert [OF l new 2(1) self0_def] obtain link t where
      t: "dns_search name self = Some (Inl link)" "rb_add n link (dns_tree self) = Some t"
        "dns_linked rest (self0\<lparr>dns_tree := t, dns_list := hev_list_add_tail n (dns_list self)\<rparr>) (lru @ [n])" by blast
    note nl = linked_fresh [OF l 2(1)]
    show ?thesis
    proof (cases "dns_use self < dns_max self")
      case True
      from find_appends [OF t(3) s True None nl] t 2(2) True None show ?thesis
        by (fastforce simp: hev_mapped_dns_find_def self0_def same_net_def)
    next
      case False
      from find_evicts [OF t(3) s False None nl linked_distinct [OF l]] t 2(2) False None show ?thesis
        by (fastforce simp: hev_mapped_dns_find_def self0_def same_net_def)
    qed
  qed
qed

text \<open>
  A usable network: its netmask leaves the low \<open>k\<close> bits free, the network number has none of them,
  and there are as many indices as the table has slots.
\<close>

definition net_ok :: "HevMappedDNS \<Rightarrow> nat \<Rightarrow> bool" where
  "net_ok self k \<longleftrightarrow> k < 32 \<and> NOT (dns_mask self) = mask k \<and> dns_net self AND mask k = 0 \<and> dns_max self \<le> 2 ^ k"

definition dns_ip :: "HevMappedDNS \<Rightarrow> int \<Rightarrow> u32" where
  "dns_ip self idx = dns_net self OR word_of_int idx"

lemma masked_index:
  assumes "0 \<le> i" "i < 2 ^ k" "k < 32" "n AND mask k = 0"
  shows "sint ((n OR word_of_int i) AND mask k :: u32) = i"
proof -
  have "(n OR word_of_int i) AND mask k = (word_of_int i AND mask k :: u32)"
    using assms(4) by (simp add: bit.conj_disj_distrib2)
  also have "\<dots> = word_of_int i"
    using assms(1,2) by (metis take_bit_eq_mask take_bit_int_eq_self_iff take_bit_of_int)
  moreover have "i < 2 ^ 31" using assms(2,3) power_increasing [of k 31 "2::int"] by simp
  ultimately show ?thesis using assms(1) by (simp add: sint_sbintrunc' signed_take_bit_int_eq_self)
qed

lemma dns_ip_index:
  assumes "net_ok self k" "0 \<le> i" "i < dns_max self"
  shows "sint (dns_ip self i AND NOT (dns_mask self)) = i"
  using assms by (simp add: net_ok_def dns_ip_def masked_index)

lemma lookup_bound:
  assumes ok: "dns_ok rest self lru" and n: "n \<in> set lru" and net: "net_ok self k"
  shows "hev_mapped_dns_lookup (dns_ip self (node_idx (nodes self n))) self =
    Some (Some (node_name (nodes self n)), dns_touch n self)"
proof -
  from ok n have i: "0 \<le> node_idx (nodes self n)" "node_idx (nodes self n) < dns_max self"
    "nat (node_idx (nodes self n)) < length (records self)" "records self ! nat (node_idx (nodes self n)) = Some n"
    by (auto simp: dns_ok_def slots_ok_def)
  with dns_ip_index [OF net i(1,2)] show ?thesis by (simp add: hev_mapped_dns_lookup_def Let_def)
qed

text \<open>Every entry of the array is \<open>NULL\<close> or the node that has this index.\<close>

lemma slot_node:
  assumes ok: "dns_ok rest self lru" and i: "i < length (records self)"
  shows "records self ! i = None \<or> (\<exists>n \<in> set lru. records self ! i = Some n \<and> node_idx (nodes self n) = int i)"
proof (cases "i < length lru")
  case True
  let ?f = "\<lambda>n. nat (node_idx (nodes self n))"
  from ok have s: "slots_ok self lru" and d: "distinct lru" by (auto simp: dns_ok_def dest: linked_distinct)
  have "inj_on ?f (set lru)"
  proof (rule inj_onI)
    fix a b assume ab: "a \<in> set lru" "b \<in> set lru" "?f a = ?f b"
    then show "a = b" using slots_idx(3) [OF s] by (metis option.inject)
  qed
  then have "card (?f ` set lru) = length lru" using d by (simp add: card_image distinct_card)
  moreover have "?f ` set lru \<subseteq> {..<length lru}" using slots_idx(4) [OF s] by blast
  ultimately have "?f ` set lru = {..<length lru}" using card_subset_eq [of "{..<length lru}"] by simp
  with True have "i \<in> ?f ` set lru" by simp
  then obtain n where n: "n \<in> set lru" "?f n = i" by (rule imageE) simp
  have "records self ! i = Some n" using slots_idx(3) [OF s n(1)] unfolding n(2) .
  moreover have "node_idx (nodes self n) = int i" using slots_idx(1) [OF s n(1)] n(2) by linarith
  ultimately show ?thesis using n(1) by blast
next
  case False
  with ok i show ?thesis by (auto simp: dns_ok_def slots_ok_def)
qed

lemma lookup_ok:
  assumes ok: "dns_ok rest self lru" and m: "0 \<le> sint (NOT (dns_mask self))"
  shows "\<exists>r self' lru'. hev_mapped_dns_lookup ip self = Some (r, self') \<and> dns_ok rest self' lru' \<and> same_net self self' \<and>
    (case r of None \<Rightarrow> self' = self \<and> lru' = lru
     | Some name \<Rightarrow> map_of (cache_of self lru) name = Some (sint (ip AND NOT (dns_mask self))) \<and>
         cache_of self' lru' = snd (cache_use (length (records self)) name (cache_of self lru)))"
proof -
  let ?i = "sint (ip AND NOT (dns_mask self))"
  have i: "0 \<le> ?i" using m by (metis bit_and_iff bit_last_iff linorder_not_le)
  show ?thesis
  proof (cases "?i < dns_max self")
    case False
    with ok show ?thesis by (auto simp: hev_mapped_dns_lookup_def Let_def)
  next
    case True
    with ok i have k: "nat ?i < length (records self)" by (auto simp: dns_ok_def slots_ok_def)
    from slot_node [OF ok k] show ?thesis
    proof
      assume "records self ! nat ?i = None"
      with True i k ok show ?thesis by (auto simp: hev_mapped_dns_lookup_def Let_def)
    next
      assume "\<exists>n \<in> set lru. records self ! nat ?i = Some n \<and> node_idx (nodes self n) = int (nat ?i)"
      then obtain n where n: "n \<in> set lru" "records self ! nat ?i = Some n" "node_idx (nodes self n) = ?i" using i by auto
      then have "map_of (cache_of self lru) (node_name (nodes self n)) = Some ?i"
        using ok by (auto simp: cache_Some dns_ok_def)
      moreover from this have "cache_of (dns_touch n self) (remove1 n lru @ [n]) =
          snd (cache_use (length (records self)) (node_name (nodes self n)) (cache_of self lru))"
        using dns_touch_ok(3) [OF ok n(1)] n(3) by (simp add: cache_use_def)
      ultimately show ?thesis using True i k n dns_touch_ok(1,2) [OF ok n(1)]
        by (auto simp: hev_mapped_dns_lookup_def Let_def)
    qed
  qed
qed

section \<open>How long a name stays\<close>

lemma cache_use_keeps:
  assumes c: "c = as @ (name, i) # bs" "distinct (map fst c)" "length c \<le> cap"
    and other: "other \<noteq> name" and U: "fst ` set bs \<subseteq> U" "finite U" "card (insert other U) < cap"
  shows "\<exists>as' bs'. snd (cache_use cap other c) = as' @ (name, i) # bs' \<and> fst ` set bs' \<subseteq> insert other U"
proof (cases "map_of c other")
  case (Some j)
  then have u: "snd (cache_use cap other c) = remove1 (other, j) c @ [(other, j)]" by (simp add: cache_use_def)
  show ?thesis
  proof (cases "(other, j) \<in> set as")
    case True
    with u c(1) U(1) show ?thesis
      by (intro exI [of _ "remove1 (other, j) as"] exI [of _ "bs @ [(other, j)]"]) (auto simp: remove1_append)
  next
    case False
    have "fst ` set (remove1 (other, j) bs) \<subseteq> U"
      using U(1) set_remove1_subset [of "(other, j)" bs] by blast
    with False u c(1) U(1) other have "snd (cache_use cap other c) = as @ (name, i) # remove1 (other, j) bs @ [(other, j)]"
      "fst ` set (remove1 (other, j) bs @ [(other, j)]) \<subseteq> insert other U" by (auto simp: remove1_append)
    then show ?thesis by blast
  qed
next
  case None
  show ?thesis
  proof (cases "length c < cap")
    case True
    from None True have "snd (cache_use cap other c) = c @ [(other, int (length c))]" by (simp add: cache_use_def)
    then have "snd (cache_use cap other c) = as @ (name, i) # (bs @ [(other, int (length c))])" by (simp add: c(1))
    moreover have "fst ` set (bs @ [(other, int (length c))]) \<subseteq> insert other U" using U(1) by auto
    ultimately show ?thesis by blast
  next
    case False
    have "as \<noteq> []"
    proof
      assume "as = []"
      from None have "other \<notin> fst ` set c" by (simp only: map_of_eq_None_iff) simp
      with c False \<open>as = []\<close> have b: "Suc (length bs) = cap" "distinct (map fst bs)" "other \<notin> fst ` set bs" by auto
      then have "card (insert other (fst ` set bs)) = cap"
        using distinct_card [of "map fst bs"] by simp
      moreover have "card (insert other (fst ` set bs)) \<le> card (insert other U)"
        using U(1,2) by (intro card_mono) auto
      ultimately show False using U(3) by simp
    qed
    then have "tl c = tl as @ (name, i) # bs" by (simp add: c(1))
    moreover from None False have "snd (cache_use cap other c) = tl c @ [(other, snd (hd c))]"
      by (simp add: cache_use_def)
    ultimately have "snd (cache_use cap other c) = tl as @ (name, i) # (bs @ [(other, snd (hd c))])" by simp
    moreover have "fst ` set (bs @ [(other, snd (hd c))]) \<subseteq> insert other U" using U(1) by auto
    ultimately show ?thesis by blast
  qed
qed

text \<open>The name that is used itself becomes the newest.\<close>

lemma cache_use_self:
  assumes c: "c = as @ (name, i) # bs" "distinct (map fst c)"
  shows "snd (cache_use cap name c) = as @ bs @ [(name, i)]"
proof -
  from c have "name \<notin> fst ` set as" by auto
  then have "map_of c name = Some i" "(name, i) \<notin> set as"
    by (auto simp: c(1) map_add_Some_iff map_of_eq_None_iff intro: rev_image_eqI)
  then show ?thesis by (simp add: cache_use_def c(1) remove1_append)
qed

text \<open>
  What may happen to the table: names are asked for and addresses are translated back, in any order.
  \<open>dns_uses\<close> performs the operations and collects the names they concern: those asked for and those
  the lookups returned.
\<close>

datatype dns_op = DnsFind bytes | DnsLookup u32

fun dns_uses :: "allocator \<Rightarrow> dns_op list \<Rightarrow> HevMappedDNS \<Rightarrow> (bytes list \<times> HevMappedDNS) option" where
  "dns_uses malloc [] self = Some ([], self)"
| "dns_uses malloc (DnsFind n # ops) self =
     (case hev_mapped_dns_find malloc n self of
        None \<Rightarrow> None
      | Some (_, self) \<Rightarrow> map_option (\<lambda>(ns, self). (n # ns, self)) (dns_uses malloc ops self))"
| "dns_uses malloc (DnsLookup ip # ops) self =
     (case hev_mapped_dns_lookup ip self of
        None \<Rightarrow> None
      | Some (None, self) \<Rightarrow> dns_uses malloc ops self
      | Some (Some n, self) \<Rightarrow> map_option (\<lambda>(ns, self). (n # ns, self)) (dns_uses malloc ops self))"

text \<open>One operation, seen on the cache: nothing, or the use of one name.\<close>

lemma dns_op_step:
  assumes m: "allocates malloc" and ok: "dns_ok rest self lru" and net: "0 \<le> sint (NOT (dns_mask self))"
  obtains self1 lru1 us where "dns_ok rest self1 lru1" "same_net self self1"
    "dns_uses malloc (opn # ops) self = map_option (\<lambda>(ns, self). (us @ ns, self)) (dns_uses malloc ops self1)"
    "cache_of self1 lru1 = cache_of self lru \<or>
     (\<exists>n. us = [n] \<and> cache_of self1 lru1 = snd (cache_use (length (records self)) n (cache_of self lru)))"
proof (cases opn)
  case (DnsFind n)
  from find_ok [OF m ok, of n] obtain r self1 lru1 where
    f: "hev_mapped_dns_find malloc n self = Some (r, self1)" "dns_ok rest self1 lru1" "same_net self self1"
      "(self1 = self \<and> lru1 = lru) \<or>
       cache_of self1 lru1 = snd (cache_use (length (records self)) n (cache_of self lru))"
    by (metis snd_conv)
  then show thesis by (intro that [of self1 lru1 "[n]"]) (auto simp: DnsFind)
next
  case (DnsLookup ip)
  from lookup_ok [OF ok net, of ip] obtain r self1 lru1 where
    f: "hev_mapped_dns_lookup ip self = Some (r, self1)" "dns_ok rest self1 lru1" "same_net self self1"
      "case r of None \<Rightarrow> self1 = self \<and> lru1 = lru
       | Some n \<Rightarrow> cache_of self1 lru1 = snd (cache_use (length (records self)) n (cache_of self lru))"
    by (auto split: option.splits)
  show thesis
  proof (cases r)
    case None
    with f show thesis
      by (intro that [of self1 lru1 "[]"]) (auto simp: DnsLookup option.map_id)
  next
    case (Some n)
    with f show thesis by (intro that [of self1 lru1 "[n]"]) (auto simp: DnsLookup)
  qed
qed

lemma cache_shape:
  assumes "dns_ok rest self lru"
  shows "distinct (map fst (cache_of self lru))" "length (cache_of self lru) \<le> length (records self)"
    "records self \<noteq> []"
  using assms linked_names linked_distinct [of rest self lru]
  by (auto simp: cache_of_def distinct_map inj_on_def comp_def dns_ok_def slots_ok_def)

lemma dns_uses_keep:
  assumes "allocates malloc" "dns_ok rest self lru" "0 \<le> sint (NOT (dns_mask self))"
    "(\<exists>as bs. cache_of self lru = as @ (name, i) # bs \<and> fst ` set bs \<subseteq> U) \<or> length (records self) \<le> card (U - {name})"
    "finite U"
  shows "\<exists>ns self' lru'. dns_uses malloc ops self = Some (ns, self') \<and> dns_ok rest self' lru' \<and> same_net self self' \<and>
    (card (U \<union> set ns - {name}) < length (records self) \<longrightarrow> (name, i) \<in> set (cache_of self' lru'))"
  using assms
proof (induction ops arbitrary: self lru U)
  case Nil
  then show ?case by (intro exI [of _ "[]"] exI [of _ self] exI [of _ lru]) auto
next
  case (Cons opn ops)
  from dns_op_step [OF Cons.prems(1-3), of opn ops] obtain self1 lru1 us where
    f: "dns_ok rest self1 lru1" "same_net self self1"
      "dns_uses malloc (opn # ops) self = map_option (\<lambda>(ns, self). (us @ ns, self)) (dns_uses malloc ops self1)"
      "cache_of self1 lru1 = cache_of self lru \<or>
       (\<exists>n. us = [n] \<and> cache_of self1 lru1 = snd (cache_use (length (records self)) n (cache_of self lru)))" .
  let ?U = "U \<union> set us"
  have len: "length (records self1) = length (records self)" "0 \<le> sint (NOT (dns_mask self1))"
    using f(2) Cons.prems(3) by (auto simp: same_net_def)
  have mono: "card (U - {name}) \<le> card (?U - {name})" using Cons.prems(5) by (intro card_mono) auto
  have "(\<exists>as bs. cache_of self1 lru1 = as @ (name, i) # bs \<and> fst ` set bs \<subseteq> ?U) \<or>
    length (records self1) \<le> card (?U - {name})"
  proof (cases "card (?U - {name}) < length (records self)")
    case False
    with len show ?thesis by simp
  next
    case True
    with mono Cons.prems(4) obtain as bs where c: "cache_of self lru = as @ (name, i) # bs" "fst ` set bs \<subseteq> U" by auto
    note sh = cache_shape(1,2) [OF Cons.prems(2)]
    have nb: "name \<notin> fst ` set bs" using sh(1) unfolding c(1) by auto
    from f(4) show ?thesis
    proof
      assume "cache_of self1 lru1 = cache_of self lru"
      with c show ?thesis by (intro disjI1 exI [of _ as] exI [of _ bs]) auto
    next
      assume "\<exists>n. us = [n] \<and> cache_of self1 lru1 = snd (cache_use (length (records self)) n (cache_of self lru))"
      then obtain n where n: "us = [n]" "cache_of self1 lru1 = snd (cache_use (length (records self)) n (cache_of self lru))"
        by blast
      show ?thesis
      proof (cases "n = name")
        case True
        with n cache_use_self [OF c(1) sh(1), of "length (records self)"] show ?thesis
          by (intro disjI1 exI [of _ "as @ bs"] exI [of _ "[]"]) simp
      next
        case False
        have "fst ` set bs \<subseteq> U - {name}" "finite (U - {name})" using c(2) nb Cons.prems(5) by auto
        moreover have "insert n (U - {name}) = ?U - {name}" using n(1) False by auto
        ultimately have "\<exists>as' bs'. snd (cache_use (length (records self)) n (cache_of self lru)) = as' @ (name, i) # bs' \<and>
            fst ` set bs' \<subseteq> insert n (U - {name})"
          using cache_use_keeps [OF c(1) sh False] True by metis
        then obtain as' bs' where "cache_of self1 lru1 = as' @ (name, i) # bs'" "fst ` set bs' \<subseteq> insert n (U - {name})"
          using n(2) by auto
        with n(1) show ?thesis by (intro disjI1 exI [of _ as'] exI [of _ bs']) auto
      qed
    qed
  qed
  from Cons.IH [OF Cons.prems(1) f(1) len(2) this] Cons.prems(5) obtain ns self' lru' where
    u: "dns_uses malloc ops self1 = Some (ns, self')" "dns_ok rest self' lru'" "same_net self1 self'"
      "card (?U \<union> set ns - {name}) < length (records self) \<longrightarrow> (name, i) \<in> set (cache_of self' lru')"
    unfolding len(1) by auto
  have "U \<union> set (us @ ns) = ?U \<union> set ns" by auto
  moreover have "dns_uses malloc (opn # ops) self = Some (us @ ns, self')" using f(3) u(1) by simp
  moreover have "same_net self self'" using f(2) u(3) by (simp add: same_net_def)
  ultimately show ?case using u(2,4) by metis
qed

lemma dns_free_nodes_ok:
  "dll (dns_list self) (as @ bs) \<Longrightarrow> \<exists>self'. dns_free_nodes (first_or bs None) self = Some self' \<and>
     mset (blocks self') = mset (blocks self) - (mset bs + image_mset (\<lambda>n. name_mem (nodes self n)) (mset bs))"
proof (induction bs arbitrary: as self)
  case Nil
  then show ?case by (subst dns_free_nodes.simps) simp
next
  case (Cons n bs)
  let ?self = "hev_mapped_dns_node_free n self"
  have "hev_list_node_next (snd (dns_list self)) n = first_or bs None" using Cons.prems by (rule dll_next)
  moreover have "dll (dns_list ?self) ((as @ [n]) @ bs)" using Cons.prems by (simp add: hev_mapped_dns_node_free_def)
  from Cons.IH [OF this] obtain self' where "dns_free_nodes (first_or bs None) ?self = Some self'"
    "mset (blocks self') = mset (blocks ?self) - (mset bs + image_mset (\<lambda>n. name_mem (nodes ?self n)) (mset bs))" by blast
  ultimately show ?case
    by (subst dns_free_nodes.simps) (simp add: hev_mapped_dns_node_free_def diff_diff_add_mset add.commute)
qed

lemma net_ok_sign:
  assumes "net_ok self k"
  shows "0 \<le> sint (NOT (dns_mask self))"
proof -
  have "\<not> bit (mask k :: u32) 31" using assms by (simp add: net_ok_def bit_mask_iff)
  then have "0 \<le> sint (mask k :: u32)" using bit_last_iff [of "mask k :: u32"] by simp
  with assms show ?thesis by (simp add: net_ok_def)
qed

lemma dns_name_kept:
  assumes m: "allocates malloc" and ok: "dns_ok rest self lru" and net: "net_ok self k"
    and f: "hev_mapped_dns_find malloc name self = Some (idx, self1)" "idx \<noteq> -1"
  shows "\<exists>ns self2. dns_uses malloc ops self1 = Some (ns, self2) \<and>
    (card (set ns - {name}) < length (records self) \<longrightarrow>
      (\<exists>self3. hev_mapped_dns_lookup (dns_ip self idx) self2 = Some (Some name, self3)))"
proof -
  from find_ok [OF m ok, of name] f obtain lru1 where f1: "dns_ok rest self1 lru1" "same_net self self1"
    "(idx, cache_of self1 lru1) = cache_use (length (records self)) name (cache_of self lru)"
    by (auto split: if_splits)
  from f1(3) obtain c where "cache_of self1 lru1 = c @ [(name, idx)]"
    by (auto simp: cache_use_def split: option.splits if_splits)
  then have "\<exists>as bs. cache_of self1 lru1 = as @ (name, idx) # bs \<and> fst ` set bs \<subseteq> {}" by auto
  moreover have "0 \<le> sint (NOT (dns_mask self1))" using net_ok_sign [OF net] f1(2) by (simp add: same_net_def)
  ultimately obtain ns self2 lru2 where
    k: "dns_uses malloc ops self1 = Some (ns, self2)" "dns_ok rest self2 lru2" "same_net self1 self2"
      "card (set ns - {name}) < length (records self) \<Longrightarrow> (name, idx) \<in> set (cache_of self2 lru2)"
    using dns_uses_keep [OF m f1(1), of name idx "{}" ops] f1(2) by (auto simp: same_net_def)
  have "\<exists>self3. hev_mapped_dns_lookup (dns_ip self idx) self2 = Some (Some name, self3)"
    if "card (set ns - {name}) < length (records self)"
  proof -
    from k(4) [OF that] obtain n where n: "n \<in> set lru2" "node_name (nodes self2 n) = name" "node_idx (nodes self2 n) = idx"
      by (auto simp: cache_of_def)
    have "net_ok self2 k" "dns_ip self idx = dns_ip self2 idx"
      using net f1(2) k(3) by (auto simp: net_ok_def same_net_def dns_ip_def)
    with lookup_bound [OF k(2) n(1), of k] n show ?thesis by auto
  qed
  with k(1) show ?thesis by auto
qed

section \<open>Properties\<close>

text \<open>
  C20: \<open>hev_mapped_dns_find\<close> implements a least-recently-used cache: a known name keeps its index and
  becomes the newest, a new name gets the next free index or, in a full table, the index of the
  oldest name, which is evicted and freed. Tree, list and array stay consistent, and a failed
  allocation changes nothing and returns -1.
\<close>
theorem mapped_dns_find_cache:
  assumes "allocates malloc" "dns_ok rest self lru"
  shows "\<exists>r self' lru'. hev_mapped_dns_find malloc name self = Some (r, self') \<and>
    dns_ok rest self' lru' \<and>
    (if map_of (cache_of self lru) name = None \<and> fst (hev_mapped_dns_node_alloc malloc name self) = None
     then r = -1 \<and> self' = self \<and> lru' = lru
     else (r, cache_of self' lru') = cache_use (length (records self)) name (cache_of self lru))"
  using find_ok [OF assms, of name] by blast

text \<open>
  C14: An address handed out for a name is translated back to this name, as long as fewer other names
  than the table has slots have been in use since: asked for, or returned for an address that was
  looked up. It does not matter in which order names are asked for and addresses looked up, how
  often, or whether the allocations in between succeed; none of these operations goes wrong.
\<close>
theorem mapped_dns_name_kept:
  assumes m: "allocates malloc" and ok: "dns_ok rest self lru" and net: "net_ok self k"
    and f: "hev_mapped_dns_find malloc name self = Some (idx, self1)" "idx \<noteq> -1"
  shows "\<exists>ns self2. dns_uses malloc ops self1 = Some (ns, self2) \<and>
    (card (set ns - {name}) < length (records self) \<longrightarrow>
      (\<exists>self3. hev_mapped_dns_lookup (dns_ip self idx) self2 = Some (Some name, self3)))"
  using assms by (rule dns_name_kept)

text \<open>
  Looking an address up returns NULL or a name that is in the table with the index in the host
  part of the address, whatever the address; the array is never read out of its bounds.
\<close>
theorem mapped_dns_lookup_sound:
  assumes "dns_ok rest self lru" "0 \<le> sint (NOT (dns_mask self))"
  shows "\<exists>r self' lru'. hev_mapped_dns_lookup ip self = Some (r, self') \<and> dns_ok rest self' lru' \<and>
    (case r of None \<Rightarrow> self' = self
     | Some name \<Rightarrow> map_of (cache_of self lru) name = Some (sint (ip AND NOT (dns_mask self))))"
  using lookup_ok [OF assms, of ip] by (fastforce split: option.splits)

text \<open>
  The destructor walks the list to its end and gives back every node, every name and the object
  itself: the blocks that are left are those that others own.
\<close>
theorem mapped_dns_destruct_frees:
  assumes "dns_ok (mset (a # bs)) self lru"
  shows "\<exists>left. hev_mapped_dns_destruct a self = Some left \<and> mset left = mset bs"
proof -
  from assms have l: "dll (dns_list self) ([] @ lru)" "mset (blocks self) = mset lru +
      image_mset (\<lambda>n. name_mem (nodes self n)) (mset lru) + mset (a # bs)"
    by (auto simp: dns_ok_def dns_linked_def)
  from dns_free_nodes_ok [OF l(1)] l(1,2) show ?thesis
    by (auto simp: hev_mapped_dns_destruct_def lru.rep_first)
qed

section \<open>Witnesses\<close>

text \<open>A table with two slots on the network 198.18.0.0/15, and an allocator that never fails.\<close>

definition bump :: allocator where
  "bump bs = Some (Suc (sum_list bs))"

definition dns_sample :: HevMappedDNS where
  "dns_sample = snd (the (hev_mapped_dns_new bump 0xC6120000 0xFFFE0000 2 []))"

lemma bump_allocates: "allocates bump"
  by (auto simp: allocates_def bump_def dest: member_le_sum_list)

lemma dns_sample_new: "hev_mapped_dns_new bump 0xC6120000 0xFFFE0000 2 [] = Some (1, dns_sample)"
  by (simp add: dns_sample_def hev_mapped_dns_new_def hev_mapped_dns_construct_def bump_def Let_def)

lemmas dns_sample_ok = dns_new_ok [OF dns_sample_new, simplified]

lemma dns_sample_simps:
  "cache_of dns_sample [] = []" "length (records dns_sample) = 2" "blocks dns_sample = [1]"
  "net_ok dns_sample 17" "dns_ip dns_sample 0 = 0xC6120000"
  by (simp_all add: dns_sample_def hev_mapped_dns_new_def hev_mapped_dns_construct_def bump_def Let_def
      cache_of_def net_ok_def dns_ip_def mask_eq_exp_minus_1)

theorem mapped_dns_find_cache_witness:
  "\<exists>self' lru'. hev_mapped_dns_find bump [97] dns_sample = Some (0, self') \<and> cache_of self' lru' = [([97], 0)]"
  using mapped_dns_find_cache [OF bump_allocates dns_sample_ok(1), of "[97]"] dns_sample_simps
  by (auto simp: cache_use_def hev_mapped_dns_node_alloc_def bump_def)

text \<open>The equations by which the runs below are computed.\<close>

declare rb_search.simps [code] insert_loop.simps [code]

text \<open>Two slots: the other name may be asked for and looked up, and unused addresses be looked up.\<close>

theorem mapped_dns_name_kept_witness:
  "\<exists>ns self1 self2 self3. hev_mapped_dns_find bump [97] dns_sample = Some (0, self1) \<and>
     dns_uses bump [DnsFind [98], DnsLookup 0xC6120005, DnsLookup 0xC6120001] self1 = Some (ns, self2) \<and>
     hev_mapped_dns_lookup 0xC6120000 self2 = Some (Some [97], self3)"
proof -
  let ?ops = "[DnsFind [98], DnsLookup 0xC6120005, DnsLookup 0xC6120001]"
  from find_ok [OF bump_allocates dns_sample_ok(1), of "[97]"] dns_sample_simps obtain self1 where
    f: "hev_mapped_dns_find bump [97] dns_sample = Some (0, self1)"
    by (auto simp: cache_use_def hev_mapped_dns_node_alloc_def bump_def)
  have "case hev_mapped_dns_find bump [97] dns_sample of None \<Rightarrow> False
     | Some (_, s) \<Rightarrow> (case dns_uses bump ?ops s of None \<Rightarrow> False | Some (ns, _) \<Rightarrow> ns = [[98], [98]])"
    by code_simp
  with f obtain self2 where u: "dns_uses bump ?ops self1 = Some ([[98], [98]], self2)" by (auto split: option.splits)
  from mapped_dns_name_kept [OF bump_allocates dns_sample_ok(1) dns_sample_simps(4) f, of ?ops] u f
  show ?thesis by (auto simp: dns_sample_simps)
qed

theorem mapped_dns_lookup_sound_witness:
  "\<exists>self'. hev_mapped_dns_lookup 0xC6120001 dns_sample = Some (None, self')"
proof -
  have "0 \<le> sint (NOT (dns_mask dns_sample))" using dns_sample_ok by simp
  from mapped_dns_lookup_sound [OF dns_sample_ok(1) this, where ip = "0xC6120001"] dns_sample_simps(1) show ?thesis
    by (auto split: option.splits)
qed

theorem mapped_dns_destruct_frees_witness: "hev_mapped_dns_destruct 1 dns_sample = Some []"
  using mapped_dns_destruct_frees [of 1 "[]" dns_sample "[]"] dns_sample_ok(1) by auto

end
