(* ===== verification/DNS_Handle.thy ===== *)
theory DNS_Handle
  imports Mapped_DNS "HOL-Library.Monad_Syntax"
begin

text \<open>
  The DNS messages of the mapped DNS: \<open>hev_mapped_dns_handle\<close> of \<open>src/hev-mapped-dns.c\<close>, which
  reads the questions of a request in place, finds an index for every name that is asked for by
  an A query, and writes the answers behind a copy of the request.
\<close>

section \<open>The buffers\<close>

text \<open>
  What stands at an offset, and a buffer with something put there. The functions of the code check
  that the bytes lie inside of the buffer: \<open>None\<close> is an access out of its bounds.
\<close>

definition u16_at :: "bytes \<Rightarrow> nat \<Rightarrow> u16" where
  "u16_at p off = push_bit 8 (ucast (p ! off)) OR ucast (p ! (off + 1))"

definition put_u16 :: "nat \<Rightarrow> u16 \<Rightarrow> bytes \<Rightarrow> bytes" where
  "put_u16 off v p = p[off := ucast (drop_bit 8 v), off + 1 := ucast v]"

definition put_u32 :: "nat \<Rightarrow> u32 \<Rightarrow> bytes \<Rightarrow> bytes" where
  "put_u32 off v p = p[off := ucast (drop_bit 24 v), off + 1 := ucast (drop_bit 16 v),
     off + 2 := ucast (drop_bit 8 v), off + 3 := ucast v]"

definition read_u16 :: "bytes \<Rightarrow> nat \<Rightarrow> u16 option" where
  "read_u16 p off = (if off + 1 < length p then Some (u16_at p off) else None)"

definition write_u8 :: "nat \<Rightarrow> u8 \<Rightarrow> bytes \<Rightarrow> bytes option" where
  "write_u8 off v p = (if off < length p then Some (p[off := v]) else None)"

definition write_u16 :: "nat \<Rightarrow> u16 \<Rightarrow> bytes \<Rightarrow> bytes option" where
  "write_u16 off v p = (if off + 1 < length p then Some (put_u16 off v p) else None)"

definition write_u32 :: "nat \<Rightarrow> u32 \<Rightarrow> bytes \<Rightarrow> bytes option" where
  "write_u32 off v p = (if off + 3 < length p then Some (put_u32 off v p) else None)"

definition copy_bytes :: "bytes \<Rightarrow> bytes \<Rightarrow> bytes option" where
  "copy_bytes src dst = (if length src \<le> length dst then Some (patch 0 src dst) else None)"

text \<open>\<open>DNSHdr\<close>: six 16-bit fields; the header functions read and write one of them in host order.\<close>

definition hdr_at :: "nat \<Rightarrow> bytes \<Rightarrow> u16" where
  "hdr_at field p = ld16 p (2 * field)"

definition put_hdr :: "nat \<Rightarrow> u16 \<Rightarrow> bytes \<Rightarrow> bytes" where
  "put_hdr field v p = patch (2 * field) (mem16 v) p"

definition hdr_get :: "nat \<Rightarrow> bytes \<Rightarrow> u16 option" where
  "hdr_get field p = (if 2 * field + 1 < length p then Some (hdr_at field p) else None)"

definition hdr_set :: "nat \<Rightarrow> u16 \<Rightarrow> bytes \<Rightarrow> bytes option" where
  "hdr_set field v p = (if 2 * field + 1 < length p then Some (put_hdr field v p) else None)"

abbreviation (input) hdr_fl :: nat where "hdr_fl \<equiv> 1"
abbreviation (input) hdr_qd :: nat where "hdr_qd \<equiv> 2"
abbreviation (input) hdr_an :: nat where "hdr_an \<equiv> 3"
abbreviation (input) hdr_ns :: nat where "hdr_ns \<equiv> 4"
abbreviation (input) hdr_ar :: nat where "hdr_ar \<equiv> 5"

text \<open>The string that starts at an offset; it must end inside of the buffer.\<close>

definition dns_str :: "nat \<Rightarrow> bytes \<Rightarrow> bytes option" where
  "dns_str off p = (if 0 \<in> set (drop off p) then Some (takeWhile (\<lambda>b. b \<noteq> 0) (drop off p)) else None)"

section \<open>The handler\<close>

text \<open>
  \<open>None\<close> is an access outside of a buffer or of the arrays of 32 entries. The walk over the labels
  of a name writes a dot over every length; its inner result is \<open>None\<close> when the name runs out of
  the request, and the offset of the final zero otherwise.
\<close>

function dns_labels :: "nat \<Rightarrow> nat \<Rightarrow> bytes \<Rightarrow> (bytes \<times> nat option) option" where
  "dns_labels qlen off rb =
     (if off \<ge> length rb then None
      else if rb ! off = 0 then Some (rb, Some off)
      else if off + 1 + unat (rb ! off) \<ge> qlen then Some (rb, None)
      else dns_labels qlen (off + 1 + unat (rb ! off)) (rb[off := 46]))"
  by pat_completeness auto
termination by (relation "measure (\<lambda>(qlen, off, rb). length rb - off)") auto

declare dns_labels.simps [simp del]

type_synonym dns_answer = "nat \<times> u32"

fun dns_questions :: "allocator \<Rightarrow> nat \<Rightarrow> nat \<Rightarrow> nat \<Rightarrow> dns_answer list \<Rightarrow> bytes \<Rightarrow> HevMappedDNS \<Rightarrow>
    ((nat \<times> dns_answer list) option \<times> bytes \<times> HevMappedDNS) option" where
  "dns_questions malloc qlen 0 off ips rb self = Some (Some (off, ips), rb, self)"
| "dns_questions malloc qlen (Suc i) off ips rb self =
     (if length ips \<ge> 32 then None
      else if off \<ge> qlen then Some (None, rb, self)
      else (case dns_labels qlen off rb of
              None \<Rightarrow> None
            | Some (rb, None) \<Rightarrow> Some (None, rb, self)
            | Some (rb, Some end) \<Rightarrow>
                if end + 1 + 3 \<ge> qlen then Some (None, rb, self)
                else do {
                  qtype \<leftarrow> read_u16 rb (end + 1);
                  qclass \<leftarrow> read_u16 rb (end + 1 + 2);
                  if qtype = 1 \<and> qclass = 1
                  then do {
                    name \<leftarrow> dns_str (off + 1) rb;
                    (idx, self) \<leftarrow> hev_mapped_dns_find malloc name self;
                    dns_questions malloc qlen i (end + 1 + 4)
                      (if idx \<ge> 0 then ips @ [(off, dns_ip self idx)] else ips) rb self
                  }
                  else dns_questions malloc qlen i (end + 1 + 4) ips rb self
                }))"

text \<open>The answers: the inner result is \<open>None\<close> when there is no room for the next one.\<close>

fun dns_answers :: "nat \<Rightarrow> dns_answer list \<Rightarrow> nat \<Rightarrow> bytes \<Rightarrow> (nat option \<times> bytes) option" where
  "dns_answers slen [] off sb = Some (Some off, sb)"
| "dns_answers slen ((ipo, ip) # ips) off sb =
     (if off + 15 \<ge> slen then Some (None, sb)
      else do {
        sb \<leftarrow> write_u8 off 0xc0 sb;
        sb \<leftarrow> write_u8 (off + 1) (word_of_nat ipo) sb;
        sb \<leftarrow> write_u16 (off + 2) 1 sb;
        sb \<leftarrow> write_u16 (off + 4) 1 sb;
        sb \<leftarrow> write_u32 (off + 6) 1 sb;
        sb \<leftarrow> write_u16 (off + 10) 4 sb;
        sb \<leftarrow> write_u32 (off + 12) ip sb;
        dns_answers slen ips (off + 16) sb
      })"

definition dns_finish :: "nat \<Rightarrow> bytes \<Rightarrow> bytes option" where
  "dns_finish ipn sb = do {
     fl \<leftarrow> hdr_get hdr_fl sb;
     sb \<leftarrow> hdr_set hdr_fl (htons (fl OR 0x8000 OR drop_bit 1 (fl AND 0x100))) sb;
     hdr_set hdr_an (htons (word_of_nat ipn)) sb
   }"

definition hev_mapped_dns_handle ::
    "allocator \<Rightarrow> bytes \<Rightarrow> bytes \<Rightarrow> HevMappedDNS \<Rightarrow> (int \<times> bytes \<times> bytes \<times> HevMappedDNS) option" where
  "hev_mapped_dns_handle malloc req res self =
     (let qlen = length req; slen = length res
      in if slen < qlen then Some (-1, req, res, self)
         else if qlen < 12 then Some (-1, req, res, self)
         else do {
           res \<leftarrow> copy_bytes req res;
           qd \<leftarrow> hdr_get hdr_qd req;
           req \<leftarrow> hdr_set hdr_qd (ntohs qd) req;
           fl \<leftarrow> hdr_get hdr_fl res;
           res \<leftarrow> hdr_set hdr_fl (ntohs fl) res;
           res \<leftarrow> hdr_set hdr_ns 0 res;
           res \<leftarrow> hdr_set hdr_an 0 res;
           res \<leftarrow> hdr_set hdr_ar 0 res;
           qd \<leftarrow> hdr_get hdr_qd req;
           if qd > 32 then Some (-1, req, res, self)
           else do {
             (qs, req, self) \<leftarrow> dns_questions malloc qlen (unat qd) 12 [] req self;
             case qs of
               None \<Rightarrow> Some (-1, req, res, self)
             | Some (off, ips) \<Rightarrow> do {
                 (end, res) \<leftarrow> dns_answers slen ips off res;
                 case end of
                   None \<Rightarrow> Some (-1, req, res, self)
                 | Some off \<Rightarrow> do {
                     res \<leftarrow> dns_finish (length ips) res;
                     Some (int off, req, res, self)
                   }
               }
           }
         })"

section \<open>No access is out of bounds\<close>

lemma length_writes [simp]:
  "length (put_u16 off v p) = length p" "length (put_u32 off w p) = length p"
  by (simp_all add: put_u16_def put_u32_def)

lemma length_put_hdr [simp]: "2 * field + 2 \<le> length p \<Longrightarrow> length (put_hdr field v p) = length p"
  by (simp add: put_hdr_def)

lemma in_bounds [simp]:
  "off + 1 < length p \<Longrightarrow> read_u16 p off = Some (u16_at p off)"
  "off < length p \<Longrightarrow> write_u8 off b p = Some (p[off := b])"
  "off + 1 < length p \<Longrightarrow> write_u16 off v p = Some (put_u16 off v p)"
  "off + 3 < length p \<Longrightarrow> write_u32 off w p = Some (put_u32 off w p)"
  "2 * field + 1 < length p \<Longrightarrow> hdr_get field p = Some (hdr_at field p)"
  "2 * field + 1 < length p \<Longrightarrow> hdr_set field v p = Some (put_hdr field v p)"
  by (simp_all add: read_u16_def write_u8_def write_u16_def write_u32_def hdr_get_def hdr_set_def)

text \<open>The steps of the loops when the lengths given are those of the buffers.\<close>

lemma dns_labels_length:
  "dns_labels qlen off rb = Some (rb', e) \<Longrightarrow> length rb' = length rb"
proof (induction qlen off rb rule: dns_labels.induct)
  case (1 qlen off rb)
  from 1(2) show ?case
    by (subst (asm) dns_labels.simps) (auto split: if_splits dest: 1(1))
qed

lemma dns_questions_step:
  assumes "length rb = qlen"
  shows "dns_questions malloc qlen (Suc i) off ips rb self =
     (if length ips \<ge> 32 then None
      else if off \<ge> qlen then Some (None, rb, self)
      else (case dns_labels qlen off rb of
              None \<Rightarrow> None
            | Some (rb, None) \<Rightarrow> Some (None, rb, self)
            | Some (rb, Some end) \<Rightarrow>
                if end + 1 + 3 \<ge> qlen then Some (None, rb, self)
                else if u16_at rb (end + 1) = 1 \<and> u16_at rb (end + 1 + 2) = 1
                then (case dns_str (off + 1) rb of
                        None \<Rightarrow> None
                      | Some name \<Rightarrow>
                          (case hev_mapped_dns_find malloc name self of
                             None \<Rightarrow> None
                           | Some (idx, self) \<Rightarrow>
                               dns_questions malloc qlen i (end + 1 + 4)
                                 (if idx \<ge> 0 then ips @ [(off, dns_ip self idx)] else ips) rb self))
                else dns_questions malloc qlen i (end + 1 + 4) ips rb self))"
proof (cases "dns_labels qlen off rb")
  case (Some x)
  then obtain rb1 e where x: "dns_labels qlen off rb = Some (rb1, e)" by (cases x) auto
  from dns_labels_length [OF this] assms have l: "length rb1 = qlen" by simp
  show ?thesis
  proof (cases e)
    case (Some n)
    have "read_u16 rb1 (n + 1) = Some (u16_at rb1 (n + 1))" "read_u16 rb1 (n + 1 + 2) = Some (u16_at rb1 (n + 1 + 2))"
      if "\<not> n + 1 + 3 \<ge> qlen" using that l by simp_all
    with x Some show ?thesis
      by (simp add: Option.bind_def split: option.split prod.split)
  qed (simp add: x)
qed simp

declare dns_questions.simps(2) [simp del]

definition answer_at :: "nat \<Rightarrow> nat \<Rightarrow> u32 \<Rightarrow> bytes \<Rightarrow> bytes" where
  "answer_at off ipo ip sb =
     put_u32 (off + 12) ip (put_u16 (off + 10) 4 (put_u32 (off + 6) 1
       (put_u16 (off + 4) 1 (put_u16 (off + 2) 1 (sb[off := 0xc0, off + 1 := word_of_nat ipo])))))"

lemma length_answer_at [simp]: "length (answer_at off ipo ip sb) = length sb"
  by (simp add: answer_at_def)

lemma dns_answers_step:
  "length sb = slen \<Longrightarrow> dns_answers slen ((ipo, ip) # ips) off sb =
     (if off + 15 \<ge> slen then Some (None, sb) else dns_answers slen ips (off + 16) (answer_at off ipo ip sb))"
  by (simp add: answer_at_def)

declare dns_answers.simps(2) [simp del]

definition finished :: "nat \<Rightarrow> bytes \<Rightarrow> bytes" where
  "finished ipn sb =
     (let fl = hdr_at hdr_fl sb;
          sb = put_hdr hdr_fl (htons (fl OR 0x8000 OR drop_bit 1 (fl AND 0x100))) sb
      in put_hdr hdr_an (htons (word_of_nat ipn)) sb)"

lemma dns_finish_eq: "8 \<le> length sb \<Longrightarrow> dns_finish n sb = Some (finished n sb)"
  by (simp add: dns_finish_def finished_def Let_def)

text \<open>The buffers after the header has been prepared.\<close>

definition host_req :: "bytes \<Rightarrow> bytes" where
  "host_req req = put_hdr hdr_qd (ntohs (hdr_at hdr_qd req)) req"

definition host_res :: "bytes \<Rightarrow> bytes \<Rightarrow> bytes" where
  "host_res req res = put_hdr hdr_ar 0 (put_hdr hdr_an 0 (put_hdr hdr_ns 0 (put_hdr hdr_fl
      (ntohs (hdr_at hdr_fl (patch 0 req res))) (patch 0 req res))))"

lemma length_host:
  assumes "12 \<le> length req" "length req \<le> length res"
  shows "length (host_req req) = length req" "length (host_res req res) = length res"
  using assms by (simp_all add: host_req_def host_res_def)

lemma dns_handle_eq:
  assumes "length req \<le> length res" "12 \<le> length req"
  shows "hev_mapped_dns_handle malloc req res self =
     (if hdr_at hdr_qd (host_req req) > 32 then Some (-1, host_req req, host_res req res, self)
      else (case dns_questions malloc (length req) (unat (hdr_at hdr_qd (host_req req))) 12 [] (host_req req) self of
              None \<Rightarrow> None
            | Some (None, req', self) \<Rightarrow> Some (-1, req', host_res req res, self)
            | Some (Some (off, ips), req', self) \<Rightarrow>
                (case dns_answers (length res) ips off (host_res req res) of
                   None \<Rightarrow> None
                 | Some (None, res') \<Rightarrow> Some (-1, req', res', self)
                 | Some (Some off, res') \<Rightarrow>
                     (case dns_finish (length ips) res' of None \<Rightarrow> None | Some res' \<Rightarrow> Some (int off, req', res', self)))))"
proof -
  have "copy_bytes req res = Some (patch 0 req res)" using assms(1) by (simp add: copy_bytes_def)
  then show ?thesis
    using assms unfolding hev_mapped_dns_handle_def Let_def
    by (simp add: host_req_def host_res_def Option.bind_def split: option.split prod.split)
qed

lemma dns_labels_ok:
  "off < length rb \<Longrightarrow> qlen \<le> length rb \<Longrightarrow>
   \<exists>rb' e. dns_labels qlen off rb = Some (rb', e) \<and> length rb' = length rb \<and>
     (\<forall>n. e = Some n \<longrightarrow> off \<le> n \<and> n < length rb \<and> rb' ! n = 0)"
proof (induction qlen off rb rule: dns_labels.induct)
  case (1 qlen off rb)
  show ?case
  proof (cases "rb ! off = 0 \<or> off + 1 + unat (rb ! off) \<ge> qlen")
    case True
    with 1(2,3) show ?thesis by (subst dns_labels.simps) auto
  next
    case False
    let ?n = "off + 1 + unat (rb ! off)"
    from False 1(2,3) have "?n < length (rb[off := 46])" "qlen \<le> length (rb[off := 46])" by auto
    with 1(1) 1(2) False obtain rb' e where r: "dns_labels qlen ?n (rb[off := 46]) = Some (rb', e)"
      "length rb' = length rb" "\<forall>n. e = Some n \<longrightarrow> ?n \<le> n \<and> n < length rb \<and> rb' ! n = 0"
      by (auto simp del: One_nat_def)
    from r(3) have "\<forall>n. e = Some n \<longrightarrow> off \<le> n \<and> n < length rb \<and> rb' ! n = 0" by auto
    with r(1,2) False 1(2) show ?thesis by (subst dns_labels.simps) simp
  qed
qed

lemma u16_at_one: "u16_at p off = 1 \<Longrightarrow> p ! off = 0"
proof -
  have "u16_at p off = be16 (p ! off) (p ! (off + 1))" by (simp add: u16_at_def be16_def)
  moreover have "hi8 1 = 0" by (simp add: hi8_def)
  ultimately show "u16_at p off = 1 \<Longrightarrow> p ! off = 0" by (metis hi8_be16)
qed

lemma dns_str_total: "n < length p \<Longrightarrow> off \<le> n \<Longrightarrow> p ! n = 0 \<Longrightarrow> \<exists>s. dns_str off p = Some s"
  by (auto simp: dns_str_def in_set_conv_nth intro!: exI [of _ "n - off"])

definition questions_post :: "addr multiset \<Rightarrow> HevMappedDNS \<Rightarrow> nat \<Rightarrow> nat \<Rightarrow>
    ((nat \<times> dns_answer list) option \<times> bytes \<times> HevMappedDNS) option \<Rightarrow> bool" where
  "questions_post rest self off qlen x \<longleftrightarrow> (\<exists>r rb' self' lru'. x = Some (r, rb', self') \<and>
     dns_ok rest self' lru' \<and> same_net self self' \<and> length rb' = qlen \<and>
     (\<forall>e ips'. r = Some (e, ips') \<longrightarrow> off \<le> e \<and> e \<le> qlen \<and> length ips' \<le> 32))"

lemma questions_postI:
  "dns_ok rest self' lru' \<Longrightarrow> same_net self self' \<Longrightarrow> length rb' = qlen \<Longrightarrow>
   (\<And>e ips'. r = Some (e, ips') \<Longrightarrow> off \<le> e \<and> e \<le> qlen \<and> length ips' \<le> 32) \<Longrightarrow>
   questions_post rest self off qlen (Some (r, rb', self'))"
  unfolding questions_post_def by blast

lemma questions_post_mono:
  "questions_post rest self1 off1 qlen x \<Longrightarrow> same_net self self1 \<Longrightarrow> off \<le> off1 \<Longrightarrow> questions_post rest self off qlen x"
  unfolding questions_post_def by (elim exE conjE, intro exI conjI, assumption+) (auto simp: same_net_def)

lemma dns_questions_ok:
  assumes "allocates malloc"
  shows "dns_ok rest self lru \<Longrightarrow> qlen = length rb \<Longrightarrow> length ips + i \<le> 32 \<Longrightarrow> off \<le> qlen \<Longrightarrow>
    questions_post rest self off qlen (dns_questions malloc qlen i off ips rb self)"
proof (induction i arbitrary: off ips rb self lru)
  case 0
  then show ?case by (auto intro: questions_postI)
next
  case (Suc i)
  note fail = questions_postI [OF Suc.prems(1) same_net_refl, where r = None, simplified]
  show ?case
  proof (cases "off < qlen")
    case False
    with Suc.prems(2,3) have "dns_questions malloc qlen (Suc i) off ips rb self = Some (None, rb, self)"
      by (simp add: dns_questions_step)
    with fail [of rb qlen off] Suc.prems(2) show ?thesis by simp
  next
    case True
    with Suc.prems(2) dns_labels_ok [of off rb qlen] obtain rb1 e where
      l: "dns_labels qlen off rb = Some (rb1, e)" "length rb1 = qlen"
        "\<forall>n. e = Some n \<longrightarrow> off \<le> n \<and> n < length rb \<and> rb1 ! n = 0" by auto
    have i32: "length ips < 32" using Suc.prems(3) by simp
    show ?thesis
    proof (cases "e = None \<or> the e + 4 \<ge> qlen")
      case True
      with l i32 \<open>off < qlen\<close> have "dns_questions malloc qlen (Suc i) off ips rb self = Some (None, rb1, self)"
        using Suc.prems(2) by (cases e) (auto simp: dns_questions_step)
      with fail [OF l(2), of off] show ?thesis by simp
    next
      case False
      then obtain n where n: "e = Some n" "n + 4 < qlen" by auto
      then have off: "off \<le> n + 1 + 4" "n + 1 + 4 \<le> qlen" "qlen = length rb1" using l by auto
      show ?thesis
      proof (cases "u16_at rb1 (n + 1) = 1 \<and> u16_at rb1 (n + 1 + 2) = 1")
        case False
        with l n i32 True have "dns_questions malloc qlen (Suc i) off ips rb self =
          dns_questions malloc qlen i (n + 1 + 4) ips rb1 self"
          using Suc.prems(2) by (auto simp: dns_questions_step)
        with Suc.IH [OF Suc.prems(1) off(3) _ off(2), of ips] Suc.prems(3) off(1) show ?thesis
          by (auto intro: questions_post_mono [OF _ same_net_refl])
      next
        case a: True
        then have "rb1 ! (n + 1) = 0" using u16_at_one by blast
        then obtain name where name: "dns_str (off + 1) rb1 = Some name"
          using dns_str_total [of "n + 1" rb1 "off + 1"] l n by auto
        from find_ok [OF assms Suc.prems(1), of name] obtain idx self1 lru1 where
          f: "hev_mapped_dns_find malloc name self = Some (idx, self1)" "dns_ok rest self1 lru1" "same_net self self1"
          by metis
        let ?ips = "if idx \<ge> 0 then ips @ [(off, dns_ip self1 idx)] else ips"
        have "length ?ips + i \<le> 32" using Suc.prems(3) by simp
        from Suc.IH [OF f(2) off(3) this off(2)]
        have "questions_post rest self off qlen (dns_questions malloc qlen i (n + 1 + 4) ?ips rb1 self1)"
          using f(3) off(1) by (rule questions_post_mono)
        moreover have "dns_questions malloc qlen (Suc i) off ips rb self =
          dns_questions malloc qlen i (n + 1 + 4) ?ips rb1 self1"
          using a l n name f(1) i32 True Suc.prems(2) by (auto simp: dns_questions_step)
        ultimately show ?thesis by simp
      qed
    qed
  qed
qed

lemma dns_answers_ok:
  "length sb = slen \<Longrightarrow> \<exists>r sb'. dns_answers slen ips off sb = Some (r, sb') \<and> length sb' = slen \<and>
     (\<forall>e. r = Some e \<longrightarrow> e = off + 16 * length ips \<and> (ips \<noteq> [] \<longrightarrow> e \<le> slen))"
proof (induction ips arbitrary: off sb)
  case (Cons a ips)
  obtain ipo ip where a: "a = (ipo, ip)" by (cases a)
  from Cons.prems Cons.IH [of "answer_at off ipo ip sb" "off + 16"] show ?case
    by (cases "ips = []") (auto simp: a dns_answers_step)
qed simp

lemma length_finished [simp]: "8 \<le> length sb \<Longrightarrow> length (finished n sb) = length sb"
  by (simp add: finished_def Let_def)

section \<open>What it answers\<close>

text \<open>
  The wire form of a name, and what the walk makes of it: every length becomes a dot, so that the
  string behind the first of them is the dotted name.
\<close>

definition wire_name :: "bytes list \<Rightarrow> bytes" where
  "wire_name ls = concat (map (\<lambda>l. word_of_nat (length l) # l) ls)"

definition dots :: "bytes list \<Rightarrow> bytes" where
  "dots ls = concat (map (\<lambda>l. 46 # l) ls)"

definition dotted :: "bytes list \<Rightarrow> bytes" where
  "dotted ls = tl (dots ls)"

definition labels_ok :: "bytes list \<Rightarrow> bool" where
  "labels_ok ls \<longleftrightarrow> ls \<noteq> [] \<and> (\<forall>l \<in> set ls. l \<noteq> [] \<and> length l < 256 \<and> 0 \<notin> set l)"

lemma length_dots [simp]: "length (dots ls) = length (wire_name ls)"
  by (induction ls) (auto simp: dots_def wire_name_def)

lemma dns_labels_walk:
  "\<forall>l \<in> set ls. l \<noteq> [] \<and> length l < 256 \<Longrightarrow> length pre + length (wire_name ls) < qlen \<Longrightarrow>
   dns_labels qlen (length pre) (pre @ wire_name ls @ 0 # post) =
     Some (pre @ dots ls @ 0 # post, Some (length pre + length (wire_name ls)))"
proof (induction ls arbitrary: pre)
  case Nil
  then show ?case by (subst dns_labels.simps) (simp add: wire_name_def dots_def nth_append)
next
  case (Cons l ls)
  then have l: "l \<noteq> []" "unat (word_of_nat (length l) :: u8) = length l" "(word_of_nat (length l) :: u8) \<noteq> 0"
    by (auto simp: unat_of_nat word_eq_0_unat)
  let ?b = "pre @ wire_name (l # ls) @ 0 # post"
  have b: "?b ! length pre = word_of_nat (length l)" "?b[length pre := 46] = (pre @ 46 # l) @ wire_name ls @ 0 # post"
    by (auto simp: wire_name_def nth_append list_update_append)
  have "length (pre @ 46 # l) + length (wire_name ls) < qlen" using Cons.prems(2) by (simp add: wire_name_def)
  from Cons.IH [OF _ this] Cons.prems(1) have
    "dns_labels qlen (length (pre @ 46 # l)) ((pre @ 46 # l) @ wire_name ls @ 0 # post) =
      Some ((pre @ 46 # l) @ dots ls @ 0 # post, Some (length (pre @ 46 # l) + length (wire_name ls)))" by simp
  moreover have "dns_labels qlen (length pre) ?b = dns_labels qlen (length (pre @ 46 # l)) (?b[length pre := 46])"
    using b(1) l Cons.prems(2) by (subst dns_labels.simps) (simp add: wire_name_def)
  ultimately show ?case by (simp add: b(2) dots_def wire_name_def)
qed

lemma dns_str_dots:
  "labels_ok ls \<Longrightarrow> dns_str (Suc (length pre)) (pre @ dots ls @ 0 # post) = Some (dotted ls)"
proof -
  assume ls: "labels_ok ls"
  then have "dots ls \<noteq> []" "0 \<notin> set (dots ls)" by (auto simp: labels_ok_def dots_def)
  then obtain d where "dots ls = 46 # d" "0 \<notin> set d"
    using ls by (cases ls) (auto simp: labels_ok_def dots_def)
  moreover from this(2) have "takeWhile (\<lambda>b. b \<noteq> 0) (d @ 0 # post) = d" by (induction d) auto
  ultimately show ?thesis by (simp add: dns_str_def dotted_def)
qed

definition be32 :: "u32 \<Rightarrow> bytes" where
  "be32 v = [ucast (drop_bit 24 v), ucast (drop_bit 16 v), ucast (drop_bit 8 v), ucast v]"

lemma length_16E:
  assumes "16 \<le> length t"
  obtains a b c d e f g h i j k l m n p q u where "t = a # b # c # d # e # f # g # h # i # j # k # l # m # n # p # q # u"
  using assms by (auto simp: numeral_eq_Suc Suc_le_length_iff)

lemma write_append [simp]:
  "length s \<le> off \<Longrightarrow> put_u16 off v (s @ t) = s @ put_u16 (off - length s) v t"
  "length s \<le> off \<Longrightarrow> put_u32 off w (s @ t) = s @ put_u32 (off - length s) w t"
  by (simp_all add: put_u16_def put_u32_def list_update_append Suc_diff_le)

lemma dns_answer_bytes:
  assumes "16 \<le> length t"
  shows "dns_answers (length (s @ t)) [(ipo, ip)] (length s) (s @ t) =
    Some (Some (length s + 16), s @ [0xc0, word_of_nat ipo, 0, 1, 0, 1, 0, 0, 0, 1, 0, 4] @ be32 ip @ drop 16 t)"
  using assms unfolding dns_answers_step [OF refl]
  by (elim length_16E) (simp add: answer_at_def list_update_append, simp add: put_u16_def put_u32_def be32_def)

lemma length_2E:
  assumes "length t = 2"
  obtains a b where "t = [a, b]"
  using assms by (auto simp: numeral_eq_Suc length_Suc_conv)

lemma length_6E:
  assumes "length t = 6"
  obtains a b c d e f where "t = [a, b, c, d, e, f]"
  using assms by (auto simp: numeral_eq_Suc length_Suc_conv)

lemma hdr_prepare:
  assumes "length ids = 2" "length cnt = 6"
  shows "put_hdr hdr_ar 0 (put_hdr hdr_an 0 (put_hdr hdr_ns 0 (put_hdr hdr_fl
      (ntohs (hdr_at hdr_fl (ids @ [f1, f2, 0, 1] @ cnt @ t))) (ids @ [f1, f2, 0, 1] @ cnt @ t)))) =
    ids @ [f2, f1, 0, 1, 0, 0, 0, 0, 0, 0] @ t"
proof -
  have z: "mem16 0 = [0, 0]" by (simp add: mem16_def hi8_def lo8_def)
  from assms show ?thesis by (elim length_2E length_6E) (simp add: put_hdr_def hdr_at_def patch_def ld16_def z)
qed

lemma hdr_question:
  assumes "length ids = 2"
  shows "put_hdr hdr_qd (ntohs (hdr_at hdr_qd (ids @ [f1, f2, 0, 1] @ t))) (ids @ [f1, f2, 0, 1] @ t) =
      ids @ [f1, f2, 1, 0] @ t"
    "hdr_at hdr_qd (ids @ [f1, f2, 1, 0] @ t) = 1"
proof -
  have "be16 0 1 = 1" by (simp add: be16_def)
  then show "hdr_at hdr_qd (ids @ [f1, f2, 1, 0] @ t) = 1"
    using assms by (elim length_2E) (simp add: hdr_at_def ld16_def)
  show "put_hdr hdr_qd (ntohs (hdr_at hdr_qd (ids @ [f1, f2, 0, 1] @ t))) (ids @ [f1, f2, 0, 1] @ t) =
      ids @ [f1, f2, 1, 0] @ t"
    using assms by (elim length_2E) (simp add: put_hdr_def hdr_at_def patch_def ld16_def)
qed

lemma bit_128: "bit (128 :: int) n \<longleftrightarrow> n = 7"
proof -
  have "bit (push_bit 7 1 :: int) n \<longleftrightarrow> n = 7" unfolding bit_push_bit_iff by (auto simp: bit_1_iff)
  then show ?thesis by simp
qed
lemma bit_32768: "bit (32768 :: int) n \<longleftrightarrow> n = 15"
proof -
  have "bit (push_bit 15 1 :: int) n \<longleftrightarrow> n = 15" unfolding bit_push_bit_iff by (auto simp: bit_1_iff)
  then show ?thesis by simp
qed
lemma reply_flags:
  "hi8 (be16 f1 f2 OR 0x8000 OR drop_bit 1 (be16 f1 f2 AND 0x100)) = f1 OR 0x80"
  "lo8 (be16 f1 f2 OR 0x8000 OR drop_bit 1 (be16 f1 f2 AND 0x100)) = f2 OR (if bit f1 0 then 0x80 else 0)"
  unfolding hi8_def lo8_def be16_def
  by (rule bit_word_eqI, auto simp: bit_simps bit_128 bit_32768 split: if_splits dest: bit_imp_le_length)+
lemma hdr_finish:
  assumes "length ids = 2"
  shows "finished 1 (ids @ [f2, f1, 0, 1, 0, 0, 0, 0, 0, 0] @ t) =
    ids @ [f1 OR 0x80, f2 OR (if bit f1 0 then 0x80 else 0), 0, 1, 0, 1, 0, 0, 0, 0] @ t"
proof -
  from assms obtain a b where ids: "ids = [a, b]" by (rule length_2E)
  let ?b = "ids @ [f2, f1, 0, 1, 0, 0, 0, 0, 0, 0] @ t"
  define g where "g = be16 f1 f2 OR 0x8000 OR drop_bit 1 (be16 f1 f2 AND 0x100)"
  have "hdr_at hdr_fl ?b = be16 f1 f2" by (simp add: ids hdr_at_def ld16_def)
  then have "finished 1 ?b = put_hdr hdr_an (htons 1) (put_hdr hdr_fl (htons g) ?b)"
    by (simp only: finished_def Let_def g_def of_nat_1)
  moreover have "hi8 1 = 0" "lo8 1 = 1" by (simp_all add: hi8_def lo8_def)
  ultimately show ?thesis
    using reply_flags [of f1 f2, folded g_def] by (simp add: ids put_hdr_def patch_def)
qed

text \<open>A request with one A question in class IN; what follows the question may be anything.\<close>

definition dns_query :: "bytes \<Rightarrow> u8 \<Rightarrow> u8 \<Rightarrow> bytes \<Rightarrow> bytes list \<Rightarrow> bytes \<Rightarrow> bytes" where
  "dns_query ids f1 f2 cnt ls extra =
     ids @ [f1, f2, 0, 1] @ cnt @ wire_name ls @ [0, 0, 1, 0, 1] @ extra"

lemma dns_questions_query:
  assumes len: "length ids = 2" "length cnt = 6" and ls: "labels_ok ls"
    and f: "hev_mapped_dns_find malloc (dotted ls) self = Some (idx, self1)" "0 \<le> idx"
    and qlen: "qlen = length (dns_query ids f1 f2 cnt ls extra)"
  shows "\<exists>rb. dns_questions malloc qlen 1 12 [] (ids @ [f1, f2, 1, 0] @ cnt @ wire_name ls @ [0, 0, 1, 0, 1] @ extra) self =
    Some (Some (17 + length (wire_name ls), [(12, dns_ip self1 idx)]), rb, self1)"
proof -
  let ?pre = "ids @ [f1, f2, 1, 0] @ cnt" and ?post = "[0, 1, 0, 1] @ extra"
  have pre: "length ?pre = 12" using len by simp
  have "dns_labels qlen (length ?pre) (?pre @ wire_name ls @ 0 # ?post) =
      Some (?pre @ dots ls @ 0 # ?post, Some (length ?pre + length (wire_name ls)))"
    using ls qlen len by (intro dns_labels_walk) (auto simp: labels_ok_def dns_query_def)
  then have l: "dns_labels qlen 12 (?pre @ wire_name ls @ 0 # ?post) =
      Some (?pre @ dots ls @ 0 # ?post, Some (12 + length (wire_name ls)))" by (simp only: pre)
  let ?rb = "?pre @ dots ls @ 0 # ?post"
  have nth: "?rb ! (13 + length (wire_name ls) + i) = ?post ! i" for i
  proof -
    have "?rb = (?pre @ dots ls @ [0]) @ ?post" "length (?pre @ dots ls @ [0]) = 13 + length (wire_name ls)"
      using pre by simp_all
    then show ?thesis by (metis nth_append_length_plus)
  qed
  have one: "u16_at p off = 1" if "p ! off = 0" "p ! (off + 1) = 1" for p off
    using that by (simp add: u16_at_def)
  have a: "u16_at ?rb (12 + length (wire_name ls) + 1) = 1" "u16_at ?rb (12 + length (wire_name ls) + 1 + 2) = 1"
    using nth [of 0] nth [of 1] nth [of 2] nth [of 3] by (intro one; simp add: add.commute)+
  have c: "dns_str (12 + 1) ?rb = Some (dotted ls)" using dns_str_dots [OF ls, of ?pre ?post] pre by simp
  have lrb: "length (?pre @ wire_name ls @ 0 # ?post) = qlen" using qlen len by (simp add: dns_query_def)
  have q: "12 + length (wire_name ls) + 1 + 3 < qlen" "12 < qlen" using qlen len by (auto simp: dns_query_def)
  have "dns_questions malloc qlen (Suc 0) 12 [] (?pre @ wire_name ls @ 0 # ?post) self =
    Some (Some (12 + length (wire_name ls) + 1 + 4, [(12, dns_ip self1 idx)]), ?rb, self1)"
    unfolding dns_questions_step [OF lrb] l using a c f q by (simp del: One_nat_def add_Suc_right)
  then show ?thesis by (simp add: add.commute)
qed

text \<open>The reply: the question is copied, the answer points back to it.\<close>

definition dns_reply :: "bytes \<Rightarrow> u8 \<Rightarrow> u8 \<Rightarrow> bytes list \<Rightarrow> u32 \<Rightarrow> bytes" where
  "dns_reply ids f1 f2 ls ip =
     ids @ [f1 OR 0x80, f2 OR (if bit f1 0 then 0x80 else 0), 0, 1, 0, 1, 0, 0, 0, 0] @
     wire_name ls @ [0, 0, 1, 0, 1] @ [0xc0, 12, 0, 1, 0, 1, 0, 0, 0, 1, 0, 4] @ be32 ip"

lemma dns_handle_query:
  assumes len: "length ids = 2" "length cnt = 6" and ls: "labels_ok ls"
    and f: "hev_mapped_dns_find malloc (dotted ls) self = Some (idx, self1)" "0 \<le> idx"
    and req: "req = dns_query ids f1 f2 cnt ls extra"
    and room: "length req \<le> length res" "33 + length (wire_name ls) \<le> length res"
  shows "\<exists>req' t. hev_mapped_dns_handle malloc req res self =
    Some (int (33 + length (wire_name ls)), req', dns_reply ids f1 f2 ls (dns_ip self1 idx) @ t, self1)"
proof -
  let ?q = "wire_name ls @ [0, 0, 1, 0, 1]"
  let ?h = "\<lambda>a b n. ids @ [a, b, 0, 1, 0, n, 0, 0, 0, 0]"
  define t where "t = extra @ drop (length req) res"
  have res: "patch 0 req res = ids @ [f1, f2, 0, 1] @ cnt @ (?q @ t)"
    by (simp add: patch_def req dns_query_def t_def)
  have "16 \<le> length t" using room by (simp add: t_def req dns_query_def len)
  define s where "s = ?h f2 f1 0 @ ?q"
  have s: "length s = 17 + length (wire_name ls)" by (simp add: s_def len)
  let ?a = "[0xc0, 12, 0, 1, 0, 1, 0, 0, 0, 1, 0, 4] @ be32 (dns_ip self1 idx) @ drop 16 t"
  have ans: "dns_answers (length (s @ t)) [(12, dns_ip self1 idx)] (17 + length (wire_name ls)) (s @ t) =
      Some (Some (33 + length (wire_name ls)), s @ ?a)"
    using dns_answer_bytes [OF \<open>16 \<le> length t\<close>, where ipo = 12 and ip = "dns_ip self1 idx" and s = s] by (simp add: s)
  have guards: "length req \<le> length res" "12 \<le> length req" using room by (simp_all add: req dns_query_def len)
  let ?r = "ids @ [f1, f2, 1, 0] @ cnt @ wire_name ls @ [0, 0, 1, 0, 1] @ extra"
  have "length req = length (dns_query ids f1 f2 cnt ls extra)" by (simp add: req)
  from dns_questions_query [OF len ls f this] obtain rb where
    qs: "dns_questions malloc (length req) 1 12 [] ?r self =
      Some (Some (17 + length (wire_name ls), [(12, dns_ip self1 idx)]), rb, self1)" by blast
  have prep: "host_res req res = s @ t"
    unfolding host_res_def res using hdr_prepare [OF len, of f1 f2 "?q @ t"] by (simp add: s_def)
  have qd: "host_req req = ?r" "hdr_at hdr_qd ?r = 1"
    using hdr_question [OF len(1)] by (simp_all only: host_req_def req dns_query_def append_assoc)
  have sl: "length res = length (s @ t)" using length_host(2) [OF guards(2,1)] by (simp add: prep)
  have fin: "dns_finish n (s @ ?a) = Some (finished n (s @ ?a))" for n by (rule dns_finish_eq) (simp add: s_def len)
  have u: "unat (1 :: u16) = 1" "((1 :: u16) > 32) = False" by simp_all
  have "hev_mapped_dns_handle malloc req res self = Some (int (33 + length (wire_name ls)), rb,
      finished (length [(12 :: nat, dns_ip self1 idx)]) (s @ ?a), self1)"
    unfolding dns_handle_eq [OF guards] prep qd sl
    by (simp only: if_False qs ans fin option.case prod.case u)
  moreover have "finished (length [(12 :: nat, dns_ip self1 idx)]) (s @ ?a) = dns_reply ids f1 f2 ls (dns_ip self1 idx) @ drop 16 t"
    using hdr_finish [OF len(1), of f2 f1 "?q @ ?a"] by (simp add: s_def dns_reply_def)
  ultimately show ?thesis by auto
qed

lemma host_bits:
  assumes "0 \<le> i" "i < 2 ^ k" "NOT (m :: 32 word) = mask k"
  shows "(n OR word_of_int i) AND m = n AND m"
proof -
  have "(word_of_int i :: 32 word) = word_of_int i AND mask k"
    using assms(1,2) by (metis take_bit_eq_mask take_bit_int_eq_self_iff take_bit_of_int)
  then have "(word_of_int i :: 32 word) AND m = word_of_int i AND (mask k AND m)" by (metis and.assoc)
  also have "mask k AND m = 0" using assms(3) by (metis bit.conj_cancel_left)
  finally show ?thesis by (simp add: bit.conj_disj_distrib2)
qed
section \<open>Properties\<close>

lemma dns_handle_ok:
  assumes "allocates malloc" "dns_ok rest self lru"
  shows "\<exists>r req' res' self' lru'. hev_mapped_dns_handle malloc req res self = Some (r, req', res', self') \<and>
    dns_ok rest self' lru' \<and> same_net self self' \<and> length res' = length res \<and> (r = -1 \<or> 12 \<le> r \<and> r \<le> int (length res))"
proof (cases "length res < length req \<or> length req < 12")
  case True
  with assms(2) show ?thesis by (auto simp: hev_mapped_dns_handle_def Let_def)
next
  case False
  define req1 where "req1 = host_req req"
  define res1 where "res1 = host_res req res"
  from False have g: "length req \<le> length res" "12 \<le> length req" by simp_all
  have len: "length req1 = length req" "length res1 = length res"
    using length_host [OF g(2,1)] by (simp_all add: req1_def res1_def)
  note eq = dns_handle_eq [OF g, of malloc self, folded req1_def res1_def]
  show ?thesis
  proof (cases "hdr_at hdr_qd req1 > 32")
    case True
    with eq assms(2) len show ?thesis by auto
  next
    case qd: False
    then have "unat (hdr_at hdr_qd req1) \<le> 32" by (simp add: not_less word_le_nat_alt)
    with dns_questions_ok [OF assms, of "length req" req1 "[]" "unat (hdr_at hdr_qd req1)" 12] g len
    have "questions_post rest self 12 (length req)
      (dns_questions malloc (length req) (unat (hdr_at hdr_qd req1)) 12 [] req1 self)" by simp
    then obtain r req2 self' lru' where q:
      "dns_questions malloc (length req) (unat (hdr_at hdr_qd req1)) 12 [] req1 self = Some (r, req2, self')"
      "dns_ok rest self' lru'" "same_net self self'" "\<forall>e ips. r = Some (e, ips) \<longrightarrow> 12 \<le> e \<and> e \<le> length req"
      unfolding questions_post_def by blast
    show ?thesis
    proof (cases r)
      case None
      with eq qd q len(2) show ?thesis by auto
    next
      case (Some x)
      then obtain off ips where x: "r = Some (off, ips)" by (cases x) auto
      from dns_answers_ok [OF len(2), of ips off] obtain e res2 where
        a: "dns_answers (length res) ips off res1 = Some (e, res2)" "length res2 = length res"
          "\<forall>n. e = Some n \<longrightarrow> n = off + 16 * length ips \<and> (ips \<noteq> [] \<longrightarrow> n \<le> length res)" by blast
      have f: "dns_finish (length ips) res2 = Some (finished (length ips) res2)"
        using a(2) g by (intro dns_finish_eq) simp
      have b: "12 \<le> n \<and> n \<le> length res" if "e = Some n" for n
        using a(3) that q(4) x g by (cases "ips = []") auto
      from eq qd q(1-3) x a(1,2) f b g show ?thesis by (cases e) auto
    qed
  qed
qed

text \<open>
  C21: Whatever bytes arrive as a request, and however long the two buffers are, the handler returns
  and no access of it is out of bounds: not the copy, not a header field, not a byte of a name, of a
  question or of an answer, not an entry of its arrays, each of which the model checks against the
  length of its buffer. It keeps the table well-formed and returns -1 or the length of a reply that
  fits into the response buffer.
\<close>
theorem dns_handle_safe:
  assumes "allocates malloc" "dns_ok rest self lru"
  shows "\<exists>r req' res' self' lru'. hev_mapped_dns_handle malloc req res self = Some (r, req', res', self') \<and>
    dns_ok rest self' lru' \<and> length res' = length res \<and> (r = -1 \<or> 12 \<le> r \<and> r \<le> int (length res))"
  using dns_handle_ok [OF assms, of req res] by blast

text \<open>
  C17: A request for the address of a name is answered: the reply repeats identification, recursion flag
  and question and carries one address record, whose address lies in the mapped network and is
  translated back to the dotted name when a session asks for it.
\<close>
theorem dns_reply_names:
  assumes m: "allocates malloc" and ok: "dns_ok rest self lru" and net: "net_ok self k"
    and len: "length ids = 2" "length cnt = 6" and ls: "labels_ok ls"
    and mem: "fst (hev_mapped_dns_node_alloc malloc (dotted ls) self) \<noteq> None"
    and req: "req = dns_query ids f1 f2 cnt ls extra"
    and room: "length req \<le> length res" "33 + length (wire_name ls) \<le> length res"
  shows "\<exists>n req' res' self' ip self2. hev_mapped_dns_handle malloc req res self = Some (int n, req', res', self') \<and>
    take n res' = dns_reply ids f1 f2 ls ip \<and> ip AND dns_mask self = dns_net self AND dns_mask self \<and>
    hev_mapped_dns_lookup ip self' = Some (Some (dotted ls), self2)"
proof -
  from find_ok [OF m ok, of "dotted ls"] mem obtain idx self1 lru1 where
    f: "hev_mapped_dns_find malloc (dotted ls) self = Some (idx, self1)" "dns_ok rest self1 lru1" "same_net self self1"
      "(idx, cache_of self1 lru1) = cache_use (length (records self)) (dotted ls) (cache_of self lru)"
    by metis
  then have "(dotted ls, idx) \<in> set (cache_of self1 lru1)"
    by (auto simp: cache_use_def split: option.splits if_splits)
  then obtain n where n: "n \<in> set lru1" "node_name (nodes self1 n) = dotted ls" "node_idx (nodes self1 n) = idx"
    by (auto simp: cache_of_def)
  have i: "0 \<le> idx" "idx < dns_max self1"
    using slots_idx(1,2) [of self1 lru1 n] f(2) n by (auto simp: dns_ok_def slots_ok_def)
  have ip: "dns_ip self1 idx = dns_ip self idx" "net_ok self1 k"
    using f(3) net by (auto simp: same_net_def dns_ip_def net_ok_def)
  from dns_handle_query [OF len ls f(1) i(1) req room] obtain req' t where
    h: "hev_mapped_dns_handle malloc req res self =
      Some (int (33 + length (wire_name ls)), req', dns_reply ids f1 f2 ls (dns_ip self1 idx) @ t, self1)" by blast
  have "length (dns_reply ids f1 f2 ls (dns_ip self1 idx)) = 33 + length (wire_name ls)"
    using len by (simp add: dns_reply_def be32_def)
  then have "take (33 + length (wire_name ls)) (dns_reply ids f1 f2 ls (dns_ip self1 idx) @ t) =
    dns_reply ids f1 f2 ls (dns_ip self1 idx)" by simp
  moreover have "dns_ip self1 idx AND dns_mask self = dns_net self AND dns_mask self"
    using host_bits [of idx k "dns_mask self" "dns_net self"] i net f(3)
    by (simp add: ip(1) dns_ip_def net_ok_def same_net_def)
  moreover have "hev_mapped_dns_lookup (dns_ip self1 idx) self1 = Some (Some (dotted ls), dns_touch n self1)"
    using lookup_bound [OF f(2) n(1) ip(2)] n(2,3) by simp
  ultimately show ?thesis using h by blast
qed

section \<open>Witnesses\<close>

theorem dns_handle_safe_witness:
  "\<exists>r req' res' self'. hev_mapped_dns_handle bump (replicate 20 255) (replicate 512 0) dns_sample =
     Some (r, req', res', self') \<and> length res' = 512"
  using dns_handle_safe [OF bump_allocates dns_sample_ok(1), of "replicate 20 255" "replicate 512 0"] by auto

text \<open>The name ab.c, asked for with recursion desired.\<close>

theorem dns_reply_names_witness:
  "\<exists>n req' res' self' ip self2.
     hev_mapped_dns_handle bump (dns_query [1, 2] 1 0 [0, 0, 0, 0, 0, 0] [[97, 98], [99]] []) (replicate 512 0) dns_sample =
       Some (int n, req', res', self') \<and>
     take n res' = [1, 2, 0x81, 0x80, 0, 1, 0, 1, 0, 0, 0, 0, 2, 97, 98, 1, 99, 0, 0, 1, 0, 1,
       0xc0, 12, 0, 1, 0, 1, 0, 0, 0, 1, 0, 4] @ be32 ip \<and>
     hev_mapped_dns_lookup ip self' = Some (Some [97, 98, 46, 99], self2)"
proof -
  have "labels_ok [[97, 98], [99]]" by (simp add: labels_ok_def)
  moreover have "fst (hev_mapped_dns_node_alloc bump (dotted [[97, 98], [99]]) dns_sample) \<noteq> None"
    by (simp add: hev_mapped_dns_node_alloc_def bump_def)
  ultimately show ?thesis
    using dns_reply_names [OF bump_allocates dns_sample_ok(1) dns_sample_simps(4), of "[1, 2]" "[0, 0, 0, 0, 0, 0]"
        "[[97, 98], [99]]" _ 1 0 "[]" "replicate 512 0"]
    by (fastforce simp: dns_query_def dns_reply_def wire_name_def dotted_def dots_def)
qed

end
