(* ===== verification/Hev_Utils.thy ===== *)
theory Hev_Utils
  imports DNS_Handle Task_IO
begin

text \<open>
  Addresses between the TCP/IP stack and the SOCKS5 code, \<open>src/misc/hev-utils.c\<close>: the destination of
  a connection becomes a SOCKS5 address, by its name when the mapped DNS knows one, and the source
  of a reply becomes an address of the stack again.
\<close>

section \<open>Addresses of the stack\<close>

text \<open>
  lwIP's \<open>ip_addr_t\<close>: 16 bytes, of which an IPv4 address uses the first four, and a type. The bytes
  are in network order; \<open>ntohl (ip_2_ip4 (ip)->addr)\<close> is their value.
\<close>

datatype ip_type = IPADDR_TYPE_V4 | IPADDR_TYPE_V6 | IPADDR_TYPE_ANY

record ip_addr =
  ip_bytes :: bytes
  ip_type :: ip_type

definition ip4_value :: "ip_addr \<Rightarrow> u32" where
  "ip4_value ip = push_bit 24 (ucast (ip_bytes ip ! 0)) OR push_bit 16 (ucast (ip_bytes ip ! 1)) OR
     push_bit 8 (ucast (ip_bytes ip ! 2)) OR ucast (ip_bytes ip ! 3)"

text \<open>
  The instance of the mapped DNS is an argument; the result is \<open>None\<close> when its table is accessed
  out of bounds.
\<close>

definition hev_socks5_addr_from_lwip :: "HevSocks5Addr \<Rightarrow> ip_addr \<Rightarrow> u16 \<Rightarrow> HevMappedDNS option \<Rightarrow>
    (int \<times> HevSocks5Addr \<times> HevMappedDNS option) option" where
  "hev_socks5_addr_from_lwip addr ip port dns =
     (case ip_type ip of
        IPADDR_TYPE_V4 \<Rightarrow>
          (case (case dns of None \<Rightarrow> Some (None, None)
                 | Some d \<Rightarrow> map_option (\<lambda>(n, d). (n, Some d)) (hev_mapped_dns_lookup (ip4_value ip) d)) of
             None \<Rightarrow> None
           | Some (name, dns) \<Rightarrow>
               (case name of
                  Some n \<Rightarrow> Some (0, snd (hev_socks5_addr_from_name addr n (htons port)), dns)
                | None \<Rightarrow> Some (0, snd (hev_socks5_addr_from_ipv4 addr (ip_bytes ip) (htons port)), dns)))
      | IPADDR_TYPE_V6 \<Rightarrow> Some (0, snd (hev_socks5_addr_from_ipv6 addr (ip_bytes ip) (htons port)), dns)
      | _ \<Rightarrow> Some (-1, addr, dns))"

definition hev_socks5_addr_into_lwip :: "HevSocks5Addr \<Rightarrow> ip_addr \<Rightarrow> u16 \<Rightarrow> int \<times> ip_addr \<times> u16" where
  "hev_socks5_addr_into_lwip addr ip port =
     (if atype addr = HEV_SOCKS5_ADDR_TYPE_IPV4 then
        (0, ip\<lparr>ip_bytes := patch 0 (ipv4_addr addr) (ip_bytes ip), ip_type := IPADDR_TYPE_V4\<rparr>, ntohs (ipv4_port addr))
      else if atype addr = HEV_SOCKS5_ADDR_TYPE_IPV6 then
        (0, ip\<lparr>ip_bytes := patch 0 (ipv6_addr addr) (ip_bytes ip), ip_type := IPADDR_TYPE_V6\<rparr>, ntohs (ipv6_port addr))
      else (-1, ip, port))"

section \<open>Socket options\<close>

text \<open>\<open>setsockopt\<close> is one of the system calls whose results the environment decides.\<close>

definition set_sock_mark :: "int \<Rightarrow> u32 \<Rightarrow> world \<Rightarrow> int \<times> world" where
  "set_sock_mark f m w = sys_call w"

definition set_sock_tcp_fastopen :: "int \<Rightarrow> bool \<Rightarrow> world \<Rightarrow> world" where
  "set_sock_tcp_fastopen f enable w = (if \<not> enable then w else snd (sys_call w))"

section \<open>Properties\<close>

definition lwip_ep :: "ip_addr \<Rightarrow> u16 \<Rightarrow> endpoint" where
  "lwip_ep ip port = (if ip_type ip = IPADDR_TYPE_V4 then EpV4 (take 4 (ip_bytes ip)) port
     else EpV6 (take 16 (ip_bytes ip)) port)"

lemma addr_from_encodes:
  assumes "addr_size \<le> length a"
  shows "length ip = 4 \<Longrightarrow> view_addr (snd (hev_socks5_addr_from_ipv4 a ip (htons p))) = Some (EpV4 ip p)"
    "length ip = 16 \<Longrightarrow> view_addr (snd (hev_socks5_addr_from_ipv6 a ip (htons p))) = Some (EpV6 ip p)"
    "length n < 256 \<Longrightarrow> 0 \<notin> set n \<Longrightarrow> view_addr (snd (hev_socks5_addr_from_name a n (htons p))) = Some (EpName n p)"
proof -
  have v: "take (length (encode_ep ep)) b = encode_ep ep \<Longrightarrow> ep_wf ep \<Longrightarrow> view_addr b = Some ep" for b ep
    by (metis append_take_drop_id view_encode)
  show "length ip = 4 \<Longrightarrow> view_addr (snd (hev_socks5_addr_from_ipv4 a ip (htons p))) = Some (EpV4 ip p)"
    using assms by (intro v) (auto simp: from_ipv4_encodes)
  show "length ip = 16 \<Longrightarrow> view_addr (snd (hev_socks5_addr_from_ipv6 a ip (htons p))) = Some (EpV6 ip p)"
    using assms by (intro v) (auto simp: from_ipv6_encodes)
  show "length n < 256 \<Longrightarrow> 0 \<notin> set n \<Longrightarrow> view_addr (snd (hev_socks5_addr_from_name a n (htons p))) = Some (EpName n p)"
proof -
    assume n: "length n < 256" "0 \<notin> set n"
    have "length (encode_ep (EpName n p)) = 4 + length n" by simp
    with from_name_encodes(2) [OF assms n, of p] n(1) show ?thesis by (intro v) (simp_all only: ep_wf.simps)
  qed
qed

lemma lookup_index:
  assumes ok: "dns_ok rest self lru" and n: "n \<in> set lru" "sint (ip AND NOT (dns_mask self)) = node_idx (nodes self n)"
  shows "hev_mapped_dns_lookup ip self = Some (Some (node_name (nodes self n)), dns_touch n self)"
proof -
  from ok have s: "slots_ok self lru" by (simp add: dns_ok_def)
  then have "node_idx (nodes self n) < dns_max self" "nat (node_idx (nodes self n)) < length (records self)"
    using slots_idx(2,4) [OF s n(1)] by (auto simp: slots_ok_def)
  with slots_idx(1,3) [OF s n(1)] n(2) show ?thesis by (simp add: hev_mapped_dns_lookup_def Let_def)
qed

text \<open>
  A destination that is an IPv6 address, or an IPv4 address the mapped DNS does not translate,
  becomes the SOCKS5 address of the same endpoint, and that address turns back into it.
\<close>
theorem lwip_roundtrip:
  assumes "addr_size \<le> length a" "length (ip_bytes ip) = 16" "length (ip_bytes ip0) = 16"
    and dns: "dns = None \<or> ip_type ip = IPADDR_TYPE_V6" and t: "ip_type ip \<noteq> IPADDR_TYPE_ANY"
  shows "\<exists>b ip'. hev_socks5_addr_from_lwip a ip port dns = Some (0, b, dns) \<and>
    view_addr b = Some (lwip_ep ip port) \<and>
    hev_socks5_addr_into_lwip b ip0 port0 = (0, ip', port) \<and> lwip_ep ip' port = lwip_ep ip port"
proof (cases "ip_type ip")
  case IPADDR_TYPE_V4
  let ?b = "snd (hev_socks5_addr_from_ipv4 a (ip_bytes ip) (htons port))"
  have e: "take 4 (take 4 (ip_bytes ip)) = take 4 (ip_bytes ip)" by simp
  have v: "view_addr ?b = Some (EpV4 (take 4 (ip_bytes ip)) port)"
    using addr_from_encodes(1) [OF assms(1), of "take 4 (ip_bytes ip)" port] assms(2)
    by (simp add: hev_socks5_addr_from_ipv4_def)
  then have "atype ?b = HEV_SOCKS5_ADDR_TYPE_IPV4" "ipv4_addr ?b = take 4 (ip_bytes ip)" "ntohs (ipv4_port ?b) = port"
    by (auto simp: view_addr_def split: if_splits)
  with v dns IPADDR_TYPE_V4 assms(2,3) show ?thesis
    by (intro exI [of _ ?b]) (auto simp: hev_socks5_addr_from_lwip_def hev_socks5_addr_into_lwip_def lwip_ep_def)
next
  case IPADDR_TYPE_V6
  let ?b = "snd (hev_socks5_addr_from_ipv6 a (ip_bytes ip) (htons port))"
  have v: "view_addr ?b = Some (EpV6 (ip_bytes ip) port)" using addr_from_encodes(2) [OF assms(1,2)] .
  then have "atype ?b = HEV_SOCKS5_ADDR_TYPE_IPV6" "atype ?b \<noteq> HEV_SOCKS5_ADDR_TYPE_IPV4"
    "ipv6_addr ?b = ip_bytes ip" "ntohs (ipv6_port ?b) = port"
    by (auto simp: view_addr_def split: if_splits)
  with v IPADDR_TYPE_V6 assms(2,3) show ?thesis
    by (intro exI [of _ ?b]) (auto simp: hev_socks5_addr_from_lwip_def hev_socks5_addr_into_lwip_def lwip_ep_def patch_def)
qed (use t in simp)

text \<open>
  The name of a connection is looked up by the host bits of its address alone: an IPv4 address
  outside of the mapped network whose host bits are an index in use is taken for the name with this
  index, and the connection goes to that name instead of the address.
\<close>
theorem lwip_foreign_address:
  assumes "dns_ok rest self lru" "0 \<le> sint (NOT (dns_mask self))" "addr_size \<le> length a"
    "ip_type ip = IPADDR_TYPE_V4" "ip4_value ip AND dns_mask self \<noteq> dns_net self"
    "map_of (cache_of self lru) name = Some (sint (ip4_value ip AND NOT (dns_mask self)))"
    "length name < 256" "0 \<notin> set name"
  shows "\<exists>b self'. hev_socks5_addr_from_lwip a ip port (Some self) = Some (0, b, Some self') \<and>
    view_addr b = Some (EpName name port)"
proof -
  from assms(6) obtain n where n: "n \<in> set lru" "node_name (nodes self n) = name"
    "sint (ip4_value ip AND NOT (dns_mask self)) = node_idx (nodes self n)"
    using assms(1) by (auto simp: cache_Some dns_ok_def)
  from lookup_index [OF assms(1) n(1,3)] n(2) assms(4) addr_from_encodes(3) [OF assms(3,7,8), of port] show ?thesis
    by (simp add: hev_socks5_addr_from_lwip_def)
qed

section \<open>Witnesses\<close>

theorem lwip_roundtrip_witness:
  "\<exists>b ip'. hev_socks5_addr_from_lwip (replicate 260 0) \<lparr>ip_bytes = 192 # 168 # replicate 14 1, ip_type = IPADDR_TYPE_V4\<rparr> 443 None =
      Some (0, b, None) \<and> view_addr b = Some (EpV4 [192, 168, 1, 1] 443) \<and>
    hev_socks5_addr_into_lwip b \<lparr>ip_bytes = replicate 16 0, ip_type = IPADDR_TYPE_ANY\<rparr> 0 = (0, ip', 443)"
  using lwip_roundtrip [of "replicate 260 0" "\<lparr>ip_bytes = 192 # 168 # replicate 14 1, ip_type = IPADDR_TYPE_V4\<rparr>"
      "\<lparr>ip_bytes = replicate 16 0, ip_type = IPADDR_TYPE_ANY\<rparr>" None 443 0]
  by (auto simp: lwip_ep_def numeral_eq_Suc)

text \<open>
  The table of 198.18.0.0/15 after one name: the first index belongs to ab, so 8.8.0.0, whose low 17
  bits are 0, is taken for it.
\<close>

theorem lwip_foreign_address_witness:
  "\<exists>self b self'. hev_mapped_dns_find bump [97, 98] dns_sample = Some (0, self) \<and>
    hev_socks5_addr_from_lwip (replicate 260 0) \<lparr>ip_bytes = [8, 8] @ replicate 14 0, ip_type = IPADDR_TYPE_V4\<rparr> 53 (Some self) =
      Some (0, b, Some self') \<and> view_addr b = Some (EpName [97, 98] 53)"
proof -
  from find_ok [OF bump_allocates dns_sample_ok(1), of "[97, 98]"] dns_sample_simps obtain self lru where
    f: "hev_mapped_dns_find bump [97, 98] dns_sample = Some (0, self)" "dns_ok {#1#} self lru" "same_net dns_sample self"
      "cache_of self lru = [([97, 98], 0)]"
    by (auto simp: cache_use_def hev_mapped_dns_node_alloc_def bump_def)
  have net: "dns_mask self = 0xFFFE0000" "dns_net self = 0xC6120000"
    using f(3) dns_sample_ok by (simp_all add: same_net_def)
  let ?ip = "\<lparr>ip_bytes = [8, 8] @ replicate 14 0, ip_type = IPADDR_TYPE_V4\<rparr>"
  have v: "ip4_value ?ip = 0x08080000" by (simp add: ip4_value_def)
  from lwip_foreign_address [OF f(2), of "replicate 260 0" ?ip "[97, 98]" 53] f(1,4) v net show ?thesis
    by auto
qed

end
