(* ===== verification/Session.thy ===== *)
theory Session
  imports Socks5_Client Hev_List Hev_Utils
begin

text \<open>
  What TCP and UDP sessions share, \<open>src/hev-socks5-session.c\<close>, with the server settings of
  \<open>src/hev-config.h\<close> and the part of \<open>src/hev-socks5-tunnel.c\<close> that keeps the sessions in the order
  of their last activity. The state of the TCP/IP stack that belongs to a session is an argument
  \<open>k\<close> of its own type for the two kinds of session.
\<close>

section \<open>Settings\<close>

record HevConfigServer =
  srv_user :: "bytes option"
  srv_pass :: "bytes option"
  srv_mark :: u32
  srv_udp_in_udp :: bool
  srv_port :: u16
  srv_pipeline :: bool
  srv_fastopen :: bool
  srv_udp_addr :: bytes
  srv_addr :: bytes

section \<open>Sessions\<close>

definition hev_socks5_session_bind :: "HevConfigServer \<Rightarrow> int \<Rightarrow> sockaddr_in6 \<Rightarrow> 'o step" where
  "hev_socks5_session_bind srv f dest self w =
     (let (res, w) = (if srv_mark srv \<noteq> 0 then set_sock_mark f (srv_mark srv) w else (0, w))
      in if res < 0 then (-1, self, w)
         else (0, self, set_sock_tcp_fastopen f (srv_fastopen srv) w))"

definition hev_socks5_session_terminate :: "'a hev_socks5_scheme \<Rightarrow> 'a hev_socks5_scheme" where
  "hev_socks5_session_terminate self = hev_socks5_set_timeout self 0"

type_synonym ('o, 'k) splice_fun = "'o \<Rightarrow> 'k \<Rightarrow> world \<Rightarrow> ('o \<times> 'k \<times> world) option"

text \<open>The splicer is called when the connection to the server stands.\<close>

definition hev_socks5_session_run ::
  "misc \<Rightarrow> net_env \<Rightarrow> HevConfigServer \<Rightarrow> 'a hev_socks5_client_scheme client_class \<Rightarrow>
   ('a hev_socks5_client_scheme, 'k) splice_fun \<Rightarrow> ('a hev_socks5_client_scheme, 'k) splice_fun" where
  "hev_socks5_session_run m env srv klass splicer self k w =
     (let (res, self, w) = hev_socks5_client_connect m env klass (srv_addr srv) (srv_port srv) self w
      in if res < 0 then Some (self, k, w)
         else
           let self = (if srv_user srv \<noteq> None \<and> srv_pass srv \<noteq> None
                       then hev_socks5_client_set_auth self (srv_user srv) (srv_pass srv) else self);
               (res, self, w) = hev_socks5_client_handshake m klass (srv_pipeline srv) self w
           in if res < 0 then Some (self, k, w)
              else splicer self k w)"

section \<open>The set of sessions\<close>

text \<open>
  \<open>session_set\<close> with \<open>session_count\<close>; \<open>session_timeout n\<close> is the timeout of the session that contains
  the node \<open>n\<close>, the only part of a session its terminator touches; \<open>session_woken\<close> are the sessions
  whose task the terminator has woken, the last one first.
\<close>

record sessions =
  session_set :: lstate
  session_count :: int
  session_timeout :: "addr \<Rightarrow> int"
  session_woken :: "addr list"

definition terminate_node :: "addr \<Rightarrow> sessions \<Rightarrow> sessions" where
  "terminate_node n s =
     (let s = (if session_timeout s n \<noteq> 0 then s\<lparr>session_timeout := (session_timeout s)(n := 0)\<rparr> else s)
      in s\<lparr>session_woken := n # session_woken s\<rparr>)"

definition hev_socks5_tunnel_insert_session :: "int \<Rightarrow> addr \<Rightarrow> sessions \<Rightarrow> sessions" where
  "hev_socks5_tunnel_insert_session max_session_count node s =
     (let s = s\<lparr>session_set := hev_list_add_tail node (session_set s), session_count := session_count s + 1\<rparr>
      in if max_session_count = 0 \<or> session_count s < max_session_count then s
         else (case hev_list_first (session_set s) of
                 None \<Rightarrow> s
               | Some n \<Rightarrow> terminate_node n s))"

definition hev_socks5_tunnel_delete_session :: "addr \<Rightarrow> sessions \<Rightarrow> sessions" where
  "hev_socks5_tunnel_delete_session node s =
     s\<lparr>session_set := hev_list_del node (session_set s), session_count := session_count s - 1\<rparr>"

definition hev_socks5_tunnel_update_session :: "int \<Rightarrow> addr \<Rightarrow> sessions \<Rightarrow> sessions" where
  "hev_socks5_tunnel_update_session max_session_count node s =
     (if max_session_count = 0 then s
      else s\<lparr>session_set := hev_list_add_tail node (hev_list_del node (session_set s))\<rparr>)"

text \<open>\<open>sessions_ok s ns\<close>: the set holds the nodes \<open>ns\<close>, the least recently active one first.\<close>

definition sessions_ok :: "sessions \<Rightarrow> addr list \<Rightarrow> bool" where
  "sessions_ok s ns \<longleftrightarrow> dll (session_set s) ns \<and> session_count s = int (length ns)"

lemma terminate_node_simps [simp]:
  "session_set (terminate_node n s) = session_set s"
  "session_count (terminate_node n s) = session_count s"
  "session_timeout (terminate_node n s) = (session_timeout s)(n := 0)"
  "session_woken (terminate_node n s) = n # session_woken s"
  by (auto simp: terminate_node_def Let_def)

lemma insert_session_ok:
  assumes "sessions_ok s ns" "n \<notin> set ns"
  shows "sessions_ok (hev_socks5_tunnel_insert_session m n s) (ns @ [n])"
    and "session_timeout (hev_socks5_tunnel_insert_session m n s) =
      (if m = 0 \<or> int (length ns) + 1 < m then session_timeout s
       else (session_timeout s)(hd (ns @ [n]) := 0))"
    and "session_woken (hev_socks5_tunnel_insert_session m n s) =
      (if m = 0 \<or> int (length ns) + 1 < m then session_woken s else hd (ns @ [n]) # session_woken s)"
proof -
  from assms have d: "dll (hev_list_add_tail n (session_set s)) (ns @ [n])"
    by (auto simp: sessions_ok_def intro: dll_add_tail)
  moreover have "hev_list_first (hev_list_add_tail n (session_set s)) = Some (hd (ns @ [n]))"
    using dll_first [OF d] by (cases ns) auto
  ultimately show "sessions_ok (hev_socks5_tunnel_insert_session m n s) (ns @ [n])"
    and "session_timeout (hev_socks5_tunnel_insert_session m n s) =
      (if m = 0 \<or> int (length ns) + 1 < m then session_timeout s
       else (session_timeout s)(hd (ns @ [n]) := 0))"
    and "session_woken (hev_socks5_tunnel_insert_session m n s) =
      (if m = 0 \<or> int (length ns) + 1 < m then session_woken s else hd (ns @ [n]) # session_woken s)"
    using assms(1) by (auto simp: hev_socks5_tunnel_insert_session_def sessions_ok_def Let_def)
qed

lemma length_moved:
  assumes "n \<in> set ns"
  shows "length ns = Suc (length (remove1 n ns))"
  using assms by (induction ns) auto

lemma delete_session_ok:
  assumes "sessions_ok s ns" "n \<in> set ns"
  shows "sessions_ok (hev_socks5_tunnel_delete_session n s) (remove1 n ns)"
  using assms lru.rep_del [of "session_set s" ns n] length_moved [OF assms(2)]
  by (simp add: hev_socks5_tunnel_delete_session_def sessions_ok_def)

lemma update_session_ok:
  assumes "sessions_ok s ns" "n \<in> set ns"
  shows "sessions_ok (hev_socks5_tunnel_update_session m n s) (if m = 0 then ns else remove1 n ns @ [n])"
  using assms lru.rep_touch [of "session_set s" ns n] length_moved [OF assms(2)]
  by (simp add: hev_socks5_tunnel_update_session_def sessions_ok_def)

section \<open>Properties\<close>

text \<open>
  C11: The session that has been inactive for the longest time pays for a new one. A session that has
  just been active is moved behind all others, a new one is put behind it. As long as the number of
  sessions stays below the limit, none is terminated. When the new one makes it reach the limit,
  exactly one is: the one at the front, whose timeout is set to 0 and whose task is woken. This is
  the session that has just been active only if there is no other besides the new one.
\<close>
theorem session_eviction:
  assumes "sessions_ok s ns" "x \<in> set ns" "n \<notin> set ns" "m \<noteq> 0"
  shows "sessions_ok (hev_socks5_tunnel_insert_session m n (hev_socks5_tunnel_update_session m x s))
      (remove1 x ns @ [x, n]) \<and>
    (if int (length ns) + 1 < m
     then session_timeout (hev_socks5_tunnel_insert_session m n (hev_socks5_tunnel_update_session m x s)) =
            session_timeout s \<and>
          session_woken (hev_socks5_tunnel_insert_session m n (hev_socks5_tunnel_update_session m x s)) = session_woken s
     else \<exists>v. v = hd (remove1 x ns @ [x]) \<and> (v = x \<longleftrightarrow> ns = [x]) \<and>
          session_timeout (hev_socks5_tunnel_insert_session m n (hev_socks5_tunnel_update_session m x s)) =
            (session_timeout s)(v := 0) \<and>
          session_woken (hev_socks5_tunnel_insert_session m n (hev_socks5_tunnel_update_session m x s)) =
            v # session_woken s)"
proof -
  let ?s = "hev_socks5_tunnel_update_session m x s"
  have u: "sessions_ok ?s (remove1 x ns @ [x])" "session_timeout ?s = session_timeout s" "session_woken ?s = session_woken s"
    using update_session_ok [OF assms(1,2), of m] assms(4) by (auto simp: hev_socks5_tunnel_update_session_def)
  have n: "n \<notin> set (remove1 x ns @ [x])"
    using assms(2,3) by (auto dest: notin_set_remove1 [of n ns x])
  have l: "length (remove1 x ns @ [x]) = length ns" using length_moved [OF assms(2)] by simp
  have "distinct ns" using assms(1) dll_distinct [of "session_set s" ns] by (simp add: sessions_ok_def)
  then have "x \<notin> set (remove1 x ns)" by simp
  then have "hd (remove1 x ns @ [x]) = x \<longleftrightarrow> remove1 x ns = []" by (cases "remove1 x ns") auto
  also have "\<dots> \<longleftrightarrow> ns = [x]" using assms(2) by (cases ns) auto
  finally show ?thesis
    using insert_session_ok [OF u(1) n, of m] u(2,3) assms(4) l by (auto simp: hd_append)
qed

theorem session_eviction_witness:
  "session_timeout (hev_socks5_tunnel_insert_session 4 4 (hev_socks5_tunnel_update_session 4 1
     \<lparr>session_set = three_nodes, session_count = 3, session_timeout = (\<lambda>_. 60000), session_woken = []\<rparr>)) =
   (\<lambda>_. 60000)(2 := 0)"
  using session_eviction [of "\<lparr>session_set = three_nodes, session_count = 3, session_timeout = (\<lambda>_. 60000), session_woken = []\<rparr>"
      "[1, 2, 3]" 1 4 4] three_nodes_dll
  by (simp add: sessions_ok_def)

text \<open>
  The limit counts one session too few: the session that makes the number of sessions equal to the
  limit already terminates one, so that with a limit of 1 every session is terminated as it begins.
\<close>
theorem session_limit_short:
  assumes "sessions_ok s ns" "n \<notin> set ns" "int (length ns) + 1 = m"
  shows "session_timeout (hev_socks5_tunnel_insert_session m n s) = (session_timeout s)(hd (ns @ [n]) := 0) \<and>
    (m = 1 \<longrightarrow> session_timeout (hev_socks5_tunnel_insert_session m n s) n = 0)"
  using insert_session_ok(2) [OF assms(1,2), of m] assms(3) by auto

theorem session_limit_short_witness:
  "session_timeout (hev_socks5_tunnel_insert_session 1 1
     \<lparr>session_set = (empty_list, \<lparr>nxt = (\<lambda>_. None), prv = (\<lambda>_. None)\<rparr>), session_count = 0,
      session_timeout = (\<lambda>_. -1), session_woken = []\<rparr>) 1 = 0"
  using session_limit_short [of "\<lparr>session_set = (empty_list, \<lparr>nxt = (\<lambda>_. None), prv = (\<lambda>_. None)\<rparr>),
      session_count = 0, session_timeout = (\<lambda>_. -1), session_woken = []\<rparr>" "[]" 1 1] dll_empty
  by (simp add: sessions_ok_def)

end
