(* ===== verification/Ring_Refs.thy ===== *)
theory Ring_Refs
  imports Ring_Buffer
begin

text \<open>
  Where the bytes of the ring buffer lie: the TCP/IP stack keeps references into the ring to what it
  was given and not yet acknowledged. The positions are independent of the contents.
\<close>

definition pos_at :: "nat \<Rightarrow> nat \<Rightarrow> nat \<Rightarrow> nat list" where
  "pos_at m p n = map (\<lambda>i. (p + i) mod m) [0..<n]"

definition out_refs :: "ring_buffer \<Rightarrow> nat list" where
  "out_refs r = pos_at (length (data r)) (unat (rp r)) (unat (rda_size r))"

definition in_refs :: "ring_buffer \<Rightarrow> nat list" where
  "in_refs r =
     (let n = unat (use_size r) - unat (rda_size r); m = length (data r) in pos_at m (unat (rp r) + m - n) n)"

definition iov_refs :: "ring_iov list \<Rightarrow> nat list" where
  "iov_refs v = concat (map (\<lambda>(off, len). [unat off..<unat off + unat len]) v)"

lemma length_pos_at [simp]: "length (pos_at m p n) = n"
  by (simp add: pos_at_def)

lemma pos_at_0 [simp]: "pos_at m p 0 = []"
  by (simp add: pos_at_def)

lemma pos_at_mod [simp]: "pos_at m (p mod m) n = pos_at m p n"
  by (simp add: pos_at_def mod_add_left_eq)

lemma pos_at_add: "pos_at m p (a + b) = pos_at m p a @ pos_at m (p + a) b"
  by (rule nth_equalityI) (auto simp: pos_at_def nth_append ac_simps)

lemma pos_at_straight:
  assumes "p + n \<le> m"
  shows "pos_at m p n = [p..<p + n]"
  using assms by (intro nth_equalityI) (auto simp: pos_at_def)

lemma ring_at_pos: "ring_at d p n = map ((!) d) (pos_at (length d) p n)"
  by (simp add: ring_at_def pos_at_def)

lemma inflight_refs: "inflight r = map ((!) (data r)) (in_refs r)"
  by (simp add: inflight_def in_refs_def Let_def ring_at_pos)

lemma length_in_refs [simp]: "length (in_refs r) = length (inflight r)"
  by (simp add: inflight_refs)

lemma length_out_refs [simp]: "length (out_refs r) = length (readable r)"
  by (simp add: out_refs_def readable_def)

lemma reading_refs:
  assumes "ring_inv r"
  shows "iov_refs (hev_ring_buffer_reading r) = out_refs r"
proof -
  note up = ring_upper [OF assms]
  let ?n = "unat (rda_size r)" and ?u = "length (data r) - unat (rp r)" and ?m = "length (data r)"
  from assms have b: "unat (rp r) < ?m" "?n \<le> ?m"
    by (auto simp: ring_inv_def)
  show ?thesis
  proof (cases "?n \<le> ?u")
    case True
    with b up show ?thesis
      by (auto simp: hev_ring_buffer_reading_def iov_refs_def out_refs_def u64_le
          pos_at_straight word_eq_0_unat split: if_splits)
  next
    case False
    then have l: "unat (rda_size r - (max_size r - rp r)) = ?n - ?u"
      using up by (simp add: unat_sub_no_underflow)
    have "pos_at ?m (unat (rp r)) (?u + (?n - ?u)) = pos_at ?m (unat (rp r)) ?u @ pos_at ?m (unat (rp r) + ?u) (?n - ?u)"
      by (rule pos_at_add)
    also have "pos_at ?m (unat (rp r) + ?u) (?n - ?u) = pos_at ?m ((unat (rp r) + ?u) mod ?m) (?n - ?u)"
      by (simp only: pos_at_mod)
    finally have "pos_at ?m (unat (rp r)) ?n = [unat (rp r)..<?m] @ [0..<?n - ?u]"
      using False b by (simp add: pos_at_straight)
    with False b up l show ?thesis
      by (auto simp: hev_ring_buffer_reading_def iov_refs_def out_refs_def u64_le Let_def)
  qed
qed

lemma fill_refs:
  assumes "ring_inv r" "length xs \<le> ring_free r"
  shows "in_refs (ring_fill xs r) = in_refs r"
proof -
  have "length (iov_scatter (hev_ring_buffer_writing r) xs (data r)) = length (data r)"
    using scatter_nth(2) [OF assms, of 0] assms(1) by (simp add: ring_inv_def)
  then show ?thesis by (simp add: in_refs_def Let_def ring_fill_unat [OF assms])
qed

lemma finish_refs:
  assumes inv: "ring_inv r" and n: "unat n \<le> length (readable r)"
  shows "in_refs (hev_ring_buffer_read_finish n r) = in_refs r @ take (unat n) (out_refs r)"
proof -
  let ?m = "length (data r)" and ?p = "unat (rp r)" and ?a = "unat (rda_size r)"
    and ?u = "unat (use_size r)" and ?n = "unat n"
  let ?r = "hev_ring_buffer_read_finish n r"
  from inv have b: "unat (max_size r) = ?m" "0 < ?m" "?m < 2 ^ 63" "?p < ?m" "?a \<le> ?u" "?u \<le> ?m"
    by (auto simp: ring_inv_def)
  from n have na: "?n \<le> ?a" by (simp add: readable_def)
  have f: "unat (rp ?r) = (?p + ?n) mod ?m" "unat (rda_size ?r) = ?a - ?n"
    "use_size ?r = use_size r" "data ?r = data r"
    using b na by (simp_all add: hev_ring_buffer_read_finish_def unat_add_no_overflow unat_mod
        unat_sub_no_underflow)
  have k: "?u - (?a - ?n) = (?u - ?a) + ?n" using b na by simp
  have "((?p + ?n) mod ?m + ?m - (?u - ?a + ?n)) mod ?m = ((?p + ?n) mod ?m + (?m - (?u - ?a + ?n))) mod ?m"
    using b na by (intro arg_cong [where f = "\<lambda>x. x mod ?m"]) linarith
  also have "\<dots> = (?p + ?n + (?m - (?u - ?a + ?n))) mod ?m" by (rule mod_add_left_eq)
  also have "?p + ?n + (?m - (?u - ?a + ?n)) = ?p + ?m - (?u - ?a)" using b na by simp
  finally have "pos_at ?m ((?p + ?n) mod ?m + ?m - (?u - ?a + ?n)) ((?u - ?a) + ?n) =
      pos_at ?m (?p + ?m - (?u - ?a)) ((?u - ?a) + ?n)"
    by (metis pos_at_mod)
  then have "in_refs ?r = pos_at ?m (?p + ?m - (?u - ?a)) (?u - ?a) @ pos_at ?m (?p + ?m - (?u - ?a) + (?u - ?a)) ?n"
    by (simp add: in_refs_def Let_def f k pos_at_add)
  also have "pos_at ?m (?p + ?m - (?u - ?a) + (?u - ?a)) ?n = pos_at ?m ?p ?n"
  proof -
    have "?p + ?m - (?u - ?a) + (?u - ?a) = ?p + ?m" using b by linarith
    then show ?thesis by (metis pos_at_mod mod_add_self2)
  qed
  also have "pos_at ?m ?p ?n = take ?n (out_refs r)"
    using na pos_at_add [of ?m ?p ?n "?a - ?n"] by (simp add: out_refs_def)
  finally show ?thesis by (simp add: in_refs_def Let_def)
qed

lemma release_refs:
  assumes inv: "ring_inv r" and n: "unat n \<le> length (inflight r)"
  shows "in_refs (hev_ring_buffer_read_release n r) = drop (unat n) (in_refs r)"
proof -
  let ?m = "length (data r)" and ?p = "unat (rp r)" and ?a = "unat (rda_size r)"
    and ?u = "unat (use_size r)" and ?n = "unat n"
  let ?r = "hev_ring_buffer_read_release n r"
  from inv have b: "?p < ?m" "?a \<le> ?u" "?u \<le> ?m" by (auto simp: ring_inv_def)
  from n have na: "?n \<le> ?u - ?a" by (simp add: inflight_def Let_def)
  have u: "unat (use_size r - n) = ?u - ?n"
    using na by (simp add: unat_sub_no_underflow)
  have e: "?r = (if ?u - ?n = 0 then r\<lparr>use_size := use_size r - n, rp := 0, wp := 0\<rparr>
                 else r\<lparr>use_size := use_size r - n\<rparr>)"
    using u by (simp add: hev_ring_buffer_read_release_def Let_def word_eq_0_unat)
  have k: "?u - ?a = ?n + (?u - ?n - ?a)" using na by simp
  have "in_refs r = pos_at ?m (?p + ?m - (?u - ?a)) ?n @ pos_at ?m (?p + ?m - (?u - ?a) + ?n) (?u - ?n - ?a)"
    unfolding in_refs_def Let_def by (subst (2) k) (rule pos_at_add)
  moreover have "?p + ?m - (?u - ?a) + ?n = ?p + ?m - (?u - ?n - ?a)"
    using na b by simp
  ultimately have "drop ?n (in_refs r) = pos_at ?m (?p + ?m - (?u - ?n - ?a)) (?u - ?n - ?a)"
    by simp
  then show ?thesis using u by (auto simp: e in_refs_def Let_def)
qed

lemma alloca_refs [simp]: "in_refs (hev_ring_buffer_alloca s g) = []"
  by (simp add: in_refs_def hev_ring_buffer_alloca_def)

end
