(* ===== verification/Datagram_IO.thy ===== *)
theory Datagram_IO
  imports Dialogue
begin

text \<open>
  The calls the UDP relay adds to \<open>Task_IO\<close>: the vectored read of a stream and the batched
  datagram calls of \<open>hev-task-system/src/lib/io/socket/hev-task-io-socket.c\<close>, with their retry
  loops, and the plain \<open>recv\<close>.
\<close>

section \<open>One plain read\<close>

definition sys_recv :: "int \<Rightarrow> nat \<Rightarrow> world \<Rightarrow> int \<times> bytes \<times> world" where
  "sys_recv f n w =
     (case rxq w f of
        [] \<Rightarrow> (0, [], w)
      | RErr # es \<Rightarrow> (-1, [], w\<lparr>rxq := (rxq w)(f := es), eagain := False\<rparr>)
      | RAgain # es \<Rightarrow> (-1, [], w\<lparr>rxq := (rxq w)(f := es), eagain := True\<rparr>)
      | RData bs # es \<Rightarrow>
          (let k = min n (length bs) in
           (int k, take k bs,
            w\<lparr>rxq := (rxq w)(f := (if k < length bs then RData (drop k bs) # es else es))\<rparr>)))"

section \<open>Vectored reads\<close>

text \<open>
  A vector is the list of the sizes of its entries: the bytes are stored in order, so where they go
  follows from their position. After a partial transfer the used entries are skipped and the next
  one is shortened.
\<close>

fun len_advance :: "nat \<Rightarrow> nat list \<Rightarrow> nat list" where
  "len_advance s [] = []"
| "len_advance s (n # v) = (if s < n then (n - s) # v else len_advance (s - n) v)"

fun recvmsg_loop :: "'o yielder \<Rightarrow> bool \<Rightarrow> bool \<Rightarrow> nat \<Rightarrow> nat list \<Rightarrow> bytes \<Rightarrow> recv_ev list \<Rightarrow> 'o \<Rightarrow> world \<Rightarrow>
  (int \<times> bytes) \<times> recv_ev list \<times> 'o \<times> world" where
  "recvmsg_loop y wa dw len iov got [] self w =
     ((if \<not> wa then 0 else int (length got), got), [], self, w)"
| "recvmsg_loop y wa dw len iov got (RErr # es) self w =
     ((if \<not> wa then -1 else if got = [] then -1 else int (length got), got), es, self, w\<lparr>eagain := False\<rparr>)"
| "recvmsg_loop y wa dw len iov got (RAgain # es) self w =
     (if dw then
        ((if \<not> wa then -1 else if got = [] then -1 else int (length got), got), es, self, w\<lparr>eagain := True\<rparr>)
      else
        let (r, self, w) = y HEV_TASK_WAITIO self w in
        if r \<noteq> 0 then ((if got = [] then -2 else int (length got), got), es, self, w)
        else recvmsg_loop y wa dw len iov got es self w)"
| "recvmsg_loop y wa dw len iov got (RData bs # es) self w =
     (let k = min (sum_list iov) (length bs);
          got' = got @ take k bs;
          rest = (if k < length bs then RData (drop k bs) # es else es)
      in if \<not> wa then ((int k, got'), rest, self, w)
         else if k = 0 then ((int (length got), got), rest, self, w)
         else if length got' < len then recvmsg_loop y wa dw len (len_advance k iov) got' es self w
         else ((int (length got'), got'), rest, self, w))"

definition hev_task_io_socket_recvmsg :: "int \<Rightarrow> nat list \<Rightarrow> bool \<Rightarrow> bool \<Rightarrow> 'o yielder \<Rightarrow> 'o \<Rightarrow> world \<Rightarrow>
  int \<times> bytes \<times> 'o \<times> world" where
  "hev_task_io_socket_recvmsg f iov wa dw y self w =
     (let ((r, bs), es, self, w') = recvmsg_loop y wa dw (sum_list iov) iov [] (rxq w f) self w
      in (r, bs, self, w'\<lparr>rxq := (rxq w')(f := es)\<rparr>))"

lemma sum_len_advance: "k \<le> sum_list iov \<Longrightarrow> sum_list (len_advance k iov) = sum_list iov - k"
  by (induction k iov rule: len_advance.induct) auto

text \<open>The vectored read takes the same bytes with the same result as one read of the sum of the sizes.\<close>

lemma recvmsg_is_recv:
  "length got + sum_list iov = len \<Longrightarrow>
   recvmsg_loop y True dw len iov got es self w = recv_loop y True dw len got es self w"
proof (induction y "True" dw len iov got es self w rule: recvmsg_loop.induct)
  case (3 y dw len iov got es self w)
  then show ?case by (auto split: prod.splits)
next
  case (4 y dw len iov got b es self w)
  define k where "k = min (sum_list iov) (length b)"
  have n: "len - length got = sum_list iov" using 4(2) by simp
  have "length (got @ take k b) + sum_list (len_advance k iov) = len"
    using 4(2) by (simp add: k_def sum_len_advance)
  from 4(1) [OF k_def refl refl _ _ _ this] show ?case
    by (simp add: Let_def n flip: k_def)
qed auto

lemma recvmsg_eq_recv:
  "hev_task_io_socket_recvmsg f iov True dw y self w = hev_task_io_socket_recv f (sum_list iov) True dw y self w"
  by (simp add: hev_task_io_socket_recvmsg_def hev_task_io_socket_recv_def recvmsg_is_recv)

section \<open>Batches of datagrams\<close>

text \<open>
  \<open>got\<close> are the datagrams stored so far. Without \<open>MSG_WAITALL\<close> the loops return what the first call
  that does not block delivers.
\<close>

fun recvmmsg_loop :: "'o yielder \<Rightarrow> bool \<Rightarrow> bool \<Rightarrow> nat \<Rightarrow> dgram list \<Rightarrow> dgram_ev list \<Rightarrow> 'o \<Rightarrow> world \<Rightarrow>
  (int \<times> dgram list) \<times> dgram_ev list \<times> 'o \<times> world" where
  "recvmmsg_loop y wa dw n got [] self w =
     ((if \<not> wa then -1 else if got = [] then -1 else int (length got), got), [], self, w\<lparr>eagain := False\<rparr>)"
| "recvmmsg_loop y wa dw n got (DErr # es) self w =
     ((if \<not> wa then -1 else if got = [] then -1 else int (length got), got), es, self, w\<lparr>eagain := False\<rparr>)"
| "recvmmsg_loop y wa dw n got (DAgain # es) self w =
     (if dw then
        ((if \<not> wa then -1 else if got = [] then -1 else int (length got), got), es, self, w\<lparr>eagain := True\<rparr>)
      else
        let (r, self, w) = y HEV_TASK_WAITIO self w in
        if r \<noteq> 0 then ((if got = [] then -2 else int (length got), got), es, self, w)
        else recvmmsg_loop y wa dw n got es self w)"
| "recvmmsg_loop y wa dw n got (DMsgs ds # es) self w =
     (let k = min (n - length got) (length ds);
          got' = got @ take k ds;
          rest = (if k < length ds then DMsgs (drop k ds) # es else es)
      in if \<not> wa then ((int k, got'), rest, self, w)
         else if k = 0 then ((int (length got), got), rest, self, w)
         else if length got' < n then recvmmsg_loop y wa dw n got' es self w
         else ((int (length got'), got'), rest, self, w))"

text \<open>A datagram that is longer than the buffer of its entry is cut off.\<close>

definition hev_task_io_socket_recvmmsg :: "int \<Rightarrow> nat list \<Rightarrow> bool \<Rightarrow> bool \<Rightarrow> 'o yielder \<Rightarrow> 'o \<Rightarrow> world \<Rightarrow>
  int \<times> dgram list \<times> 'o \<times> world" where
  "hev_task_io_socket_recvmmsg f sizes wa dw y self w =
     (let ((r, ds), es, self, w') = recvmmsg_loop y wa dw (length sizes) [] (dgq w f) self w
      in (r, map2 (\<lambda>n d. d\<lparr>dg_data := take n (dg_data d)\<rparr>) sizes ds, self, w'\<lparr>dgq := (dgq w')(f := es)\<rparr>))"

fun sendmmsg_loop :: "'o yielder \<Rightarrow> bool \<Rightarrow> bool \<Rightarrow> nat \<Rightarrow> nat \<Rightarrow> send_ev list \<Rightarrow> 'o \<Rightarrow> world \<Rightarrow>
  (int \<times> nat) \<times> send_ev list \<times> 'o \<times> world" where
  "sendmmsg_loop y wa dw n c [] self w = ((int (if wa then n else n - c), n), [], self, w)"
| "sendmmsg_loop y wa dw n c (SErr # es) self w =
     ((if \<not> wa then -1 else if c = 0 then -1 else int c, c), es, self, w\<lparr>eagain := False\<rparr>)"
| "sendmmsg_loop y wa dw n c (SAgain # es) self w =
     (if dw then ((if \<not> wa then -1 else if c = 0 then -1 else int c, c), es, self, w\<lparr>eagain := True\<rparr>)
      else
        let (r, self, w) = y HEV_TASK_WAITIO self w in
        if r \<noteq> 0 then ((if c = 0 then -2 else int c, c), es, self, w)
        else sendmmsg_loop y wa dw n c es self w)"
| "sendmmsg_loop y wa dw n c (SAccept m # es) self w =
     (let k = min m (n - c) in
      if \<not> wa then ((int k, c + k), es, self, w)
      else if k = 0 then ((int c, c), es, self, w)
      else if c + k < n then sendmmsg_loop y wa dw n (c + k) es self w
      else ((int (c + k), c + k), es, self, w))"

definition hev_task_io_socket_sendmmsg ::
  "int \<Rightarrow> (bytes \<times> sockaddr_in6 option) list \<Rightarrow> bool \<Rightarrow> bool \<Rightarrow> 'o yielder \<Rightarrow> 'o \<Rightarrow> world \<Rightarrow> int \<times> 'o \<times> world" where
  "hev_task_io_socket_sendmmsg f msgs wa dw y self w =
     (let ((r, c), es, self, w') = sendmmsg_loop y wa dw (length msgs) 0 (txq w f) self w
      in (r, self, w'\<lparr>txq := (txq w')(f := es), sent := (sent w')(f := sent w' f @ take c msgs)\<rparr>))"

section \<open>What they deliver\<close>

lemma recvmmsg_loop_once:
  "recvmmsg_loop y False dw n [] es self w = ((r, ds), es', self', w') \<Longrightarrow>
   length ds \<le> n \<and> (r = int (length ds) \<or> r < 0 \<and> ds = [])"
proof (induction es arbitrary: self w)
  case (Cons e es)
  show ?case
  proof (cases e)
    case (DMsgs b)
    with Cons.prems show ?thesis by (auto simp: Let_def)
  next
    case DAgain
    with Cons show ?thesis by (auto split: if_splits prod.splits)
  qed (use Cons.prems in auto)
qed auto

lemma sendmmsg_loop_prefix:
  "sendmmsg_loop y True dw n c es self w = ((r, m), es', self', w') \<Longrightarrow> c \<le> n \<Longrightarrow>
   c \<le> m \<and> m \<le> n \<and> (r = int m \<or> r < 0 \<and> m = 0)"
proof (induction y "True" dw n c es self w arbitrary: r m es' self' w' rule: sendmmsg_loop.induct)
  case (3 y dw n c es self w)
  then show ?case by (auto split: if_splits prod.splits)
next
  case (4 y dw n c m0 es self w)
  define k where "k = min m0 (n - c)"
  have k: "c + k \<le> n" using 4(3) by (simp add: k_def)
  show ?case
  proof (cases "k \<noteq> 0 \<and> c + k < n")
    case True
    with 4(2) have "sendmmsg_loop y True dw n (c + k) es self w = ((r, m), es', self', w')"
      by (simp add: Let_def flip: k_def)
    with 4(1) [OF k_def _ _ _ this k] True show ?thesis by auto
  next
    case False
    with 4(2,3) k show ?thesis by (auto simp: Let_def simp flip: k_def split: if_splits)
  qed
qed (auto split: if_splits)

lemma sendmmsg_flows:
  "tx_flows es \<Longrightarrow> c < n \<Longrightarrow> \<exists>es'. sendmmsg_loop y True dw n c es self w = ((int n, n), es', self, w)"
proof (induction y "True" dw n c es self w rule: sendmmsg_loop.induct)
  case (4 y dw n c k es self w)
  then show ?case by (auto simp: Let_def min_def)
qed auto

end
