(* ===== verification/Session_TCP.thy ===== *)
theory Session_TCP
  imports Session Ring_Refs Datagram_IO
begin

text \<open>
  A TCP session, \<open>src/hev-socks5-session-tcp.c\<close>: the object between a connection of the TCP/IP stack
  and the socket to the SOCKS5 server. Towards the server the data waits in \<open>queue\<close>, the chain of
  packet buffers the stack handed over; towards the stack it waits in the ring buffer, to which the
  stack refers in place until the bytes are acknowledged.

  The handlers run in other tasks: whenever this task gives up the processor (in the yielder and
  when it waits for the mutex of the stack) the environment runs the next entry of a schedule of
  handler calls. A theorem quantifies over the schedules.
\<close>

section \<open>The stack\<close>

datatype tcp_ev = EvRecv "bytes list" | EvFin | EvSent u16 | EvErr | EvOthers sessions

record tcp_stack =
  sched :: "tcp_ev list list"
  delivered :: bytes
  rcv_wnd :: u16
  written :: bytes
  refs :: "nat list"
  wmem :: "bool list"
  outs :: "bool list"
  lost :: bool
  fin :: bool
  aborted :: bool
  up_shut :: bool
  pool :: sessions

text \<open>
  \<open>delivered\<close> are the bytes the stack handed over, \<open>rcv_wnd\<close> the room it still offers to the
  application behind the tunnel. \<open>written\<close> are the bytes \<open>tcp_write\<close> accepted, \<open>refs\<close> where in the
  ring those of them lie that are not acknowledged yet. \<open>wmem\<close> says which of the next \<open>tcp_write\<close>
  calls find no memory, \<open>outs\<close> which of the next \<open>tcp_output\<close> calls fail (\<open>False\<close>; a call beyond the
  list succeeds); \<open>lost\<close> is set when a \<open>tcp_write\<close> failed, \<open>fin\<close> by \<open>tcp_shutdown\<close>, \<open>aborted\<close> by
  \<open>tcp_abort\<close>; \<open>up_shut\<close> by \<open>shutdown\<close> on the socket. \<open>pool\<close> is the set of sessions of the tunnel.
\<close>

abbreviation TCP_WND :: u16 where "TCP_WND \<equiv> 65528"
abbreviation TCP_SND_BUF :: nat where "TCP_SND_BUF \<equiv> 65528"

text \<open>
  \<open>tcp_write\<close> without \<open>TCP_WRITE_FLAG_COPY\<close>: it refuses more than the send buffer has room for, and
  what comes behind a FIN, and keeps references to what it accepts.
\<close>

definition tcp_write :: "nat \<Rightarrow> u16 \<Rightarrow> bytes \<Rightarrow> tcp_stack \<Rightarrow> bool \<times> tcp_stack" where
  "tcp_write off len d k =
     (let mem = (case wmem k of [] \<Rightarrow> True | m # _ \<Rightarrow> m); k = k\<lparr>wmem := tl (wmem k)\<rparr>
      in if fin k \<or> TCP_SND_BUF < length (refs k) + unat len \<or> \<not> mem then (False, k\<lparr>lost := True\<rparr>)
         else (True, k\<lparr>written := written k @ bslice off (unat len) d, refs := refs k @ [off..<off + unat len]\<rparr>))"

definition tcp_output :: "tcp_stack \<Rightarrow> bool \<times> tcp_stack" where
  "tcp_output k = (case outs k of [] \<Rightarrow> True | r # _ \<Rightarrow> r, k\<lparr>outs := tl (outs k)\<rparr>)"

text \<open>The window update of \<open>tcp_recved\<close>.\<close>

definition tcp_recved :: "u16 \<Rightarrow> tcp_stack \<Rightarrow> tcp_stack" where
  "tcp_recved len k =
     (let w = rcv_wnd k + len in
      if w > TCP_WND \<or> w < rcv_wnd k then k\<lparr>rcv_wnd := TCP_WND\<rparr> else k\<lparr>rcv_wnd := w\<rparr>)"

text \<open>A chain of packet buffers is the list of their payloads, \<open>NULL\<close> the empty one.\<close>

fun pbuf_free_header :: "bytes list \<Rightarrow> u16 \<Rightarrow> bytes list" where
  "pbuf_free_header [] free_left = []"
| "pbuf_free_header (p # q) free_left =
     (if free_left = 0 then p # q
      else if unat free_left \<ge> length p then pbuf_free_header q (free_left - word_of_nat (length p))
      else drop (unat free_left) p # q)"

section \<open>The session\<close>

text \<open>Nothing touches \<open>buffer\<close> before the splicer has created it.\<close>

record hev_socks5_session_tcp = hev_socks5_client_tcp +
  data_node :: addr
  queue :: "bytes list"
  pcb :: bool
  buffer :: ring_buffer
  pcb_eof :: bool

subsection \<open>Handlers\<close>

definition tcp_recv_handler :: "bytes list \<Rightarrow> hev_socks5_session_tcp \<Rightarrow> hev_socks5_session_tcp" where
  "tcp_recv_handler p self =
     (if p \<noteq> [] then
        (if queue self \<noteq> [] then self\<lparr>queue := queue self @ p\<rparr> else self\<lparr>queue := p\<rparr>)
      else self\<lparr>pcb_eof := True\<rparr>)"

definition tcp_sent_handler :: "u16 \<Rightarrow> hev_socks5_session_tcp \<Rightarrow> hev_socks5_session_tcp" where
  "tcp_sent_handler len self = self\<lparr>buffer := hev_ring_buffer_read_release (ucast len) (buffer self)\<rparr>"

definition tcp_err_handler :: "hev_socks5_session_tcp \<Rightarrow> hev_socks5_session_tcp" where
  "tcp_err_handler self = hev_socks5_session_terminate (self\<lparr>pcb := False\<rparr>)"

text \<open>
  What the stack guarantees: it calls no handler of a connection that is gone, delivers no more than
  the window it offered and nothing behind the end of the stream, and reports only what it has sent.
\<close>

fun tcp_event :: "tcp_ev \<Rightarrow> hev_socks5_session_tcp \<times> tcp_stack \<Rightarrow> hev_socks5_session_tcp \<times> tcp_stack" where
  "tcp_event (EvRecv p) (self, k) =
     (if pcb self \<and> \<not> pcb_eof self \<and> p \<noteq> [] \<and> length (concat p) \<le> unat (rcv_wnd k)
      then (tcp_recv_handler p self,
            k\<lparr>delivered := delivered k @ concat p, rcv_wnd := rcv_wnd k - word_of_nat (length (concat p))\<rparr>)
      else (self, k))"
| "tcp_event EvFin (self, k) = (if pcb self then (tcp_recv_handler [] self, k) else (self, k))"
| "tcp_event (EvSent n) (self, k) =
     (if pcb self \<and> unat n \<le> length (refs k)
      then (tcp_sent_handler n self, k\<lparr>refs := drop (unat n) (refs k)\<rparr>) else (self, k))"
| "tcp_event EvErr (self, k) =
     (if pcb self then (tcp_err_handler self, k\<lparr>refs := []\<rparr>) else (self, k))"
| "tcp_event (EvOthers s) (self, k) = (self, k\<lparr>pool := s\<rparr>)"

definition tcp_switch :: "hev_socks5_session_tcp \<Rightarrow> tcp_stack \<Rightarrow> hev_socks5_session_tcp \<times> tcp_stack" where
  "tcp_switch self k =
     (case sched k of [] \<Rightarrow> (self, k) | es # r \<Rightarrow> fold tcp_event es (self, k\<lparr>sched := r\<rparr>))"

definition tcp_task_io_yielder :: "int \<Rightarrow> yield_type \<Rightarrow> hev_socks5_session_tcp \<Rightarrow> tcp_stack \<Rightarrow> world \<Rightarrow>
    int \<times> hev_socks5_session_tcp \<times> tcp_stack \<times> world" where
  "tcp_task_io_yielder max_session_count t self k w =
     (let (res, self, w) = hev_socks5_task_io_yielder t self w;
          (self, k) = tcp_switch self k;
          k = k\<lparr>pool := hev_socks5_tunnel_update_session max_session_count (data_node self) (pool k)\<rparr>
      in (res, self, k, w))"

subsection \<open>Splicing\<close>

definition sys_writev :: "int \<Rightarrow> bytes list \<Rightarrow> world \<Rightarrow> int \<times> world" where
  "sys_writev f iov w =
     (let put = (\<lambda>n es. w\<lparr>txq := (txq w)(f := es), wire := (wire w)(f := wire w f @ take n (concat iov))\<rparr>)
      in case txq w f of
           [] \<Rightarrow> (int (length (concat iov)), put (length (concat iov)) [])
         | SErr # es \<Rightarrow> (-1, (put 0 es)\<lparr>eagain := False\<rparr>)
         | SAgain # es \<Rightarrow> (-1, (put 0 es)\<lparr>eagain := True\<rparr>)
         | SAccept m # es \<Rightarrow> (let n = min m (length (concat iov)) in (int n, put n es)))"

definition tcp_splice_f :: "hev_socks5_session_tcp \<Rightarrow> tcp_stack \<Rightarrow> world \<Rightarrow>
    int \<times> hev_socks5_session_tcp \<times> tcp_stack \<times> world" where
  "tcp_splice_f self k w =
     (if queue self \<noteq> [] then
        (let (s, w) = sys_writev (fd self) (take 64 (queue self)) w
         in if s \<le> 0 then (if s < 0 \<and> eagain w then 0 else -1, self, k, w)
            else
              let (self, k) = tcp_switch self k;
                  self = self\<lparr>queue := pbuf_free_header (queue self) (word_of_int s)\<rparr>;
                  k = (if pcb self then tcp_recved (word_of_int s) k else k)
              in (1, self, k, w))
      else if pcb_eof self then (-1, self, k\<lparr>up_shut := True\<rparr>, w)
      else (0, self, k, w))"

fun tcp_write_all :: "bytes \<Rightarrow> ring_iov list \<Rightarrow> bool \<Rightarrow> u64 \<Rightarrow> tcp_stack \<Rightarrow> bool \<times> u64 \<times> tcp_stack" where
  "tcp_write_all d [] ok s k = (ok, s, k)"
| "tcp_write_all d ((off, len) # v) ok s k =
     (let (r, k) = tcp_write (unat off) (ucast len) d k in tcp_write_all d v (ok \<and> r) (s + len) k)"

text \<open>The two halves of \<open>tcp_splice_b\<close>: reading from the socket, and handing to the stack under the mutex.\<close>

definition tcp_fill :: "hev_socks5_session_tcp \<Rightarrow> world \<Rightarrow> int \<times> hev_socks5_session_tcp \<times> world" where
  "tcp_fill self w =
     (let iov = hev_ring_buffer_writing (buffer self)
      in if iov \<noteq> [] then
           let (s, b, w) = sys_recv (fd self) (iov_size iov) w
           in if s \<le> 0 then (if s < 0 \<and> eagain w then 0 else -1, self, w)
              else (1, self\<lparr>buffer := ring_fill b (buffer self)\<rparr>, w)
         else (0, self, w))"

definition tcp_feed :: "int \<Rightarrow> hev_socks5_session_tcp \<Rightarrow> tcp_stack \<Rightarrow> int \<times> hev_socks5_session_tcp \<times> tcp_stack" where
  "tcp_feed res self k =
     (if \<not> pcb self then (-1, self, k)
      else
        let iov = hev_ring_buffer_reading (buffer self)
        in if iov \<noteq> [] then
             let (ok, s, k) = tcp_write_all (ring_buffer.data (buffer self)) iov True 0 k;
                 self = self\<lparr>buffer := hev_ring_buffer_read_finish s (buffer self)\<rparr>;
                 (out, k) = tcp_output k
             in (if ok \<and> out then 1 else -1, self, k)
           else if res < 0 then (res, self, k\<lparr>fin := True\<rparr>)
           else (res, self, k))"

definition tcp_splice_b :: "hev_socks5_session_tcp \<Rightarrow> tcp_stack \<Rightarrow> world \<Rightarrow>
    int \<times> hev_socks5_session_tcp \<times> tcp_stack \<times> world" where
  "tcp_splice_b self k w =
     (let (res, self, w) = tcp_fill self w;
          (self, k) = tcp_switch self k;
          (res, self, k) = tcp_feed res self k
      in (res, self, k, w))"

partial_function (option) tcp_splice_loop :: "int \<Rightarrow> int \<Rightarrow> int \<Rightarrow> hev_socks5_session_tcp \<Rightarrow> tcp_stack \<Rightarrow> world \<Rightarrow>
    (hev_socks5_session_tcp \<times> tcp_stack \<times> world) option" where
  "tcp_splice_loop m res_f res_b self k w =
     (let (res_f, self, k, w) = (if res_f \<ge> 0 then tcp_splice_f self k w else (res_f, self, k, w));
          (res_b, self, k, w) = (if res_b \<ge> 0 then tcp_splice_b self k w else (res_b, self, k, w))
      in if \<not> (res_f > 0 \<or> res_b > 0) \<and> (res_f AND res_b) \<noteq> 0 then Some (self, k, w)
         else
           let (r, self, k, w) = tcp_task_io_yielder m
                 (if res_f > 0 \<or> res_b > 0 then HEV_TASK_YIELD else HEV_TASK_WAITIO) self k w
           in if r < 0 then Some (self, k, w) else tcp_splice_loop m res_f res_b self k w)"

partial_function (option) tcp_drain_loop :: "int \<Rightarrow> hev_socks5_session_tcp \<Rightarrow> tcp_stack \<Rightarrow> world \<Rightarrow>
    (hev_socks5_session_tcp \<times> tcp_stack \<times> world) option" where
  "tcp_drain_loop m self k w =
     (if \<not> pcb self \<or> hev_ring_buffer_get_use_size (buffer self) = 0 then Some (self, k, w)
      else
        let (r, self, k, w) = tcp_task_io_yielder m HEV_TASK_WAITIO self k w
        in if r < 0 then Some (self, k, w) else tcp_drain_loop m self k w)"

text \<open>
  \<open>garbage\<close> is what the stack memory of the task holds where the ring buffer is laid.
\<close>

definition hev_socks5_session_tcp_splice ::
  "int \<Rightarrow> u64 \<Rightarrow> bytes \<Rightarrow> (hev_socks5_session_tcp, tcp_stack) splice_fun" where
  "hev_socks5_session_tcp_splice m tcp_buffer_size garbage self k w =
     (if \<not> pcb self then Some (self, k, w)
      else
        (case tcp_splice_loop m 1 1 (self\<lparr>buffer := hev_ring_buffer_alloca tcp_buffer_size garbage\<rparr>) k w of
           None \<Rightarrow> None
         | Some (self, k, w) \<Rightarrow> tcp_drain_loop m self k w))"

subsection \<open>Life\<close>

text \<open>\<open>addr\<close> is the uninitialised address on the stack of the constructor.\<close>

definition hev_socks5_session_tcp_construct :: "HevSocks5Addr \<Rightarrow> ip_addr \<Rightarrow> u16 \<Rightarrow> HevMappedDNS option \<Rightarrow>
    hev_socks5_session_tcp \<Rightarrow> world \<Rightarrow> (int \<times> hev_socks5_session_tcp \<times> HevMappedDNS option \<times> world) option" where
  "hev_socks5_session_tcp_construct addr local_ip local_port dns self w =
     (case hev_socks5_addr_from_lwip addr local_ip local_port dns of
        None \<Rightarrow> None
      | Some (res, addr, dns) \<Rightarrow>
          Some (if res < 0 then (-1, self, dns, w)
                else
                  let (res, self, w) = hev_socks5_client_tcp_construct addr self w
                  in if res < 0 then (-1, self, dns, w)
                     else (0, self\<lparr>pcb := True\<rparr>, dns, w)))"

text \<open>\<open>zero\<close> is the object as \<open>hev_malloc0\<close> leaves it, with its place in the set of sessions.\<close>

definition hev_socks5_session_tcp_zero :: "addr \<Rightarrow> hev_socks5_session_tcp" where
  "hev_socks5_session_tcp_zero n =
     \<lparr>fd = 0, timeout = 0, stype = HEV_SOCKS5_TYPE_NONE, udp_associated = False, addr_family = 0,
      auth_user = None, auth_pass = None, up_addr = None, data_node = n, queue = [], pcb = False,
      buffer = \<lparr>rp = 0, wp = 0, rda_size = 0, use_size = 0, max_size = 0, data = []\<rparr>, pcb_eof = False\<rparr>"

definition hev_socks5_session_tcp_new :: "HevSocks5Addr \<Rightarrow> addr \<Rightarrow> ip_addr \<Rightarrow> u16 \<Rightarrow> HevMappedDNS option \<Rightarrow>
    world \<Rightarrow> (hev_socks5_session_tcp option \<times> HevMappedDNS option \<times> world) option" where
  "hev_socks5_session_tcp_new addr n local_ip local_port dns w =
     (let (ok, w) = hev_malloc w in
      if \<not> ok then Some (None, dns, w)
      else
        (case hev_socks5_session_tcp_construct addr local_ip local_port dns (hev_socks5_session_tcp_zero n) w of
           None \<Rightarrow> None
         | Some (res, self, dns, w) \<Rightarrow>
             Some (if res < 0 then (None, dns, hev_free w) else (Some self, dns, w))))"

definition hev_socks5_session_tcp_destruct :: "hev_socks5_session_tcp \<Rightarrow> tcp_stack \<Rightarrow> world \<Rightarrow> tcp_stack \<times> world" where
  "hev_socks5_session_tcp_destruct self k w =
     (let (self, k) = tcp_switch self k;
          k = (if pcb self then k\<lparr>aborted := True, refs := []\<rparr> else k)
      in (k, hev_socks5_client_tcp_destruct self w))"

definition hev_socks5_session_tcp_class :: "HevConfigServer \<Rightarrow> hev_socks5_session_tcp client_class" where
  "hev_socks5_session_tcp_class srv = hev_socks5_client_tcp_class\<lparr>klass_binder := hev_socks5_session_bind srv\<rparr>"

end
