(* ===== verification/TCP_Streams.thy ===== *)
theory TCP_Streams
  imports Session_TCP
begin

text \<open>
  The two byte streams of a TCP session and the windows that bound them: what holds in every state
  that the rounds of \<open>tcp_splice_f\<close>, \<open>tcp_splice_b\<close> and the yielder can reach, whatever the handlers
  do in between.
\<close>

section \<open>What a handler may change\<close>

definition room :: "hev_socks5_session_tcp \<Rightarrow> tcp_stack \<Rightarrow> nat" where
  "room self k = (if pcb self then unat (rcv_wnd k) else 0)"

definition grows :: "hev_socks5_session_tcp \<times> tcp_stack \<Rightarrow> hev_socks5_session_tcp \<times> tcp_stack \<Rightarrow> bool" where
  "grows a b \<longleftrightarrow> (\<exists>xs. queue (fst b) = queue (fst a) @ xs \<and>
     delivered (snd b) = delivered (snd a) @ concat xs \<and>
     length (concat xs) + room (fst b) (snd b) \<le> room (fst a) (snd a) \<and>
     (pcb (fst b) \<longrightarrow> pcb (fst a) \<and> length (concat xs) + room (fst b) (snd b) = room (fst a) (snd a))) \<and>
   fd (fst b) = fd (fst a) \<and> stype (fst b) = stype (fst a) \<and> fin (snd b) = fin (snd a) \<and>
   lost (snd b) = lost (snd a) \<and> wmem (snd b) = wmem (snd a) \<and> outs (snd b) = outs (snd a) \<and>
   data_node (fst b) = data_node (fst a) \<and> written (snd b) = written (snd a) \<and> (timeout (fst a) \<ge> 0 \<longrightarrow> timeout (fst b) \<ge> 0)"

lemma grows_refl [simp, intro]: "grows a a"
  by (auto simp: grows_def)

lemma grows_trans [trans]:
  assumes "grows a b" "grows b c"
  shows "grows a c"
proof -
  from assms obtain xs ys where
    "queue (fst b) = queue (fst a) @ xs" "delivered (snd b) = delivered (snd a) @ concat xs"
    "queue (fst c) = queue (fst b) @ ys" "delivered (snd c) = delivered (snd b) @ concat ys"
    "length (concat xs) + room (fst b) (snd b) \<le> room (fst a) (snd a)"
    "length (concat ys) + room (fst c) (snd c) \<le> room (fst b) (snd b)"
    "pcb (fst b) \<longrightarrow> pcb (fst a) \<and> length (concat xs) + room (fst b) (snd b) = room (fst a) (snd a)"
    "pcb (fst c) \<longrightarrow> pcb (fst b) \<and> length (concat ys) + room (fst c) (snd c) = room (fst b) (snd b)"
    unfolding grows_def by blast
  then have "\<exists>zs. queue (fst c) = queue (fst a) @ zs \<and> delivered (snd c) = delivered (snd a) @ concat zs \<and>
     length (concat zs) + room (fst c) (snd c) \<le> room (fst a) (snd a) \<and>
     (pcb (fst c) \<longrightarrow> pcb (fst a) \<and> length (concat zs) + room (fst c) (snd c) = room (fst a) (snd a))"
    by (intro exI [of _ "xs @ ys"]) auto
  with assms show ?thesis unfolding grows_def by auto
qed

lemma session_terminate_simps [simp]:
  "fd (hev_socks5_session_terminate self) = fd self"
  "stype (hev_socks5_session_terminate self) = stype self"
  "hev_socks5.more (hev_socks5_session_terminate self) = hev_socks5.more self"
  "timeout (hev_socks5_session_terminate self) = 0"
  by (auto simp: hev_socks5_session_terminate_def hev_socks5_set_timeout_def)

lemma session_terminate_tcp [simp]:
  "queue (hev_socks5_session_terminate self) = queue self"
  "pcb (hev_socks5_session_terminate self) = pcb self"
  "buffer (hev_socks5_session_terminate self) = buffer self"
  "pcb_eof (hev_socks5_session_terminate self) = pcb_eof self"
  "data_node (hev_socks5_session_terminate self) = data_node self"
  by (simp_all add: hev_socks5_session_terminate_def hev_socks5_set_timeout_def)

lemma tcp_event_grows: "grows a (tcp_event e a)"
proof (cases e)
  case (EvRecv p)
  obtain self k where a: "a = (self, k)" by fastforce
  show ?thesis
  proof (cases "pcb self \<and> \<not> pcb_eof self \<and> p \<noteq> [] \<and> length (concat p) \<le> unat (rcv_wnd k)")
    case True
    then have l: "unat (word_of_nat (length (concat p)) :: u16) = length (concat p)"
      by (intro unat_of_nat_small) (use unat_less_size [of "rcv_wnd k"] in simp)
    with True have "unat (rcv_wnd k - word_of_nat (length (concat p))) = unat (rcv_wnd k) - length (concat p)"
      by (simp add: unat_sub_no_underflow)
    with True EvRecv a show ?thesis
      unfolding grows_def by (intro conjI exI [of _ p]) (auto simp: tcp_recv_handler_def room_def)
  qed (use EvRecv a in auto)
qed (cases a; auto simp: grows_def tcp_recv_handler_def tcp_sent_handler_def tcp_err_handler_def room_def)+

lemma fold_grows: "grows a (fold tcp_event es a)"
proof (induction es arbitrary: a)
  case (Cons e es)
  then show ?case using grows_trans [OF tcp_event_grows Cons] by simp
qed simp

lemma tcp_switch_grows: "grows (self, k) (tcp_switch self k)"
proof -
  have "grows (self, k) (self, k\<lparr>sched := s\<rparr>)" for s by (auto simp: grows_def room_def)
  then show ?thesis by (auto simp: tcp_switch_def split: list.splits intro: grows_trans fold_grows)
qed

section \<open>Towards the server\<close>

definition up_inv :: "bytes \<Rightarrow> hev_socks5_session_tcp \<Rightarrow> tcp_stack \<Rightarrow> world \<Rightarrow> bool" where
  "up_inv up self k w \<longleftrightarrow>
     wire w (fd self) @ concat (queue self) = up @ delivered k \<and>
     length (concat (queue self)) + room self k \<le> 65528 \<and>
     (pcb self \<longrightarrow> length (concat (queue self)) + room self k = 65528)"

lemma up_inv_grows:
  assumes "up_inv up s k w" "grows (s, k) (s', k')" "wire w' (fd s) = wire w (fd s)"
  shows "up_inv up s' k' w'"
proof -
  from assms(2) obtain xs where
    "queue s' = queue s @ xs" "delivered k' = delivered k @ concat xs"
    "length (concat xs) + room s' k' \<le> room s k"
    "pcb s' \<longrightarrow> pcb s \<and> length (concat xs) + room s' k' = room s k" "fd s' = fd s"
    unfolding grows_def by auto
  with assms(1,3) show ?thesis by (auto simp: up_inv_def)
qed

lemma pbuf_free_header_drop:
  "unat n \<le> length (concat q) \<Longrightarrow> concat (pbuf_free_header q n) = drop (unat n) (concat q)"
proof (induction q n rule: pbuf_free_header.induct)
  case (2 p q n)
  show ?case
  proof (cases "n \<noteq> 0 \<and> unat n \<ge> length p")
    case True
    then have "unat (word_of_nat (length p) :: u16) = length p"
      by (intro unat_of_nat_small) (use unat_less_size [of n] in simp)
    with True have "unat (n - word_of_nat (length p)) = unat n - length p"
      by (simp add: unat_sub_no_underflow)
    with 2 True show ?thesis by simp
  qed (use 2 in auto)
qed simp

lemma tcp_recved_wnd:
  assumes "unat (rcv_wnd k) + unat n \<le> 65528"
  shows "unat (rcv_wnd (tcp_recved n k)) = unat (rcv_wnd k) + unat n"
proof -
  have u: "unat (rcv_wnd k + n) = unat (rcv_wnd k) + unat n"
    using assms by (intro unat_add_no_overflow) simp
  then have "\<not> rcv_wnd k + n > TCP_WND" "\<not> rcv_wnd k + n < rcv_wnd k"
    using assms by (auto simp: word_less_nat_alt)
  with u show "unat (rcv_wnd (tcp_recved n k)) = unat (rcv_wnd k) + unat n"
    by (simp add: tcp_recved_def)
qed

lemma tcp_recved_simps [simp]:
  "delivered (tcp_recved n k) = delivered k" "refs (tcp_recved n k) = refs k" "written (tcp_recved n k) = written k"
  "lost (tcp_recved n k) = lost k" "fin (tcp_recved n k) = fin k" "wmem (tcp_recved n k) = wmem k"
  "outs (tcp_recved n k) = outs k" "sched (tcp_recved n k) = sched k" "pool (tcp_recved n k) = pool k"
  by (simp_all add: tcp_recved_def Let_def)

lemma sys_writev_spec:
  assumes "sys_writev f iov w = (s, w')"
  shows "\<exists>n. n \<le> length (concat iov) \<and> wire w' = (wire w)(f := wire w f @ take n (concat iov)) \<and>
    rxq w' = rxq w \<and> (s = int n \<or> s = -1 \<and> n = 0) \<and> (s \<le> 0 \<longrightarrow> n = 0)"
  using assms
  by (auto simp: sys_writev_def Let_def split: list.splits send_ev.splits intro: exI [of _ 0])

lemma splice_f_up:
  assumes "up_inv up self k w" "tcp_splice_f self k w = (r, self', k', w')"
  shows "up_inv up self' k' w'" "rxq w' = rxq w" "fd self' = fd self"
proof -
  have "up_inv up self' k' w' \<and> rxq w' = rxq w \<and> fd self' = fd self"
  proof (cases "queue self = []")
    case True
    with assms show ?thesis by (auto simp: tcp_splice_f_def up_inv_def room_def split: if_splits)
  next
    case False
    obtain s w1 where sw: "sys_writev (fd self) (take 64 (queue self)) w = (s, w1)" by fastforce
    from sys_writev_spec [OF sw] obtain n where n: "n \<le> length (concat (take 64 (queue self)))"
      "wire w1 = (wire w)(fd self := wire w (fd self) @ take n (concat (take 64 (queue self))))"
      "rxq w1 = rxq w" "s = int n \<or> s = -1 \<and> n = 0" "s \<le> 0 \<longrightarrow> n = 0" by blast
    have q: "concat (queue self) = concat (take 64 (queue self)) @ concat (drop 64 (queue self))"
      by (metis append_take_drop_id concat_append)
    with n(1) have t: "take n (concat (take 64 (queue self))) = take n (concat (queue self))"
      "n \<le> length (concat (queue self))" by simp_all
    show ?thesis
    proof (cases "s \<le> 0")
      case True
      with False assms sw n show ?thesis by (auto simp: tcp_splice_f_def up_inv_def)
    next
      case pos: False
      with n have s: "s = int n" by auto
      obtain s1 k1 where sk: "tcp_switch self k = (s1, k1)" by fastforce
      have g: "grows (self, k) (s1, k1)" using tcp_switch_grows [of self k] sk by simp
      then obtain xs where xs: "queue s1 = queue self @ xs" and fd1: "fd s1 = fd self" by (auto simp: grows_def)
      from up_inv_grows [OF assms(1) g refl] have u1: "up_inv up s1 k1 w" .
      from assms(1) t(2) have nb: "n < 2 ^ 16" by (auto simp: up_inv_def)
      then have un: "unat (word_of_nat n :: u16) = n" by (intro unat_of_nat_small) simp
      have c: "concat (pbuf_free_header (queue s1) (word_of_nat n)) = drop n (concat (queue s1))"
        using pbuf_free_header_drop [of "word_of_nat n" "queue s1"] xs t(2) by (simp add: un)
      let ?k = "if pcb s1 then tcp_recved (word_of_nat n) k1 else k1"
      let ?s = "s1\<lparr>queue := pbuf_free_header (queue s1) (word_of_nat n)\<rparr>"
      from False pos sw sk s assms(2) have e: "self' = ?s" "k' = ?k" "w' = w1"
        by (auto simp: tcp_splice_f_def)
      have le: "n \<le> length (concat (queue s1))" using xs t(2) by simp
      have "length (concat (queue ?s)) + room ?s ?k \<le> length (concat (queue s1)) + room s1 k1 \<and>
        (pcb s1 \<longrightarrow> length (concat (queue ?s)) + room ?s ?k = length (concat (queue s1)) + room s1 k1) \<and>
        delivered ?k = delivered k1"
      proof (cases "pcb s1")
        case True
        with u1 le have "unat (rcv_wnd k1) + unat (word_of_nat n :: u16) \<le> 65528"
          by (auto simp: up_inv_def room_def un)
        from tcp_recved_wnd [OF this] True le show ?thesis
          by (simp add: room_def c un)
      qed (use le c in \<open>simp add: room_def\<close>)
      moreover have "wire w (fd self) @ concat (queue s1) = up @ delivered k1" using u1 fd1 by (simp add: up_inv_def)
      then have "(wire w (fd self) @ take n (concat (queue s1))) @ drop n (concat (queue s1)) = up @ delivered k1" by simp
      moreover have "take n (concat (queue s1)) = take n (concat (queue self))" using xs t(2) by simp
      ultimately have "up_inv up ?s ?k w1"
        using u1 n(2) t(1) fd1 c by (auto simp: up_inv_def)
      with e n(3) fd1 show ?thesis by simp
    qed
  qed
  then show "up_inv up self' k' w'" "rxq w' = rxq w" "fd self' = fd self" by auto
qed

section \<open>Towards the stack\<close>

definition down_inv :: "bytes \<Rightarrow> hev_socks5_session_tcp \<Rightarrow> tcp_stack \<Rightarrow> recv_ev list \<Rightarrow> bool" where
  "down_inv src self k es \<longleftrightarrow>
     ring_inv (buffer self) \<and> length (ring_buffer.data (buffer self)) \<le> TCP_SND_BUF \<and>
     length (refs k) \<le> length (inflight (buffer self)) \<and>
     (\<not> lost k \<longrightarrow>
        written k @ readable (buffer self) @ rx_bytes es = src \<and>
        (pcb self \<longrightarrow> refs k = in_refs (buffer self) \<and>
           (\<exists>acked. written k = acked @ inflight (buffer self))))"

lemma down_inv_cong:
  assumes "down_inv src s k es" "buffer s' = buffer s" "pcb s' \<longrightarrow> pcb s" "refs k' = refs k \<or> refs k' = [] \<and> \<not> pcb s'"
    "lost k' = lost k" "written k' = written k"
  shows "down_inv src s' k' es"
  using assms by (auto simp: down_inv_def)

lemma tcp_event_down:
  assumes "down_inv src (fst a) (snd a) es"
  shows "down_inv src (fst (tcp_event e a)) (snd (tcp_event e a)) es"
proof (cases e)
  case (EvSent n)
  obtain self k where a: "a = (self, k)" by fastforce
  show ?thesis
  proof (cases "pcb self \<and> unat n \<le> length (refs k)")
    case True
    have u: "unat (ucast n :: u64) = unat n" by (simp add: unsigned_ucast_eq take_bit_nat_eq_self_iff)
      (use unat_less_size [of n] in simp)
    from assms a have i: "ring_inv (buffer self)" and l: "unat (ucast n :: u64) \<le> length (inflight (buffer self))"
      using True by (auto simp: down_inv_def u)
    have "\<exists>bc. ac @ xs = bc @ drop (unat n) xs" for ac xs :: bytes
      by (metis append_assoc append_take_drop_id)
    with ring.release [OF i l] release_refs [OF i l] assms a True EvSent show ?thesis
      unfolding down_inv_def by (auto simp: tcp_sent_handler_def u)
  qed (use assms EvSent a in auto)
qed (use assms in \<open>cases a; auto simp: tcp_recv_handler_def tcp_err_handler_def elim!: down_inv_cong\<close>)+

lemma fold_down:
  assumes "down_inv src (fst a) (snd a) es"
  shows "down_inv src (fst (fold tcp_event evs a)) (snd (fold tcp_event evs a)) es"
  using assms by (induction evs arbitrary: a) (simp_all add: tcp_event_down)

lemma tcp_switch_down:
  assumes "down_inv src self k es" "tcp_switch self k = (self', k')"
  shows "down_inv src self' k' es"
proof (cases "sched k")
  case (Cons evs r)
  have "down_inv src self (k\<lparr>sched := r\<rparr>) es" using assms(1) by (rule down_inv_cong) auto
  with fold_down [of src "(self, k\<lparr>sched := r\<rparr>)" es evs] assms(2) Cons show ?thesis
    by (simp add: tcp_switch_def)
qed (use assms in \<open>simp add: tcp_switch_def\<close>)

definition write_frame :: "tcp_stack \<Rightarrow> tcp_stack \<Rightarrow> bool" where
  "write_frame k k' \<longleftrightarrow> delivered k' = delivered k \<and> rcv_wnd k' = rcv_wnd k \<and> fin k' = fin k \<and>
     sched k' = sched k \<and> outs k' = outs k \<and> pool k' = pool k"

lemma tcp_write_all_spec:
  assumes "tcp_write_all d v ok s k = (ok', s', k')" "iov_in v d" "\<forall>(off, len) \<in> set v. unat len < 65536"
  shows "s' = s + sum_list (map snd v)"
    and "write_frame k k'"
    and "lost k \<longrightarrow> lost k'"
    and "\<not> lost k' \<Longrightarrow> ok' = ok \<and> written k' = written k @ map ((!) d) (iov_refs v) \<and> refs k' = refs k @ iov_refs v"
    and "length (refs k') \<le> length (refs k) + length (iov_refs v)"
    and "False \<notin> set (wmem k) \<Longrightarrow> \<not> fin k \<Longrightarrow> length (refs k) + length (iov_refs v) \<le> TCP_SND_BUF \<Longrightarrow>
      lost k' = lost k \<and> False \<notin> set (wmem k')"
proof -
  have "s' = s + sum_list (map snd v) \<and>
    write_frame k k' \<and> (lost k \<longrightarrow> lost k') \<and>
    (\<not> lost k' \<longrightarrow> ok' = ok \<and> written k' = written k @ map ((!) d) (iov_refs v) \<and> refs k' = refs k @ iov_refs v) \<and>
    length (refs k') \<le> length (refs k) + length (iov_refs v) \<and>
    (False \<notin> set (wmem k) \<longrightarrow> \<not> fin k \<longrightarrow> length (refs k) + length (iov_refs v) \<le> TCP_SND_BUF \<longrightarrow>
      lost k' = lost k \<and> False \<notin> set (wmem k'))"
    using assms
  proof (induction d v ok s k rule: tcp_write_all.induct)
    case (2 d off len v ok s k)
    obtain r k1 where w: "tcp_write (unat off) (ucast len) d k = (r, k1)" by fastforce
    from 2(2) w have a: "tcp_write_all d v (ok \<and> r) (s + len) k1 = (ok', s', k')" by simp
    from 2(3) have io: "iov_in v d" "unat off + unat len \<le> length d" by (auto simp: iov_in_def)
    from 2(4) have u: "unat (ucast len :: u16) = unat len" "\<forall>(off, len) \<in> set v. unat len < 65536"
      by (auto simp: unsigned_ucast_eq take_bit_nat_eq_self_iff)
    have b: "bslice (unat off) (unat len) d = map ((!) d) [unat off..<unat off + unat len]"
      using io(2) by (intro nth_equalityI) (auto simp: bslice_def)
    have k1: "write_frame k k1"
      "r \<Longrightarrow> lost k1 = lost k \<and> written k1 = written k @ map ((!) d) [unat off..<unat off + unat len] \<and>
         refs k1 = refs k @ [unat off..<unat off + unat len]"
      "\<not> r \<Longrightarrow> lost k1 \<and> refs k1 = refs k"
      "False \<notin> set (wmem k) \<Longrightarrow> \<not> fin k \<Longrightarrow> length (refs k) + unat len \<le> TCP_SND_BUF \<Longrightarrow>
         r \<and> False \<notin> set (wmem k1)"
      using w u(1) by (auto simp: tcp_write_def Let_def b write_frame_def split: if_splits list.splits)
    have fink: "fin k1 = fin k" using k1(1) by (simp add: write_frame_def)
    have l: "length (iov_refs ((off, len) # v)) = unat len + length (iov_refs v)"
      by (simp add: iov_refs_def)
    note IH = 2(1) [OF w [symmetric] refl a io(1) u(2)]
    have "write_frame k k'"
      using IH k1(1) by (simp add: write_frame_def)
    moreover have "lost k \<longrightarrow> lost k'" using IH k1(2,3) by (cases r) blast+
    moreover have "ok' = ok \<and> written k' = written k @ map ((!) d) (iov_refs ((off, len) # v)) \<and>
        refs k' = refs k @ iov_refs ((off, len) # v)" if "\<not> lost k'"
    proof -
      from IH that have n: "\<not> lost k1" "ok' = (ok \<and> r)" "written k' = written k1 @ map ((!) d) (iov_refs v)"
        "refs k' = refs k1 @ iov_refs v" by blast+
      with k1(3) have r by blast
      with n k1(2) show ?thesis by (simp add: iov_refs_def)
    qed
    moreover have "length (refs k') \<le> length (refs k) + length (iov_refs ((off, len) # v))"
      using IH k1(2,3) l by (cases r) auto
    moreover have "lost k' = lost k \<and> False \<notin> set (wmem k')" if
      "False \<notin> set (wmem k)" "\<not> fin k" "length (refs k) + length (iov_refs ((off, len) # v)) \<le> TCP_SND_BUF"
    proof -
      from that l have "length (refs k) + unat len \<le> TCP_SND_BUF" by simp
      from k1(4) [OF that(1,2) this] have r: r "False \<notin> set (wmem k1)" by blast+
      with k1(2) l that(3) have "length (refs k1) + length (iov_refs v) \<le> TCP_SND_BUF" by simp
      moreover have "\<not> fin k1" using fink that(2) by simp
      ultimately have "lost k' = lost k1 \<and> False \<notin> set (wmem k')" using IH r(2) by blast
      with k1(2) [OF r(1)] show ?thesis by blast
    qed
    moreover have "s' = s + sum_list (map snd ((off, len) # v))" using IH by (simp add: add.assoc)
    ultimately show ?case by blast
  qed (simp add: iov_refs_def write_frame_def)
  then show "s' = s + sum_list (map snd v)"
    and "write_frame k k'"
    and "lost k \<longrightarrow> lost k'"
    and "\<not> lost k' \<Longrightarrow> ok' = ok \<and> written k' = written k @ map ((!) d) (iov_refs v) \<and> refs k' = refs k @ iov_refs v"
    and "length (refs k') \<le> length (refs k) + length (iov_refs v)"
    and "False \<notin> set (wmem k) \<Longrightarrow> \<not> fin k \<Longrightarrow> length (refs k) + length (iov_refs v) \<le> TCP_SND_BUF \<Longrightarrow>
      lost k' = lost k \<and> False \<notin> set (wmem k')"
    by auto
qed

section \<open>The rounds\<close>

definition rx_clean :: "recv_ev list \<Rightarrow> bool" where
  "rx_clean es \<longleftrightarrow> RErr \<notin> set es \<and> RData [] \<notin> set es"

lemma rx_clean_simps [simp]:
  "rx_clean []" "\<not> rx_clean (RErr # es)" "rx_clean (RAgain # es) = rx_clean es"
  "rx_clean (RData b # es) \<longleftrightarrow> b \<noteq> [] \<and> rx_clean es"
  by (auto simp: rx_clean_def)

lemma sys_recv_spec:
  assumes "sys_recv f n w = (s, b, w')"
  shows "rx_bytes (rxq w f) = b @ rx_bytes (rxq w' f)" "length b \<le> n" "wire w' = wire w"
    "s \<le> 0 \<Longrightarrow> b = []" "rx_clean (rxq w f) \<Longrightarrow> rx_clean (rxq w' f)"
    "rx_clean (rxq w f) \<Longrightarrow> 0 < n \<Longrightarrow> s \<le> 0 \<Longrightarrow> \<not> (s < 0 \<and> eagain w') \<Longrightarrow> rxq w' f = []"
  using assms by (auto simp: sys_recv_def Let_def split: list.splits recv_ev.splits if_splits)

lemma fill_spec:
  assumes "down_inv src self k (rxq w (fd self))" "up_inv up self k w" "tcp_fill self w = (res, self', w')"
  shows "down_inv src self' k (rxq w' (fd self))" "up_inv up self' k w'" "fd self' = fd self"
    "rx_clean (rxq w (fd self)) \<Longrightarrow> rx_clean (rxq w' (fd self)) \<and> (res < 0 \<longrightarrow> rxq w' (fd self) = [])"
proof -
  let ?v = "hev_ring_buffer_writing (buffer self)"
  from assms(1) have inv: "ring_inv (buffer self)" by (simp add: down_inv_def)
  have goal: "down_inv src self' k (rxq w' (fd self)) \<and> up_inv up self' k w' \<and> fd self' = fd self \<and>
    (rx_clean (rxq w (fd self)) \<longrightarrow> rx_clean (rxq w' (fd self)) \<and> (res < 0 \<longrightarrow> rxq w' (fd self) = []))"
  proof (cases "?v = []")
    case True
    with assms show ?thesis by (simp add: tcp_fill_def)
  next
    case False
    obtain s b w1 where r: "sys_recv (fd self) (iov_size ?v) w = (s, b, w1)" by (metis prod_cases3)
    note sp = sys_recv_spec [OF r] and sz = writing_size(1) [OF inv]
    have w1: "w' = w1" using assms(3) False r by (auto simp: tcp_fill_def split: if_splits)
    have u1: "up_inv up self k w1" using assms(2) sp(3) by (simp add: up_inv_def)
    show ?thesis
    proof (cases "s \<le> 0")
      case True
      from False have "use_size (buffer self) \<noteq> max_size (buffer self)"
        by (auto simp: hev_ring_buffer_writing_def)
      with inv have "0 < iov_size ?v"
        unfolding sz by (auto simp: ring_free_def ring_inv_def word_unat_eq_iff)
      with True False r assms(1,3) sp u1 show ?thesis by (auto simp: tcp_fill_def down_inv_def split: if_splits)
    next
      case pos: False
      from sp(2) sz have l: "length b \<le> ring_free (buffer self)" by simp
      from pos False r assms(3) have s': "self' = self\<lparr>buffer := ring_fill b (buffer self)\<rparr>" "res = 1"
        by (auto simp: tcp_fill_def)
      have "down_inv src self' k (rxq w1 (fd self))"
        using assms(1) ring.fill [OF inv l] fill_refs [OF inv l] sp(1) s'
        by (auto simp: down_inv_def simp del: ring_fill_simps)
      with u1 s' sp(5) w1 show ?thesis by (simp add: up_inv_def room_def)
    qed
  qed
  then show "down_inv src self' k (rxq w' (fd self))" "up_inv up self' k w'" "fd self' = fd self"
    "rx_clean (rxq w (fd self)) \<Longrightarrow> rx_clean (rxq w' (fd self)) \<and> (res < 0 \<longrightarrow> rxq w' (fd self) = [])"
    by auto
qed

lemma reading_sizes:
  assumes "ring_inv r" "length (ring_buffer.data r) \<le> TCP_SND_BUF"
  shows "sum_list (map snd (hev_ring_buffer_reading r)) = rda_size r"
    and "\<forall>(off, len) \<in> set (hev_ring_buffer_reading r). unat len < 65536"
    and "hev_ring_buffer_reading r = [] \<longleftrightarrow> readable r = []"
proof -
  note up = ring_upper [OF assms(1)]
  show "sum_list (map snd (hev_ring_buffer_reading r)) = rda_size r"
    by (simp add: hev_ring_buffer_reading_def Let_def)
  from reading_in [OF assms(1)] assms(2) show "\<forall>(off, len) \<in> set (hev_ring_buffer_reading r). unat len < 65536"
    by (fastforce simp: iov_in_def)
  show "hev_ring_buffer_reading r = [] \<longleftrightarrow> readable r = []"
    by (auto simp: hev_ring_buffer_reading_def readable_def Let_def ring_at_def word_eq_0_unat)
qed

lemma feed_spec:
  assumes "down_inv src self k es" "up_inv up self k w" "tcp_feed res self k = (res', self', k')"
  shows "down_inv src self' k' es" "up_inv up self' k' w" "fd self' = fd self"
    "\<not> fin k \<Longrightarrow> fin k' \<Longrightarrow> res < 0 \<and> res' < 0 \<and> pcb self \<and> readable (buffer self') = [] \<and> lost k' = lost k"
    "False \<notin> set (wmem k) \<Longrightarrow> \<not> fin k \<Longrightarrow> lost k' = lost k \<and> False \<notin> set (wmem k')"
proof -
  let ?r = "buffer self" and ?v = "hev_ring_buffer_reading (buffer self)"
  from assms(1) have inv: "ring_inv ?r" "length (ring_buffer.data ?r) \<le> TCP_SND_BUF" by (auto simp: down_inv_def)
  note rs = reading_sizes [OF inv]
  have goal: "down_inv src self' k' es \<and> up_inv up self' k' w \<and> fd self' = fd self \<and>
    (\<not> fin k \<longrightarrow> fin k' \<longrightarrow> res < 0 \<and> res' < 0 \<and> pcb self \<and> readable (buffer self') = [] \<and> lost k' = lost k) \<and>
    (False \<notin> set (wmem k) \<longrightarrow> \<not> fin k \<longrightarrow> lost k' = lost k \<and> False \<notin> set (wmem k'))"
  proof (cases "pcb self \<and> ?v \<noteq> []")
    case False
    with assms rs(3) show ?thesis
      by (auto simp: tcp_feed_def down_inv_def up_inv_def room_def Let_def split: if_splits)
  next
    case True
    obtain ok s k1 where wa: "tcp_write_all (ring_buffer.data ?r) ?v True 0 k = (ok, s, k1)" by (metis prod_cases3)
    note ws = tcp_write_all_spec [OF wa reading_in [OF inv(1)] rs(2)]
    obtain out k2 where o: "tcp_output k1 = (out, k2)" by fastforce
    then have k2: "k2 = k1\<lparr>outs := tl (outs k1)\<rparr>" by (simp add: tcp_output_def)
    from True assms(3) wa o have e: "self' = self\<lparr>buffer := hev_ring_buffer_read_finish s ?r\<rparr>" "k' = k2"
      by (auto simp: tcp_feed_def)
    from ws(1) rs(1) have s: "unat s = length (readable ?r)" by (simp add: readable_def)
    note fin = ring.finish [OF inv(1), of s] finish_refs [OF inv(1), of s]
    have iv: "iov_refs ?v = out_refs ?r" by (rule reading_refs [OF inv(1)])
    have rd: "readable ?r = map ((!) (ring_buffer.data ?r)) (out_refs ?r)"
      by (simp add: readable_def out_refs_def ring_at_pos)
    from fin s have rg: "ring_inv (buffer self')" "readable (buffer self') = []"
      "inflight (buffer self') = inflight ?r @ readable ?r" "in_refs (buffer self') = in_refs ?r @ out_refs ?r"
      "length (ring_buffer.data (buffer self')) = length (ring_buffer.data ?r)"
      by (simp_all add: e)
    have "length (refs k') \<le> length (inflight (buffer self'))"
      using ws(5) assms(1) by (simp add: e(2) k2 iv rg(3) down_inv_def)
    moreover have "written k' @ readable (buffer self') @ rx_bytes es = src \<and>
        (pcb self' \<longrightarrow> refs k' = in_refs (buffer self') \<and> (\<exists>acked. written k' = acked @ inflight (buffer self')))"
      if "\<not> lost k'"
    proof -
      from that have nl: "\<not> lost k1" "\<not> lost k" using ws(3) by (auto simp: e k2)
      from ws(4) [OF nl(1)] have "written k' = written k @ readable ?r" "refs k' = refs k @ out_refs ?r"
        by (simp_all add: e k2 iv rd)
      with assms(1) nl(2) True rg show ?thesis by (auto simp: down_inv_def)
    qed
    ultimately have d: "down_inv src self' k' es"
      using rg inv(2) by (simp add: down_inv_def)
    have "up_inv up self' k' w" using assms(2) ws(2) by (simp add: up_inv_def room_def e k2 write_frame_def)
    moreover have "lost k' = lost k \<and> False \<notin> set (wmem k')" if "False \<notin> set (wmem k)" "\<not> fin k"
    proof -
      from assms(1) have "length (refs k) + length (iov_refs ?v) \<le> TCP_SND_BUF"
        using ring.room [OF inv(1)] inv(2) by (auto simp: iv down_inv_def)
      from ws(6) [OF that this] show ?thesis by (simp add: e k2)
    qed
    moreover have "fin k' = fin k" using ws(2) by (simp add: e k2 write_frame_def)
    ultimately show ?thesis using d e by auto
  qed
  then show "down_inv src self' k' es" "up_inv up self' k' w" "fd self' = fd self"
    "\<not> fin k \<Longrightarrow> fin k' \<Longrightarrow> res < 0 \<and> res' < 0 \<and> pcb self \<and> readable (buffer self') = [] \<and> lost k' = lost k"
    "False \<notin> set (wmem k) \<Longrightarrow> \<not> fin k \<Longrightarrow> lost k' = lost k \<and> False \<notin> set (wmem k')"
    by blast+
qed

lemma waited_tcp:
  assumes "waited s w s' (w' :: world)"
  shows "queue s' = queue s" "pcb s' = pcb s" "buffer s' = buffer s" "pcb_eof s' = pcb_eof s"
    "data_node s' = data_node s" "timeout s \<ge> 0 \<Longrightarrow> timeout s' \<ge> 0"
  using assms by (auto simp: waited_def)

lemma tcp_yielder_spec:
  assumes "tcp_task_io_yielder m t s k w = (r, s', k', w')"
  shows "up_inv up s k w \<Longrightarrow> up_inv up s' k' w'"
    and "down_inv src s k (rxq w (fd s)) \<Longrightarrow> down_inv src s' k' (rxq w' (fd s'))"
    and "fin k' = fin k" "lost k' = lost k" "wmem k' = wmem k" "written k' = written k"
    and "rxq w' = rxq w" "fd s' = fd s" "data_node s' = data_node s"
proof -
  obtain s1 w1 where y: "hev_socks5_task_io_yielder t s w = (r, s1, w1)" and w1: "w1 = w'"
    using assms by (auto simp: tcp_task_io_yielder_def split: prod.splits)
  note wt = yielder_waited [OF y]
  note ws = waited_fields [OF wt] waited_tcp [OF wt]
  obtain s2 k2 where sk: "tcp_switch s1 k = (s2, k2)" by fastforce
  from assms y sk have e: "s' = s2" "k' = k2\<lparr>pool := hev_socks5_tunnel_update_session m (data_node s2) (pool k2)\<rparr>"
    by (auto simp: tcp_task_io_yielder_def)
  from tcp_switch_grows [of s1 k] sk have g: "grows (s1, k) (s2, k2)" by simp
  then have g': "fin k2 = fin k" "lost k2 = lost k" "wmem k2 = wmem k" "written k2 = written k" "fd s2 = fd s1"
    "data_node s2 = data_node s1"
    by (auto simp: grows_def)
  with e ws w1 show "fin k' = fin k" "lost k' = lost k" "wmem k' = wmem k" "written k' = written k"
    "rxq w' = rxq w" "fd s' = fd s" "data_node s' = data_node s" by auto
  show "up_inv up s' k' w'" if "up_inv up s k w"
  proof -
    from that ws have "up_inv up s1 k w" by (simp add: up_inv_def room_def)
    from up_inv_grows [OF this g, of w'] ws w1 e show ?thesis by (simp add: up_inv_def room_def)
  qed
  show "down_inv src s' k' (rxq w' (fd s'))" if "down_inv src s k (rxq w (fd s))"
  proof -
    from that ws have "down_inv src s1 k (rxq w (fd s))" by (simp add: down_inv_def)
    from tcp_switch_down [OF this sk] ws w1 e g' show ?thesis by (simp add: down_inv_def)
  qed
qed

type_synonym tcp_state = "int \<times> int \<times> hev_socks5_session_tcp \<times> tcp_stack \<times> world"

inductive tcp_round :: "int \<Rightarrow> tcp_state \<Rightarrow> tcp_state \<Rightarrow> bool" for m where
  forward: "0 \<le> rf \<Longrightarrow> tcp_splice_f s k w = (r, s', k', w') \<Longrightarrow> tcp_round m (rf, rb, s, k, w) (r, rb, s', k', w')"
| backward: "0 \<le> rb \<Longrightarrow> tcp_splice_b s k w = (r, s', k', w') \<Longrightarrow> tcp_round m (rf, rb, s, k, w) (rf, r, s', k', w')"
| waiting: "tcp_task_io_yielder m t s k w = (r, s', k', w') \<Longrightarrow> tcp_round m (rf, rb, s, k, w) (rf, rb, s', k', w')"

definition tcp_fresh :: "hev_socks5_session_tcp \<Rightarrow> tcp_stack \<Rightarrow> bool" where
  "tcp_fresh s k \<longleftrightarrow> pcb s \<and> delivered k = concat (queue s) \<and> unat (rcv_wnd k) + length (concat (queue s)) = 65528 \<and>
     written k = [] \<and> refs k = [] \<and> \<not> lost k \<and> \<not> fin k \<and>
     ring_inv (buffer s) \<and> use_size (buffer s) = 0 \<and> length (ring_buffer.data (buffer s)) \<le> TCP_SND_BUF"

definition tcp_ok :: "bytes \<Rightarrow> bytes \<Rightarrow> bool \<Rightarrow> bool \<Rightarrow> tcp_state \<Rightarrow> bool" where
  "tcp_ok up src mem clean st = (case st of (rf, rb, s, k, w) \<Rightarrow>
     up_inv up s k w \<and> down_inv src s k (rxq w (fd s)) \<and> (fin k \<longrightarrow> rb < 0) \<and>
     (mem \<longrightarrow> \<not> lost k \<and> False \<notin> set (wmem k)) \<and>
     (clean \<longrightarrow> rx_clean (rxq w (fd s)) \<and> (fin k \<and> \<not> lost k \<longrightarrow> written k = src)))"

lemma splice_f_frame:
  assumes "tcp_splice_f s k w = (r, s', k', w')"
  shows "fin k' = fin k" "lost k' = lost k" "wmem k' = wmem k" "written k' = written k"
proof -
  from tcp_switch_grows [of s k] have "fin (snd (tcp_switch s k)) = fin k" "lost (snd (tcp_switch s k)) = lost k"
    "wmem (snd (tcp_switch s k)) = wmem k" "written (snd (tcp_switch s k)) = written k" by (auto simp: grows_def)
  with assms show "fin k' = fin k" "lost k' = lost k" "wmem k' = wmem k" "written k' = written k"
    by (auto simp: tcp_splice_f_def split: prod.splits if_splits)
qed

lemma down_inv_upd [simp]:
  "down_inv src s (k\<lparr>up_shut := x\<rparr>) es = down_inv src s k es"
  "down_inv src s (tcp_recved n k) es = down_inv src s k es"
  "down_inv src (s\<lparr>queue := q\<rparr>) k es = down_inv src s k es"
  by (simp_all add: down_inv_def)

lemma splice_f_down:
  assumes "down_inv src s k es" "tcp_splice_f s k w = (r, s', k', w')"
  shows "down_inv src s' k' es"
proof -
  obtain s1 k1 where sk: "tcp_switch s k = (s1, k1)" by fastforce
  from tcp_switch_down [OF assms(1) sk] assms sk show ?thesis
    by (auto simp: tcp_splice_f_def split: prod.splits if_splits)
qed

lemma tcp_round_ok:
  assumes "tcp_round m a b" "tcp_ok up src mem clean a"
  shows "tcp_ok up src mem clean b"
  using assms
proof (induction rule: tcp_round.induct)
  case (forward rf s k w r s' k' w' rb)
  note o = forward.prems [unfolded tcp_ok_def split_conv] and st = forward.hyps(2)
  have "down_inv src s' k' (rxq w (fd s))" using o st by (blast intro: splice_f_down)
  moreover from o have "up_inv up s k w" by simp
  from splice_f_up [OF this st] have "up_inv up s' k' w'" "rxq w' = rxq w" "fd s' = fd s" .
  ultimately show ?case using splice_f_frame [OF st] o by (simp add: tcp_ok_def)
next
  case (backward rb s k w r s' k' w' rf)
  note o = backward.prems [unfolded tcp_ok_def split_conv] and st = backward.hyps(2)
  from o backward.hyps(1) have nf: "\<not> fin k" by auto
  obtain res s1 w1 where f: "tcp_fill s w = (res, s1, w1)" by (metis prod_cases3)
  obtain s2 k2 where sw: "tcp_switch s1 k = (s2, k2)" by fastforce
  from st f sw have e: "tcp_feed res s2 k2 = (r, s', k')" "w' = w1"
    by (auto simp: tcp_splice_b_def split: prod.splits)
  from o have d0: "down_inv src s k (rxq w (fd s))" and u0: "up_inv up s k w" by auto
  from o fill_spec [OF d0 u0 f] have a: "down_inv src s1 k (rxq w1 (fd s))" "up_inv up s1 k w1" "fd s1 = fd s"
    "clean \<longrightarrow> rx_clean (rxq w1 (fd s)) \<and> (res < 0 \<longrightarrow> rxq w1 (fd s) = [])" by auto
  from tcp_switch_grows [of s1 k] sw have g: "grows (s1, k) (s2, k2)" by simp
  then have g': "fin k2 = fin k" "lost k2 = lost k" "wmem k2 = wmem k" "fd s2 = fd s1" by (auto simp: grows_def)
  from feed_spec [OF tcp_switch_down [OF a(1) sw] up_inv_grows [OF a(2) g refl] e(1)]
  have b: "down_inv src s' k' (rxq w1 (fd s))" "up_inv up s' k' w1" "fd s' = fd s2"
    "fin k' \<longrightarrow> res < 0 \<and> r < 0 \<and> readable (buffer s') = []"
    "False \<notin> set (wmem k2) \<longrightarrow> lost k' = lost k2 \<and> False \<notin> set (wmem k')" using nf g'(1) by auto
  have "written k' = src" if "clean" "fin k'" "\<not> lost k'"
    using that a(4) b(1,4) by (auto simp: down_inv_def)
  with b a g' o e(2) show ?case by (auto simp: tcp_ok_def)
next
  case (waiting t s k w r s' k' w' rf rb)
  note o = waiting.prems [unfolded tcp_ok_def split_conv]
  from tcp_yielder_spec [OF waiting.hyps(1)] o show ?case by (simp add: tcp_ok_def)
qed

lemma tcp_reach_ok:
  assumes "rtranclp (tcp_round m) a b" "tcp_ok up src mem clean a"
  shows "tcp_ok up src mem clean b"
  using assms by (induction rule: rtranclp_induct) (auto intro: tcp_round_ok)

lemma tcp_fresh_ok:
  assumes "tcp_fresh s k"
  shows "tcp_ok (wire w (fd s)) (rx_bytes (rxq w (fd s))) (False \<notin> set (wmem k)) (rx_clean (rxq w (fd s))) (1, 1, s, k, w)"
proof -
  from assms have i: "ring_inv (buffer s)" "use_size (buffer s) = 0" by (auto simp: tcp_fresh_def)
  then have "rda_size (buffer s) = 0" by (simp add: ring_inv_def word_eq_0_unat)
  with i have "readable (buffer s) = []" "inflight (buffer s) = []" "in_refs (buffer s) = []"
    by (simp_all add: readable_def inflight_def in_refs_def)
  with assms show ?thesis by (auto simp: tcp_fresh_def tcp_ok_def up_inv_def down_inv_def room_def)
qed

section \<open>Properties\<close>

text \<open>
  C1: The byte streams of a TCP session. In every state its rounds can reach, whatever the handlers of
  the stack do in between: the bytes sent to the server followed by those still queued are the bytes
  the stack delivered, in order, and the receive window accounts for exactly the queued ones; the
  bytes given to the stack, those waiting in the ring and those still to come from the server are
  the server's stream; the places in the ring the stack refers to still hold its unacknowledged bytes;
  no \<open>tcp_write\<close> fails unless the stack runs out of memory; and the FIN is sent only behind the
  whole stream.
\<close>
theorem tcp_streams:
  assumes "tcp_fresh s k" "rtranclp (tcp_round m) (1, 1, s, k, w) (rf, rb, s', k', w')"
  shows "wire w' (fd s') @ concat (queue s') = wire w (fd s) @ delivered k' \<and>
    (pcb s' \<longrightarrow> unat (rcv_wnd k') + length (concat (queue s')) = 65528) \<and>
    (False \<notin> set (wmem k) \<longrightarrow> \<not> lost k') \<and>
    (\<not> lost k' \<longrightarrow>
       written k' @ readable (buffer s') @ rx_bytes (rxq w' (fd s')) = rx_bytes (rxq w (fd s)) \<and>
       (pcb s' \<longrightarrow> (\<exists>acked. written k' = acked @ map ((!) (ring_buffer.data (buffer s'))) (refs k'))) \<and>
       (fin k' \<and> rx_clean (rxq w (fd s)) \<longrightarrow> written k' = rx_bytes (rxq w (fd s))))"
proof -
  have "tcp_ok (wire w (fd s)) (rx_bytes (rxq w (fd s))) (False \<notin> set (wmem k)) (rx_clean (rxq w (fd s))) (rf, rb, s', k', w')"
    using assms(2) by (rule tcp_reach_ok) (rule tcp_fresh_ok [OF assms(1)])
  then have u: "up_inv (wire w (fd s)) s' k' w'"
    and d: "down_inv (rx_bytes (rxq w (fd s))) s' k' (rxq w' (fd s'))"
    and f: "False \<notin> set (wmem k) \<longrightarrow> \<not> lost k'"
      "rx_clean (rxq w (fd s)) \<longrightarrow> fin k' \<and> \<not> lost k' \<longrightarrow> written k' = rx_bytes (rxq w (fd s))"
    unfolding tcp_ok_def split_conv by blast+
  from d have "inflight (buffer s') = map ((!) (ring_buffer.data (buffer s'))) (refs k')" if "\<not> lost k'" "pcb s'"
    using that inflight_refs [of "buffer s'"] unfolding down_inv_def by metis
  moreover from d have "\<not> lost k' \<longrightarrow> pcb s' \<longrightarrow> (\<exists>acked. written k' = acked @ inflight (buffer s'))"
    unfolding down_inv_def by blast
  ultimately have "\<not> lost k' \<longrightarrow> pcb s' \<longrightarrow> (\<exists>acked. written k' = acked @ map ((!) (ring_buffer.data (buffer s'))) (refs k'))"
    by metis
  moreover from d have "\<not> lost k' \<longrightarrow> written k' @ readable (buffer s') @ rx_bytes (rxq w' (fd s')) = rx_bytes (rxq w (fd s))"
    unfolding down_inv_def by blast
  moreover from u have "wire w' (fd s') @ concat (queue s') = wire w (fd s) @ delivered k'"
    "pcb s' \<longrightarrow> unat (rcv_wnd k') + length (concat (queue s')) = 65528"
    by (simp_all add: up_inv_def room_def add.commute)
  ultimately show ?thesis using f by blast
qed

text \<open>
  A session of a connection to 10.1.8.8 whose application has sent two segments, over a socket that
  takes three bytes first and delivers four.
\<close>

definition tcp_sample :: hev_socks5_session_tcp where
  "tcp_sample = (hev_socks5_session_tcp_zero 1)\<lparr>fd := 7, timeout := 300000, stype := HEV_SOCKS5_TYPE_TCP,
     pcb := True, queue := [[71, 69, 84], [32, 47]],
     buffer := hev_ring_buffer_alloca 4 [0, 0, 0, 0]\<rparr>"

definition stack_sample :: tcp_stack where
  "stack_sample = \<lparr>sched = [[EvRecv [[10]]], [], [EvSent 3]], delivered = [71, 69, 84, 32, 47], rcv_wnd = 65523, written = [], refs = [],
     wmem = [], outs = [], lost = False, fin = False, aborted = False, up_shut = False,
     pool = \<lparr>session_set = three_nodes, session_count = 3, session_timeout = (\<lambda>_. 300000), session_woken = []\<rparr>\<rparr>"

definition tcp_world :: world where
  "tcp_world = quiet\<lparr>rxq := (\<lambda>_. [RData [72, 84, 84, 80]]), txq := (\<lambda>_. [SAccept 3])\<rparr>"

lemma tcp_sample_fresh: "tcp_fresh tcp_sample stack_sample"
  using alloca_spec(1) [of 4 "[0, 0, 0, 0]"]
  by (simp add: tcp_fresh_def tcp_sample_def stack_sample_def hev_socks5_session_tcp_zero_def hev_ring_buffer_alloca_def)

theorem tcp_streams_witness:
  "\<exists>s' k' w'. tcp_splice_f tcp_sample stack_sample tcp_world = (1, s', k', w') \<and>
    wire w' 7 = [71, 69, 84] \<and> concat (queue s') = [32, 47, 10] \<and> unat (rcv_wnd k') + 3 = 65528"
proof -
  obtain s' k' w' where f: "tcp_splice_f tcp_sample stack_sample tcp_world = (1, s', k', w')"
    and v: "wire w' 7 = [71, 69, 84]" "delivered k' = [71, 69, 84, 32, 47, 10]" "pcb s'" "fd s' = 7"
    by (simp add: tcp_splice_f_def sys_writev_def tcp_switch_def tcp_recv_handler_def Let_def
        tcp_sample_def stack_sample_def tcp_world_def quiet_def hev_socks5_session_tcp_zero_def)
  have "rtranclp (tcp_round 0) (1, 1, tcp_sample, stack_sample, tcp_world) (1, 1, s', k', w')"
    using f by (intro r_into_rtranclp tcp_round.forward) simp
  from tcp_streams [OF tcp_sample_fresh this] v f show ?thesis
    by (auto simp: tcp_world_def quiet_def)
qed

end
