(* ===== verification/Socks5_UDP.thy ===== *)
theory Socks5_UDP
  imports Datagram_IO Socks5_Client
begin

text \<open>
  Datagrams through a SOCKS5 server: \<open>core/src/hev-socks5-udp.c\<close>. A datagram travels either as a
  frame in the control connection (UDP in TCP: the sizes of data and header, the address, the data)
  or as a datagram of its own (UDP in UDP: three zero bytes, the address, the data). The relay
  copies batches in both directions until both have failed.
\<close>

section \<open>Messages and slots\<close>

record udp_msg =
  msg_addr :: HevSocks5Addr
  msg_data :: bytes

text \<open>
  A received message is described by pointers into the buffer of its slot: the address (not
  written yet, \<open>NULL\<close>, or an offset), the start of the data, their length.
\<close>

datatype msg_ptr = Unset | Null | At nat

record udp_slot =
  slot_mem :: bytes
  slot_addr :: msg_ptr
  slot_buf :: nat
  slot_len :: u64

definition UDP_BUF_SIZE :: nat where
  "UDP_BUF_SIZE = 1500"

definition udp_task_io_yielder :: "'a hev_socks5_scheme yielder" where
  "udp_task_io_yielder t self w =
     (if stype self = HEV_SOCKS5_TYPE_UDP_IN_UDP then
        let (res, _, w) = sys_recv (fd self) 1 w in
        if res = 0 \<or> (res < 0 \<and> \<not> eagain w) then (-1, hev_socks5_set_timeout self 0, w)
        else hev_socks5_task_io_yielder t self w
      else hev_socks5_task_io_yielder t self w)"

section \<open>Sending\<close>

text \<open>
  The header of a frame: \<open>datlen\<close> in network order and \<open>hdrlen\<close>, both cut to the width of their
  field. The vector has three entries per message; an address of unknown type stops the batch.
\<close>

definition udp_hdr_tcp :: "udp_msg \<Rightarrow> bytes" where
  "udp_hdr_tcp m = mem16 (htons (word_of_nat (length (msg_data m)))) @
     [word_of_int (3 + hev_socks5_addr_len (msg_addr m))]"

definition udp_hdr_udp :: "udp_msg \<Rightarrow> bytes" where
  "udp_hdr_udp m = [0, 0, 0]"

fun udp_vec :: "(udp_msg \<Rightarrow> bytes) \<Rightarrow> udp_msg list \<Rightarrow> bytes list list option" where
  "udp_vec hdr [] = Some []"
| "udp_vec hdr (m # ms) =
     (let addrlen = hev_socks5_addr_len (msg_addr m) in
      if addrlen \<le> 0 then None
      else map_option (\<lambda>v. [hdr m, take (nat addrlen) (msg_addr m), msg_data m] # v) (udp_vec hdr ms))"

definition hev_socks5_udp_sendmmsg_tcp ::
  "('a hev_socks5_scheme \<Rightarrow> int) \<Rightarrow> udp_msg list \<Rightarrow> 'a hev_socks5_scheme \<Rightarrow> world \<Rightarrow>
   int \<times> 'a hev_socks5_scheme \<times> world" where
  "hev_socks5_udp_sendmmsg_tcp get_fd msgv self w =
     (case udp_vec udp_hdr_tcp msgv of
        None \<Rightarrow> (-1, self, w)
      | Some v \<Rightarrow>
          (let (res, self, w) =
             hev_task_io_socket_sendmsg (get_fd self) (concat v) True False udp_task_io_yielder self w
           in if res \<le> 0 then (-1, self, w) else (int (length msgv), self, w)))"

definition hev_socks5_udp_sendmmsg_udp ::
  "('a hev_socks5_scheme \<Rightarrow> int) \<Rightarrow> udp_msg list \<Rightarrow> 'a hev_socks5_scheme \<Rightarrow> world \<Rightarrow>
   int \<times> 'a hev_socks5_scheme \<times> world" where
  "hev_socks5_udp_sendmmsg_udp get_fd msgv self w =
     (case udp_vec udp_hdr_udp msgv of
        None \<Rightarrow> (-1, self, w)
      | Some v \<Rightarrow>
          hev_task_io_socket_sendmmsg (get_fd self) (map (\<lambda>iov. (concat iov, None)) v) True False
            udp_task_io_yielder self w)"

definition hev_socks5_udp_sendmmsg ::
  "('a hev_socks5_scheme \<Rightarrow> int) \<Rightarrow> udp_msg list \<Rightarrow> 'a hev_socks5_scheme \<Rightarrow> world \<Rightarrow>
   int \<times> 'a hev_socks5_scheme \<times> world" where
  "hev_socks5_udp_sendmmsg get_fd msgv self w =
     (case stype self of
        HEV_SOCKS5_TYPE_UDP_IN_TCP \<Rightarrow> hev_socks5_udp_sendmmsg_tcp get_fd msgv self w
      | HEV_SOCKS5_TYPE_UDP_IN_UDP \<Rightarrow> hev_socks5_udp_sendmmsg_udp get_fd msgv self w
      | _ \<Rightarrow> (-1, self, w))"

section \<open>Receiving\<close>

type_synonym 'o recv_step = "'o \<Rightarrow> world \<Rightarrow> int \<times> udp_slot list \<times> 'o \<times> world"

text \<open>
  Frames of the control connection. The first five bytes hold the sizes and the start of the
  address; the rest of the address and the data are read into the buffer behind them.
\<close>

definition udp_recv_head :: "int \<Rightarrow> bool \<Rightarrow> 'a hev_socks5_scheme \<Rightarrow> world \<Rightarrow>
    int \<times> bytes \<times> 'a hev_socks5_scheme \<times> world" where
  "udp_recv_head f nonblock self w =
     (let (res, hd, self, w) = hev_task_io_socket_recv f 5 False nonblock udp_task_io_yielder self w
      in if 0 < res \<and> res < 5 then
           (let (r, more, self, w) =
              hev_task_io_socket_recv f (nat (5 - res)) True False udp_task_io_yielder self w
            in (res + r, hd @ more, self, w))
         else (res, hd, self, w))"

fun udp_recv_frames :: "int \<Rightarrow> bool \<Rightarrow> udp_slot list \<Rightarrow> udp_slot list \<Rightarrow> 'a hev_socks5_scheme recv_step" where
  "udp_recv_frames f nonblock got [] self w = (int (length got), got, self, w)"
| "udp_recv_frames f nonblock got (s # ss) self w =
     (let (res, udp, self, w) = udp_recv_head f nonblock self w in
      if res \<noteq> 5 then (if got \<noteq> [] then int (length got) else res, got @ s # ss, self, w)
      else if unat (udp ! 2) < 5 then (-1, got @ s # ss, self, w)
      else
        let addrlen = unat (udp ! 2) - 3; datlen = be16 (udp ! 0) (udp ! 1) in
        if ucast datlen > slot_len s - word_of_nat addrlen then (-1, got @ s # ss, self, w)
        else
          let (res, data, self, w) =
                hev_task_io_socket_recvmsg f [addrlen - 2, unat datlen] True False udp_task_io_yielder self w;
              mem = patch (slot_buf s + 2) data (slot_mem s)
          in if res \<noteq> int (addrlen - 2 + unat datlen) then (res, got @ s\<lparr>slot_mem := mem\<rparr> # ss, self, w)
             else udp_recv_frames f nonblock
               (got @ [\<lparr>slot_mem = patch (slot_buf s) [udp ! 3, udp ! 4] mem, slot_addr = At (slot_buf s),
                  slot_buf = slot_buf s + addrlen, slot_len = ucast datlen\<rparr>]) ss self w)"

definition hev_socks5_udp_recvmmsg_tcp ::
  "('a hev_socks5_scheme \<Rightarrow> int) \<Rightarrow> udp_slot list \<Rightarrow> bool \<Rightarrow> 'a hev_socks5_scheme recv_step" where
  "hev_socks5_udp_recvmmsg_tcp get_fd msgv nonblock self w = udp_recv_frames (get_fd self) nonblock [] msgv self w"

text \<open>Datagrams: the header is taken off each of them; a datagram of less than four bytes is marked.\<close>

fun udp_parse :: "udp_slot list \<Rightarrow> dgram list \<Rightarrow> (bool \<times> udp_slot list)" where
  "udp_parse [] ds = (True, [])"
| "udp_parse ss [] = (True, ss)"
| "udp_parse (s # ss) (d # ds) =
     (let s = s\<lparr>slot_mem := patch (slot_buf s) (dg_data d) (slot_mem s), slot_len := word_of_nat (length (dg_data d))\<rparr>;
          addrlen = hev_socks5_addr_len (drop (slot_buf s + 3) (slot_mem s))
      in if slot_len s < 4 then
           (let (ok, ss) = udp_parse ss ds in (ok, s\<lparr>slot_addr := Null, slot_len := 0\<rparr> # ss))
         else if addrlen \<le> 0 then (False, s # ss)
         else
           let doff = 3 + nat addrlen in
           if word_of_nat doff > slot_len s then (False, s # ss)
           else
             (let (ok, ss) = udp_parse ss ds
              in (ok, s\<lparr>slot_addr := At (slot_buf s + 3), slot_buf := slot_buf s + doff,
                        slot_len := slot_len s - word_of_nat doff\<rparr> # ss)))"

definition hev_socks5_udp_recvmmsg_udp ::
  "('a hev_socks5_scheme \<Rightarrow> int) \<Rightarrow> udp_slot list \<Rightarrow> bool \<Rightarrow> 'a hev_socks5_scheme recv_step" where
  "hev_socks5_udp_recvmmsg_udp get_fd msgv nonblock self w =
     (let f = get_fd self;
          (res, ds, self, w) = hev_task_io_socket_recvmmsg f (map (unat \<circ> slot_len) msgv) False nonblock
                                 udp_task_io_yielder self w
      in if res \<le> 0 then (res, msgv, self, w)
         else
           let (c, self, w) =
             (if udp_associated self then (0, self, w)
              else let w = w\<lparr>peer := (peer w)(f \<mapsto> dg_peer (hd ds))\<rparr>; (c, w) = sys_call w
                   in (c, if c < 0 then self else self\<lparr>udp_associated := True\<rparr>, w))
           in if c < 0 then (-1, msgv, self, w)
              else let (ok, msgv) = udp_parse msgv ds in (if ok then res else -1, msgv, self, w))"

definition hev_socks5_udp_recvmmsg ::
  "('a hev_socks5_scheme \<Rightarrow> int) \<Rightarrow> udp_slot list \<Rightarrow> bool \<Rightarrow> 'a hev_socks5_scheme recv_step" where
  "hev_socks5_udp_recvmmsg get_fd msgv nonblock self w =
     (case stype self of
        HEV_SOCKS5_TYPE_UDP_IN_TCP \<Rightarrow> hev_socks5_udp_recvmmsg_tcp get_fd msgv nonblock self w
      | HEV_SOCKS5_TYPE_UDP_IN_UDP \<Rightarrow> hev_socks5_udp_recvmmsg_udp get_fd msgv nonblock self w
      | _ \<Rightarrow> (-1, msgv, self, w))"

section \<open>The relay\<close>

text \<open>
  What \<open>fwd_f\<close> makes of the first messages: the data of each with its destination. The outer result
  is \<open>None\<close> when a slot is used that was never filled, the inner one when a message is refused.
\<close>

fun udp_targets :: "net_env \<Rightarrow> int \<Rightarrow> nat \<Rightarrow> udp_slot list \<Rightarrow> (bytes \<times> sockaddr_in6) list option option" where
  "udp_targets env family 0 ss = Some (Some [])"
| "udp_targets env family (Suc n) [] = None"
| "udp_targets env family (Suc n) (s # ss) =
     (if slot_len s = 0 then Some None
      else (case slot_addr s of
              Unset \<Rightarrow> None
            | Null \<Rightarrow> Some None
            | At a \<Rightarrow>
                (let (ret, sa, _) = hev_socks5_addr_into_sockaddr6 env (drop a (slot_mem s)) sockaddr_zero family
                 in if ret < 0 then Some None
                    else map_option (map_option (\<lambda>ts. (bslice (slot_buf s) (unat (slot_len s)) (slot_mem s), sa) # ts))
                           (udp_targets env family n ss))))"

definition fwd_result :: "int \<Rightarrow> world \<Rightarrow> int" where
  "fwd_result res w = (if res \<le> 0 then if res = -1 \<and> eagain w then 0 else -1 else 1)"

type_synonym 'o udp_binder = "int \<Rightarrow> sockaddr_in6 \<Rightarrow> 'o \<Rightarrow> world \<Rightarrow> int \<times> 'o \<times> world"

definition hev_socks5_udp_fwd_f ::
  "net_env \<Rightarrow> ('a hev_socks5_scheme \<Rightarrow> int) \<Rightarrow> 'a hev_socks5_scheme udp_binder \<Rightarrow> int \<Rightarrow> bytes list \<Rightarrow> bool \<Rightarrow>
   'a hev_socks5_scheme \<Rightarrow> world \<Rightarrow> int \<times> bytes list \<times> bool \<times> 'a hev_socks5_scheme \<times> world" where
  "hev_socks5_udp_fwd_f env get_fd binds f bufs bound self w =
     (let svec = map (\<lambda>b. \<lparr>slot_mem = b, slot_addr = Unset, slot_buf = 0, slot_len = word_of_nat UDP_BUF_SIZE\<rparr>) bufs;
          (res, svec, self, w) = hev_socks5_udp_recvmmsg get_fd svec True self w;
          bufs = map slot_mem svec
      in if res > 0 then
           (case udp_targets env (hev_socks5_get_addr_family self) (nat res) svec of
              None \<Rightarrow> (-1, bufs, bound, self, w\<lparr>crashed := True\<rparr>)
            | Some None \<Rightarrow> (-1, bufs, bound, self, w)
            | Some (Some ts) \<Rightarrow>
                (let (ret, self, w) = (if bound then (0, self, w) else binds f (snd (hd ts)) self w)
                 in if ret < 0 then (-1, bufs, bound, self, w)
                    else
                      let (res, self, w) = hev_task_io_socket_sendmmsg f (map (\<lambda>(d, a). (d, Some a)) ts) True False
                                             udp_task_io_yielder self w
                      in (fwd_result res w, bufs, True, self, w)))
         else (fwd_result res w, bufs, bound, self, w))"

definition hev_socks5_udp_fwd_b ::
  "('a hev_socks5_scheme \<Rightarrow> int) \<Rightarrow> int \<Rightarrow> nat \<Rightarrow> 'a hev_socks5_scheme \<Rightarrow> world \<Rightarrow> int \<times> 'a hev_socks5_scheme \<times> world" where
  "hev_socks5_udp_fwd_b get_fd f num self w =
     (let (res, ds, self, w) = hev_task_io_socket_recvmmsg f (replicate num UDP_BUF_SIZE) False True
                                 udp_task_io_yielder self w
      in if res > 0 then
           (let dvec = map (\<lambda>d. \<lparr>msg_addr = snd (hev_socks5_addr_from_sockaddr6 (replicate 19 0) (dg_peer d)),
                                msg_data = dg_data d\<rparr>) ds;
                (res, self, w) = hev_socks5_udp_sendmmsg get_fd dvec self w
            in (fwd_result res w, self, w))
         else (fwd_result res w, self, w))"

partial_function (option) udp_splice_loop ::
  "net_env \<Rightarrow> ('a hev_socks5_scheme \<Rightarrow> int) \<Rightarrow> 'a hev_socks5_scheme udp_binder \<Rightarrow> int \<Rightarrow> nat \<Rightarrow> bytes list \<Rightarrow> bool \<Rightarrow>
   int \<Rightarrow> int \<Rightarrow> 'a hev_socks5_scheme \<Rightarrow> world \<Rightarrow> ('a hev_socks5_scheme \<times> world) option" where
  "udp_splice_loop env get_fd binds f num bufs bound res_f res_b self w =
     (let (res_f, bufs, bound, self, w) =
            (if res_f \<ge> 0 then hev_socks5_udp_fwd_f env get_fd binds f bufs bound self w
             else (res_f, bufs, bound, self, w));
          (res_b, self, w) = (if res_b \<ge> 0 then hev_socks5_udp_fwd_b get_fd f num self w else (res_b, self, w))
      in if \<not> (res_f > 0 \<or> res_b > 0) \<and> (res_f AND res_b) \<noteq> 0 then Some (self, w)
         else
           let (r, self, w) = udp_task_io_yielder
                 (if res_f > 0 \<or> res_b > 0 then HEV_TASK_YIELD else HEV_TASK_WAITIO) self w
           in if r \<noteq> 0 then Some (self, w)
              else udp_splice_loop env get_fd binds f num bufs bound res_f res_b self w)"

text \<open>
  \<open>num\<close> is \<open>hev_socks5_get_udp_copy_buffer_nums ()\<close>; the first half of the block are the buffers of
  \<open>fwd_f\<close>, whose contents the allocator does not set.
\<close>

definition hev_socks5_udp_splicer ::
  "net_env \<Rightarrow> ('a hev_socks5_scheme \<Rightarrow> int) \<Rightarrow> 'a hev_socks5_scheme udp_binder \<Rightarrow> nat \<Rightarrow> int \<Rightarrow>
   'a hev_socks5_scheme \<Rightarrow> world \<Rightarrow> (int \<times> 'a hev_socks5_scheme \<times> world) option" where
  "hev_socks5_udp_splicer env get_fd binds num fd_b self w =
     (let (ok, w) = hev_malloc w in
      if \<not> ok then Some (-1, self, w)
      else
        (case udp_splice_loop env get_fd binds fd_b num (replicate num (replicate UDP_BUF_SIZE 0)) False 1 1 self w of
           None \<Rightarrow> None
         | Some (self, w) \<Rightarrow> Some (0, self, hev_free w)))"

section \<open>Reading frames off a stream\<close>

definition set_rxq :: "int \<Rightarrow> recv_ev list \<Rightarrow> world \<Rightarrow> world" where
  "set_rxq f es w = w\<lparr>rxq := (rxq w)(f := es)\<rparr>"

lemma set_rxq_simps [simp]:
  "rxq (set_rxq f es w) f = es" "set_rxq f es (set_rxq f es' w) = set_rxq f es w"
  by (simp_all add: set_rxq_def)

lemma recv_once_flows:
  assumes "rx_flows (rxq w f)" "rxq w f \<noteq> []" "0 < n"
  shows "\<exists>es k. 0 < k \<and> k \<le> n \<and> k \<le> length (rx_bytes (rxq w f)) \<and> rx_flows es \<and>
    rx_bytes es = drop k (rx_bytes (rxq w f)) \<and>
    hev_task_io_socket_recv f n False dw y self w = (int k, take k (rx_bytes (rxq w f)), self, set_rxq f es w)"
proof -
  from assms(1,2) obtain b es where q: "rxq w f = RData b # es" "b \<noteq> []" "rx_flows es"
    by (cases "rxq w f" rule: list.exhaust; simp add: rx_flows_def split: recv_ev.splits)
  let ?k = "min n (length b)"
  show ?thesis
    using q assms(3)
    by (intro exI [of _ "if ?k < length b then RData (drop ?k b) # es else es"] exI [of _ ?k])
      (auto simp: hev_task_io_socket_recv_def set_rxq_def Let_def)
qed

lemma recv_whole_flows:
  assumes "rx_flows (rxq w f)" "0 < n" "n \<le> length (rx_bytes (rxq w f))"
  shows "\<exists>es. rx_flows es \<and> rx_bytes es = drop n (rx_bytes (rxq w f)) \<and>
    hev_task_io_socket_recv f n True dw y self w = (int n, take n (rx_bytes (rxq w f)), self, set_rxq f es w)"
proof -
  from recv_loop_flows [OF assms(1), of "[]" n y dw self w] assms(2,3) show ?thesis
    by (auto simp: hev_task_io_socket_recv_def set_rxq_def)
qed

lemma udp_head_flows:
  assumes "rx_flows (rxq w f)" "5 \<le> length (rx_bytes (rxq w f))"
  shows "\<exists>es. rx_flows es \<and> rx_bytes es = drop 5 (rx_bytes (rxq w f)) \<and>
    udp_recv_head f nb self w = (5, take 5 (rx_bytes (rxq w f)), self, set_rxq f es w)"
proof -
  have "rxq w f \<noteq> []" using assms(2) by auto
  from recv_once_flows [OF assms(1) this, of 5 nb udp_task_io_yielder self] obtain es k where
    k: "0 < k" "k \<le> 5" "rx_flows es" "rx_bytes es = drop k (rx_bytes (rxq w f))"
      "hev_task_io_socket_recv f 5 False nb udp_task_io_yielder self w =
        (int k, take k (rx_bytes (rxq w f)), self, set_rxq f es w)" by auto
  show ?thesis
  proof (cases "k = 5")
    case True
    with k show ?thesis by (auto simp: udp_recv_head_def)
  next
    case False
    with k(2,4) assms(2) have "0 < 5 - k" "5 - k \<le> length (rx_bytes (rxq (set_rxq f es w) f))" by auto
    from recv_whole_flows [OF _ this, of False udp_task_io_yielder self] k(3) obtain es' where
      r: "rx_flows es'" "rx_bytes es' = drop (5 - k) (rx_bytes es)"
        "hev_task_io_socket_recv f (5 - k) True False udp_task_io_yielder self (set_rxq f es w) =
          (int (5 - k), take (5 - k) (rx_bytes es), self, set_rxq f es' w)" by auto
    have "nat (5 - int k) = 5 - k" "int k < 5" using k(2) False by auto
    moreover have "take k (rx_bytes (rxq w f)) @ take (5 - k) (rx_bytes es) = take 5 (rx_bytes (rxq w f))"
      using k(2,4) by (metis le_add_diff_inverse take_add)
    ultimately show ?thesis
      using k r False by (intro exI [of _ es']) (auto simp: udp_recv_head_def)
  qed
qed

section \<open>Frames and datagrams\<close>

definition frame :: "(udp_msg \<Rightarrow> bytes) \<Rightarrow> udp_msg \<Rightarrow> bytes" where
  "frame hdr m = hdr m @ take (nat (hev_socks5_addr_len (msg_addr m))) (msg_addr m) @ msg_data m"

text \<open>A message whose header and data fit: the header into its size byte, both into a buffer.\<close>

definition fits_slot :: "udp_msg \<Rightarrow> bool" where
  "fits_slot m \<longleftrightarrow>
     (let n = hev_socks5_addr_len (msg_addr m)
      in 0 < n \<and> n \<le> 252 \<and> nat n \<le> length (msg_addr m) \<and> nat n + 3 + length (msg_data m) \<le> UDP_BUF_SIZE)"

definition fresh_slot :: "udp_slot \<Rightarrow> bool" where
  "fresh_slot s \<longleftrightarrow> slot_buf s = 0 \<and> slot_len s = word_of_nat UDP_BUF_SIZE \<and> length (slot_mem s) = UDP_BUF_SIZE"

definition delivers :: "udp_slot \<Rightarrow> udp_msg \<Rightarrow> bool" where
  "delivers s m \<longleftrightarrow>
     (let n = nat (hev_socks5_addr_len (msg_addr m))
      in \<exists>a. slot_addr s = At a \<and> bslice a n (slot_mem s) = take n (msg_addr m) \<and>
        unat (slot_len s) = length (msg_data m) \<and>
        bslice (slot_buf s) (unat (slot_len s)) (slot_mem s) = msg_data m)"

lemma addr_len_cases: "hev_socks5_addr_len a \<in> {-1, 7, 19} \<or> (\<exists>n. hev_socks5_addr_len a = 4 + int n \<and> n < 256)"
  by (auto simp: hev_socks5_addr_len_def domain_len_def intro: exI [of _ "unat (a ! 1)"])

lemma udp_vec_ok: "\<forall>m \<in> set ms. 0 < hev_socks5_addr_len (msg_addr m) \<Longrightarrow>
  \<exists>v. udp_vec hdr ms = Some v \<and> map concat v = map (frame hdr) ms"
  by (induction ms) (auto simp: Let_def frame_def)

lemma udp_vec_bad: "\<exists>m \<in> set ms. hev_socks5_addr_len (msg_addr m) \<le> 0 \<Longrightarrow> udp_vec hdr ms = None"
  by (induction ms) (auto simp: Let_def)

lemma frame_split:
  assumes "fits_slot m"
  obtains n a0 a1 a where "hev_socks5_addr_len (msg_addr m) = int n" "4 \<le> n" "n \<le> 252"
    "take n (msg_addr m) = a0 # a1 # a" "length a = n - 2" "n + 3 + length (msg_data m) \<le> UDP_BUF_SIZE"
    "frame udp_hdr_tcp m = [hi8 (word_of_nat (length (msg_data m))), lo8 (word_of_nat (length (msg_data m))),
       word_of_nat (3 + n), a0, a1] @ a @ msg_data m"
proof -
  define n where "n = nat (hev_socks5_addr_len (msg_addr m))"
  from assms have n: "hev_socks5_addr_len (msg_addr m) = int n" "4 \<le> n" "n \<le> 252" "n \<le> length (msg_addr m)"
    "n + 3 + length (msg_data m) \<le> UDP_BUF_SIZE"
    using addr_len_cases [of "msg_addr m"] by (auto simp: fits_slot_def Let_def n_def)
  then have l: "length (take n (msg_addr m)) = n" by simp
  then obtain a0 a1 a where a: "take n (msg_addr m) = a0 # a1 # a" "length a = n - 2"
    using n(2) by (cases "take n (msg_addr m)"; cases "tl (take n (msg_addr m))") auto
  show thesis
    using n a by (intro that [of n a0 a1 a]) (auto simp: frame_def udp_hdr_tcp_def)
qed

lemma unat_datlen: "n < 65536 \<Longrightarrow> unat (ucast (word_of_nat n :: u16) :: u64) = n"
  by (simp add: unsigned_ucast_eq unat_of_nat take_bit_nat_eq_self)

lemma slot_delivers:
  assumes a: "take n (msg_addr m) = a0 # a1 # a" "length a = n - 2" "4 \<le> n"
    and n: "hev_socks5_addr_len (msg_addr m) = int n"
    and mem: "off + n + length (msg_data m) \<le> length mem" "length (msg_data m) < 65536"
  shows "delivers \<lparr>slot_mem = patch off [a0, a1] (patch (off + 2) (a @ msg_data m) mem), slot_addr = At off,
    slot_buf = off + n, slot_len = ucast (word_of_nat (length (msg_data m)) :: u16)\<rparr> m"
proof -
  have nn: "n = Suc (Suc (length a))" using a(2,3) by simp
  have "patch off [a0, a1] (patch (off + 2) (a @ msg_data m) mem) = patch off (a0 # a1 # a @ msg_data m) mem"
    using mem(1) by (simp add: patch_def nn)
  moreover have "bslice off n (patch off (a0 # a1 # a @ msg_data m) mem) = a0 # a1 # a"
    using mem(1) by (simp add: bslice_def nn)
  moreover have "bslice (off + n) (length (msg_data m)) (patch off (a0 # a1 # a @ msg_data m) mem) = msg_data m"
    using mem(1) by (simp add: bslice_def patch_def nn)
  moreover have "unat (ucast (word_of_nat (length (msg_data m)) :: u16) :: u64) = length (msg_data m)"
    using mem(2) by (rule unat_datlen)
  ultimately show ?thesis using a n by (simp add: delivers_def Let_def)
qed

lemma udp_frame_step:
  assumes m: "fits_slot m" and s: "fresh_slot s" and rx: "rx_flows (rxq w f)"
    "rx_bytes (rxq w f) = frame udp_hdr_tcp m @ rest"
  shows "\<exists>es s'. rx_flows es \<and> rx_bytes es = rest \<and> delivers s' m \<and>
    udp_recv_frames f nb got (s # ss) self w = udp_recv_frames f nb (got @ [s']) ss self (set_rxq f es w)"
proof -
  let ?d = "msg_data m"
  let ?l = "word_of_nat (length ?d) :: u16"
  from m obtain n a0 a1 a where f: "hev_socks5_addr_len (msg_addr m) = int n" "4 \<le> n" "n \<le> 252"
    "take n (msg_addr m) = a0 # a1 # a" "length a = n - 2" "n + 3 + length ?d \<le> UDP_BUF_SIZE"
    "frame udp_hdr_tcp m = [hi8 ?l, lo8 ?l, word_of_nat (3 + n), a0, a1] @ a @ ?d" by (rule frame_split)
  let ?h = "[hi8 ?l, lo8 ?l, word_of_nat (3 + n), a0, a1]"
  have h: "take 5 (rx_bytes (rxq w f)) = ?h" "drop 5 (rx_bytes (rxq w f)) = (a @ ?d) @ rest"
    "5 \<le> length (rx_bytes (rxq w f))" using rx(2) f(7) by simp_all
  from udp_head_flows [OF rx(1) h(3)] h obtain es where
    e: "rx_flows es" "rx_bytes es = (a @ ?d) @ rest" "udp_recv_head f nb self w = (5, ?h, self, set_rxq f es w)" by auto
  have k: "n - 2 + length ?d = length (a @ ?d)" "0 < n - 2 + length ?d" using f(2,5) by simp_all
  from recv_whole_flows [of "set_rxq f es w" f "n - 2 + length ?d" False udp_task_io_yielder self] e(1,2) k obtain es' where
    r: "rx_flows es'" "rx_bytes es' = rest"
      "hev_task_io_socket_recvmsg f [n - 2, length ?d] True False udp_task_io_yielder self (set_rxq f es w) =
        (int (n - 2 + length ?d), a @ ?d, self, set_rxq f es' w)"
    by (auto simp: recvmsg_eq_recv)
  have "unat (word_of_nat (3 + n) :: u8) = 3 + n" using f(3) by (intro unat_of_nat_small) simp
  moreover have "?h ! 2 = word_of_nat (3 + n)" by simp
  ultimately have w2: "unat (?h ! 2) = 3 + n" by metis
  have w: "be16 (?h ! 0) (?h ! 1) = ?l" "unat ?l = length ?d" "?h ! 3 = a0" "?h ! 4 = a1"
    using f(3,6) by (simp_all add: unat_of_nat UDP_BUF_SIZE_def nth_Cons')
  have u: "unat (ucast ?l :: u64) = length ?d" "unat (slot_len s - word_of_nat n) = UDP_BUF_SIZE - n"
    using s f(3,6) by (simp_all add: fresh_slot_def unat_datlen unat_of_nat UDP_BUF_SIZE_def unat_sub_no_underflow)
  then have room: "\<not> ucast ?l > slot_len s - word_of_nat n" using f(6) by (simp add: word_less_nat_alt)
  let ?s = "\<lparr>slot_mem = patch 0 [a0, a1] (patch 2 (a @ ?d) (slot_mem s)), slot_addr = At 0, slot_buf = n, slot_len = ucast ?l\<rparr>"
  have "delivers ?s m"
    using slot_delivers [OF f(4,5,2,1), of 0 "slot_mem s"] s f(6)
    by (simp add: fresh_slot_def UDP_BUF_SIZE_def numeral_2_eq_2)
  moreover have "udp_recv_frames f nb got (s # ss) self w =
      udp_recv_frames f nb (got @ [?s]) ss self (set_rxq f es' w)"
    using s room r(3) w f(2) unfolding udp_recv_frames.simps e(3) Let_def split_conv w2
    by (simp add: fresh_slot_def numeral_2_eq_2 del: of_nat_add)
  ultimately show ?thesis using r(1,2) by blast
qed

lemma udp_frames_batch:
  assumes "\<forall>m \<in> set ms. fits_slot m" "\<forall>s \<in> set slots. fresh_slot s" "length slots = length ms"
    "rx_flows (rxq w f)" "rx_bytes (rxq w f) = concat (map (frame udp_hdr_tcp) ms) @ rest"
  shows "\<exists>es ss. rx_flows es \<and> rx_bytes es = rest \<and> list_all2 delivers ss ms \<and>
    udp_recv_frames f nb got slots self w = (int (length got + length ms), got @ ss, self, set_rxq f es w)"
  using assms
proof (induction ms arbitrary: got slots w)
  case Nil
  then show ?case by (intro exI [of _ "rxq w f"] exI [of _ "[]"]) (simp add: set_rxq_def)
next
  case (Cons m ms)
  then obtain s slots' where sl: "slots = s # slots'" by (cases slots) auto
  have "rx_bytes (rxq w f) = frame udp_hdr_tcp m @ (concat (map (frame udp_hdr_tcp) ms) @ rest)"
    using Cons.prems(5) by simp
  from udp_frame_step [OF _ _ Cons.prems(4) this, of s nb got slots' self] Cons.prems(1,2) sl obtain es s' where
    st: "rx_flows es" "rx_bytes es = concat (map (frame udp_hdr_tcp) ms) @ rest" "delivers s' m"
      "udp_recv_frames f nb got slots self w = udp_recv_frames f nb (got @ [s']) slots' self (set_rxq f es w)" by auto
  from Cons.IH [of slots' "set_rxq f es w" "got @ [s']"] Cons.prems(1-3) sl st(1,2) obtain es' ss where
    "rx_flows es'" "rx_bytes es' = rest" "list_all2 delivers ss ms"
    "udp_recv_frames f nb (got @ [s']) slots' self (set_rxq f es w) =
      (int (length (got @ [s']) + length ms), (got @ [s']) @ ss, self, set_rxq f es' w)" by auto
  with st(3,4) show ?case by (intro exI [of _ es'] exI [of _ "s' # ss"]) simp
qed

lemma sendmmsg_tcp_wire:
  assumes "tx_flows (txq w (get_fd self))" "ms \<noteq> []" "\<forall>m \<in> set ms. 0 < hev_socks5_addr_len (msg_addr m)"
  shows "\<exists>es. hev_socks5_udp_sendmmsg_tcp get_fd ms self w = (int (length ms), self,
    w\<lparr>txq := (txq w)(get_fd self := es),
      wire := (wire w)(get_fd self := wire w (get_fd self) @ concat (map (frame udp_hdr_tcp) ms))\<rparr>)"
proof -
  from udp_vec_ok [OF assms(3)] obtain v where v: "udp_vec udp_hdr_tcp ms = Some v" "map concat v = map (frame udp_hdr_tcp) ms"
    by blast
  have "concat (concat v) = concat (map concat v)" by (induction v) auto
  then have c: "concat (concat v) = concat (map (frame udp_hdr_tcp) ms)" by (simp only: v(2))
  moreover have "concat (map (frame udp_hdr_tcp) ms) \<noteq> []"
    using assms(2) by (cases ms) (auto simp: frame_def udp_hdr_tcp_def)
  ultimately obtain es where "hev_task_io_socket_send (get_fd self) (concat (concat v)) True False udp_task_io_yielder self w =
    (int (length (concat (concat v))), self, w\<lparr>txq := (txq w)(get_fd self := es),
      wire := (wire w)(get_fd self := wire w (get_fd self) @ concat (concat v))\<rparr>)"
    using assms(1) by (metis send_flows)
  with v(1) c assms(2) \<open>concat (map (frame udp_hdr_tcp) ms) \<noteq> []\<close> show ?thesis
    by (auto simp: hev_socks5_udp_sendmmsg_tcp_def sendmsg_eq_send)
qed

section \<open>Properties\<close>

text \<open>
  C22: UDP in TCP, for messages that fit: the address takes at most 252 bytes (IPv4, IPv6, or a name of
  at most 248 bytes; for longer ones the size byte of the header wraps around) and header, address
  and data together at most the 1500 bytes of a receive buffer. The frames that
  \<open>hev_socks5_udp_sendmmsg\<close> writes into a control connection that takes them are then read back by
  \<open>hev_socks5_udp_recvmmsg\<close>, into as many fresh buffers, as the same batch, address and data of every
  message, however the stream is cut into segments on the way, and what follows them is left in the
  stream. The reader finds the frames there: it does not wait in between.
\<close>
theorem udp_tcp_roundtrip:
  assumes send: "stype self = HEV_SOCKS5_TYPE_UDP_IN_TCP" "tx_flows (txq w (get_fd self))"
      "hev_socks5_udp_sendmmsg get_fd ms self w = (r, self', w')"
    and ms: "ms \<noteq> []" "\<forall>m \<in> set ms. fits_slot m"
    and recv: "stype other = HEV_SOCKS5_TYPE_UDP_IN_TCP" "rx_flows (rxq v (get_fd other))"
      "wire w (get_fd self) @ rx_bytes (rxq v (get_fd other)) = wire w' (get_fd self) @ rest"
    and slots: "length slots = length ms" "\<forall>s \<in> set slots. fresh_slot s"
  shows "r = int (length ms) \<and> (\<exists>ss v'. hev_socks5_udp_recvmmsg get_fd slots nonblock other v =
      (int (length ms), ss, other, v') \<and> list_all2 delivers ss ms \<and> rx_bytes (rxq v' (get_fd other)) = rest)"
proof -
  have "\<forall>m \<in> set ms. 0 < hev_socks5_addr_len (msg_addr m)" using ms(2) by (auto simp: fits_slot_def Let_def)
  from sendmmsg_tcp_wire [where get_fd = get_fd and self = self and w = w, OF send(2) ms(1) this] send(1,3) have s: "r = int (length ms)"
    "wire w' (get_fd self) = wire w (get_fd self) @ concat (map (frame udp_hdr_tcp) ms)"
    by (auto simp: hev_socks5_udp_sendmmsg_def)
  then have "rx_bytes (rxq v (get_fd other)) = concat (map (frame udp_hdr_tcp) ms) @ rest" using recv(3) by simp
  from udp_frames_batch [OF ms(2) slots(2,1) recv(2) this, of nonblock "[]" other] s(1) recv(1) show ?thesis
    by (auto simp: hev_socks5_udp_recvmmsg_def hev_socks5_udp_recvmmsg_tcp_def)
qed

lemma addr_len_prefix: "2 \<le> n \<Longrightarrow> n \<le> length a \<Longrightarrow> hev_socks5_addr_len (take n a @ t) = hev_socks5_addr_len a"
  by (simp add: hev_socks5_addr_len_def atype_def domain_len_def nth_append)

lemma udp_parse_step:
  assumes m: "fits_slot m" and s: "fresh_slot s" and d: "dg_data d = frame udp_hdr_udp m"
  shows "\<exists>s'. delivers s' m \<and> udp_parse (s # ss) (d # ds) = (let (ok, ss) = udp_parse ss ds in (ok, s' # ss))"
proof -
  define n where "n = nat (hev_socks5_addr_len (msg_addr m))"
  from m have n: "hev_socks5_addr_len (msg_addr m) = int n" "4 \<le> n" "n \<le> length (msg_addr m)"
    "n + 3 + length (msg_data m) \<le> UDP_BUF_SIZE"
    using addr_len_cases [of "msg_addr m"] by (auto simp: fits_slot_def Let_def n_def)
  have dd: "dg_data d = [0, 0, 0] @ take n (msg_addr m) @ msg_data m" using d n(1) by (simp add: frame_def udp_hdr_udp_def)
  define mem where "mem = patch 0 (dg_data d) (slot_mem s)"
  let ?t = "drop (length (dg_data d)) (slot_mem s)"
  have mem: "mem = [0, 0, 0] @ take n (msg_addr m) @ msg_data m @ ?t" by (simp add: mem_def patch_def dd)
  have len: "length (dg_data d) = 3 + n + length (msg_data m)" using n(3) by (simp add: dd)
  have a: "hev_socks5_addr_len (drop 3 mem) = int n"
    using addr_len_prefix [of n "msg_addr m" "msg_data m @ ?t"] n by (simp add: mem)
  let ?s = "s\<lparr>slot_mem := mem, slot_addr := At 3, slot_buf := 3 + n,
      slot_len := word_of_nat (length (dg_data d)) - word_of_nat (3 + n)\<rparr>"
  have small: "unat (word_of_nat k :: u64) = k" if "k \<le> UDP_BUF_SIZE" for k
    using that by (intro unat_of_nat_small) (simp add: UDP_BUF_SIZE_def)
  have u: "unat (word_of_nat (length (dg_data d)) :: u64) = 3 + n + length (msg_data m)" "unat (word_of_nat (3 + n) :: u64) = 3 + n"
    using small [of "length (dg_data d)"] small [of "3 + n"] n(4) len by linarith+
  then have l: "unat (word_of_nat (length (dg_data d)) - word_of_nat (3 + n) :: u64) = length (msg_data m)"
    by (simp add: unat_sub_no_underflow)
  have "delivers ?s m"
    unfolding delivers_def Let_def using n(1,3) l by (intro exI [of _ 3]) (simp add: mem bslice_def numeral_3_eq_3)
  moreover have "\<not> (word_of_nat (length (dg_data d)) :: u64) < 4" "\<not> word_of_nat (3 + n) > (word_of_nat (length (dg_data d)) :: u64)"
    using u n(2) by (simp_all only: word_less_nat_alt) simp_all
  ultimately show ?thesis using s a n(2) by (intro exI [of _ ?s]) (simp add: fresh_slot_def Let_def mem_def del: of_nat_add)
qed

lemma udp_parse_batch:
  "\<forall>m \<in> set ms. fits_slot m \<Longrightarrow> \<forall>s \<in> set slots. fresh_slot s \<Longrightarrow> length ms \<le> length slots \<Longrightarrow>
   map dg_data ds = map (frame udp_hdr_udp) ms \<Longrightarrow>
   \<exists>ss. udp_parse slots ds = (True, ss @ drop (length ms) slots) \<and> list_all2 delivers ss ms"
proof (induction ms arbitrary: slots ds)
  case Nil
  then show ?case by (cases slots) auto
next
  case (Cons m ms)
  then obtain s slots' d ds' where sl: "slots = s # slots'" "ds = d # ds'" "dg_data d = frame udp_hdr_udp m"
    by (cases slots; cases ds) auto
  from udp_parse_step [OF _ _ sl(3), of s slots' ds'] Cons.prems(1,2) sl(1) obtain s' where
    s': "delivers s' m" "udp_parse slots ds = (let (ok, ss) = udp_parse slots' ds' in (ok, s' # ss))" by (auto simp: sl)
  from Cons.IH [of slots' ds'] Cons.prems sl obtain ss where
    "udp_parse slots' ds' = (True, ss @ drop (length ms) slots')" "list_all2 delivers ss ms" by auto
  with s' sl(1) show ?case by (intro exI [of _ "s' # ss"]) simp
qed

lemma sendmmsg_udp_sent:
  assumes "tx_flows (txq w (get_fd self))" "ms \<noteq> []" "\<forall>m \<in> set ms. 0 < hev_socks5_addr_len (msg_addr m)"
  shows "\<exists>es. hev_socks5_udp_sendmmsg_udp get_fd ms self w = (int (length ms), self,
    w\<lparr>txq := (txq w)(get_fd self := es),
      sent := (sent w)(get_fd self := sent w (get_fd self) @ map (\<lambda>m. (frame udp_hdr_udp m, None)) ms)\<rparr>)"
proof -
  from udp_vec_ok [OF assms(3)] obtain v where v: "udp_vec udp_hdr_udp ms = Some v" "map concat v = map (frame udp_hdr_udp) ms"
    by blast
  have "map (\<lambda>iov. (concat iov, None :: sockaddr_in6 option)) v = map (\<lambda>x. (x, None)) (map concat v)" by simp
  then have "map (\<lambda>iov. (concat iov, None)) v = map (\<lambda>m. (frame udp_hdr_udp m, None :: sockaddr_in6 option)) ms"
    unfolding v(2) by simp
  moreover have "length v = length ms" using arg_cong [OF v(2), of length] by simp
  moreover have "0 < length ms" using assms(2) by simp
  from sendmmsg_flows [OF assms(1) this, of udp_task_io_yielder False self w] obtain es where
    "sendmmsg_loop udp_task_io_yielder True False (length ms) 0 (txq w (get_fd self)) self w =
      ((int (length ms), length ms), es, self, w)" by blast
  ultimately show ?thesis
    using v(1) by (intro exI [of _ es]) (simp add: hev_socks5_udp_sendmmsg_udp_def hev_task_io_socket_sendmmsg_def)
qed

text \<open>
  C35: UDP in UDP, for messages that fit (an address of at most 252 bytes, and at most 1500 bytes with
  the header, the size of a receive buffer; a larger datagram is cut off by the receive call): every
  datagram that \<open>hev_socks5_udp_sendmmsg\<close> sends carries one message, and when the batch arrives as it
  was sent, in one call, at a socket that is already associated with its peer,
  \<open>hev_socks5_udp_recvmmsg\<close> finds the same addresses and data in it.
\<close>
theorem udp_udp_roundtrip:
  assumes send: "stype self = HEV_SOCKS5_TYPE_UDP_IN_UDP" "tx_flows (txq w (get_fd self))"
      "hev_socks5_udp_sendmmsg get_fd ms self w = (r, self', w')"
    and ms: "ms \<noteq> []" "\<forall>m \<in> set ms. fits_slot m"
    and recv: "stype other = HEV_SOCKS5_TYPE_UDP_IN_UDP" "udp_associated other" "dgq v (get_fd other) = [DMsgs ds]"
      "sent w' (get_fd self) = sent w (get_fd self) @ map (\<lambda>d. (dg_data d, None)) ds"
    and slots: "length slots = length ms" "\<forall>s \<in> set slots. fresh_slot s"
  shows "r = int (length ms) \<and> (\<exists>ss v'. hev_socks5_udp_recvmmsg get_fd slots nonblock other v =
      (int (length ms), ss, other, v') \<and> list_all2 delivers ss ms)"
proof -
  have pos: "\<forall>m \<in> set ms. 0 < hev_socks5_addr_len (msg_addr m)" using ms(2) by (auto simp: fits_slot_def Let_def)
  from sendmmsg_udp_sent [where get_fd = get_fd and self = self and w = w, OF send(2) ms(1) pos] send(1,3) recv(4)
  have s: "r = int (length ms)" "map (\<lambda>d. (dg_data d, None :: sockaddr_in6 option)) ds = map (\<lambda>m. (frame udp_hdr_udp m, None)) ms"
    by (auto simp: hev_socks5_udp_sendmmsg_def)
  from arg_cong [OF s(2), of "map fst"] have d: "map dg_data ds = map (frame udp_hdr_udp) ms" by (simp add: comp_def)
  then have l: "length ds = length ms" "length slots = length ds" using map_eq_imp_length_eq [OF d] slots(1) by simp_all
  let ?cut = "map2 (\<lambda>n d. d\<lparr>dg_data := take n (dg_data d)\<rparr>) (map (unat \<circ> slot_len) slots) ds"
  have "?cut = ds"
  proof (rule nth_equalityI)
    fix i assume "i < length ?cut"
    then have i: "i < length ms" using l by simp
    then have "fits_slot (ms ! i)" "fresh_slot (slots ! i)" "dg_data (ds ! i) = frame udp_hdr_udp (ms ! i)"
      using ms(2) slots l arg_cong [OF d, of "\<lambda>x. x ! i"] by auto
    then have "length (dg_data (ds ! i)) \<le> unat (slot_len (slots ! i))"
      by (auto simp: fits_slot_def fresh_slot_def frame_def udp_hdr_udp_def Let_def UDP_BUF_SIZE_def)
    then show "?cut ! i = ds ! i" using i l by simp
  qed (use l in simp)
  moreover obtain ss where "udp_parse slots ds = (True, ss)" "list_all2 delivers ss ms"
    using udp_parse_batch [OF ms(2) slots(2) _ d] slots(1) by auto
  moreover have "ds \<noteq> []" using l ms(1) by auto
  ultimately show ?thesis
    using s(1) l recv(1-3) ms(1)
    by (auto simp: hev_socks5_udp_recvmmsg_def hev_socks5_udp_recvmmsg_udp_def hev_task_io_socket_recvmmsg_def)
qed

lemma udp_head_short:
  assumes "fits_slot m" "fresh_slot s" "rx_flows (rxq w f)" "rx_bytes (rxq w f) = take k (frame udp_hdr_tcp m)"
    "5 < k" "k < length (frame udp_hdr_tcp m)"
  shows "\<exists>w' mem. udp_recv_frames f nb [] (s # ss) self w = (int (k - 5), s\<lparr>slot_mem := mem\<rparr> # ss, self, w')"
proof -
  let ?d = "msg_data m"
  let ?l = "word_of_nat (length ?d) :: u16"
  from assms(1) obtain n a0 a1 a where f: "hev_socks5_addr_len (msg_addr m) = int n" "4 \<le> n" "n \<le> 252"
    "length a = n - 2" "n + 3 + length ?d \<le> UDP_BUF_SIZE"
    "frame udp_hdr_tcp m = [hi8 ?l, lo8 ?l, word_of_nat (3 + n), a0, a1] @ a @ ?d" by (rule frame_split)
  let ?h = "[hi8 ?l, lo8 ?l, word_of_nat (3 + n), a0, a1]"
  have k: "k - 5 < n - 2 + length ?d" using assms(6) f(2,4,6) by simp
  have "take k ?h = ?h" "length ?h = 5" using assms(5) by (simp_all only: take_all list.size)
  then have h: "rx_bytes (rxq w f) = ?h @ take (k - 5) (a @ ?d)"
    unfolding assms(4) f(6) by (metis take_append)
  then have h5: "5 \<le> length (rx_bytes (rxq w f))" "take 5 (rx_bytes (rxq w f)) = ?h"
    "drop 5 (rx_bytes (rxq w f)) = take (k - 5) (a @ ?d)" by simp_all
  from udp_head_flows [OF assms(3) h5(1)] h5 obtain es where
    e: "rx_flows es" "rx_bytes es = take (k - 5) (a @ ?d)" "udp_recv_head f nb self w = (5, ?h, self, set_rxq f es w)" by auto
  have len: "length (rx_bytes es) = k - 5" using e(2) k f(2,4) by simp
  have "0 < n - 2 + length ?d" using f(2) by simp
  with recv_loop_flows [OF e(1), of "[]" "n - 2 + length ?d" udp_task_io_yielder False self "set_rxq f es w"] k len obtain es' where
    "recv_loop udp_task_io_yielder True False (n - 2 + length ?d) [] es self (set_rxq f es w) =
      ((int (k - 5), rx_bytes es), es', self, set_rxq f es w)" by auto
  then have r: "hev_task_io_socket_recvmsg f [n - 2, length ?d] True False udp_task_io_yielder self (set_rxq f es w) =
      (int (k - 5), rx_bytes es, self, set_rxq f es' w)"
    by (simp add: recvmsg_eq_recv hev_task_io_socket_recv_def) (simp add: set_rxq_def)
  have "unat (word_of_nat (3 + n) :: u8) = 3 + n" using f(3) by (intro unat_of_nat_small) simp
  moreover have "?h ! 2 = word_of_nat (3 + n)" by simp
  ultimately have w2: "unat (?h ! 2) = 3 + n" by metis
  have w: "be16 (?h ! 0) (?h ! 1) = ?l" "unat ?l = length ?d"
    using f(3,5) by (simp_all add: unat_of_nat UDP_BUF_SIZE_def)
  have u: "unat (ucast ?l :: u64) = length ?d" "unat (slot_len s - word_of_nat n) = UDP_BUF_SIZE - n"
    using assms(2) f(3,5) by (simp_all add: fresh_slot_def unat_datlen unat_of_nat UDP_BUF_SIZE_def unat_sub_no_underflow)
  then have room: "\<not> ucast ?l > slot_len s - word_of_nat n" using f(5) by (simp add: word_less_nat_alt)
  have "int (k - 5) \<noteq> int (n - 2 + length ?d)" using k by simp
  with room r w f(2) show ?thesis unfolding udp_recv_frames.simps e(3) Let_def split_conv w2
    by (simp del: of_nat_add of_nat_diff) blast
qed

text \<open>
  C36: A frame that is cut short by the end of the connection: \<open>recvmmsg\<close> returns the number of bytes it
  has read where its callers expect the number of messages. The forwarding step takes it for a
  batch and follows the address pointer of a slot that was never filled.
\<close>
theorem udp_short_frame:
  assumes "stype self = HEV_SOCKS5_TYPE_UDP_IN_TCP" "fits_slot m"
    "rx_flows (rxq w (get_fd self))" "rx_bytes (rxq w (get_fd self)) = take k (frame udp_hdr_tcp m)"
    "5 < k" "k < length (frame udp_hdr_tcp m)" "length buf = UDP_BUF_SIZE"
  shows "\<exists>bufs' w'. hev_socks5_udp_fwd_f env get_fd binds f (buf # bufs) bound self w = (-1, bufs', bound, self, w') \<and>
    crashed w'"
proof -
  let ?slot = "\<lambda>b. \<lparr>slot_mem = b, slot_addr = Unset, slot_buf = 0, slot_len = word_of_nat UDP_BUF_SIZE\<rparr>"
  have "fresh_slot (?slot buf)" using assms(7) by (simp add: fresh_slot_def)
  from udp_head_short [OF assms(2) this assms(3-6), of True "map ?slot bufs" self] assms(1) obtain w' mem where
    r: "hev_socks5_udp_recvmmsg get_fd (map ?slot (buf # bufs)) True self w =
      (int (k - 5), ?slot mem # map ?slot bufs, self, w')"
    by (auto simp: hev_socks5_udp_recvmmsg_def hev_socks5_udp_recvmmsg_tcp_def)
  have "word_of_nat UDP_BUF_SIZE \<noteq> (0 :: u64)" by (simp add: UDP_BUF_SIZE_def)
  moreover obtain j where j: "k = 6 + j" using assms(5) le_iff_add [of 6 k] by auto
  ultimately have t: "udp_targets env g (k - 5) (?slot mem # map ?slot bufs) = None" for g by simp
  have "0 < k - 5" using assms(5) by simp
  then show ?thesis unfolding hev_socks5_udp_fwd_f_def Let_def r by (simp add: t del: of_nat_diff)
qed

text \<open>
  A name of 249 to 253 bytes, which DNS allows, makes the header longer than its size byte can say.
  The frame is sent all the same, with a size that has wrapped around; the receiver refuses it and
  is left in the middle of the stream.
\<close>
theorem udp_long_name_frame:
  assumes "stype self = HEV_SOCKS5_TYPE_UDP_IN_TCP" "tx_flows (txq w (get_fd self))"
    "msg_addr m = encode_ep (EpName name port)" "249 \<le> length name" "length name \<le> 253"
    "stype other = HEV_SOCKS5_TYPE_UDP_IN_TCP" "rx_flows (rxq v (get_fd other))"
    "rx_bytes (rxq v (get_fd other)) = frame udp_hdr_tcp m @ rest"
  shows "(\<exists>w'. hev_socks5_udp_sendmmsg get_fd [m] self w = (1, self, w') \<and>
      wire w' (get_fd self) = wire w (get_fd self) @ frame udp_hdr_tcp m) \<and>
    (\<exists>v'. hev_socks5_udp_recvmmsg get_fd (s # ss) nonblock other v = (-1, s # ss, other, v'))"
proof -
  have l: "hev_socks5_addr_len (msg_addr m) = int (4 + length name)"
    using addr_len_encode [of "EpName name port" "[]"] assms(3,5) by simp
  have "unat (word_of_nat (7 + length name) :: u8) = length name - 249"
    using assms(4,5) by (simp only: unat_of_nat) (simp add: mod_if)
  moreover have "3 + int (4 + length name) = int (7 + length name)" by simp
  ultimately have h: "unat (word_of_int (3 + int (4 + length name)) :: u8) < 5"
    using assms(4,5) by (simp only: of_int_of_nat_eq)
  let ?f = "frame udp_hdr_tcp m"
  have f: "5 \<le> length (?f @ rest)" "take 5 (?f @ rest) ! 2 = word_of_int (3 + int (4 + length name))"
    using assms(3) l by (simp_all add: frame_def udp_hdr_tcp_def del: of_nat_add)
  from udp_head_flows [OF assms(7), of nonblock other] f(1) assms(8) obtain es where
    "udp_recv_head (get_fd other) nonblock other v = (5, take 5 (?f @ rest), other, set_rxq (get_fd other) es v)" by auto
  with f(2) h assms(6) have "hev_socks5_udp_recvmmsg get_fd (s # ss) nonblock other v =
    (-1, s # ss, other, set_rxq (get_fd other) es v)"
    by (simp add: hev_socks5_udp_recvmmsg_def hev_socks5_udp_recvmmsg_tcp_def Let_def del: of_nat_add)
  moreover from sendmmsg_tcp_wire [where get_fd = get_fd and self = self and w = w, OF assms(2), of "[m]"] l assms(1)
  have "\<exists>w'. hev_socks5_udp_sendmmsg get_fd [m] self w = (1, self, w') \<and>
      wire w' (get_fd self) = wire w (get_fd self) @ ?f" by (auto simp: hev_socks5_udp_sendmmsg_def)
  ultimately show ?thesis by blast
qed

section \<open>Witnesses\<close>

definition relay_session :: hev_socks5 where
  "relay_session = \<lparr>fd = 3, timeout = -1, stype = HEV_SOCKS5_TYPE_UDP_IN_TCP, udp_associated = True, addr_family = AF_UNSPEC\<rparr>"

definition dns_msg :: udp_msg where
  "dns_msg = \<lparr>msg_addr = encode_ep (EpV4 [8, 8, 8, 8] 53), msg_data = [42, 43, 44]\<rparr>"

lemma dns_msg_simps: "fits_slot dns_msg" "frame udp_hdr_tcp dns_msg = [0, 3, 10, 1, 8, 8, 8, 8, 0, 53, 42, 43, 44]"
  "frame udp_hdr_udp dns_msg = [0, 0, 0, 1, 8, 8, 8, 8, 0, 53, 42, 43, 44]" "0 < hev_socks5_addr_len (msg_addr dns_msg)"
  by (simp_all add: dns_msg_def fits_slot_def hev_socks5_addr_len_def atype_def UDP_BUF_SIZE_def frame_def
      udp_hdr_tcp_def udp_hdr_udp_def hi8_def lo8_def)

abbreviation (input) empty_slot :: udp_slot where
  "empty_slot \<equiv> \<lparr>slot_mem = replicate UDP_BUF_SIZE 0, slot_addr = Unset, slot_buf = 0, slot_len = word_of_nat UDP_BUF_SIZE\<rparr>"

theorem udp_tcp_roundtrip_witness:
  "\<exists>self' w' ss v'. hev_socks5_udp_sendmmsg fd [dns_msg] relay_session quiet = (1, self', w') \<and>
    hev_socks5_udp_recvmmsg fd [empty_slot] True relay_session
      (quiet\<lparr>rxq := (\<lambda>_. [RData [0, 3, 10], RData [1, 8, 8, 8, 8, 0, 53, 42, 43, 44, 7]])\<rparr>) =
      (1, ss, relay_session, v') \<and> list_all2 delivers ss [dns_msg] \<and> rx_bytes (rxq v' 3) = [7]"
proof -
  obtain r self' w' where s: "hev_socks5_udp_sendmmsg fd [dns_msg] relay_session quiet = (r, self', w')" by (metis prod_cases3)
  with sendmmsg_tcp_wire [where get_fd = fd and self = relay_session and w = quiet and ms = "[dns_msg]"] dns_msg_simps
  have "wire w' 3 = [0, 3, 10, 1, 8, 8, 8, 8, 0, 53, 42, 43, 44]"
    by (auto simp: hev_socks5_udp_sendmmsg_def relay_session_def quiet_def)
  with udp_tcp_roundtrip [OF _ _ s, of relay_session "quiet\<lparr>rxq := (\<lambda>_. [RData [0, 3, 10], RData [1, 8, 8, 8, 8, 0, 53, 42, 43, 44, 7]])\<rparr>"
      "[7]" "[empty_slot]" True] s dns_msg_simps show ?thesis
    by (auto simp: relay_session_def quiet_def fresh_slot_def)
qed

theorem udp_udp_roundtrip_witness:
  "\<exists>self' w' ss v'. hev_socks5_udp_sendmmsg fd [dns_msg] (relay_session\<lparr>stype := HEV_SOCKS5_TYPE_UDP_IN_UDP\<rparr>) quiet =
      (1, self', w') \<and>
    hev_socks5_udp_recvmmsg fd [empty_slot] True (relay_session\<lparr>stype := HEV_SOCKS5_TYPE_UDP_IN_UDP\<rparr>)
      (quiet\<lparr>dgq := (\<lambda>_. [DMsgs [\<lparr>dg_data = [0, 0, 0, 1, 8, 8, 8, 8, 0, 53, 42, 43, 44], dg_peer = sockaddr_zero\<rparr>]])\<rparr>) =
      (1, ss, relay_session\<lparr>stype := HEV_SOCKS5_TYPE_UDP_IN_UDP\<rparr>, v') \<and> list_all2 delivers ss [dns_msg]"
proof -
  let ?s = "relay_session\<lparr>stype := HEV_SOCKS5_TYPE_UDP_IN_UDP\<rparr>"
  obtain r self' w' where s: "hev_socks5_udp_sendmmsg fd [dns_msg] ?s quiet = (r, self', w')" by (metis prod_cases3)
  with sendmmsg_udp_sent [where get_fd = fd and self = ?s and w = quiet and ms = "[dns_msg]"] dns_msg_simps
  have "sent w' 3 = [([0, 0, 0, 1, 8, 8, 8, 8, 0, 53, 42, 43, 44], None)]"
    by (auto simp: hev_socks5_udp_sendmmsg_def relay_session_def quiet_def)
  with udp_udp_roundtrip [OF _ _ s, of ?s
      "quiet\<lparr>dgq := (\<lambda>_. [DMsgs [\<lparr>dg_data = [0, 0, 0, 1, 8, 8, 8, 8, 0, 53, 42, 43, 44], dg_peer = sockaddr_zero\<rparr>]])\<rparr>"
      "[\<lparr>dg_data = [0, 0, 0, 1, 8, 8, 8, 8, 0, 53, 42, 43, 44], dg_peer = sockaddr_zero\<rparr>]" "[empty_slot]" True]
    s dns_msg_simps show ?thesis
    by (auto simp: relay_session_def quiet_def fresh_slot_def)
qed

text \<open>The connection ends after two bytes of the data.\<close>

theorem udp_short_frame_witness:
  "\<exists>bufs' w'. hev_socks5_udp_fwd_f small_env fd (\<lambda>_ _ s w. (0, s, w)) 7 [replicate UDP_BUF_SIZE 0] False relay_session
     (quiet\<lparr>rxq := (\<lambda>_. [RData [0, 3, 10, 1, 8, 8, 8, 8, 0, 53, 42, 43]])\<rparr>) = (-1, bufs', False, relay_session, w') \<and>
   crashed w'"
  using dns_msg_simps
  by (intro udp_short_frame [where m = dns_msg and k = 12]) (simp_all add: relay_session_def)

definition long_name_msg :: udp_msg where
  "long_name_msg = \<lparr>msg_addr = encode_ep (EpName (replicate 250 97) 53), msg_data = [42]\<rparr>"

theorem udp_long_name_frame_witness:
  "(\<exists>w'. hev_socks5_udp_sendmmsg fd [long_name_msg] relay_session quiet = (1, relay_session, w')) \<and>
   (\<exists>v'. hev_socks5_udp_recvmmsg fd [empty_slot] True relay_session
      (quiet\<lparr>rxq := (\<lambda>_. [RData (frame udp_hdr_tcp long_name_msg)])\<rparr>) = (-1, [empty_slot], relay_session, v'))"
proof -
  have "frame udp_hdr_tcp long_name_msg \<noteq> []" by (simp add: frame_def udp_hdr_tcp_def)
  with udp_long_name_frame [of relay_session quiet fd long_name_msg "replicate 250 97" 53 relay_session
      "quiet\<lparr>rxq := (\<lambda>_. [RData (frame udp_hdr_tcp long_name_msg)])\<rparr>" "[]" empty_slot "[]" True]
  show ?thesis by (auto simp: relay_session_def long_name_msg_def quiet_def)
qed

end
