(* ===== verification/UDP_Relay.thy ===== *)
theory UDP_Relay
  imports Socks5_UDP
begin

text \<open>
  The UDP relay comes to an end: every round of \<open>hev_socks5_udp_splicer\<close> either takes something off
  what the environment still has to deliver, or stops a direction for good.
\<close>

section \<open>What is left to deliver\<close>

fun ev_weight :: "recv_ev \<Rightarrow> nat" where
  "ev_weight (RData b) = Suc (length b)"
| "ev_weight _ = 1"

fun dg_weight :: "dgram_ev \<Rightarrow> nat" where
  "dg_weight (DMsgs ds) = Suc (length ds)"
| "dg_weight _ = 1"

abbreviation rx_load :: "recv_ev list \<Rightarrow> nat" where
  "rx_load es \<equiv> sum_list (map ev_weight es)"

abbreviation dg_load :: "dgram_ev list \<Rightarrow> nat" where
  "dg_load es \<equiv> sum_list (map dg_weight es)"

text \<open>A step that loses nothing of the object but its timeout, and adds nothing to the scripts.\<close>

definition winds :: "'a hev_socks5_scheme \<Rightarrow> world \<Rightarrow> 'a hev_socks5_scheme \<Rightarrow> world \<Rightarrow> bool" where
  "winds s w s' w' \<longleftrightarrow> fd s' = fd s \<and> stype s' = stype s \<and> hev_socks5.more s' = hev_socks5.more s \<and>
     live w' = live w \<and> (crashed w \<longrightarrow> crashed w') \<and>
     (\<forall>f. rx_load (rxq w' f) \<le> rx_load (rxq w f) \<and> dg_load (dgq w' f) \<le> dg_load (dgq w f))"

lemma winds_refl [simp, intro]: "winds s w s w"
  by (simp add: winds_def)

lemma winds_trans [trans]: "winds s w s' w' \<Longrightarrow> winds s' w' s'' w'' \<Longrightarrow> winds s w s'' w''"
  unfolding winds_def by (metis (no_types, lifting) le_trans)

lemma winds_eagain: "winds s w s' w' \<Longrightarrow> winds s w s' (w'\<lparr>eagain := e\<rparr>)"
  by (simp add: winds_def)

lemma winds_waited: "waited s w s' w' \<Longrightarrow> winds s w s' w'"
  by (auto simp: winds_def dest: waited_fields)

lemma sys_recv_winds: "sys_recv f n w = (r, b, w') \<Longrightarrow> winds s w s w'"
  by (auto simp: sys_recv_def winds_def Let_def split: list.splits recv_ev.splits if_splits)

lemma udp_yielder_winds:
  assumes "udp_task_io_yielder t s w = (r, s', w')"
  shows "winds s w s' w'"
proof (cases "stype s = HEV_SOCKS5_TYPE_UDP_IN_UDP")
  case True
  obtain res b w1 where p: "sys_recv (fd s) 1 w = (res, b, w1)" by (metis prod_cases3)
  have "winds s w s w1" using p by (rule sys_recv_winds)
  moreover have "winds s w1 s' w'"
  proof (cases "res = 0 \<or> (res < 0 \<and> \<not> eagain w1)")
    case r: True
    with assms True p show ?thesis by (auto simp: udp_task_io_yielder_def winds_def)
  next
    case False
    with assms True p have "hev_socks5_task_io_yielder t s w1 = (r, s', w')" by (auto simp: udp_task_io_yielder_def)
    then show ?thesis by (intro winds_waited yielder_waited)
  qed
  ultimately show ?thesis by (rule winds_trans)
next
  case False
  with assms show ?thesis by (auto simp: udp_task_io_yielder_def dest!: yielder_waited intro: winds_waited)
qed

section \<open>The loops\<close>

lemma recv_loop_winds:
  "recv_loop udp_task_io_yielder wa dw n got es s w = (p, es', s', w') \<Longrightarrow>
   winds s w s' w' \<and> rx_load es' \<le> rx_load es"
proof (induction "udp_task_io_yielder :: 'a hev_socks5_scheme yielder" wa dw n got es s w
    arbitrary: p es' s' w' rule: recv_loop.induct)
  case (3 wa dw n got es s w)
  show ?case
  proof (cases dw)
    case False
    obtain r s1 w1 where y: "udp_task_io_yielder HEV_TASK_WAITIO s w = (r, s1, w1)" by (metis prod_cases3)
    note wy = udp_yielder_winds [OF y]
    show ?thesis
    proof (cases "r = 0")
      case True
      with 3(2) False y have "recv_loop udp_task_io_yielder wa dw n got es s1 w1 = (p, es', s', w')" by simp
      from 3(1) [OF False y [symmetric] refl] this True wy winds_trans show ?thesis by fastforce
    qed (use 3(2) False y wy in auto)
  qed (use 3(2) in \<open>auto intro: winds_eagain\<close>)
next
  case (4 wa dw n got b es s w)
  define k where "k = min (n - length got) (length b)"
  define rest where "rest = (if k < length b then RData (drop k b) # es else es)"
  have rest: "rx_load rest \<le> rx_load (RData b # es)" by (simp add: rest_def)
  show ?case
  proof (cases "wa \<and> k \<noteq> 0 \<and> length (got @ take k b) < n")
    case True
    with 4(2) have "recv_loop udp_task_io_yielder wa dw n (got @ take k b) es s w = (p, es', s', w')"
      by (simp add: Let_def flip: k_def)
    from 4(1) [OF k_def refl rest_def _ _ _ this] True show ?thesis by auto
  next
    case False
    with 4(2) have "es' = rest" "s' = s" "w' = w"
      by (auto simp: Let_def rest_def simp flip: k_def split: if_splits)
    with rest show ?thesis by simp
  qed
qed (auto intro: winds_eagain)

lemma recv_winds:
  assumes "hev_task_io_socket_recv f n wa dw udp_task_io_yielder s w = (r, b, s', w')"
  shows "winds s w s' w'"
  using assms
  by (auto simp: hev_task_io_socket_recv_def winds_def split: prod.splits dest!: recv_loop_winds)

lemma recvmmsg_loop_winds:
  "recvmmsg_loop udp_task_io_yielder False dw n [] es s w = ((r, ds), es', s', w') \<Longrightarrow>
   winds s w s' w' \<and> dg_load es' \<le> dg_load es \<and> (0 \<le> fwd_result r w' \<longrightarrow> dg_load es' < dg_load es)"
proof (induction es arbitrary: s w)
  case Nil
  then show ?case by (auto simp: fwd_result_def intro: winds_eagain)
next
  case (Cons e es)
  show ?case
  proof (cases e)
    case (DMsgs b)
    with Cons.prems show ?thesis by (auto simp: Let_def fwd_result_def min_def split: if_splits)
  next
    case DAgain
    show ?thesis
    proof (cases dw)
      case False
      obtain q s1 w1 where y: "udp_task_io_yielder HEV_TASK_WAITIO s w = (q, s1, w1)" by (metis prod_cases3)
      note wy = udp_yielder_winds [OF y]
      show ?thesis
      proof (cases "q = 0")
        case True
        with Cons.prems DAgain False y have
          "recvmmsg_loop udp_task_io_yielder False dw n [] es s1 w1 = ((r, ds), es', s', w')" by simp
        from Cons.IH [OF this] DAgain wy winds_trans show ?thesis by fastforce
      qed (use Cons.prems DAgain False y wy in auto)
    qed (use Cons.prems DAgain in \<open>auto intro: winds_eagain\<close>)
  qed (use Cons.prems in \<open>auto intro: winds_eagain\<close>)
qed

lemma recvmmsg_winds:
  assumes "hev_task_io_socket_recvmmsg f ns False dw udp_task_io_yielder s w = (r, ds, s', w')"
  shows "winds s w s' w'" "0 \<le> fwd_result r w' \<Longrightarrow> dg_load (dgq w' f) < dg_load (dgq w f)"
    "r = int (length ds) \<or> r < 0 \<and> ds = []"
proof -
  from assms obtain ds0 es s1 w1 where l:
    "recvmmsg_loop udp_task_io_yielder False dw (length ns) [] (dgq w f) s w = ((r, ds0), es, s', w1)"
    "w' = w1\<lparr>dgq := (dgq w1)(f := es)\<rparr>" "ds = map2 (\<lambda>n d. d\<lparr>dg_data := take n (dg_data d)\<rparr>) ns ds0"
    by (auto simp: hev_task_io_socket_recvmmsg_def split: prod.splits)
  note w = recvmmsg_loop_winds [OF l(1)]
  have e: "fwd_result r w' = fwd_result r w1" using l(2) by (simp add: fwd_result_def)
  from w l(2) show "winds s w s' w'" by (auto simp: winds_def)
  from w l(2) e show "0 \<le> fwd_result r w' \<Longrightarrow> dg_load (dgq w' f) < dg_load (dgq w f)" by simp
  from recvmmsg_loop_once [OF l(1)] l(3) show "r = int (length ds) \<or> r < 0 \<and> ds = []" by auto
qed

lemma send_loop_winds:
  "send_loop udp_task_io_yielder wa dw buf n es s w = (p, es', s', w') \<Longrightarrow> winds s w s' w'"
proof (induction "udp_task_io_yielder :: 'a hev_socks5_scheme yielder" wa dw buf n es s w
    arbitrary: p es' s' w' rule: send_loop.induct)
  case (3 wa dw buf n es s w)
  then show ?case
    by (fastforce split: prod.splits if_splits dest: udp_yielder_winds intro: winds_trans winds_eagain)
qed (auto split: if_splits simp: Let_def intro: winds_eagain)

lemma sendmmsg_loop_winds:
  "sendmmsg_loop udp_task_io_yielder wa dw n c es s w = (p, es', s', w') \<Longrightarrow> winds s w s' w'"
proof (induction "udp_task_io_yielder :: 'a hev_socks5_scheme yielder" wa dw n c es s w
    arbitrary: p es' s' w' rule: sendmmsg_loop.induct)
  case (3 wa dw n c es s w)
  then show ?case
    by (fastforce split: prod.splits if_splits dest: udp_yielder_winds intro: winds_trans winds_eagain)
qed (auto split: if_splits simp: Let_def intro: winds_eagain)

lemma send_winds:
  "hev_task_io_socket_send f buf wa dw udp_task_io_yielder s w = (r, s', w') \<Longrightarrow> winds s w s' w'"
  "hev_task_io_socket_sendmsg f iov True dw udp_task_io_yielder s w = (r, s', w') \<Longrightarrow> winds s w s' w'"
  "hev_task_io_socket_sendmmsg f msgs wa dw udp_task_io_yielder s w = (r, s', w') \<Longrightarrow> winds s w s' w'"
  unfolding sendmsg_eq_send
  by (auto simp: hev_task_io_socket_send_def hev_task_io_socket_sendmmsg_def winds_def split: prod.splits
      dest!: send_loop_winds sendmmsg_loop_winds)

lemma sendmmsg_winds:
  "hev_socks5_udp_sendmmsg get_fd ms s w = (r, s', w') \<Longrightarrow> winds s w s' w'"
  by (auto simp: hev_socks5_udp_sendmmsg_def hev_socks5_udp_sendmmsg_tcp_def hev_socks5_udp_sendmmsg_udp_def Let_def
      split: HevSocks5Type.splits option.splits prod.splits if_splits dest!: send_winds)

section \<open>Every batch takes something\<close>

lemma recv_takes:
  assumes "hev_task_io_socket_recv f n False True udp_task_io_yielder s w = (r, b, s', w')" "0 < n" "rxq w f \<noteq> []"
  shows "rx_load (rxq w' f) < rx_load (rxq w f)"
proof -
  from assms(3) obtain e es where q: "rxq w f = e # es" by (cases "rxq w f") auto
  show ?thesis
    using assms(1,2) q
    by (cases e) (auto simp: hev_task_io_socket_recv_def Let_def min_def split: if_splits)
qed

lemma udp_head_winds:
  assumes "udp_recv_head f nb s w = (r, h0, s', w')"
  shows "winds s w s' w'"
    "nb \<Longrightarrow> rxq w f \<noteq> [] \<Longrightarrow> rx_load (rxq w' f) < rx_load (rxq w f)" "nb \<Longrightarrow> rxq w f = [] \<Longrightarrow> r = 0"
proof -
  obtain q h s1 w1 where p: "hev_task_io_socket_recv f 5 False nb udp_task_io_yielder s w = (q, h, s1, w1)" by (metis prod_cases4)
  have w1: "winds s w s1 w1" using p by (rule recv_winds)
  have w': "winds s1 w1 s' w'"
    using assms p by (auto simp: udp_recv_head_def split: prod.splits if_splits dest!: recv_winds)
  from w1 w' show "winds s w s' w'" by (rule winds_trans)
  have "rx_load (rxq w' f) \<le> rx_load (rxq w1 f)" using w' by (simp add: winds_def)
  with recv_takes [of f 5 s w q h s1 w1] p show "nb \<Longrightarrow> rxq w f \<noteq> [] \<Longrightarrow> rx_load (rxq w' f) < rx_load (rxq w f)"
    by auto
  show "nb \<Longrightarrow> rxq w f = [] \<Longrightarrow> r = 0"
    using assms by (auto simp: udp_recv_head_def hev_task_io_socket_recv_def)
qed

lemma udp_frames_step:
  assumes "udp_recv_head f nb s w = (q, h, s1, w1)"
    "hev_task_io_socket_recvmsg f [unat (h ! 2) - 3 - 2, unat (be16 (h ! 0) (h ! 1))] True False udp_task_io_yielder s1 w1 =
      (q2, d, s2, w2)"
  shows "\<exists>ss1 sl'. udp_recv_frames f nb got (sl # ss) s w \<in>
    {(if got \<noteq> [] then int (length got) else q, got @ sl # ss, s1, w1), (-1, got @ sl # ss, s1, w1),
     (q2, ss1, s2, w2), udp_recv_frames f nb (got @ [sl']) ss s2 w2}"
  unfolding udp_recv_frames.simps assms Let_def split_conv by (simp split: if_split) blast

lemma udp_frames_winds:
  "udp_recv_frames f nb got ss s w = (r, ss', s', w') \<Longrightarrow> winds s w s' w'"
proof (induction ss arbitrary: got s w)
  case (Cons sl ss)
  obtain q h s1 w1 where p: "udp_recv_head f nb s w = (q, h, s1, w1)" by (metis prod_cases4)
  obtain q2 d s2 w2 where p2: "hev_task_io_socket_recvmsg f [unat (h ! 2) - 3 - 2, unat (be16 (h ! 0) (h ! 1))]
      True False udp_task_io_yielder s1 w1 = (q2, d, s2, w2)" by (metis prod_cases4)
  have w1: "winds s w s1 w1" using p by (rule udp_head_winds)
  have w2: "winds s w s2 w2" using w1 p2 by (auto simp: recvmsg_eq_recv intro: winds_trans dest!: recv_winds)
  from udp_frames_step [OF p p2, of got sl ss] Cons.prems consider "s' = s1" "w' = w1" | "s' = s2" "w' = w2"
    | sl' where "udp_recv_frames f nb (got @ [sl']) ss s2 w2 = (r, ss', s', w')" by auto
  then show ?case
  proof cases
    case 3
    from w2 Cons.IH [OF 3] show ?thesis by (rule winds_trans)
  qed (use w1 w2 in auto)
qed auto

lemma udp_frames_takes:
  assumes "udp_recv_frames f True [] ss s w = (r, ss', s', w')" "0 \<le> fwd_result r w'"
  shows "rx_load (rxq w' f) < rx_load (rxq w f)"
proof (cases ss)
  case Nil
  with assms show ?thesis by (auto simp: fwd_result_def)
next
  case (Cons sl ss1)
  obtain q h s1 w1 where p: "udp_recv_head f True s w = (q, h, s1, w1)" by (metis prod_cases4)
  obtain q2 d s2 w2 where p2: "hev_task_io_socket_recvmsg f [unat (h ! 2) - 3 - 2, unat (be16 (h ! 0) (h ! 1))]
      True False udp_task_io_yielder s1 w1 = (q2, d, s2, w2)" by (metis prod_cases4)
  show ?thesis
  proof (cases "rxq w f = []")
    case True
    with p have "q = 0" by (auto dest: udp_head_winds(3))
    with assms p Cons show ?thesis by (auto simp: fwd_result_def)
  next
    case False
    have a: "rx_load (rxq w1 f) < rx_load (rxq w f)" using udp_head_winds(2) [OF p _ False] by simp
    have b: "winds s1 w1 s2 w2" using p2 by (auto simp: recvmsg_eq_recv dest!: recv_winds)
    from udp_frames_step [OF p p2, of "[]" sl ss1] assms(1) Cons consider "w' = w1" | "w' = w2"
      | sl' where "udp_recv_frames f True [sl'] ss1 s2 w2 = (r, ss', s', w')" by auto
    then have "rx_load (rxq w' f) \<le> rx_load (rxq w1 f)"
    proof cases
      case 3
      from winds_trans [OF b udp_frames_winds [OF 3]] show ?thesis by (simp add: winds_def)
    qed (use b in \<open>auto simp: winds_def\<close>)
    with a show ?thesis by simp
  qed
qed

section \<open>The rounds\<close>

text \<open>
  The descriptor of the relay depends on nothing that changes while it runs, and binding its other
  end takes nothing from the scripts.
\<close>

definition fd_stable :: "('a hev_socks5_scheme \<Rightarrow> int) \<Rightarrow> bool" where
  "fd_stable get_fd \<longleftrightarrow> (\<forall>s s'. fd s' = fd s \<and> stype s' = stype s \<and>
     hev_socks5.more s' = hev_socks5.more s \<longrightarrow> get_fd s' = get_fd s)"

definition binds_calm :: "'a hev_socks5_scheme udp_binder \<Rightarrow> bool" where
  "binds_calm binds \<longleftrightarrow> (\<forall>f a s w r s' w'. binds f a s w = (r, s', w') \<longrightarrow> winds s w s' w')"

definition relay_load :: "('a hev_socks5_scheme \<Rightarrow> int) \<Rightarrow> int \<Rightarrow> 'a hev_socks5_scheme \<Rightarrow> world \<Rightarrow> nat" where
  "relay_load get_fd f s w = rx_load (rxq w (get_fd s)) + dg_load (dgq w (get_fd s)) + dg_load (dgq w f)"

lemma get_fd_winds: "fd_stable get_fd \<Longrightarrow> winds s w s' w' \<Longrightarrow> get_fd s' = get_fd s"
  unfolding fd_stable_def winds_def by blast

lemma winds_loads: "winds s w s' w' \<Longrightarrow> rx_load (rxq w' f) \<le> rx_load (rxq w f)"
  "winds s w s' w' \<Longrightarrow> dg_load (dgq w' f) \<le> dg_load (dgq w f)"
  by (simp_all add: winds_def)

lemma relay_load_winds: "fd_stable get_fd \<Longrightarrow> winds s w s' w' \<Longrightarrow> relay_load get_fd f s' w' \<le> relay_load get_fd f s w"
proof -
  assume st: "fd_stable get_fd" and w: "winds s w s' w'"
  show ?thesis
    unfolding relay_load_def get_fd_winds [OF st w] by (intro add_mono winds_loads [OF w])
qed

lemma udp_recvmmsg_takes:
  assumes "hev_socks5_udp_recvmmsg get_fd ss True s w = (r, ss', s', w')"
    and t: "stype s = HEV_SOCKS5_TYPE_UDP_IN_TCP \<or> stype s = HEV_SOCKS5_TYPE_UDP_IN_UDP" and st: "fd_stable get_fd"
  shows "winds s w s' w' \<and> (0 \<le> fwd_result r w' \<longrightarrow> relay_load get_fd f s' w' < relay_load get_fd f s w)"
  using t
proof
  assume "stype s = HEV_SOCKS5_TYPE_UDP_IN_TCP"
  with assms(1) have fr: "udp_recv_frames (get_fd s) True [] ss s w = (r, ss', s', w')"
    by (simp add: hev_socks5_udp_recvmmsg_def hev_socks5_udp_recvmmsg_tcp_def)
  note w = udp_frames_winds [OF fr]
  moreover have "relay_load get_fd f s' w' < relay_load get_fd f s w" if "0 \<le> fwd_result r w'"
    unfolding relay_load_def get_fd_winds [OF st w]
    by (intro add_less_le_mono winds_loads [OF w] udp_frames_takes [OF fr that])
  ultimately show ?thesis by blast
next
  assume u: "stype s = HEV_SOCKS5_TYPE_UDP_IN_UDP"
  let ?g = "get_fd s"
  obtain q ds s1 w1 where p: "hev_task_io_socket_recvmmsg ?g (map (unat \<circ> slot_len) ss) False True
    udp_task_io_yielder s w = (q, ds, s1, w1)" by (metis prod_cases4)
  note w1 = recvmmsg_winds [OF p]
  have less: "relay_load get_fd f s1 w1 < relay_load get_fd f s w" if "0 \<le> fwd_result q w1"
    unfolding relay_load_def get_fd_winds [OF st w1(1)]
    by (intro add_less_le_mono add_le_less_mono winds_loads [OF w1(1)] w1(2) [OF that])
  show ?thesis
  proof (cases "q \<le> 0")
    case True
    with assms(1) u p have "r = q" "s' = s1" "w' = w1"
      by (auto simp: hev_socks5_udp_recvmmsg_def hev_socks5_udp_recvmmsg_udp_def Let_def)
    with w1(1) less show ?thesis by simp
  next
    case False
    have "winds s1 w1 s' w'"
      using assms(1) u p False
      by (auto simp: hev_socks5_udp_recvmmsg_def hev_socks5_udp_recvmmsg_udp_def Let_def winds_def sys_call_def
          split: prod.splits list.splits if_splits)
    with less False winds_trans [OF w1(1) this] relay_load_winds [OF st this, of f] show ?thesis
      by (auto simp: fwd_result_def)
  qed
qed

lemma udp_fwd_f_takes:
  assumes e: "hev_socks5_udp_fwd_f env get_fd binds f bufs bound s w = (r, bufs', bound', s', w')"
    and t: "stype s = HEV_SOCKS5_TYPE_UDP_IN_TCP \<or> stype s = HEV_SOCKS5_TYPE_UDP_IN_UDP"
    and st: "fd_stable get_fd" and b: "binds_calm binds"
  shows "winds s w s' w' \<and> (0 \<le> r \<longrightarrow> relay_load get_fd f s' w' < relay_load get_fd f s w)"
proof -
  let ?v = "map (\<lambda>b. \<lparr>slot_mem = b, slot_addr = Unset, slot_buf = 0, slot_len = word_of_nat UDP_BUF_SIZE\<rparr>) bufs"
  obtain q ss s1 w1 where p: "hev_socks5_udp_recvmmsg get_fd ?v True s w = (q, ss, s1, w1)" by (metis prod_cases4)
  note w1 = udp_recvmmsg_takes [OF p t st, of f]
  have "winds s1 w1 s' w' \<and> (0 \<le> r \<longrightarrow> 0 \<le> fwd_result q w1)"
  proof (cases "q > 0")
    case False
    with e p show ?thesis by (auto simp: hev_socks5_udp_fwd_f_def Let_def)
  next
    case True
    then have "0 \<le> fwd_result q w1" by (simp add: fwd_result_def)
    moreover have "winds s1 w1 s' w'"
    proof (cases "udp_targets env (hev_socks5_get_addr_family s1) (nat q) ss")
      case None
      with e p True show ?thesis by (auto simp: hev_socks5_udp_fwd_f_def Let_def winds_def)
    next
      case (Some o1)
      show ?thesis
      proof (cases o1)
        case None
        with e p True Some show ?thesis by (auto simp: hev_socks5_udp_fwd_f_def Let_def)
      next
        case ts: (Some ts)
        obtain ret s2 w2 where bd: "(if bound then (0, s1, w1) else binds f (snd (hd ts)) s1 w1) = (ret, s2, w2)"
          by (metis prod_cases3)
        have w2: "winds s1 w1 s2 w2" using bd b by (auto simp: binds_calm_def split: if_splits)
        show ?thesis
        proof (cases "ret < 0")
          case True
          with e p \<open>q > 0\<close> Some ts bd w2 show ?thesis by (auto simp: hev_socks5_udp_fwd_f_def Let_def)
        next
          case False
          obtain q2 s3 w3 where "hev_task_io_socket_sendmmsg f (map (\<lambda>(d, a). (d, Some a)) ts) True False
            udp_task_io_yielder s2 w2 = (q2, s3, w3)" by (metis prod_cases3)
          with e p \<open>q > 0\<close> Some ts bd False have "winds s2 w2 s' w'"
            by (auto simp: hev_socks5_udp_fwd_f_def Let_def dest!: send_winds(3))
          with w2 show ?thesis by (rule winds_trans)
        qed
      qed
    qed
    ultimately show ?thesis by simp
  qed
  with w1 winds_trans [of s w s1 w1 s' w'] relay_load_winds [OF st, of s1 w1 s' w' f] show ?thesis by auto
qed

lemma udp_fwd_b_takes:
  assumes e: "hev_socks5_udp_fwd_b get_fd f num s w = (r, s', w')" and st: "fd_stable get_fd"
  shows "winds s w s' w' \<and> (0 \<le> r \<longrightarrow> relay_load get_fd f s' w' < relay_load get_fd f s w)"
proof -
  obtain q ds s1 w1 where p: "hev_task_io_socket_recvmmsg f (replicate num UDP_BUF_SIZE) False True
    udp_task_io_yielder s w = (q, ds, s1, w1)" by (metis prod_cases4)
  note w1 = recvmmsg_winds [OF p]
  have less: "relay_load get_fd f s1 w1 < relay_load get_fd f s w" if "0 \<le> fwd_result q w1"
    unfolding relay_load_def get_fd_winds [OF st w1(1)]
    by (intro add_le_less_mono add_mono winds_loads [OF w1(1)] w1(2) [OF that])
  have "winds s1 w1 s' w' \<and> (0 \<le> r \<longrightarrow> 0 \<le> fwd_result q w1)"
    using e p by (auto simp: hev_socks5_udp_fwd_b_def Let_def fwd_result_def split: prod.splits if_splits
        dest!: sendmmsg_winds)
  with less winds_trans [OF w1(1)] relay_load_winds [OF st, of s1 w1 s' w' f] show ?thesis by auto
qed

text \<open>
  Why the relay is over: in its last round both directions have failed, or the task was told to stop
  waiting.
\<close>

definition last_round :: "net_env \<Rightarrow> ('a hev_socks5_scheme \<Rightarrow> int) \<Rightarrow> 'a hev_socks5_scheme udp_binder \<Rightarrow> int \<Rightarrow> nat \<Rightarrow>
    'a hev_socks5_scheme \<Rightarrow> world \<Rightarrow> 'a hev_socks5_scheme \<Rightarrow> world \<Rightarrow> bool" where
  "last_round env get_fd binds f num s w s' w' \<longleftrightarrow>
     (\<exists>bufs bound res_f res_b bufs1 bound1 rf s1 w1 rb s2 w2.
        (if res_f \<ge> 0 then hev_socks5_udp_fwd_f env get_fd binds f bufs bound s w
         else (res_f, bufs, bound, s, w)) = (rf, bufs1, bound1, s1, w1) \<and>
        (if res_b \<ge> 0 then hev_socks5_udp_fwd_b get_fd f num s1 w1 else (res_b, s1, w1)) = (rb, s2, w2) \<and>
        (rf < 0 \<and> rb < 0 \<and> s' = s2 \<and> w' = w2 \<or>
         (\<exists>r. r \<noteq> 0 \<and> udp_task_io_yielder (if rf > 0 \<or> rb > 0 then HEV_TASK_YIELD else HEV_TASK_WAITIO) s2 w2 = (r, s', w'))))"

definition relay_over :: "net_env \<Rightarrow> ('a hev_socks5_scheme \<Rightarrow> int) \<Rightarrow> 'a hev_socks5_scheme udp_binder \<Rightarrow> int \<Rightarrow> nat \<Rightarrow>
    'a hev_socks5_scheme \<Rightarrow> world \<Rightarrow> 'a hev_socks5_scheme \<Rightarrow> world \<Rightarrow> bool" where
  "relay_over env get_fd binds f num s w s' w' \<longleftrightarrow>
     (\<exists>s1 w1. winds s w s1 w1 \<and> last_round env get_fd binds f num s1 w1 s' w')"

lemma relay_over_later:
  "winds s w s1 w1 \<Longrightarrow> relay_over env get_fd binds f num s1 w1 s' w' \<Longrightarrow> relay_over env get_fd binds f num s w s' w'"
  unfolding relay_over_def by (blast intro: winds_trans)

lemma relay_overI:
  assumes "(if res_f \<ge> 0 then hev_socks5_udp_fwd_f env get_fd binds f bufs bound s w
         else (res_f, bufs, bound, s, w)) = (rf, bufs1, bound1, s1, w1)"
    and "(if res_b \<ge> 0 then hev_socks5_udp_fwd_b get_fd f num s1 w1 else (res_b, s1, w1)) = (rb, s2, w2)"
    and "rf < 0 \<and> rb < 0 \<and> s' = s2 \<and> w' = w2 \<or>
      (\<exists>r. r \<noteq> 0 \<and> udp_task_io_yielder (if rf > 0 \<or> rb > 0 then HEV_TASK_YIELD else HEV_TASK_WAITIO) s2 w2 = (r, s', w'))"
  shows "relay_over env get_fd binds f num s w s' w'"
proof -
  have "last_round env get_fd binds f num s w s' w'"
    unfolding last_round_def using assms
    by (intro exI [of _ bufs] exI [of _ bound] exI [of _ res_f] exI [of _ res_b] exI [of _ bufs1] exI [of _ bound1]
        exI [of _ rf] exI [of _ s1] exI [of _ w1] exI [of _ rb] exI [of _ s2] exI [of _ w2] conjI)
  then show ?thesis unfolding relay_over_def by (intro exI [of _ s] exI [of _ w]) simp
qed

lemma both_negative:
  fixes a b :: int
  assumes "\<not> (a > 0 \<or> b > 0)" "(a AND b) \<noteq> 0"
  shows "a < 0 \<and> b < 0"
  using assms by (cases "a = 0 \<or> b = 0") auto

lemma udp_splice_loop_ends:
  assumes st: "fd_stable get_fd" and b: "binds_calm binds"
  shows "stype s = HEV_SOCKS5_TYPE_UDP_IN_TCP \<or> stype s = HEV_SOCKS5_TYPE_UDP_IN_UDP \<Longrightarrow>
    \<exists>s' w'. udp_splice_loop env get_fd binds f num bufs bound res_f res_b s w = Some (s', w') \<and> winds s w s' w' \<and>
      relay_over env get_fd binds f num s w s' w'"
proof (induction "relay_load get_fd f s w" arbitrary: bufs bound res_f res_b s w rule: less_induct)
  case less
  obtain rf bufs1 bound1 s1 w1 where f: "(if res_f \<ge> 0 then hev_socks5_udp_fwd_f env get_fd binds f bufs bound s w
      else (res_f, bufs, bound, s, w)) = (rf, bufs1, bound1, s1, w1)" by (metis prod_cases5)
  have w1: "winds s w s1 w1" "0 \<le> rf \<Longrightarrow> relay_load get_fd f s1 w1 < relay_load get_fd f s w"
    using f udp_fwd_f_takes [OF _ less.prems st b] by (auto split: if_splits)
  obtain rb s2 w2 where g: "(if res_b \<ge> 0 then hev_socks5_udp_fwd_b get_fd f num s1 w1 else (res_b, s1, w1)) = (rb, s2, w2)"
    by (metis prod_cases3)
  have w2: "winds s1 w1 s2 w2" "0 \<le> rb \<Longrightarrow> relay_load get_fd f s2 w2 < relay_load get_fd f s1 w1"
    using g udp_fwd_b_takes [OF _ st] by (auto split: if_splits)
  let ?t = "if rf > 0 \<or> rb > 0 then HEV_TASK_YIELD else HEV_TASK_WAITIO"
  obtain r s3 w3 where y: "udp_task_io_yielder ?t s2 w2 = (r, s3, w3)" by (metis prod_cases3)
  note w3 = udp_yielder_winds [OF y]
  have all: "winds s w s2 w2" "winds s w s3 w3" using w1(1) w2(1) w3 winds_trans by blast+
  have eq: "udp_splice_loop env get_fd binds f num bufs bound res_f res_b s w =
    (if \<not> (rf > 0 \<or> rb > 0) \<and> (rf AND rb) \<noteq> 0 then Some (s2, w2)
     else if r \<noteq> 0 then Some (s3, w3) else udp_splice_loop env get_fd binds f num bufs1 bound1 rf rb s3 w3)"
    by (subst udp_splice_loop.simps) (simp only: f g y Let_def split_conv)
  show ?case
  proof (cases "\<not> (rf > 0 \<or> rb > 0) \<and> (rf AND rb) \<noteq> 0")
    case True
    with eq have "udp_splice_loop env get_fd binds f num bufs bound res_f res_b s w = Some (s2, w2)" by simp
    moreover have "relay_over env get_fd binds f num s w s2 w2"
      by (rule relay_overI [OF f g]) (use both_negative [of rf rb] True in blast)
    ultimately show ?thesis using all by blast
  next
    case both: False
    show ?thesis
    proof (cases "r = 0")
      case False
      with eq have "udp_splice_loop env get_fd binds f num bufs bound res_f res_b s w = Some (s3, w3)"
        unfolding if_not_P [OF both] by simp
      moreover have "relay_over env get_fd binds f num s w s3 w3"
        by (rule relay_overI [OF f g]) (use y False in blast)
      ultimately show ?thesis using all by blast
    next
      case True
      have "\<not> (rf < 0 \<and> rb < 0)"
      proof
        assume "rf < 0 \<and> rb < 0"
        then have "rf AND rb < 0" by simp
        with both \<open>rf < 0 \<and> rb < 0\<close> show False by auto
      qed
      then have "relay_load get_fd f s2 w2 < relay_load get_fd f s w"
        using w1(2) w2(2) relay_load_winds [OF st w1(1), of f] relay_load_winds [OF st w2(1), of f] by linarith
      with relay_load_winds [OF st w3, of f] have l: "relay_load get_fd f s3 w3 < relay_load get_fd f s w" by simp
      have "stype s3 = stype s" using all(2) by (simp add: winds_def)
      with less.prems less.hyps [OF l] obtain s' w' where
        "udp_splice_loop env get_fd binds f num bufs1 bound1 rf rb s3 w3 = Some (s', w')" "winds s3 w3 s' w'"
        "relay_over env get_fd binds f num s3 w3 s' w'" by metis
      moreover from this eq True have
        "udp_splice_loop env get_fd binds f num bufs bound res_f res_b s w = Some (s', w')"
        unfolding if_not_P [OF both] by simp
      ultimately show ?thesis using winds_trans [OF all(2)] relay_over_later [OF all(2)] by blast
    qed
  qed
qed

section \<open>The property\<close>


text \<open>The relay of a server session, whose descriptor is fixed, with the binding of the base class.\<close>

lemma fd_stable_const: "fd_stable fd"
  by (simp add: fd_stable_def)

lemma base_binds_calm: "binds_calm (\<lambda>f a s w. (hev_socks5_bind s f a, s, w))"
  by (auto simp: binds_calm_def)

lemma fd_stable_client: "fd_stable (hev_socks5_client_udp_get_fd :: 'a hev_socks5_client_udp_scheme \<Rightarrow> int)"
proof -
  have "hev_socks5_client_udp_get_fd s' = hev_socks5_client_udp_get_fd s"
    if "fd s' = fd s" "stype s' = stype s" "hev_socks5.more s' = hev_socks5.more s" for s s' :: "'a hev_socks5_client_udp_scheme"
    using that by (cases s; cases s') (auto simp: hev_socks5_client_udp_get_fd_def split: HevSocks5Type.splits)
  then show ?thesis unfolding fd_stable_def by blast
qed


end
