(* ===== verification/TCP_Liveness.thy ===== *)
theory TCP_Liveness
  imports TCP_Streams UDP_Relay
begin

text \<open>
  The splicer of a TCP session comes to an end when the environment has nothing more to offer: every
  round moves a byte or a packet buffer, or waits, and waiting is bounded by the timeout.
\<close>

section \<open>What is left to do\<close>

fun ev_pbufs :: "tcp_ev \<Rightarrow> nat" where
  "ev_pbufs (EvRecv p) = length p"
| "ev_pbufs _ = 0"

definition sched_load :: "tcp_stack \<Rightarrow> nat" where
  "sched_load k = sum_list (map (\<lambda>es. sum_list (map ev_pbufs es)) (sched k))"

definition tcp_load :: "hev_socks5_session_tcp \<Rightarrow> tcp_stack \<Rightarrow> world \<Rightarrow> nat" where
  "tcp_load s k w = length (yields w) + rx_load (rxq w (fd s)) + length (txq w (fd s)) +
     length (queue s) + sched_load k + unat (rda_size (buffer s))"

lemma tcp_event_load:
  "length (queue (fst (tcp_event e a))) \<le> length (queue (fst a)) + ev_pbufs e"
  "rda_size (buffer (fst (tcp_event e a))) = rda_size (buffer (fst a))"
  "sched (snd (tcp_event e a)) = sched (snd a)"
proof -
  have "rda_size (hev_ring_buffer_read_release n r) = rda_size r" for n r
    by (simp add: hev_ring_buffer_read_release_def Let_def)
  then show "length (queue (fst (tcp_event e a))) \<le> length (queue (fst a)) + ev_pbufs e"
    "rda_size (buffer (fst (tcp_event e a))) = rda_size (buffer (fst a))"
    "sched (snd (tcp_event e a)) = sched (snd a)"
    by (cases e; cases a; auto simp: tcp_recv_handler_def tcp_sent_handler_def tcp_err_handler_def)+
qed

lemma fold_load:
  "length (queue (fst (fold tcp_event es a))) \<le> length (queue (fst a)) + sum_list (map ev_pbufs es) \<and>
   rda_size (buffer (fst (fold tcp_event es a))) = rda_size (buffer (fst a)) \<and>
   sched (snd (fold tcp_event es a)) = sched (snd a)"
proof (induction es arbitrary: a)
  case (Cons e es)
  from Cons [of "tcp_event e a"] tcp_event_load [of e a] show ?case by simp
qed simp

lemma switch_load:
  assumes "tcp_switch s k = (s', k')"
  shows "length (queue s') + sched_load k' \<le> length (queue s) + sched_load k"
    and "rda_size (buffer s') = rda_size (buffer s)"
    and "fd s' = fd s" "0 \<le> timeout s \<Longrightarrow> 0 \<le> timeout s'"
proof -
  from tcp_switch_grows [of s k] assms show "fd s' = fd s" "0 \<le> timeout s \<Longrightarrow> 0 \<le> timeout s'"
    by (auto simp: grows_def)
  have "length (queue s') + sched_load k' \<le> length (queue s) + sched_load k \<and> rda_size (buffer s') = rda_size (buffer s)"
  proof (cases "sched k")
    case (Cons es r)
    with assms have "fold tcp_event es (s, k\<lparr>sched := r\<rparr>) = (s', k')" by (simp add: tcp_switch_def)
    with fold_load [of es "(s, k\<lparr>sched := r\<rparr>)"] Cons show ?thesis by (simp add: sched_load_def)
  qed (use assms in \<open>simp add: tcp_switch_def\<close>)
  then show "length (queue s') + sched_load k' \<le> length (queue s) + sched_load k"
    and "rda_size (buffer s') = rda_size (buffer s)" by auto
qed

section \<open>Progress\<close>

lemma pbuf_free_header_le: "length (pbuf_free_header q n) \<le> length q"
  by (induction q n rule: pbuf_free_header.induct) auto

lemma pbuf_free_header_less:
  "q \<noteq> [] \<Longrightarrow> n \<noteq> 0 \<Longrightarrow> length (hd q) \<le> unat n \<Longrightarrow> length (pbuf_free_header q n) < length q"
  by (cases q) (auto simp: le_imp_less_Suc pbuf_free_header_le)

lemma sys_writev_load:
  assumes "sys_writev f iov w = (s, w')"
  shows "length (txq w' f) \<le> length (txq w f)" "yields w' = yields w" "rxq w' = rxq w"
    "length (txq w' f) < length (txq w f) \<or> s = int (length (concat iov))" "s \<le> int (length (concat iov))"
  using assms by (auto simp: sys_writev_def Let_def split: list.splits send_ev.splits)

lemma splice_f_load:
  assumes "up_inv up s k w" "tcp_splice_f s k w = (r, s', k', w')"
  shows "tcp_load s' k' w' + (if 0 < r then 1 else 0) \<le> tcp_load s k w"
    "yields w' = yields w" "fd s' = fd s" "0 \<le> timeout s \<Longrightarrow> 0 \<le> timeout s'"
proof -
  have "tcp_load s' k' w' + (if 0 < r then 1 else 0) \<le> tcp_load s k w \<and> yields w' = yields w \<and> fd s' = fd s \<and>
    (0 \<le> timeout s \<longrightarrow> 0 \<le> timeout s')"
  proof (cases "queue s = []")
    case True
    with assms(2) show ?thesis by (auto simp: tcp_splice_f_def tcp_load_def sched_load_def split: if_splits)
  next
    case False
    obtain n w1 where sw: "sys_writev (fd s) (take 64 (queue s)) w = (n, w1)" by fastforce
    note sl = sys_writev_load [OF sw]
    show ?thesis
    proof (cases "n \<le> 0")
      case True
      with False assms(2) sw sl show ?thesis by (auto simp: tcp_splice_f_def tcp_load_def)
    next
      case pos: False
      obtain s1 k1 where sk: "tcp_switch s k = (s1, k1)" by fastforce
      note sl1 = switch_load [OF sk]
      from tcp_switch_grows [of s k] sk obtain xs where xs: "queue s1 = queue s @ xs" by (auto simp: grows_def)
      let ?k = "if pcb s1 then tcp_recved (word_of_int n) k1 else k1"
      let ?q = "pbuf_free_header (queue s1) (word_of_int n)"
      from False pos sw sk assms(2) have e: "r = 1" "s' = s1\<lparr>queue := ?q\<rparr>" "k' = ?k" "w' = w1"
        by (auto simp: tcp_splice_f_def)
      have "concat (queue s) = concat (take 64 (queue s)) @ concat (drop 64 (queue s))"
        by (metis append_take_drop_id concat_append)
      then have "length (concat (take 64 (queue s))) \<le> length (concat (queue s))" by simp
      with sl(5) assms(1) have n: "n < 65536" by (auto simp: up_inv_def)
      with pos have u: "unat (word_of_int n :: u16) = nat n"
        by (simp add: unat_eq_nat_uint word_of_int_inverse)
      have h: "length (hd (queue s1)) \<le> length (concat (take 64 (queue s)))"
        using False xs by (cases "queue s") auto
      have "length ?q < length (queue s1) \<or> length (txq w1 (fd s)) < length (txq w (fd s))"
      proof (cases "length (txq w1 (fd s)) < length (txq w (fd s))")
        case False
        with sl(4) h u have "length (hd (queue s1)) \<le> unat (word_of_int n :: u16)" by simp
        moreover from u pos have "word_of_int n \<noteq> (0 :: u16)" by (auto simp: unat_eq_0 [symmetric] simp del: unat_eq_0)
        ultimately show ?thesis using xs \<open>queue s \<noteq> []\<close> by (intro disjI1 pbuf_free_header_less) auto
      qed simp
      with sl sl1 pbuf_free_header_le [of "queue s1" "word_of_int n"] e show ?thesis
        by (auto simp: tcp_load_def sched_load_def)
    qed
  qed
  then show "tcp_load s' k' w' + (if 0 < r then 1 else 0) \<le> tcp_load s k w"
    "yields w' = yields w" "fd s' = fd s" "0 \<le> timeout s \<Longrightarrow> 0 \<le> timeout s'" by auto
qed

lemma sys_recv_load:
  assumes "sys_recv f n w = (s, b, w')"
  shows "rx_load (rxq w' f) + length b \<le> rx_load (rxq w f)" "txq w' = txq w" "yields w' = yields w"
    "0 < s \<Longrightarrow> b \<noteq> []"
  using assms by (auto simp: sys_recv_def Let_def split: list.splits recv_ev.splits if_splits)

lemma fill_load:
  assumes "down_inv src s k (rxq w (fd s))" "tcp_fill s w = (res, s', w')"
  shows "rx_load (rxq w' (fd s)) + unat (rda_size (buffer s')) \<le> rx_load (rxq w (fd s)) + unat (rda_size (buffer s))"
    "txq w' = txq w" "yields w' = yields w" "0 < res \<Longrightarrow> 0 < unat (rda_size (buffer s'))"
    "queue s' = queue s" "fd s' = fd s" "timeout s' = timeout s"
proof -
  let ?v = "hev_ring_buffer_writing (buffer s)"
  from assms(1) have inv: "ring_inv (buffer s)" by (simp add: down_inv_def)
  obtain n b w1 where r: "sys_recv (fd s) (iov_size ?v) w = (n, b, w1)" by (metis prod_cases3)
  note sl = sys_recv_load [OF r]
  from sys_recv_spec(2) [OF r] writing_size(1) [OF inv] have "length b \<le> ring_free (buffer s)" by simp
  note u = ring_fill_unat(2) [OF inv this]
  have "(?v = [] \<or> n \<le> 0) \<and> s' = s \<and> res \<le> 0 \<and> (w' = w \<or> w' = w1) \<or>
      0 < n \<and> s' = s\<lparr>buffer := ring_fill b (buffer s)\<rparr> \<and> w' = w1"
    using assms(2) r by (cases "?v = []") (auto simp: tcp_fill_def split: if_splits)
  with u sl
  show "rx_load (rxq w' (fd s)) + unat (rda_size (buffer s')) \<le> rx_load (rxq w (fd s)) + unat (rda_size (buffer s))"
    "txq w' = txq w" "yields w' = yields w" "0 < res \<Longrightarrow> 0 < unat (rda_size (buffer s'))"
    "queue s' = queue s" "fd s' = fd s" "timeout s' = timeout s"
    by auto
qed

lemma feed_load:
  assumes "down_inv src s k es" "tcp_feed res s k = (r, s', k')"
  shows "unat (rda_size (buffer s')) \<le> unat (rda_size (buffer s))" "sched k' = sched k" "queue s' = queue s"
    "fd s' = fd s" "timeout s' = timeout s"
    "0 < r \<Longrightarrow> unat (rda_size (buffer s')) < unat (rda_size (buffer s)) \<or> 0 < res \<and> rda_size (buffer s) = 0"
proof -
  let ?r = "buffer s" and ?v = "hev_ring_buffer_reading (buffer s)"
  from assms(1) have inv: "ring_inv ?r" "length (ring_buffer.data ?r) \<le> TCP_SND_BUF" by (auto simp: down_inv_def)
  note rs = reading_sizes [OF inv]
  have rd: "?v = [] \<longleftrightarrow> rda_size ?r = 0" by (auto simp: hev_ring_buffer_reading_def Let_def)
  obtain ok n k1 where wa: "tcp_write_all (ring_buffer.data ?r) ?v True 0 k = (ok, n, k1)" by (metis prod_cases3)
  note ws = tcp_write_all_spec [OF wa reading_in [OF inv(1)] rs(2)]
  have g: "unat (rda_size (buffer s')) \<le> unat (rda_size (buffer s)) \<and> sched k' = sched k \<and> queue s' = queue s \<and>
    fd s' = fd s \<and> timeout s' = timeout s \<and>
    (0 < r \<longrightarrow> unat (rda_size (buffer s')) < unat (rda_size (buffer s)) \<or> 0 < res \<and> rda_size (buffer s) = 0)"
  proof (cases "pcb s \<and> ?v \<noteq> []")
    case True
    with assms(2) wa have "s' = s\<lparr>buffer := hev_ring_buffer_read_finish n ?r\<rparr>" "sched k' = sched k1"
      by (auto simp: tcp_feed_def tcp_output_def split: prod.splits)
    moreover from ws(1) rs(1) have "rda_size (hev_ring_buffer_read_finish n ?r) = 0"
      by (simp add: hev_ring_buffer_read_finish_def)
    moreover from ws(2) have "sched k1 = sched k" by (simp add: write_frame_def)
    ultimately show ?thesis using True rd by (auto simp: word_eq_0_unat)
  next
    case False
    with assms(2) rd show ?thesis by (auto simp: tcp_feed_def split: if_splits)
  qed
  then show "unat (rda_size (buffer s')) \<le> unat (rda_size (buffer s))" "sched k' = sched k" "queue s' = queue s"
    "fd s' = fd s" "timeout s' = timeout s"
    "0 < r \<Longrightarrow> unat (rda_size (buffer s')) < unat (rda_size (buffer s)) \<or> 0 < res \<and> rda_size (buffer s) = 0"
    by auto
qed

lemma splice_b_load:
  assumes "down_inv src s k (rxq w (fd s))" "up_inv up s k w" "tcp_splice_b s k w = (r, s', k', w')"
  shows "tcp_load s' k' w' + (if 0 < r then 1 else 0) \<le> tcp_load s k w"
    "yields w' = yields w" "fd s' = fd s" "0 \<le> timeout s \<Longrightarrow> 0 \<le> timeout s'"
proof -
  obtain res s1 w1 where f: "tcp_fill s w = (res, s1, w1)" by (metis prod_cases3)
  obtain s2 k2 where sw: "tcp_switch s1 k = (s2, k2)" by fastforce
  from assms(3) f sw have e: "tcp_feed res s2 k2 = (r, s', k')" "w' = w1"
    by (auto simp: tcp_splice_b_def split: prod.splits)
  note fl = fill_load [OF assms(1) f] and sl = switch_load [OF sw]
  have d1: "down_inv src s1 k (rxq w1 (fd s))" using assms(1,2) f by (rule fill_spec)
  note fe = feed_load [OF tcp_switch_down [OF d1 sw] e(1)]
  have "0 < r \<Longrightarrow> unat (rda_size (buffer s')) < unat (rda_size (buffer s1))"
    using fe(6) sl(2) fl(4) by (auto simp: word_eq_0_unat)
  then show "tcp_load s' k' w' + (if 0 < r then 1 else 0) \<le> tcp_load s k w"
    "yields w' = yields w" "fd s' = fd s" "0 \<le> timeout s \<Longrightarrow> 0 \<le> timeout s'"
    using fl sl fe e(2) by (auto simp: tcp_load_def sched_load_def)
qed

lemma yielder_load:
  assumes "hev_socks5_task_io_yielder t s w = (r, s', w')" "0 \<le> timeout s"
  shows "length (yields w') \<le> length (yields w)"
    and "t = HEV_TASK_WAITIO \<Longrightarrow> 0 \<le> r \<Longrightarrow> length (yields w') < length (yields w)"
  using assms
  by (auto simp: hev_socks5_task_io_yielder_def hev_task_sleep_def task_switch_def split: list.splits if_splits)

lemma tcp_yielder_load:
  assumes "tcp_task_io_yielder m t s k w = (r, s', k', w')" "0 \<le> timeout s"
  shows "tcp_load s' k' w' \<le> tcp_load s k w" "0 \<le> timeout s'"
    and "t = HEV_TASK_WAITIO \<Longrightarrow> 0 \<le> r \<Longrightarrow> tcp_load s' k' w' < tcp_load s k w"
proof -
  obtain s1 w1 where y: "hev_socks5_task_io_yielder t s w = (r, s1, w1)" and w1: "w' = w1"
    using assms(1) by (auto simp: tcp_task_io_yielder_def split: prod.splits)
  obtain s2 k2 where sk: "tcp_switch s1 k = (s2, k2)" by fastforce
  from assms(1) y sk have e: "s' = s2" "k' = k2\<lparr>pool := hev_socks5_tunnel_update_session m (data_node s2) (pool k2)\<rparr>"
    by (auto simp: tcp_task_io_yielder_def)
  note wt = yielder_waited [OF y]
  note all = waited_fields [OF wt] waited_tcp [OF wt] switch_load [OF sk] yielder_load [OF y assms(2)] w1 e
  show "tcp_load s' k' w' \<le> tcp_load s k w" "0 \<le> timeout s'"
    "t = HEV_TASK_WAITIO \<Longrightarrow> 0 \<le> r \<Longrightarrow> tcp_load s' k' w' < tcp_load s k w"
    using all assms(2) by (auto simp: tcp_load_def sched_load_def)
qed

section \<open>The loops\<close>

lemma forward_phase:
  assumes "tcp_ok up src mem clean (rf, rb, s, k, w)" "0 \<le> timeout s"
    "(if 0 \<le> rf then tcp_splice_f s k w else (rf, s, k, w)) = (rf', s', k', w')"
  shows "rtranclp (tcp_round m) (rf, rb, s, k, w) (rf', rb, s', k', w')"
    "tcp_load s' k' w' + (if 0 < rf' then 1 else 0) \<le> tcp_load s k w" "0 \<le> timeout s'"
proof -
  have "rtranclp (tcp_round m) (rf, rb, s, k, w) (rf', rb, s', k', w') \<and>
    tcp_load s' k' w' + (if 0 < rf' then 1 else 0) \<le> tcp_load s k w \<and> 0 \<le> timeout s'"
  proof (cases "0 \<le> rf")
    case True
    with assms(3) have f: "tcp_splice_f s k w = (rf', s', k', w')" by simp
    from assms(1) have "up_inv up s k w" by (simp add: tcp_ok_def)
    from splice_f_load [OF this f] assms(2) tcp_round.forward [OF True f] show ?thesis by blast
  qed (use assms in auto)
  then show "rtranclp (tcp_round m) (rf, rb, s, k, w) (rf', rb, s', k', w')"
    "tcp_load s' k' w' + (if 0 < rf' then 1 else 0) \<le> tcp_load s k w" "0 \<le> timeout s'" by auto
qed

lemma backward_phase:
  assumes "tcp_ok up src mem clean (rf, rb, s, k, w)" "0 \<le> timeout s"
    "(if 0 \<le> rb then tcp_splice_b s k w else (rb, s, k, w)) = (rb', s', k', w')"
  shows "rtranclp (tcp_round m) (rf, rb, s, k, w) (rf, rb', s', k', w')"
    "tcp_load s' k' w' + (if 0 < rb' then 1 else 0) \<le> tcp_load s k w" "0 \<le> timeout s'"
proof -
  have "rtranclp (tcp_round m) (rf, rb, s, k, w) (rf, rb', s', k', w') \<and>
    tcp_load s' k' w' + (if 0 < rb' then 1 else 0) \<le> tcp_load s k w \<and> 0 \<le> timeout s'"
  proof (cases "0 \<le> rb")
    case True
    with assms(3) have f: "tcp_splice_b s k w = (rb', s', k', w')" by simp
    from assms(1) have "down_inv src s k (rxq w (fd s))" "up_inv up s k w" by (simp_all add: tcp_ok_def)
    from splice_b_load [OF this f] assms(2) tcp_round.backward [OF True f] show ?thesis by blast
  qed (use assms in auto)
  then show "rtranclp (tcp_round m) (rf, rb, s, k, w) (rf, rb', s', k', w')"
    "tcp_load s' k' w' + (if 0 < rb' then 1 else 0) \<le> tcp_load s k w" "0 \<le> timeout s'" by auto
qed

lemma tcp_splice_loop_ends:
  assumes "tcp_ok up src mem clean (rf, rb, s, k, w)" "0 \<le> timeout s"
  shows "\<exists>rf' rb' s' k' w'. tcp_splice_loop m rf rb s k w = Some (s', k', w') \<and>
    rtranclp (tcp_round m) (rf, rb, s, k, w) (rf', rb', s', k', w') \<and> 0 \<le> timeout s'"
  using assms
proof (induction "tcp_load s k w" arbitrary: rf rb s k w rule: less_induct)
  case less
  obtain rf1 s1 k1 w1 where f: "(if 0 \<le> rf then tcp_splice_f s k w else (rf, s, k, w)) = (rf1, s1, k1, w1)"
    by (metis prod_cases4)
  note fp = forward_phase [OF less.prems f]
  from tcp_reach_ok [OF fp(1) less.prems(1)] have ok1: "tcp_ok up src mem clean (rf1, rb, s1, k1, w1)" .
  obtain rb1 s2 k2 w2 where b: "(if 0 \<le> rb then tcp_splice_b s1 k1 w1 else (rb, s1, k1, w1)) = (rb1, s2, k2, w2)"
    by (metis prod_cases4)
  note bp = backward_phase [OF ok1 fp(3) b]
  from tcp_reach_ok [OF bp(1) ok1] have ok2: "tcp_ok up src mem clean (rf1, rb1, s2, k2, w2)" .
  have r2: "rtranclp (tcp_round m) (rf, rb, s, k, w) (rf1, rb1, s2, k2, w2)"
    using fp(1) bp(1) by (rule rtranclp_trans)
  let ?t = "if 0 < rf1 \<or> 0 < rb1 then HEV_TASK_YIELD else HEV_TASK_WAITIO"
  show ?case
  proof (cases "\<not> (0 < rf1 \<or> 0 < rb1) \<and> (rf1 AND rb1) \<noteq> 0")
    case True
    with f b have "tcp_splice_loop m rf rb s k w = Some (s2, k2, w2)"
      by (subst tcp_splice_loop.simps) simp
    with r2 bp(3) show ?thesis by blast
  next
    case False
    obtain r s3 k3 w3 where y: "tcp_task_io_yielder m ?t s2 k2 w2 = (r, s3, k3, w3)" by (metis prod_cases4)
    note yl = tcp_yielder_load [OF y bp(3)]
    have step: "tcp_round m (rf1, rb1, s2, k2, w2) (rf1, rb1, s3, k3, w3)" using y by (rule tcp_round.waiting)
    have r3: "rtranclp (tcp_round m) (rf, rb, s, k, w) (rf1, rb1, s3, k3, w3)"
      using r2 step by (rule rtranclp.rtrancl_into_rtrancl)
    have unf: "tcp_splice_loop m rf rb s k w =
        (if r < 0 then Some (s3, k3, w3) else tcp_splice_loop m rf1 rb1 s3 k3 w3)"
      by (subst tcp_splice_loop.simps) (simp only: f b y Let_def prod.case False if_False)
    show ?thesis
    proof (cases "r < 0")
      case True
      with unf r3 yl(2) show ?thesis by auto
    next
      case pos: False
      have "tcp_load s3 k3 w3 < tcp_load s k w"
      proof (cases "0 < rf1 \<or> 0 < rb1")
        case True
        with fp(2) bp(2) yl(1) show ?thesis by (auto split: if_splits)
      next
        case False
        with yl(3) pos have "tcp_load s3 k3 w3 < tcp_load s2 k2 w2" by simp
        with fp(2) bp(2) show ?thesis by (auto split: if_splits)
      qed
      from less.hyps [OF this tcp_round_ok [OF step ok2] yl(2)] obtain rf4 rb4 s4 k4 w4 where
        l: "tcp_splice_loop m rf1 rb1 s3 k3 w3 = Some (s4, k4, w4)"
          "rtranclp (tcp_round m) (rf1, rb1, s3, k3, w3) (rf4, rb4, s4, k4, w4)" "0 \<le> timeout s4" by blast
      with unf pos have "tcp_splice_loop m rf rb s k w = Some (s4, k4, w4)" by simp
      with rtranclp_trans [OF r3 l(2)] l(3) show ?thesis by blast
    qed
  qed
qed

lemma tcp_drain_loop_ends:
  assumes "0 \<le> timeout s"
  shows "\<exists>s' k' w'. tcp_drain_loop m s k w = Some (s', k', w') \<and>
    rtranclp (tcp_round m) (rf, rb, s, k, w) (rf, rb, s', k', w')"
  using assms
proof (induction "length (yields w)" arbitrary: s k w rule: less_induct)
  case less
  show ?case
  proof (cases "\<not> pcb s \<or> hev_ring_buffer_get_use_size (buffer s) = 0")
    case True
    then show ?thesis by (subst tcp_drain_loop.simps) auto
  next
    case False
    obtain r s1 k1 w1 where y: "tcp_task_io_yielder m HEV_TASK_WAITIO s k w = (r, s1, k1, w1)" by (metis prod_cases4)
    have step: "tcp_round m (rf, rb, s, k, w) (rf, rb, s1, k1, w1)" using y by (rule tcp_round.waiting)
    obtain s0 w0 where y0: "hev_socks5_task_io_yielder HEV_TASK_WAITIO s w = (r, s0, w0)" "w1 = w0"
      using y by (auto simp: tcp_task_io_yielder_def split: prod.splits)
    have unf: "tcp_drain_loop m s k w = (if r < 0 then Some (s1, k1, w1) else tcp_drain_loop m s1 k1 w1)"
      using False y by (subst tcp_drain_loop.simps) simp
    show ?thesis
    proof (cases "r < 0")
      case True
      with unf step show ?thesis by auto
    next
      case pos: False
      with yielder_load(2) [OF y0(1) less.prems refl] y0(2) have "length (yields w1) < length (yields w)" by simp
      from less.hyps [OF this tcp_yielder_load(2) [OF y less.prems]] obtain s2 k2 w2 where
        l: "tcp_drain_loop m s1 k1 w1 = Some (s2, k2, w2)"
          "rtranclp (tcp_round m) (rf, rb, s1, k1, w1) (rf, rb, s2, k2, w2)" by blast
      with unf pos have "tcp_drain_loop m s k w = Some (s2, k2, w2)" by simp
      with converse_rtranclp_into_rtranclp [of "tcp_round m", OF step l(2)] show ?thesis by blast
    qed
  qed
qed

section \<open>Properties\<close>

text \<open>
  C6: A TCP session comes to an end. With a timeout set, which the handshake does, the splicer returns
  whatever the socket, the stack and the other tasks do, and it returns in a state its rounds reach,
  so that the streams are as in the property above.
\<close>
theorem tcp_session_ends:
  assumes "0 \<le> timeout s" "pcb s \<longrightarrow> tcp_fresh (s\<lparr>buffer := hev_ring_buffer_alloca sz g\<rparr>) k"
  shows "\<exists>s' k' w'. hev_socks5_session_tcp_splice m sz g s k w = Some (s', k', w') \<and>
    (pcb s \<longrightarrow> (\<exists>rf rb. rtranclp (tcp_round m)
       (1, 1, s\<lparr>buffer := hev_ring_buffer_alloca sz g\<rparr>, k, w) (rf, rb, s', k', w')))"
proof (cases "pcb s")
  case True
  let ?s = "s\<lparr>buffer := hev_ring_buffer_alloca sz g\<rparr>"
  from assms(1) have t: "0 \<le> timeout ?s" by simp
  from tcp_splice_loop_ends [OF tcp_fresh_ok t] assms(2) True obtain rf rb s1 k1 w1 where
    l: "tcp_splice_loop m 1 1 ?s k w = Some (s1, k1, w1)"
      "rtranclp (tcp_round m) (1, 1, ?s, k, w) (rf, rb, s1, k1, w1)" "0 \<le> timeout s1" by blast
  from tcp_drain_loop_ends [OF l(3)] obtain s2 k2 w2 where
    d: "tcp_drain_loop m s1 k1 w1 = Some (s2, k2, w2)"
      "rtranclp (tcp_round m) (rf, rb, s1, k1, w1) (rf, rb, s2, k2, w2)" by blast
  from l(1) d(1) True have "hev_socks5_session_tcp_splice m sz g s k w = Some (s2, k2, w2)"
    by (simp add: hev_socks5_session_tcp_splice_def)
  with rtranclp_trans [OF l(2) d(2)] show ?thesis by blast
qed (simp add: hev_socks5_session_tcp_splice_def)

theorem tcp_session_ends_witness:
  "\<exists>s' k' w'. hev_socks5_session_tcp_splice 0 4 [0, 0, 0, 0] tcp_sample stack_sample tcp_world = Some (s', k', w')"
proof -
  have "tcp_sample\<lparr>buffer := hev_ring_buffer_alloca 4 [0, 0, 0, 0]\<rparr> = tcp_sample"
    by (simp add: tcp_sample_def)
  with tcp_session_ends [of tcp_sample 4 "[0, 0, 0, 0]" stack_sample 0 tcp_world] tcp_sample_fresh show ?thesis
    by (auto simp: tcp_sample_def hev_socks5_session_tcp_zero_def)
qed

lemma stopped_round:
  assumes "tcp_round m a b" "a = (rf, rb, s, k, w)" "rb < 0"
  shows "\<exists>rf' s' k' w'. b = (rf', rb, s', k', w') \<and> written k' = written k \<and> fin k' = fin k \<and>
    rxq w' = rxq w \<and> fd s' = fd s"
  using assms
proof (induction rule: tcp_round.induct)
  case (forward rf0 s0 k0 w0 r s' k' w' rb0)
  note st = forward.hyps(2)
  have "rxq w' = rxq w0 \<and> fd s' = fd s0"
    using st tcp_switch_grows [of s0 k0]
    by (auto simp: tcp_splice_f_def grows_def dest: sys_writev_load(3) split: prod.splits if_splits)
  with splice_f_frame [OF st] forward.prems show ?case by auto
next
  case (waiting t s0 k0 w0 r s' k' w' rf0 rb0)
  with tcp_yielder_spec(3,6,7,8) [OF waiting.hyps(1)] show ?case by auto
qed auto

lemma stopped_rounds:
  assumes "rtranclp (tcp_round m) (rf, rb, s, k, w) b" "rb < 0"
  shows "\<exists>rf' s' k' w'. b = (rf', rb, s', k', w') \<and> written k' = written k \<and> fin k' = fin k \<and>
    rxq w' = rxq w \<and> fd s' = fd s"
  using assms
proof (induction rule: rtranclp_induct)
  case (step b c)
  then show ?case using stopped_round [OF step.hyps(2)] by force
qed auto

text \<open>
  C10: One segment the tunnel device does not take at once ends the download. If \<open>tcp_output\<close> reports an
  error, as it does when the write to the device would block, the direction to the stack is closed
  for good although the stack has accepted the bytes: no later state of the session has read
  another byte from the server or written one to the stack, and the application gets no FIN.
\<close>
theorem tcp_output_error:
  assumes "tcp_feed res s k = (r, s', k')" "pcb s" "readable (buffer s) \<noteq> []" "outs k = False # os"
    "down_inv src s k es" "\<not> lost k" "\<not> fin k" "False \<notin> set (wmem k)"
    "rtranclp (tcp_round m) (rf, r, s', k', w) (rf2, rb2, s2, k2, w2)"
  shows "r = -1 \<and> rb2 = -1 \<and> written k2 = written k @ readable (buffer s) \<and> \<not> fin k2 \<and>
    rxq w2 (fd s2) = rxq w (fd s)"
proof -
  let ?r = "buffer s" and ?v = "hev_ring_buffer_reading (buffer s)"
  from assms(5) have inv: "ring_inv ?r" "length (ring_buffer.data ?r) \<le> TCP_SND_BUF" by (auto simp: down_inv_def)
  note rs = reading_sizes [OF inv]
  obtain ok n k1 where wa: "tcp_write_all (ring_buffer.data ?r) ?v True 0 k = (ok, n, k1)" by (metis prod_cases3)
  note ws = tcp_write_all_spec [OF wa reading_in [OF inv(1)] rs(2)]
  have "length (refs k) + length (iov_refs ?v) \<le> TCP_SND_BUF"
    using ring.room [OF inv(1)] inv(2) assms(5) by (auto simp: reading_refs [OF inv(1)] down_inv_def)
  with ws(6) assms(6-8) have nl: "\<not> lost k1" by blast
  have rd: "readable ?r = map ((!) (ring_buffer.data ?r)) (out_refs ?r)"
    by (simp add: readable_def out_refs_def ring_at_pos)
  have "tcp_output k1 = (False, k1\<lparr>outs := tl (outs k1)\<rparr>)"
    using ws(2) assms(4) by (simp add: tcp_output_def write_frame_def)
  with assms(1-3) wa rs(3) have e: "r = -1" "k' = k1\<lparr>outs := tl (outs k1)\<rparr>" "fd s' = fd s"
    by (auto simp: tcp_feed_def)
  have "written k' = written k @ readable ?r" "\<not> fin k'"
    using ws(2,4) nl assms(7) by (auto simp: e reading_refs [OF inv(1)] rd write_frame_def)
  with stopped_rounds [OF assms(9)] e show ?thesis by auto
qed

text \<open>A ring with three readable bytes, a device that does not take the segment.\<close>

definition feed_sample :: hev_socks5_session_tcp where
  "feed_sample = tcp_sample\<lparr>buffer := ring_fill [72, 84, 84] (buffer tcp_sample)\<rparr>"

theorem tcp_output_error_witness:
  "\<exists>r s' k'. tcp_feed 1 feed_sample (stack_sample\<lparr>outs := [False]\<rparr>) = (r, s', k') \<and> r = -1 \<and>
    written k' = [72, 84, 84]"
proof -
  let ?k = "stack_sample\<lparr>outs := [False]\<rparr>" and ?r = "buffer tcp_sample"
  from tcp_sample_fresh have i: "ring_inv ?r" by (simp add: tcp_fresh_def)
  have z: "readable ?r = []" "inflight ?r = []" "in_refs ?r = []" "length [72, 84, 84 :: u8] \<le> ring_free ?r"
    "length (ring_buffer.data ?r) = 4"
    by (simp_all add: tcp_sample_def hev_ring_buffer_alloca_def readable_def inflight_def in_refs_def ring_free_def)
  note f = ring.fill [OF i z(4)] fill_refs [OF i z(4)]
  have b: "readable (buffer feed_sample) = [72, 84, 84]" "pcb feed_sample"
    using f z by (simp_all add: feed_sample_def tcp_sample_def)
  have d: "down_inv [72, 84, 84] feed_sample ?k []"
    using f z by (simp add: feed_sample_def down_inv_def stack_sample_def del: ring_fill_simps)
  obtain r s' k' where e: "tcp_feed 1 feed_sample ?k = (r, s', k')" by (metis prod_cases3)
  from tcp_output_error [OF e b(2) _ _ d, of "[]" 0 1 tcp_world 1 r s' k' tcp_world] b e show ?thesis
    by (auto simp: stack_sample_def)
qed

end
