(* ===== verification/Session_UDP.thy ===== *)
theory Session_UDP
  imports Session UDP_Relay
begin

text \<open>
  A UDP session, \<open>src/hev-socks5-session-udp.c\<close>: the datagrams of one flow of the TCP/IP stack wait in
  a list of frames until they are sent to the SOCKS5 server, and what the server sends back becomes
  datagrams of the stack.

  As in a TCP session the handler runs in other tasks, and the environment is a schedule of its
  calls. The handler only appends to the list, so its calls during a blocking send or receive are
  run when that call is over.
\<close>

section \<open>The stack\<close>

text \<open>
  A datagram arrives as a chain of packet buffers, given by the bytes of each: one that was
  reassembled from the fragments of IP has several. \<open>pbuf_payload\<close> is what \<open>payload\<close> and \<open>len\<close> of
  the chain describe, the bytes of its first buffer.
\<close>

type_synonym pbuf_chain = "bytes list"

fun pbuf_payload :: "pbuf_chain \<Rightarrow> bytes" where
  "pbuf_payload [] = []"
| "pbuf_payload (b # _) = b"

datatype udp_ev = EvDatagram pbuf_chain ip_addr u16 | EvClosed | EvTable sessions

text \<open>
  \<open>udns\<close> is the mapped DNS; \<open>frame_mem\<close> what a block from \<open>hev_malloc\<close> holds; \<open>accepted\<close> are the frames
  the handler has queued and \<open>udp_out\<close> the datagrams given to \<open>udp_sendfrom\<close>, with their source.
  \<open>ubufs\<close> says which of the next packet buffers can be allocated, \<open>usends\<close> which of the next
  \<open>udp_sendfrom\<close> calls succeed (\<open>True\<close> beyond the lists); \<open>uremoved\<close> is set by \<open>udp_remove\<close>.
\<close>

record udp_frame =
  frame_addr :: HevSocks5Addr
  frame_data :: pbuf_chain

record udp_stack =
  usched :: "udp_ev list list"
  udns :: "HevMappedDNS option"
  frame_mem :: HevSocks5Addr
  accepted :: "udp_frame list"
  udp_out :: "(bytes \<times> ip_addr \<times> u16) list"
  ubufs :: "bool list"
  usends :: "bool list"
  uremoved :: bool
  upool :: sessions

definition UDP_POOL_SIZE :: int where
  "UDP_POOL_SIZE = 512"

section \<open>The session\<close>

text \<open>
  The list of frames is used as a queue only. \<open>pin_addr\<close> holds the four bytes of \<open>self->addr\<close> (zero
  while it is not set).
\<close>

record hev_socks5_session_udp = hev_socks5_client_udp +
  udata_node :: addr
  frame_list :: "udp_frame list"
  udp_pcb :: bool
  frames :: int
  pin_addr :: bytes
  pin_port :: int

subsection \<open>The handler\<close>

definition udp_recv_handler :: "pbuf_chain option \<Rightarrow> ip_addr \<Rightarrow> u16 \<Rightarrow> hev_socks5_session_udp \<Rightarrow> udp_stack \<Rightarrow> world \<Rightarrow>
    hev_socks5_session_udp \<times> udp_stack \<times> world" where
  "udp_recv_handler p local_ip local_port self k w =
     (case p of
        None \<Rightarrow> (hev_socks5_session_terminate self, k, w)
      | Some d \<Rightarrow>
          if frames self > UDP_POOL_SIZE then (self, k, w)
          else
            let (ok, w) = hev_malloc w in
            if \<not> ok then (self, k, w)
            else
              (case hev_socks5_addr_from_lwip (frame_mem k) local_ip local_port (udns k) of
                 None \<Rightarrow> (self, k, w\<lparr>crashed := True\<rparr>)
               | Some (_, addr, dns) \<Rightarrow>
                   let self = (if atype addr = HEV_SOCKS5_ADDR_TYPE_NAME
                               then self\<lparr>pin_addr := take 4 (ip_bytes local_ip), pin_port := uint local_port\<rparr> else self);
                       fr = \<lparr>frame_addr = addr, frame_data = d\<rparr>
                   in (self\<lparr>frames := frames self + 1, frame_list := frame_list self @ [fr]\<rparr>,
                       k\<lparr>udns := dns, accepted := accepted k @ [fr]\<rparr>, w)))"

fun udp_event :: "udp_ev \<Rightarrow> hev_socks5_session_udp \<times> udp_stack \<times> world \<Rightarrow> hev_socks5_session_udp \<times> udp_stack \<times> world" where
  "udp_event (EvDatagram d ip port) (self, k, w) = udp_recv_handler (Some d) ip port self k w"
| "udp_event EvClosed (self, k, w) = udp_recv_handler None \<lparr>ip_bytes = [], ip_type = IPADDR_TYPE_ANY\<rparr> 0 self k w"
| "udp_event (EvTable s) (self, k, w) = (self, k\<lparr>upool := s\<rparr>, w)"

definition udp_switch :: "hev_socks5_session_udp \<Rightarrow> udp_stack \<Rightarrow> world \<Rightarrow> hev_socks5_session_udp \<times> udp_stack \<times> world" where
  "udp_switch self k w =
     (case usched k of [] \<Rightarrow> (self, k, w) | es # r \<Rightarrow> fold udp_event es (self, k\<lparr>usched := r\<rparr>, w))"

definition udp_session_yielder :: "int \<Rightarrow> yield_type \<Rightarrow> hev_socks5_session_udp \<Rightarrow> udp_stack \<Rightarrow> world \<Rightarrow>
    int \<times> hev_socks5_session_udp \<times> udp_stack \<times> world" where
  "udp_session_yielder m t self k w =
     (let (gone, self, w) =
            (if stype self = HEV_SOCKS5_TYPE_UDP_IN_UDP then
               let (res, _, w) = sys_recv (fd self) 1 w
               in if res = 0 \<or> (res < 0 \<and> \<not> eagain w) then (True, hev_socks5_set_timeout self 0, w)
                  else (False, self, w)
             else (False, self, w))
      in if gone then (-1, self, k, w)
         else
           let (res, self, w) = hev_socks5_task_io_yielder t self w;
               (self, k, w) = udp_switch self k w;
               k = k\<lparr>upool := hev_socks5_tunnel_update_session m (udata_node self) (upool k)\<rparr>
           in (res, self, k, w))"

subsection \<open>To the server\<close>

text \<open>A frame that is not there would be a \<open>NULL\<close> node.\<close>

primrec udp_free_sent :: "nat \<Rightarrow> hev_socks5_session_udp \<Rightarrow> world \<Rightarrow> hev_socks5_session_udp \<times> world" where
  "udp_free_sent 0 self w = (self, w)"
| "udp_free_sent (Suc n) self w =
     (case frame_list self of
        [] \<Rightarrow> (self, w\<lparr>crashed := True\<rparr>)
      | f # fs \<Rightarrow> udp_free_sent n (self\<lparr>frame_list := fs, frames := frames self - 1\<rparr>) (hev_free w))"

definition hev_socks5_session_udp_fwd_f :: "nat \<Rightarrow> hev_socks5_session_udp \<Rightarrow> udp_stack \<Rightarrow> world \<Rightarrow>
    int \<times> hev_socks5_session_udp \<times> udp_stack \<times> world" where
  "hev_socks5_session_udp_fwd_f num self k w =
     (if frames self \<le> 0 then (0, self, k, w)
      else
        let msgv = map (\<lambda>f. \<lparr>msg_addr = frame_addr f, msg_data = pbuf_payload (frame_data f)\<rparr>)
                     (take (min num (nat (frames self))) (frame_list self));
            (res, self, w) = hev_socks5_udp_sendmmsg hev_socks5_client_udp_get_fd msgv self w;
            (self, k, w) = udp_switch self k w
        in if res \<le> 0 then (-1, self, k, w)
           else let (self, w) = udp_free_sent (nat res) self w in (1, self, k, w))"

subsection \<open>From the server\<close>

text \<open>
  \<open>saddr\<close> is the uninitialised address on the stack. A message beyond those that were received, or one
  without an address, is an access to memory that is not there.
\<close>

definition udp_source :: "udp_slot \<Rightarrow> ip_addr \<Rightarrow> hev_socks5_session_udp \<Rightarrow> (int \<times> ip_addr \<times> u16) option" where
  "udp_source s saddr self =
     (if pin_addr self \<noteq> [0, 0, 0, 0] \<and> pin_port self \<noteq> 0
      then Some (0, saddr\<lparr>ip_bytes := patch 0 (pin_addr self) (ip_bytes saddr)\<rparr>, word_of_int (pin_port self))
      else (case slot_addr s of
              At a \<Rightarrow> Some (hev_socks5_addr_into_lwip (drop a (slot_mem s)) saddr 0)
            | _ \<Rightarrow> None))"

definition pbuf_alloc_reference :: "udp_stack \<Rightarrow> bool \<times> udp_stack" where
  "pbuf_alloc_reference k = (case ubufs k of [] \<Rightarrow> True | b # _ \<Rightarrow> b, k\<lparr>ubufs := tl (ubufs k)\<rparr>)"

definition udp_sendfrom :: "bytes \<Rightarrow> ip_addr \<Rightarrow> u16 \<Rightarrow> udp_stack \<Rightarrow> bool \<times> udp_stack" where
  "udp_sendfrom d ip port k =
     (case usends k of [] \<Rightarrow> True | b # _ \<Rightarrow> b,
      k\<lparr>usends := tl (usends k), udp_out := udp_out k @ [(d, ip, port)]\<rparr>)"

primrec udp_deliver :: "ip_addr \<Rightarrow> nat \<Rightarrow> udp_slot list \<Rightarrow> hev_socks5_session_udp \<Rightarrow> udp_stack \<Rightarrow> world \<Rightarrow>
    int \<times> hev_socks5_session_udp \<times> udp_stack \<times> world" where
  "udp_deliver saddr 0 ss self k w = (1, self, k, w)"
| "udp_deliver saddr (Suc n) ss self k w =
     (case ss of
        [] \<Rightarrow> (-1, self, k, w\<lparr>crashed := True\<rparr>)
      | s # ss \<Rightarrow>
          (case udp_source s saddr self of
             None \<Rightarrow> (-1, self, k, w\<lparr>crashed := True\<rparr>)
           | Some (ret, src, port) \<Rightarrow>
               if ret < 0 then (-1, self, k, w)
               else
                 let (b, k) = pbuf_alloc_reference k in
                 if \<not> b then (-1, self, k, w)
                 else
                   let (self, k, w) = udp_switch self k w;
                       (ok, k) = udp_sendfrom (bslice (slot_buf s) (unat (slot_len s)) (slot_mem s)) src port k
                   in if \<not> ok then (-1, self, k, w) else udp_deliver saddr n ss self k w))"

definition hev_socks5_session_udp_fwd_b :: "ip_addr \<Rightarrow> nat \<Rightarrow> hev_socks5_session_udp \<Rightarrow> udp_stack \<Rightarrow> world \<Rightarrow>
    int \<times> hev_socks5_session_udp \<times> udp_stack \<times> world" where
  "hev_socks5_session_udp_fwd_b saddr num self k w =
     (let msgv = replicate num \<lparr>slot_mem = replicate UDP_BUF_SIZE 0, slot_addr = Unset, slot_buf = 0,
                                slot_len = word_of_nat UDP_BUF_SIZE\<rparr>;
          (res, msgv, self, w) = hev_socks5_udp_recvmmsg hev_socks5_client_udp_get_fd msgv True self w;
          (self, k, w) = udp_switch self k w
      in if res \<le> 0 then (if res = -1 \<and> eagain w then 0 else -1, self, k, w)
         else udp_deliver saddr (nat res) msgv self k w)"

partial_function (option) session_udp_loop :: "int \<Rightarrow> ip_addr \<Rightarrow> nat \<Rightarrow> int \<Rightarrow> int \<Rightarrow> hev_socks5_session_udp \<Rightarrow>
    udp_stack \<Rightarrow> world \<Rightarrow> (hev_socks5_session_udp \<times> udp_stack \<times> world) option" where
  "session_udp_loop m saddr num res_f res_b self k w =
     (let (res_f, self, k, w) = (if res_f \<ge> 0 then hev_socks5_session_udp_fwd_f num self k w else (res_f, self, k, w));
          (res_b, self, k, w) = (if res_b \<ge> 0 then hev_socks5_session_udp_fwd_b saddr num self k w else (res_b, self, k, w))
      in if \<not> (res_f > 0 \<or> res_b > 0) \<and> (res_f AND res_b) \<noteq> 0 then Some (self, k, w)
         else
           let (r, self, k, w) = udp_session_yielder m
                 (if res_f > 0 \<or> res_b > 0 then HEV_TASK_YIELD else HEV_TASK_WAITIO) self k w
           in if r \<noteq> 0 then Some (self, k, w) else session_udp_loop m saddr num res_f res_b self k w)"

definition hev_socks5_session_udp_splice :: "int \<Rightarrow> ip_addr \<Rightarrow> nat \<Rightarrow> (hev_socks5_session_udp, udp_stack) splice_fun" where
  "hev_socks5_session_udp_splice m saddr num self k w = session_udp_loop m saddr num 1 1 self k w"

subsection \<open>Life\<close>

definition hev_socks5_session_udp_set_upstream_addr :: "net_env \<Rightarrow> HevConfigServer \<Rightarrow> HevSocks5Addr \<Rightarrow>
    hev_socks5_session_udp step" where
  "hev_socks5_session_udp_set_upstream_addr env srv addr base w =
     (let addr = (if srv_udp_in_udp srv \<and> srv_udp_addr srv \<noteq> []
                  then snd (hev_socks5_addr_from_name addr (srv_udp_addr srv) (hev_socks5_addr_get_port addr)) else addr)
      in hev_socks5_client_udp_set_upstream_addr env (hev_socks5_session_bind srv) addr base w)"

definition hev_socks5_session_udp_construct :: "HevConfigServer \<Rightarrow> hev_socks5_session_udp \<Rightarrow> int \<times> hev_socks5_session_udp" where
  "hev_socks5_session_udp_construct srv self =
     (0, (hev_socks5_client_udp_construct
            (if srv_udp_in_udp srv then HEV_SOCKS5_TYPE_UDP_IN_UDP else HEV_SOCKS5_TYPE_UDP_IN_TCP) self)\<lparr>udp_pcb := True\<rparr>)"

definition hev_socks5_session_udp_zero :: "addr \<Rightarrow> hev_socks5_session_udp" where
  "hev_socks5_session_udp_zero n =
     \<lparr>fd = 0, timeout = 0, stype = HEV_SOCKS5_TYPE_NONE, udp_associated = False, addr_family = 0,
      auth_user = None, auth_pass = None, udp_fd = 0, udata_node = n, frame_list = [], udp_pcb = False,
      frames = 0, pin_addr = [0, 0, 0, 0], pin_port = 0\<rparr>"

definition hev_socks5_session_udp_new :: "HevConfigServer \<Rightarrow> addr \<Rightarrow> world \<Rightarrow> hev_socks5_session_udp option \<times> world" where
  "hev_socks5_session_udp_new srv n w =
     (let (ok, w) = hev_malloc w in
      if \<not> ok then (None, w)
      else
        let (res, self) = hev_socks5_session_udp_construct srv (hev_socks5_session_udp_zero n)
        in if res < 0 then (None, hev_free w) else (Some self, w))"

primrec udp_free_frames :: "udp_frame list \<Rightarrow> world \<Rightarrow> world" where
  "udp_free_frames [] w = w"
| "udp_free_frames (f # fs) w = udp_free_frames fs (hev_free w)"

text \<open>
  No task keeps the mutex while it gives up the processor, so taking it does not wait here. (The calls
  of the handler that \<open>udp_deliver\<close> admits when it takes the mutex only add behaviours.)
\<close>

definition hev_socks5_session_udp_destruct :: "hev_socks5_session_udp \<Rightarrow> udp_stack \<Rightarrow> world \<Rightarrow> udp_stack \<times> world" where
  "hev_socks5_session_udp_destruct self k w =
     (let w = udp_free_frames (frame_list self) w;
          k = (if udp_pcb self then k\<lparr>uremoved := True\<rparr> else k)
      in (k, hev_socks5_client_udp_destruct self w))"

definition hev_socks5_session_udp_class :: "net_env \<Rightarrow> HevConfigServer \<Rightarrow> hev_socks5_session_udp client_class" where
  "hev_socks5_session_udp_class env srv = (hev_socks5_client_udp_class env)\<lparr>
     set_upstream_addr := hev_socks5_session_udp_set_upstream_addr env srv,
     klass_binder := hev_socks5_session_bind srv\<rparr>"

end
