(* ===== verification/UDP_Frames.thy ===== *)
theory UDP_Frames
  imports Session_UDP
begin

text \<open>
  The datagrams of a UDP session: what holds of the list of frames and of what was sent in every state
  that the rounds of the splicer can reach, whatever the handler does in between.
\<close>

section \<open>The list of frames\<close>

text \<open>
  Every queued frame is one block of memory, and the list is what the handler has accepted less what
  was sent, in order. A table of the mapped DNS that is accessed out of bounds, or a message without
  an address, ends all claims.
\<close>

definition frames_ok :: "int \<Rightarrow> hev_socks5_session_udp \<Rightarrow> udp_stack \<Rightarrow> world \<Rightarrow> bool" where
  "frames_ok base s k w \<longleftrightarrow> crashed w \<or>
     frames s = int (length (frame_list s)) \<and> frames s \<le> UDP_POOL_SIZE + 1 \<and>
     (\<exists>gone. accepted k = gone @ frame_list s) \<and> live w = base + frames s"

lemma session_terminate_udp [simp]:
  "frames (hev_socks5_session_terminate s) = frames s"
  "frame_list (hev_socks5_session_terminate s) = frame_list s"
  by (simp_all add: hev_socks5_session_terminate_def hev_socks5_set_timeout_def)

definition udp_grows :: "hev_socks5_session_udp \<times> udp_stack \<times> world \<Rightarrow> hev_socks5_session_udp \<times> udp_stack \<times> world \<Rightarrow> bool" where
  "udp_grows a b \<longleftrightarrow> (case a of (s, k, w) \<Rightarrow> case b of (s', k', w') \<Rightarrow>
     stype s' = stype s \<and> fd s' = fd s \<and> udp_fd s' = udp_fd s \<and> (crashed w \<longrightarrow> crashed w') \<and>
     rxq w' = rxq w \<and> dgq w' = dgq w \<and> eagain w' = eagain w \<and> sent w' = sent w \<and>
     (\<exists>xs. frame_list s' = frame_list s @ xs \<and> accepted k' = accepted k @ xs) \<and>
     (\<forall>base. frames_ok base s k w \<longrightarrow> frames_ok base s' k' w'))"

lemma udp_grows_refl [simp, intro]: "udp_grows a a"
  by (auto simp: udp_grows_def)

lemma udp_grows_trans [trans]: "udp_grows a b \<Longrightarrow> udp_grows b c \<Longrightarrow> udp_grows a c"
  by (fastforce simp: udp_grows_def)

lemma udp_handler_grows: "udp_grows (s, k, w) (udp_recv_handler p ip port s k w)"
proof (cases p)
  case None
  then show ?thesis
    by (simp add: udp_grows_def udp_recv_handler_def frames_ok_def)
      (simp add: hev_socks5_session_terminate_def hev_socks5_set_timeout_def)
next
  case (Some d)
  obtain ok w1 where a: "hev_malloc w = (ok, w1)" by fastforce
  then have m: "live w1 = live w + (if ok then 1 else 0)" "crashed w1 = crashed w" "rxq w1 = rxq w"
    "dgq w1 = dgq w" "eagain w1 = eagain w" "sent w1 = sent w"
    by (auto simp: hev_malloc_def split: list.splits bool.splits)
  consider "frames s > UDP_POOL_SIZE" | "frames s \<le> UDP_POOL_SIZE" "\<not> ok" | "frames s \<le> UDP_POOL_SIZE" ok by linarith
  then show ?thesis
  proof cases
    case 2
    with Some a have "udp_recv_handler p ip port s k w = (s, k, w1)" by (simp add: udp_recv_handler_def)
    with 2 m show ?thesis by (simp add: udp_grows_def frames_ok_def)
  next
    case 3
    let ?l = "hev_socks5_addr_from_lwip (frame_mem k) ip port (udns k)"
    show ?thesis
    proof (cases ?l)
      case None
      with Some a 3 m show ?thesis by (simp add: udp_recv_handler_def udp_grows_def frames_ok_def)
    next
      case l: (Some x)
      then obtain r addr dns where x: "?l = Some (r, addr, dns)" by (metis prod_cases3)
      let ?f = "\<lparr>frame_addr = addr, frame_data = d\<rparr>"
      obtain s' where s': "udp_recv_handler p ip port s k w =
          (s'\<lparr>frames := frames s + 1, frame_list := frame_list s @ [?f]\<rparr>, k\<lparr>udns := dns, accepted := accepted k @ [?f]\<rparr>, w1)"
        "stype s' = stype s" "fd s' = fd s" "udp_fd s' = udp_fd s"
        using Some a 3 x
        by (intro that [of "if atype addr = HEV_SOCKS5_ADDR_TYPE_NAME
          then s\<lparr>pin_addr := take 4 (ip_bytes ip), pin_port := uint port\<rparr> else s"]) (simp_all add: udp_recv_handler_def Let_def)
      have "frames_ok base (s'\<lparr>frames := frames s + 1, frame_list := frame_list s @ [?f]\<rparr>)
          (k\<lparr>udns := dns, accepted := accepted k @ [?f]\<rparr>) w1" if "frames_ok base s k w" for base
        using that 3 m by (auto simp: frames_ok_def)
      with s' m show ?thesis by (simp add: udp_grows_def)
    qed
  qed (simp add: Some udp_recv_handler_def)
qed

lemma udp_table_grows: "udp_grows (s, k, w) (s, k\<lparr>upool := x\<rparr>, w)" "udp_grows (s, k, w) (s, k\<lparr>usched := y\<rparr>, w)"
  by (auto simp: udp_grows_def frames_ok_def)

lemma udp_event_grows: "udp_grows a (udp_event e a)"
  by (cases e; cases a) (simp_all add: udp_handler_grows udp_table_grows)

lemma udp_fold_grows: "udp_grows a (fold udp_event es a)"
proof (induction es arbitrary: a)
  case (Cons e es)
  show ?case using udp_grows_trans [OF udp_event_grows Cons] by simp
qed simp

lemma udp_switch_grows: "udp_grows (s, k, w) (udp_switch s k w)"
  by (auto simp: udp_switch_def split: list.splits intro: udp_grows_trans [OF udp_table_grows(2) udp_fold_grows])

lemma switch_grows: "udp_switch s k w = c \<Longrightarrow> udp_grows (s, k, w) c"
  using udp_switch_grows by metis

lemma frames_ok_winds:
  assumes "frames_ok base s k w" "winds s w s' w'"
  shows "frames_ok base s' k w'" "frame_list s' = frame_list s" "frames s' = frames s"
proof -
  from assms(2) have "hev_socks5.more s' = hev_socks5.more s" by (simp add: winds_def)
  then show e: "frame_list s' = frame_list s" "frames s' = frames s" by (cases s; cases s'; simp)+
  from assms e show "frames_ok base s' k w'" by (auto simp: frames_ok_def winds_def)
qed

lemma udp_free_sent_ok:
  "n \<le> length (frame_list s) \<Longrightarrow> frames_ok base s k w \<Longrightarrow> udp_free_sent n s w = (s', w') \<Longrightarrow>
   frames_ok base s' k w' \<and> stype s' = stype s \<and> fd s' = fd s \<and> udp_fd s' = udp_fd s \<and>
   rxq w' = rxq w \<and> dgq w' = dgq w \<and> crashed w' = crashed w \<and> frame_list s' = drop n (frame_list s)"
proof (induction n arbitrary: s w)
  case (Suc n)
  then obtain f fs where fl: "frame_list s = f # fs" by (cases "frame_list s") auto
  let ?s = "s\<lparr>frame_list := fs, frames := frames s - 1\<rparr>"
  have "\<exists>h. gone @ f # fs = h @ fs" for gone by (metis append.assoc append_Cons append_Nil)
  with Suc.prems(2) fl have "frames_ok base ?s k (hev_free w)" by (auto simp: frames_ok_def hev_free_def)
  from Suc.IH [OF _ this] Suc.prems(1,3) fl show ?case by (simp add: hev_free_def)
qed simp

section \<open>The two directions\<close>

lemma udp_vec_length: "udp_vec hdr ms = Some v \<Longrightarrow> length v = length ms"
  by (induction ms arbitrary: v) (auto simp: Let_def split: if_splits option.splits)

lemma udp_free_sent_world: "sent (snd (udp_free_sent n s w)) = sent w"
  by (induction n arbitrary: s w) (auto simp: hev_free_def split: list.splits)

lemma udp_sendmmsg_bound:
  assumes "hev_socks5_udp_sendmmsg get_fd ms s w = (r, s', w')"
  shows "r \<le> int (length ms)"
  using assms
  by (auto simp: hev_socks5_udp_sendmmsg_def hev_socks5_udp_sendmmsg_tcp_def hev_socks5_udp_sendmmsg_udp_def
      hev_task_io_socket_sendmmsg_def split: HevSocks5Type.splits option.splits prod.splits if_splits
      dest!: sendmmsg_loop_prefix udp_vec_length)

lemma udp_recvmmsg_winds:
  assumes "hev_socks5_udp_recvmmsg hev_socks5_client_udp_get_fd ss True s w = (r, ss', s', w')"
  shows "winds s w s' w'"
proof (cases "stype s = HEV_SOCKS5_TYPE_UDP_IN_TCP \<or> stype s = HEV_SOCKS5_TYPE_UDP_IN_UDP")
  case True
  then show ?thesis using udp_recvmmsg_takes [OF assms _ fd_stable_client] by blast
next
  case False
  with assms show ?thesis by (cases "stype s") (auto simp: hev_socks5_udp_recvmmsg_def)
qed

lemma frames_ok_grows: "frames_ok base s k w \<Longrightarrow> udp_grows (s, k, w) (s', k', w') \<Longrightarrow> frames_ok base s' k' w'"
  by (simp add: udp_grows_def)

lemma frames_ok_crashed [simp, intro]: "crashed w \<Longrightarrow> frames_ok base s k w"
  by (simp add: frames_ok_def)

lemma udp_free_sent_crashed: "crashed w \<Longrightarrow> crashed (snd (udp_free_sent n s w))"
  by (induction n arbitrary: s w) (auto simp: hev_free_def split: list.splits)

lemma fwd_f_frames:
  assumes ok: "frames_ok base s k w" and e: "hev_socks5_session_udp_fwd_f num s k w = (r, s', k', w')"
  shows "frames_ok base s' k' w'"
proof (cases "frames s \<le> 0")
  case True
  with ok e show ?thesis by (simp add: hev_socks5_session_udp_fwd_f_def)
next
  case False
  let ?ms = "map (\<lambda>f. \<lparr>msg_addr = frame_addr f, msg_data = pbuf_payload (frame_data f)\<rparr>) (take (min num (nat (frames s))) (frame_list s))"
  obtain q s1 w1 where p: "hev_socks5_udp_sendmmsg hev_socks5_client_udp_get_fd ?ms s w = (q, s1, w1)"
    by (metis prod_cases3)
  note w1 = sendmmsg_winds [OF p] and ok1 = frames_ok_winds [OF ok sendmmsg_winds [OF p]]
  obtain s2 k2 w2 where sw: "udp_switch s1 k w1 = (s2, k2, w2)" by (metis prod_cases3)
  note g = udp_switch_grows [of s1 k w1, unfolded sw]
  have ok2: "frames_ok base s2 k2 w2" using ok1(1) g by (rule frames_ok_grows)
  show ?thesis
  proof (cases "q \<le> 0")
    case True
    with e False p sw ok2 show ?thesis by (auto simp: hev_socks5_session_udp_fwd_f_def)
  next
    case pos: False
    obtain s3 w3 where fr: "udp_free_sent (nat q) s2 w2 = (s3, w3)" by fastforce
    from e False p sw pos fr have r: "s' = s3" "k' = k2" "w' = w3" by (auto simp: hev_socks5_session_udp_fwd_f_def)
    show ?thesis
    proof (cases "crashed w2")
      case True
      with udp_free_sent_crashed [of w2 "nat q" s2] fr r show ?thesis by simp
    next
      case nc: False
      from udp_sendmmsg_bound [OF p] have "nat q \<le> length (frame_list s)" by simp
      also from g ok1(2) have "length (frame_list s) \<le> length (frame_list s2)" by (auto simp: udp_grows_def)
      finally show ?thesis using udp_free_sent_ok [OF _ ok2 fr] r by simp
    qed
  qed
qed

lemma udp_deliver_frames:
  "frames_ok base s k w \<Longrightarrow> udp_deliver saddr n ss s k w = (r, s', k', w') \<Longrightarrow> frames_ok base s' k' w'"
proof (induction n arbitrary: ss s k w)
  case (Suc n)
  show ?case
  proof (cases ss)
    case Nil
    with Suc.prems show ?thesis by auto
  next
    case (Cons sl ss1)
    show ?thesis
    proof (cases "udp_source sl saddr s")
      case None
      with Suc.prems Cons show ?thesis by auto
    next
      case (Some x)
      then obtain ret src port where x: "udp_source sl saddr s = Some (ret, src, port)" by (metis prod_cases3)
      obtain b k1 where pa: "pbuf_alloc_reference k = (b, k1)" by fastforce
      then have "frames_ok base s k1 w" using Suc.prems(1) by (auto simp: pbuf_alloc_reference_def frames_ok_def)
      moreover obtain s2 k2 w2 where sw: "udp_switch s k1 w = (s2, k2, w2)" by (metis prod_cases3)
      ultimately have "frames_ok base s2 k2 w2" using udp_switch_grows [of s k1 w] by (auto intro: frames_ok_grows)
      moreover obtain ok k3 where sd: "udp_sendfrom (bslice (slot_buf sl) (unat (slot_len sl)) (slot_mem sl)) src port k2 = (ok, k3)"
        by fastforce
      ultimately have ok3: "frames_ok base s2 k3 w2" by (auto simp: udp_sendfrom_def frames_ok_def)
      show ?thesis
        using Suc.prems(2) Suc.IH [OF ok3, of ss1] ok3 \<open>frames_ok base s k1 w\<close> Suc.prems(1) Cons x pa sw sd
        by (auto simp: Let_def split: if_splits)
    qed
  qed
qed simp

lemma fwd_b_frames:
  assumes ok: "frames_ok base s k w" and e: "hev_socks5_session_udp_fwd_b saddr num s k w = (r, s', k', w')"
  shows "frames_ok base s' k' w'"
proof -
  let ?v = "replicate num \<lparr>slot_mem = replicate UDP_BUF_SIZE 0, slot_addr = Unset, slot_buf = 0, slot_len = word_of_nat UDP_BUF_SIZE\<rparr>"
  obtain q ss s1 w1 where p: "hev_socks5_udp_recvmmsg hev_socks5_client_udp_get_fd ?v True s w = (q, ss, s1, w1)"
    by (metis prod_cases4)
  obtain s2 k2 w2 where sw: "udp_switch s1 k w1 = (s2, k2, w2)" by (metis prod_cases3)
  from frames_ok_winds(1) [OF ok udp_recvmmsg_winds [OF p]] have "frames_ok base s2 k2 w2"
    by (rule frames_ok_grows) (metis udp_switch_grows sw)
  with e p sw show ?thesis
    by (auto simp: hev_socks5_session_udp_fwd_b_def Let_def split: if_splits intro: udp_deliver_frames)
qed

lemma session_yielder_frames:
  assumes ok: "frames_ok base s k w" and e: "udp_session_yielder m t s k w = (r, s', k', w')"
  shows "frames_ok base s' k' w'"
proof -
  define probe where "probe = (if stype s = HEV_SOCKS5_TYPE_UDP_IN_UDP then
       let (res, _, w) = sys_recv (fd s) 1 w
       in if res = 0 \<or> (res < 0 \<and> \<not> eagain w) then (True, hev_socks5_set_timeout s 0, w) else (False, s, w)
     else (False, s, w))"
  obtain gone s1 w1 where p: "probe = (gone, s1, w1)" by (metis prod_cases3)
  have "winds s w s1 w1"
    using p sys_recv_winds [of "fd s" 1 w]
    by (auto simp: probe_def winds_def hev_socks5_set_timeout_def split: prod.splits if_splits)
  note ok1 = frames_ok_winds(1) [OF ok this]
  show ?thesis
  proof (cases gone)
    case True
    with e p ok1 show ?thesis unfolding udp_session_yielder_def probe_def [symmetric] by auto
  next
    case False
    obtain q s2 w2 where y: "hev_socks5_task_io_yielder t s1 w1 = (q, s2, w2)" by (metis prod_cases3)
    obtain s3 k3 w3 where sw: "udp_switch s2 k w2 = (s3, k3, w3)" by (metis prod_cases3)
    from frames_ok_winds(1) [OF ok1 winds_waited [OF yielder_waited [OF y]]] have "frames_ok base s3 k3 w3"
      by (rule frames_ok_grows) (metis udp_switch_grows sw)
    with e p False y sw show ?thesis
      unfolding udp_session_yielder_def probe_def [symmetric] by (auto simp: frames_ok_def)
  qed
qed

section \<open>What was sent\<close>

text \<open>Only a send adds to the datagrams that left.\<close>

lemma udp_yielder_sent: "udp_task_io_yielder t s w = (r, s', w') \<Longrightarrow> sent w' = sent w"
  by (auto simp: udp_task_io_yielder_def sys_recv_def Let_def split: prod.splits if_splits list.splits recv_ev.splits
      dest!: yielder_waited waited_fields(16))

lemma recv_loop_sent:
  "recv_loop udp_task_io_yielder wa dw n got es s w = (p, es', s', w') \<Longrightarrow> sent w' = sent w"
proof (induction "udp_task_io_yielder :: 'a hev_socks5_scheme yielder" wa dw n got es s w
    arbitrary: p es' s' w' rule: recv_loop.induct)
  case (3 wa dw n got es s w)
  then show ?case by (auto split: prod.splits if_splits dest: udp_yielder_sent)
qed (auto split: if_splits simp: Let_def)

lemma recvmmsg_loop_sent:
  "recvmmsg_loop udp_task_io_yielder wa dw n got es s w = (p, es', s', w') \<Longrightarrow> sent w' = sent w"
proof (induction "udp_task_io_yielder :: 'a hev_socks5_scheme yielder" wa dw n got es s w
    arbitrary: p es' s' w' rule: recvmmsg_loop.induct)
  case (3 wa dw n got es s w)
  then show ?case by (auto split: prod.splits if_splits dest: udp_yielder_sent)
qed (auto split: if_splits simp: Let_def)

lemma recv_sent:
  "hev_task_io_socket_recv f n wa dw udp_task_io_yielder s w = (r, b, s', w') \<Longrightarrow> sent w' = sent w"
  "hev_task_io_socket_recvmmsg f sz wa dw udp_task_io_yielder s w = (r, ds, s', w') \<Longrightarrow> sent w' = sent w"
  by (auto simp: hev_task_io_socket_recv_def hev_task_io_socket_recvmmsg_def split: prod.splits
      dest!: recv_loop_sent recvmmsg_loop_sent)

lemma udp_frames_sent:
  "udp_recv_frames f nb got ss s w = (r, ss', s', w') \<Longrightarrow> sent w' = sent w"
proof (induction ss arbitrary: got s w)
  case (Cons sl ss)
  obtain q h s1 w1 where p: "udp_recv_head f nb s w = (q, h, s1, w1)" by (metis prod_cases4)
  obtain q2 d s2 w2 where p2: "hev_task_io_socket_recvmsg f [unat (h ! 2) - 3 - 2, unat (be16 (h ! 0) (h ! 1))]
      True False udp_task_io_yielder s1 w1 = (q2, d, s2, w2)" by (metis prod_cases4)
  have w1: "sent w1 = sent w"
    using p by (auto simp: udp_recv_head_def split: prod.splits if_splits dest!: recv_sent)
  moreover have w2: "sent w2 = sent w1" using p2 by (auto simp: recvmsg_eq_recv dest!: recv_sent)
  from udp_frames_step [OF p p2, of got sl ss] Cons.prems consider "w' = w1" | "w' = w2"
    | sl' where "udp_recv_frames f nb (got @ [sl']) ss s2 w2 = (r, ss', s', w')" by auto
  then show ?case
  proof cases
    case 3
    from Cons.IH [OF 3] w1 w2 show ?thesis by simp
  qed (use w1 w2 in auto)
qed auto

lemma udp_recvmmsg_sent:
  assumes "hev_socks5_udp_recvmmsg get_fd ss nb s w = (r, ss', s', w')"
  shows "sent w' = sent w"
  using assms
  by (auto simp: hev_socks5_udp_recvmmsg_def hev_socks5_udp_recvmmsg_tcp_def hev_socks5_udp_recvmmsg_udp_def Let_def sys_call_def
      split: HevSocks5Type.splits prod.splits if_splits list.splits dest!: recv_sent udp_frames_sent)

lemma udp_loop_sent:
  "sendmmsg_loop udp_task_io_yielder wa dw n c es s w = (p, es', s', w') \<Longrightarrow> sent w' = sent w"
proof (induction "udp_task_io_yielder :: 'a hev_socks5_scheme yielder" wa dw n c es s w
    arbitrary: p es' s' w' rule: sendmmsg_loop.induct)
  case (3 wa dw n c es s w)
  then show ?case by (auto split: prod.splits if_splits dest: udp_yielder_sent)
qed (auto split: if_splits simp: Let_def)

text \<open>The frames that have left the list, and the datagram that each of them becomes in UDP in UDP mode.\<close>

definition gone_frames :: "hev_socks5_session_udp \<Rightarrow> udp_stack \<Rightarrow> udp_frame list" where
  "gone_frames s k = take (length (accepted k) - length (frame_list s)) (accepted k)"

definition frame_msg :: "udp_frame \<Rightarrow> udp_msg" where
  "frame_msg f = \<lparr>msg_addr = frame_addr f, msg_data = pbuf_payload (frame_data f)\<rparr>"

definition frame_dgram :: "udp_frame \<Rightarrow> bytes \<times> sockaddr_in6 option" where
  "frame_dgram f = (frame udp_hdr_udp (frame_msg f), None)"

definition sent_ok :: "(bytes \<times> sockaddr_in6 option) list \<Rightarrow> hev_socks5_session_udp \<Rightarrow> udp_stack \<Rightarrow> world \<Rightarrow> bool" where
  "sent_ok pre s k w \<longleftrightarrow> crashed w \<or> stype s = HEV_SOCKS5_TYPE_UDP_IN_UDP \<and>
     sent w (hev_socks5_client_udp_get_fd s) = pre @ map frame_dgram (gone_frames s k)"

lemma gone_accepted: "accepted k = gone @ frame_list s \<Longrightarrow> gone_frames s k = gone"
  by (simp add: gone_frames_def)

lemma gone_same:
  assumes "frames_ok base s k w" "\<not> crashed w" "frame_list s' = frame_list s @ xs" "accepted k' = accepted k @ xs"
  shows "gone_frames s' k' = gone_frames s k"
proof -
  from assms(1,2) obtain gone where "accepted k = gone @ frame_list s" by (auto simp: frames_ok_def)
  with assms(3,4) show ?thesis by (simp add: gone_frames_def)
qed

lemma get_fd_same: "fd s' = fd s \<Longrightarrow> stype s' = stype s \<Longrightarrow> udp_fd s' = udp_fd s \<Longrightarrow>
  hev_socks5_client_udp_get_fd s' = hev_socks5_client_udp_get_fd s"
  by (cases "stype s") (simp_all add: hev_socks5_client_udp_get_fd_def)

lemma sent_ok_winds:
  assumes "frames_ok base s k w" "sent_ok pre s k w" "winds s w s' w'" "sent w' = sent w"
  shows "sent_ok pre s' k w'"
proof (cases "crashed w'")
  case False
  with assms(3) have nc: "\<not> crashed w" by (auto simp: winds_def)
  moreover from assms(3) have "stype s' = stype s" by (simp add: winds_def)
  ultimately show ?thesis
    using False assms get_fd_winds [OF fd_stable_client assms(3)] frames_ok_winds(2) [OF assms(1,3)]
    by (simp add: sent_ok_def gone_frames_def)
qed (simp add: sent_ok_def)

lemma sent_ok_grows:
  assumes "frames_ok base s k w" "sent_ok pre s k w" "udp_grows (s, k, w) (s', k', w')"
  shows "sent_ok pre s' k' w'"
proof (cases "crashed w'")
  case False
  with assms(3) have nc: "\<not> crashed w" by (auto simp: udp_grows_def)
  from assms(3) obtain xs where "frame_list s' = frame_list s @ xs" "accepted k' = accepted k @ xs"
    "sent w' = sent w" "fd s' = fd s" "stype s' = stype s" "udp_fd s' = udp_fd s" by (auto simp: udp_grows_def)
  moreover from this have "gone_frames s' k' = gone_frames s k" by (intro gone_same [OF assms(1) nc])
  ultimately show ?thesis using False nc assms(2) get_fd_same [of s' s] by (simp add: sent_ok_def)
qed (simp add: sent_ok_def)

lemma udp_vec_frames: "udp_vec hdr ms = Some v \<Longrightarrow> map concat v = map (frame hdr) ms"
  using udp_vec_ok [of ms hdr] udp_vec_bad [of ms hdr] by (metis linorder_not_less option.distinct(1) option.inject)

lemma udp_sendmmsg_sent:
  assumes t: "stype s = HEV_SOCKS5_TYPE_UDP_IN_UDP" and e: "hev_socks5_udp_sendmmsg get_fd ms s w = (r, s', w')"
  shows "sent w' (get_fd s) = sent w (get_fd s) @ map (\<lambda>m. (frame udp_hdr_udp m, None)) (take (nat r) ms)"
proof (cases "udp_vec udp_hdr_udp ms")
  case None
  with t e show ?thesis by (auto simp: hev_socks5_udp_sendmmsg_def hev_socks5_udp_sendmmsg_udp_def)
next
  case (Some v)
  let ?d = "map (\<lambda>iov. (concat iov, None)) v" and ?f = "get_fd s"
  obtain q c es s1 w1 where l: "sendmmsg_loop udp_task_io_yielder True False (length ?d) 0 (txq w ?f) s w = ((q, c), es, s1, w1)"
    by (metis prod_cases5 prod.collapse)
  from sendmmsg_loop_prefix [OF l] have "q = int c \<or> q < 0 \<and> c = 0" by auto
  moreover from udp_loop_sent [OF l] have "sent w1 = sent w" .
  moreover have "?d = map (\<lambda>x. (x, None)) (map concat v)" by simp
  then have "?d = map (\<lambda>m. (frame udp_hdr_udp m, None)) ms" unfolding udp_vec_frames [OF Some] by (simp add: comp_def)
  then have "take c ?d = map (\<lambda>m. (frame udp_hdr_udp m, None)) (take c ms)" by (metis take_map)
  moreover from t e Some l have "r = q" "w' = w1\<lparr>txq := (txq w1)(?f := es), sent := (sent w1)(?f := sent w1 ?f @ take c ?d)\<rparr>"
    by (auto simp: hev_socks5_udp_sendmmsg_def hev_socks5_udp_sendmmsg_udp_def hev_task_io_socket_sendmmsg_def)
  ultimately show ?thesis by auto
qed

lemma fwd_f_sent:
  assumes ok: "frames_ok base s k w" and so: "sent_ok pre s k w"
    and e: "hev_socks5_session_udp_fwd_f num s k w = (r, s', k', w')"
  shows "sent_ok pre s' k' w'"
proof (cases "frames s \<le> 0 \<or> crashed w'")
  case True
  with so e show ?thesis by (auto simp: hev_socks5_session_udp_fwd_f_def sent_ok_def split: if_splits)
next
  case False
  let ?fs = "take (min num (nat (frames s))) (frame_list s)"
  let ?ms = "map frame_msg ?fs"
  obtain q s1 w1 where p: "hev_socks5_udp_sendmmsg hev_socks5_client_udp_get_fd ?ms s w = (q, s1, w1)"
    by (metis prod_cases3)
  note w1 = sendmmsg_winds [OF p] and ok1 = frames_ok_winds [OF ok sendmmsg_winds [OF p]]
  obtain s2 k2 w2 where sw: "udp_switch s1 k w1 = (s2, k2, w2)" by (metis prod_cases3)
  note g = udp_switch_grows [of s1 k w1, unfolded sw]
  have ok2: "frames_ok base s2 k2 w2" using ok1(1) g by (rule frames_ok_grows)
  from e False p sw have r: "(s', k', w') = (if q \<le> 0 then (s2, k2, w2)
      else let (s3, w3) = udp_free_sent (nat q) s2 w2 in (s3, k2, w3))"
    by (auto simp: hev_socks5_session_udp_fwd_f_def frame_msg_def [abs_def] split: prod.splits)
  have nc: "\<not> crashed w2" using r False udp_free_sent_crashed [of w2 "nat q" s2] by (auto split: if_splits prod.splits)
  with g w1 have nc1: "\<not> crashed w1" "\<not> crashed w" by (auto simp: udp_grows_def winds_def)
  with so have t: "stype s = HEV_SOCKS5_TYPE_UDP_IN_UDP" by (simp add: sent_ok_def)
  from g obtain xs where xs: "frame_list s2 = frame_list s1 @ xs" "accepted k2 = accepted k @ xs" "sent w2 = sent w1"
    "fd s2 = fd s1" "stype s2 = stype s1" "udp_fd s2 = udp_fd s1" by (auto simp: udp_grows_def)
  have gone: "gone_frames s2 k2 = gone_frames s k"
    using gone_same [OF ok nc1(2), of s2 xs k2] xs ok1(2) by simp
  have fd2: "hev_socks5_client_udp_get_fd s2 = hev_socks5_client_udp_get_fd s"
    using get_fd_same [OF xs(4-6)] get_fd_winds [OF fd_stable_client w1] by simp
  have t2: "stype s2 = HEV_SOCKS5_TYPE_UDP_IN_UDP" using t xs(5) w1 by (simp add: winds_def)
  have snd2: "sent w2 (hev_socks5_client_udp_get_fd s) =
      pre @ map frame_dgram (gone_frames s k @ take (nat q) ?fs)"
    using so nc1(2) xs(3) udp_sendmmsg_sent [OF t p]
    by (simp add: sent_ok_def frame_dgram_def [abs_def] take_map comp_def)
  show ?thesis
  proof (cases "q \<le> 0")
    case True
    with r snd2 gone fd2 t2 show ?thesis by (simp add: sent_ok_def)
  next
    case pos: False
    obtain s3 w3 where fr: "udp_free_sent (nat q) s2 w2 = (s3, w3)" by fastforce
    with r pos have e3: "s' = s3" "k' = k2" "w' = w3" by auto
    from udp_sendmmsg_bound [OF p] have n: "nat q \<le> length ?fs" by (simp only: length_map nat_le_iff)
    then have n': "nat q \<le> length (frame_list s2)" using xs(1) ok1(2) by simp
    note fo = udp_free_sent_ok [OF n' ok2 fr]
    from ok2 nc obtain h where h: "accepted k2 = h @ frame_list s2" by (auto simp: frames_ok_def)
    then have "h = gone_frames s k" using gone_accepted gone by metis
    with h have "accepted k2 = (gone_frames s k @ take (nat q) (frame_list s2)) @ frame_list s3" using fo by simp
    from gone_accepted [OF this] have "gone_frames s3 k2 = gone_frames s k @ take (nat q) (frame_list s2)" .
    moreover from n have "take (nat q) (frame_list s2) = take (nat q) ?fs"
      using xs(1) ok1(2) by (simp add: min_absorb1)
    moreover have "sent w3 = sent w2"
      using udp_free_sent_world [of "nat q" s2 w2] unfolding fr by simp
    moreover have "hev_socks5_client_udp_get_fd s3 = hev_socks5_client_udp_get_fd s2" using fo by (intro get_fd_same) auto
    ultimately show ?thesis using snd2 fd2 e3 t2 fo by (simp add: sent_ok_def)
  qed
qed

lemma udp_deliver_sent:
  "frames_ok base s k w \<Longrightarrow> sent_ok pre s k w \<Longrightarrow> udp_deliver saddr n ss s k w = (r, s', k', w') \<Longrightarrow> sent_ok pre s' k' w'"
proof (induction n arbitrary: ss s k w)
  case (Suc n)
  show ?case
  proof (cases ss)
    case Nil
    with Suc.prems show ?thesis by (auto simp: sent_ok_def)
  next
    case (Cons sl ss1)
    show ?thesis
    proof (cases "udp_source sl saddr s")
      case None
      with Suc.prems Cons show ?thesis by (auto simp: sent_ok_def)
    next
      case (Some x)
      then obtain ret src port where x: "udp_source sl saddr s = Some (ret, src, port)" by (metis prod_cases3)
      obtain b k1 where pa: "pbuf_alloc_reference k = (b, k1)" by fastforce
      then have 1: "frames_ok base s k1 w" "sent_ok pre s k1 w"
        using Suc.prems(1,2) by (auto simp: pbuf_alloc_reference_def frames_ok_def sent_ok_def gone_frames_def)
      obtain s2 k2 w2 where sw: "udp_switch s k1 w = (s2, k2, w2)" by (metis prod_cases3)
      note g = udp_switch_grows [of s k1 w, unfolded sw]
      obtain ok k3 where sd: "udp_sendfrom (bslice (slot_buf sl) (unat (slot_len sl)) (slot_mem sl)) src port k2 = (ok, k3)"
        by fastforce
      with frames_ok_grows [OF 1(1) g] sent_ok_grows [OF 1 g] have 3: "frames_ok base s2 k3 w2" "sent_ok pre s2 k3 w2"
        by (auto simp: udp_sendfrom_def frames_ok_def sent_ok_def gone_frames_def)
      show ?thesis
        using Suc.prems(3) Suc.IH [OF 3, of ss1] 1 3 Suc.prems(2) Cons x pa sw sd
        by (auto simp: Let_def split: if_splits)
    qed
  qed
qed simp

lemma fwd_b_sent:
  assumes ok: "frames_ok base s k w" and so: "sent_ok pre s k w"
    and e: "hev_socks5_session_udp_fwd_b saddr num s k w = (r, s', k', w')"
  shows "sent_ok pre s' k' w'"
proof -
  let ?v = "replicate num \<lparr>slot_mem = replicate UDP_BUF_SIZE 0, slot_addr = Unset, slot_buf = 0, slot_len = word_of_nat UDP_BUF_SIZE\<rparr>"
  obtain q ss s1 w1 where p: "hev_socks5_udp_recvmmsg hev_socks5_client_udp_get_fd ?v True s w = (q, ss, s1, w1)"
    by (metis prod_cases4)
  obtain s2 k2 w2 where sw: "udp_switch s1 k w1 = (s2, k2, w2)" by (metis prod_cases3)
  note wi = udp_recvmmsg_winds [OF p] and g = udp_switch_grows [of s1 k w1, unfolded sw]
  note ok1 = frames_ok_winds(1) [OF ok wi] and so1 = sent_ok_winds [OF ok so wi udp_recvmmsg_sent [OF p]]
  have "frames_ok base s2 k2 w2" "sent_ok pre s2 k2 w2"
    using frames_ok_grows [OF ok1 g] sent_ok_grows [OF ok1 so1 g] .
  with e p sw show ?thesis
    by (auto simp: hev_socks5_session_udp_fwd_b_def Let_def split: if_splits intro: udp_deliver_sent)
qed

lemma session_yielder_sent:
  assumes ok: "frames_ok base s k w" and so: "sent_ok pre s k w" and e: "udp_session_yielder m t s k w = (r, s', k', w')"
  shows "sent_ok pre s' k' w'"
proof -
  define probe where "probe = (if stype s = HEV_SOCKS5_TYPE_UDP_IN_UDP then
       let (res, _, w) = sys_recv (fd s) 1 w
       in if res = 0 \<or> (res < 0 \<and> \<not> eagain w) then (True, hev_socks5_set_timeout s 0, w) else (False, s, w)
     else (False, s, w))"
  obtain gone s1 w1 where p: "probe = (gone, s1, w1)" by (metis prod_cases3)
  have wi: "winds s w s1 w1"
    using p sys_recv_winds [of "fd s" 1 w]
    by (auto simp: probe_def winds_def hev_socks5_set_timeout_def split: prod.splits if_splits)
  have "sent w1 = sent w"
    using p by (auto simp: probe_def sys_recv_def Let_def split: prod.splits if_splits list.splits recv_ev.splits)
  note ok1 = frames_ok_winds(1) [OF ok wi] and so1 = sent_ok_winds [OF ok so wi this]
  show ?thesis
  proof (cases gone)
    case True
    with e p so1 show ?thesis unfolding udp_session_yielder_def probe_def [symmetric] by auto
  next
    case False
    obtain q s2 w2 where y: "hev_socks5_task_io_yielder t s1 w1 = (q, s2, w2)" by (metis prod_cases3)
    obtain s3 k3 w3 where sw: "udp_switch s2 k w2 = (s3, k3, w3)" by (metis prod_cases3)
    note wt = yielder_waited [OF y] and g = udp_switch_grows [of s2 k w2, unfolded sw]
    have "sent_ok pre s3 k3 w3"
      by (rule sent_ok_grows [OF frames_ok_winds(1) [OF ok1 winds_waited [OF wt]]
            sent_ok_winds [OF ok1 so1 winds_waited [OF wt] waited_fields(16) [OF wt]] g])
    with e p False y sw show ?thesis
      unfolding udp_session_yielder_def probe_def [symmetric] by (auto simp: sent_ok_def gone_frames_def)
  qed
qed

section \<open>Every reachable state\<close>

type_synonym udp_state = "hev_socks5_session_udp \<times> udp_stack \<times> world"

text \<open>One step of the splicer, or calls of the handler at any other time.\<close>

inductive udp_round :: "int \<Rightarrow> ip_addr \<Rightarrow> nat \<Rightarrow> udp_state \<Rightarrow> udp_state \<Rightarrow> bool" for m saddr num where
  forward: "hev_socks5_session_udp_fwd_f num s k w = (r, c) \<Longrightarrow> udp_round m saddr num (s, k, w) c"
| backward: "hev_socks5_session_udp_fwd_b saddr num s k w = (r, c) \<Longrightarrow> udp_round m saddr num (s, k, w) c"
| waiting: "udp_session_yielder m t s k w = (r, c) \<Longrightarrow> udp_round m saddr num (s, k, w) c"
| handler: "udp_switch s k w = c \<Longrightarrow> udp_round m saddr num (s, k, w) c"

inductive_cases udp_roundE: "udp_round m saddr num a b"

lemma udp_round_ok:
  assumes "udp_round m saddr num (s, k, w) (s', k', w')"
  shows "frames_ok base s k w \<Longrightarrow> frames_ok base s' k' w'"
    and "frames_ok base s k w \<Longrightarrow> sent_ok pre s k w \<Longrightarrow> sent_ok pre s' k' w'"
  using assms
  by (cases rule: udp_round.cases;
      blast intro: fwd_f_frames fwd_b_frames session_yielder_frames fwd_f_sent fwd_b_sent session_yielder_sent
      frames_ok_grows sent_ok_grows dest: switch_grows)+

lemma udp_reach_ok:
  assumes "rtranclp (udp_round m saddr num) a b" "frames_ok base (fst a) (fst (snd a)) (snd (snd a))"
  shows "frames_ok base (fst b) (fst (snd b)) (snd (snd b)) \<and>
    (sent_ok pre (fst a) (fst (snd a)) (snd (snd a)) \<longrightarrow> sent_ok pre (fst b) (fst (snd b)) (snd (snd b)))"
  using assms
proof (induction rule: rtranclp_induct)
  case (step b c)
  obtain s k w s' k' w' where e: "b = (s, k, w)" "c = (s', k', w')" by (metis prod_cases3)
  from step udp_round_ok [OF step(2) [unfolded e], of base] show ?case by (auto simp: e)
qed simp

text \<open>The splicer is a sequence of such steps, and what it returns is a state they reach.\<close>

lemma udp_splice_reaches:
  assumes "session_udp_loop m saddr num rf rb s k w = Some c"
  shows "rtranclp (udp_round m saddr num) (s, k, w) c"
proof (rule session_udp_loop.raw_induct [where P = "\<lambda>m saddr num rf rb s k w c. rtranclp (udp_round m saddr num) (s, k, w) c",
      OF _ assms], goal_cases)
  case (1 loop m saddr num rf rb s k w c)
  obtain rf' s1 k1 w1 where f: "(if rf \<ge> 0 then hev_socks5_session_udp_fwd_f num s k w else (rf, s, k, w)) = (rf', s1, k1, w1)"
    by (metis prod_cases4)
  obtain rb' s2 k2 w2 where b: "(if rb \<ge> 0 then hev_socks5_session_udp_fwd_b saddr num s1 k1 w1 else (rb, s1, k1, w1)) =
    (rb', s2, k2, w2)" by (metis prod_cases4)
  obtain r s3 k3 w3 where y: "udp_session_yielder m (if rf' > 0 \<or> rb' > 0 then HEV_TASK_YIELD else HEV_TASK_WAITIO) s2 k2 w2 =
    (r, s3, k3, w3)" by (metis prod_cases4)
  have "rtranclp (udp_round m saddr num) (s, k, w) (s1, k1, w1)"
    using f by (auto split: if_splits intro: udp_round.forward)
  also have "rtranclp (udp_round m saddr num) (s1, k1, w1) (s2, k2, w2)"
    using b by (auto split: if_splits intro: udp_round.backward)
  finally have 2: "rtranclp (udp_round m saddr num) (s, k, w) (s2, k2, w2)" .
  with y have 3: "rtranclp (udp_round m saddr num) (s, k, w) (s3, k3, w3)"
    by (auto intro: rtranclp.rtrancl_into_rtrancl udp_round.waiting)
  from 1(2) have "(if \<not> (rf' > 0 \<or> rb' > 0) \<and> (rf' AND rb') \<noteq> 0 then Some (s2, k2, w2)
      else if r \<noteq> 0 then Some (s3, k3, w3) else loop m saddr num rf' rb' s3 k3 w3) = Some c"
    by (simp only: f b y Let_def split_conv)
  with 2 3 rtranclp_trans [OF 3 1(1), of rf' rb'] show ?case by (auto split: if_splits)
qed

section \<open>Properties\<close>

text \<open>
  C9: While the splicer of a UDP session runs, with the calls of the handler at any moment, and as long as
  nothing has crashed (a short frame from the server makes it crash in either mode, which is shown
  separately; a mapped DNS that is not well-formed would, too): the frames counted are the
  frames in the list, at most 513; the datagrams the stack has accepted are, in their order, those that
  have left the list and those that are still in it; every frame holds one block of memory and the
  destructor frees what is left with the session. In UDP in UDP mode each frame that has left was sent
  to the server exactly once, in order, whatever the socket accepted at a time, and what was sent of it
  is its address and the bytes of the first packet buffer of its chain: all of a datagram that arrived
  in one buffer, but only the beginning of one that was reassembled from fragments. The state in which
  the splicer returns is such a state.
\<close>
theorem session_udp_frames:
  assumes "frame_list s = []" "frames s = 0" "accepted k = []"
    and "rtranclp (udp_round m saddr num) (s, k, w) c" and "c = (s', k', w') \<or>
      c = (s1, k1, w1) \<and> hev_socks5_session_udp_splice m saddr num s1 k1 w1 = Some (s', k', w')"
    and "\<not> crashed w'"
  shows "frames s' = int (length (frame_list s')) \<and> frames s' \<le> 513 \<and>
    (\<exists>gone. accepted k' = gone @ frame_list s' \<and> (stype s = HEV_SOCKS5_TYPE_UDP_IN_UDP \<longrightarrow>
       sent w' (udp_fd s') = sent w (udp_fd s) @ map frame_dgram gone)) \<and>
    live w' = live w + frames s' \<and>
    live (snd (hev_socks5_session_udp_destruct s' k' w')) = live w - 1"
proof -
  from assms(4,5) udp_splice_reaches [where rf = 1 and rb = 1] have r: "rtranclp (udp_round m saddr num) (s, k, w) (s', k', w')"
    unfolding hev_socks5_session_udp_splice_def by (metis rtranclp_trans)
  have "frames_ok (live w) s k w" using assms(1-3) by (simp add: frames_ok_def UDP_POOL_SIZE_def)
  with udp_reach_ok [OF r, of "live w" "sent w (hev_socks5_client_udp_get_fd s)"]
  have ok: "frames_ok (live w) s' k' w'"
    and so: "sent_ok (sent w (hev_socks5_client_udp_get_fd s)) s k w \<Longrightarrow> sent_ok (sent w (hev_socks5_client_udp_get_fd s)) s' k' w'"
    by auto
  from ok assms(6) obtain gone where g: "frames s' = int (length (frame_list s'))" "frames s' \<le> 513"
    "accepted k' = gone @ frame_list s'" "live w' = live w + frames s'" by (auto simp: frames_ok_def UDP_POOL_SIZE_def)
  have "sent w' (udp_fd s') = sent w (udp_fd s) @ map frame_dgram gone" if "stype s = HEV_SOCKS5_TYPE_UDP_IN_UDP"
    using so that assms(1-3,6) gone_accepted [OF g(3)] by (auto simp: sent_ok_def gone_frames_def hev_socks5_client_udp_get_fd_def)
  moreover have "live (udp_free_frames fs v) = live v - int (length fs)" for fs v
    by (induction fs arbitrary: v) (auto simp: hev_free_def)
  then have "live (snd (hev_socks5_session_udp_destruct s' k' w')) = live w - 1"
    using g by (simp add: hev_socks5_session_udp_destruct_def Let_def hev_socks5_client_udp_destruct_def
        hev_socks5_client_destruct_def hev_socks5_destruct_def hev_free_def sys_close_def)
  ultimately show ?thesis using g by blast
qed

text \<open>
  C37: In UDP in UDP mode a datagram from the server with fewer than four bytes is given to the session
  as a message without an address, and unless an address was pinned the session dereferences NULL.
\<close>
theorem session_udp_null:
  assumes "stype s = HEV_SOCKS5_TYPE_UDP_IN_UDP" "udp_associated s"
    and "dgq w (udp_fd s) = DMsgs [d] # es" "length (dg_data d) < 4"
    and "pin_addr s = [0, 0, 0, 0] \<or> pin_port s = 0" "usched k = []" "0 < num"
  shows "\<exists>s' k' w'. hev_socks5_session_udp_fwd_b saddr num s k w = (-1, s', k', w') \<and> crashed w'"
proof -
  obtain n where n: "num = Suc n" using assms(7) gr0_implies_Suc by blast
  have l: "word_of_nat (length (dg_data d)) < (4 :: u64)"
    using assms(4) by (simp add: word_less_nat_alt unat_of_nat_small)
  have "length (take UDP_BUF_SIZE (dg_data d)) = length (dg_data d)" using assms(4) by (simp add: UDP_BUF_SIZE_def)
  then have t: "take UDP_BUF_SIZE (dg_data d) = dg_data d" by simp
  have u: "unat (word_of_nat UDP_BUF_SIZE :: u64) = UDP_BUF_SIZE" by (simp add: UDP_BUF_SIZE_def)
  have p: "udp_parse ss [] = (True, ss)" for ss by (cases ss) simp_all
  have src: "slot_addr sl = Null \<Longrightarrow> udp_source sl saddr s = None" for sl using assms(5) by (auto simp: udp_source_def)
  show ?thesis
    using assms(1-3,6) l t u src
    by (simp add: n p hev_socks5_session_udp_fwd_b_def hev_socks5_udp_recvmmsg_def hev_socks5_udp_recvmmsg_udp_def
        hev_task_io_socket_recvmmsg_def hev_socks5_client_udp_get_fd_def Let_def udp_switch_def)
qed

subsection \<open>Witnesses\<close>

definition quiet_udp :: udp_stack where
  "quiet_udp = \<lparr>usched = [], udns = None, frame_mem = replicate 260 0, accepted = [], udp_out = [], ubufs = [],
     usends = [], uremoved = False, 
     upool = \<lparr>session_set = three_nodes, session_count = 3, session_timeout = (\<lambda>_. 300000), session_woken = []\<rparr>\<rparr>"

definition udp_in_udp :: hev_socks5_session_udp where
  "udp_in_udp = (hev_socks5_session_udp_zero 1)\<lparr>fd := 3, timeout := 100, stype := HEV_SOCKS5_TYPE_UDP_IN_UDP,
     udp_associated := True, udp_fd := 5, udp_pcb := True\<rparr>"

theorem session_udp_null_witness:
  "\<exists>s' k' w'. hev_socks5_session_udp_fwd_b \<lparr>ip_bytes = [], ip_type = IPADDR_TYPE_ANY\<rparr> 2 udp_in_udp quiet_udp
      (quiet\<lparr>dgq := (\<lambda>_. [DMsgs [\<lparr>dg_data = [0, 0, 0], dg_peer = sockaddr_zero\<rparr>]])\<rparr>) = (-1, s', k', w') \<and> crashed w'"
  by (rule session_udp_null [where d = "\<lparr>dg_data = [0, 0, 0], dg_peer = sockaddr_zero\<rparr>" and es = "[]"])
    (simp_all add: udp_in_udp_def hev_socks5_session_udp_zero_def quiet_udp_def quiet_def)

text \<open>
  The handler queues a datagram for 1.2.3.4:53 that comes in two buffers, and the splicer sends what
  is in the first.
\<close>

theorem session_udp_frames_witness:
  "\<exists>s' k' w'. frames s' = 0 \<and> sent w' 5 = [([0, 0, 0, 1, 1, 2, 3, 4, 0, 53, 42], None)] \<and>
     live (snd (hev_socks5_session_udp_destruct s' k' w')) = 0"
proof -
  let ?k = "quiet_udp\<lparr>usched := [[EvDatagram [[42], [43]] \<lparr>ip_bytes = [1, 2, 3, 4], ip_type = IPADDR_TYPE_V4\<rparr> 53]]\<rparr>"
  let ?w = "quiet\<lparr>live := 1\<rparr>"
  define a where "a = snd (hev_socks5_addr_from_ipv4 (replicate 260 0) [1, 2, 3, 4] (htons 53))"
  let ?f = "\<lparr>frame_addr = a, frame_data = [[42], [43]]\<rparr>"
  let ?s1 = "udp_in_udp\<lparr>frames := 1, frame_list := [?f]\<rparr>" and ?k1 = "quiet_udp\<lparr>accepted := [?f]\<rparr>"
  have a: "a = [1, 1, 2, 3, 4, 0, 53] @ replicate 253 0"
    by (simp add: a_def hev_socks5_addr_from_ipv4_def patch_def hi8_def lo8_def)
  have "hev_socks5_addr_from_lwip (replicate 260 0) \<lparr>ip_bytes = [1, 2, 3, 4], ip_type = IPADDR_TYPE_V4\<rparr> 53 None = Some (0, a, None)"
    by (simp add: hev_socks5_addr_from_lwip_def a_def)
  moreover have "atype a \<noteq> HEV_SOCKS5_ADDR_TYPE_NAME" by (simp add: a atype_def)
  ultimately have 1: "udp_switch udp_in_udp ?k ?w = (?s1, ?k1, ?w\<lparr>live := 2\<rparr>)"
    by (simp add: udp_switch_def udp_recv_handler_def quiet_udp_def udp_in_udp_def hev_socks5_session_udp_zero_def
        UDP_POOL_SIZE_def hev_malloc_def quiet_def Let_def)
  have l: "hev_socks5_addr_len a = 7" by (simp add: a hev_socks5_addr_len_def atype_def)
  have fr: "udp_hdr_udp (frame_msg ?f) @ take 7 a @ [42] = [0, 0, 0, 1, 1, 2, 3, 4, 0, 53, 42]"
    by (simp add: a udp_hdr_udp_def)
  have 2: "hev_socks5_session_udp_fwd_f 1 ?s1 ?k1 (?w\<lparr>live := 2\<rparr>) =
    (1, udp_in_udp, ?k1, ?w\<lparr>sent := (\<lambda>_. [])(5 := [(udp_hdr_udp (frame_msg ?f) @ take 7 a @ [42], None)])\<rparr>)"
    by (simp add: hev_socks5_session_udp_fwd_f_def udp_in_udp_def hev_socks5_session_udp_zero_def hev_socks5_udp_sendmmsg_def
        hev_socks5_udp_sendmmsg_udp_def hev_socks5_client_udp_get_fd_def hev_task_io_socket_sendmmsg_def l quiet_def
        udp_switch_def quiet_udp_def hev_free_def frame_msg_def fun_upd_idem Let_def)
  have "rtranclp (udp_round m saddr 1) (udp_in_udp, ?k, ?w) (?s1, ?k1, ?w\<lparr>live := 2\<rparr>)" for m saddr
    using udp_round.handler [OF 1] by blast
  moreover have "udp_round m saddr 1 (?s1, ?k1, ?w\<lparr>live := 2\<rparr>)
    (udp_in_udp, ?k1, ?w\<lparr>sent := (\<lambda>_. [])(5 := [(udp_hdr_udp (frame_msg ?f) @ take 7 a @ [42], None)])\<rparr>)" for m saddr
    using 2 by (rule udp_round.forward)
  ultimately have "rtranclp (udp_round 1 \<lparr>ip_bytes = [], ip_type = IPADDR_TYPE_ANY\<rparr> 1) (udp_in_udp, ?k, ?w)
    (udp_in_udp, ?k1, ?w\<lparr>sent := (\<lambda>_. [])(5 := [(udp_hdr_udp (frame_msg ?f) @ take 7 a @ [42], None)])\<rparr>)"
    by (rule rtranclp.rtrancl_into_rtrancl)
  from session_udp_frames [OF _ _ _ this disjI1 [OF refl]] show ?thesis
    by (intro exI) (auto simp: fr quiet_def quiet_udp_def udp_in_udp_def hev_socks5_session_udp_zero_def)
qed

end
