(* ===== verification/Tunnel_Sync.thy ===== *)
theory Tunnel_Sync
  imports Prelude
begin

text \<open>
  Starting and stopping the tunnel, \<open>src/hev-socks5-tunnel.c\<close>: \<open>hev_socks5_tunnel_stop\<close> may be called
  by any number of threads at any time, while one thread runs \<open>init\<close>, \<open>run\<close> and \<open>fini\<close> again and
  again. They meet in the atomic word \<open>tsync\<close> and in the socket pair \<open>event_fds\<close>.
\<close>

section \<open>The shared state\<close>

text \<open>
  The bits of \<open>tsync\<close> are a set of flags; each atomic operation is one step. \<open>event_open\<close> says that
  \<open>event_fds\<close> are open, \<open>event_bytes\<close> how many bytes wait in them; \<open>wild\<close> is set by a write to a
  descriptor that is not open.
\<close>

datatype sync = SYNC_SEND | SYNC_SENT | SYNC_WAIT | SYNC_STOP

definition atomic_fetch_or :: "sync set \<Rightarrow> sync set \<Rightarrow> sync set \<times> sync set" where
  "atomic_fetch_or t b = (t, t \<union> b)"

definition atomic_fetch_clear :: "sync set \<Rightarrow> sync set \<Rightarrow> sync set \<times> sync set" where
  "atomic_fetch_clear t b = (t, t - b)"

text \<open>Where a call of \<open>stop\<close> is: outside, in the retry loop, or at one of the later operations.\<close>

datatype stop_pc = StopIdle | StopEnter | StopSend | StopWrite | StopMark | StopLeave

text \<open>
  Where the thread of the tunnel is: before \<open>event_task_init\<close>, before \<open>SYNC_SEND\<close> is set, between
  \<open>init\<close> and \<open>run\<close>, in the read of the event task, between that read and the end of the tasks, in
  the retry loop of \<open>fini\<close>, and before \<open>event_task_fini\<close>.
\<close>

datatype main_pc = MainOff | MainInit | MainReady | MainRun | MainQuit | MainFini | MainClose

record tunnel_sync =
  tsync :: "sync set"
  event_open :: bool
  event_bytes :: nat
  wild :: bool
  main_at :: main_pc
  stop_at :: "nat \<Rightarrow> stop_pc"

definition tunnel_off :: tunnel_sync where
  "tunnel_off = \<lparr>tsync = {}, event_open = False, event_bytes = 0, wild = False, main_at = MainOff,
     stop_at = (\<lambda>_. StopIdle)\<rparr>"

section \<open>The two programs\<close>

definition at_stop :: "nat \<Rightarrow> stop_pc \<Rightarrow> tunnel_sync \<Rightarrow> tunnel_sync" where
  "at_stop i p s = s\<lparr>stop_at := (stop_at s)(i := p)\<rparr>"

definition tunnel_stop_step :: "nat \<Rightarrow> tunnel_sync \<Rightarrow> tunnel_sync" where
  "tunnel_stop_step i s =
     (case stop_at s i of
        StopIdle \<Rightarrow> at_stop i StopEnter s
      | StopEnter \<Rightarrow>
          (let (res, t) = atomic_fetch_or (tsync s) {SYNC_WAIT}; s = s\<lparr>tsync := t\<rparr>
           in if SYNC_WAIT \<in> res then s
              else if SYNC_SEND \<in> res then at_stop i StopSend s else at_stop i StopMark s)
      | StopSend \<Rightarrow>
          (let (res, t) = atomic_fetch_or (tsync s) {SYNC_SENT}; s = s\<lparr>tsync := t\<rparr>
           in if SYNC_SENT \<notin> res then at_stop i StopWrite s else at_stop i StopLeave s)
      | StopWrite \<Rightarrow>
          at_stop i StopLeave (if event_open s then s\<lparr>event_bytes := event_bytes s + 1\<rparr> else s\<lparr>wild := True\<rparr>)
      | StopMark \<Rightarrow> at_stop i StopLeave (s\<lparr>tsync := snd (atomic_fetch_or (tsync s) {SYNC_STOP})\<rparr>)
      | StopLeave \<Rightarrow> at_stop i StopIdle (s\<lparr>tsync := snd (atomic_fetch_clear (tsync s) {SYNC_WAIT})\<rparr>))"

text \<open>
  \<open>ok\<close> says whether the calls of \<open>init\<close> succeed that come next; a failure leads to \<open>fini\<close>. The event
  task reads up to four bytes and waits while there are none.
\<close>

definition tunnel_init_step :: "bool \<Rightarrow> tunnel_sync \<Rightarrow> tunnel_sync" where
  "tunnel_init_step ok s =
     (if \<not> ok then s\<lparr>main_at := MainFini\<rparr>
      else if main_at s = MainOff then s\<lparr>event_open := True, event_bytes := 0, main_at := MainInit\<rparr>
      else s\<lparr>tsync := snd (atomic_fetch_or (tsync s) {SYNC_SEND}), main_at := MainReady\<rparr>)"

definition tunnel_run_step :: "tunnel_sync \<Rightarrow> tunnel_sync" where
  "tunnel_run_step s =
     (let (res, t) = atomic_fetch_clear (tsync s) {SYNC_STOP}
      in s\<lparr>tsync := t, main_at := (if SYNC_STOP \<in> res then MainFini else MainRun)\<rparr>)"

definition tunnel_event_step :: "tunnel_sync \<Rightarrow> tunnel_sync" where
  "tunnel_event_step s =
     (if main_at s = MainRun then
        (if event_bytes s > 0 then s\<lparr>event_bytes := event_bytes s - min 4 (event_bytes s), main_at := MainQuit\<rparr> else s)
      else s\<lparr>tsync := snd (atomic_fetch_clear (tsync s) {SYNC_SENT}), main_at := MainFini\<rparr>)"

definition tunnel_fini_step :: "tunnel_sync \<Rightarrow> tunnel_sync" where
  "tunnel_fini_step s =
     (if main_at s = MainFini then
        (let (res, t) = atomic_fetch_clear (tsync s) {SYNC_SEND, SYNC_SENT}
         in s\<lparr>tsync := t, main_at := (if SYNC_WAIT \<in> res then MainFini else MainClose)\<rparr>)
      else s\<lparr>event_open := False, event_bytes := 0, main_at := MainOff\<rparr>)"

definition tunnel_main_step :: "bool \<Rightarrow> tunnel_sync \<Rightarrow> tunnel_sync" where
  "tunnel_main_step ok s =
     (case main_at s of
        MainOff \<Rightarrow> tunnel_init_step ok s
      | MainInit \<Rightarrow> tunnel_init_step ok s
      | MainReady \<Rightarrow> tunnel_run_step s
      | MainRun \<Rightarrow> tunnel_event_step s
      | MainQuit \<Rightarrow> tunnel_event_step s
      | MainFini \<Rightarrow> tunnel_fini_step s
      | MainClose \<Rightarrow> tunnel_fini_step s)"

inductive tunnel_step :: "tunnel_sync \<Rightarrow> tunnel_sync \<Rightarrow> bool" where
  stop: "tunnel_step s (tunnel_stop_step i s)"
| main: "tunnel_step s (tunnel_main_step ok s)"

inductive_cases tunnel_stepE: "tunnel_step s t"

abbreviation tunnel_reach :: "tunnel_sync \<Rightarrow> bool" where
  "tunnel_reach s \<equiv> rtranclp tunnel_step tunnel_off s"

lemma reach_stop [intro]: "rtranclp tunnel_step s t \<Longrightarrow> rtranclp tunnel_step s (tunnel_stop_step i t)"
  by (erule rtranclp.rtrancl_into_rtrancl) (rule tunnel_step.stop)

lemma reach_main [intro]: "rtranclp tunnel_step s t \<Longrightarrow> rtranclp tunnel_step s (tunnel_main_step ok t)"
  by (erule rtranclp.rtrancl_into_rtrancl) (rule tunnel_step.main)

section \<open>The invariant\<close>

definition in_stop :: "stop_pc \<Rightarrow> bool" where
  "in_stop p \<longleftrightarrow> p \<in> {StopSend, StopWrite, StopMark, StopLeave}"

text \<open>
  \<open>SYNC_WAIT\<close> is held by the one call \<open>h\<close> that is past the retry loop; a call that has seen \<open>SYNC_SEND\<close>
  keeps the descriptors open; \<open>SYNC_SENT\<close> announces a byte, unless the event task has already had it.
\<close>

definition serving :: "tunnel_sync \<Rightarrow> bool" where
  "serving s \<longleftrightarrow> event_open s \<and> (main_at s = MainReady \<or> main_at s = MainRun \<or> main_at s = MainQuit \<or> main_at s = MainFini)"

definition sync_inv :: "nat \<Rightarrow> tunnel_sync \<Rightarrow> bool" where
  "sync_inv h s \<longleftrightarrow>
     (\<forall>j. j \<noteq> h \<longrightarrow> \<not> in_stop (stop_at s j)) \<and>
     (in_stop (stop_at s h) \<longrightarrow> SYNC_WAIT \<in> tsync s) \<and>
     (stop_at s h = StopSend \<or> stop_at s h = StopWrite \<or> SYNC_SEND \<in> tsync s \<longrightarrow> serving s) \<and>
     (main_at s = MainInit \<longrightarrow> event_open s) \<and>
     (main_at s = MainReady \<or> main_at s = MainRun \<or> main_at s = MainQuit \<longrightarrow> SYNC_SEND \<in> tsync s) \<and>
     (SYNC_SENT \<in> tsync s \<longrightarrow> main_at s \<noteq> MainOff \<and> main_at s \<noteq> MainInit \<and> main_at s \<noteq> MainClose \<and>
        (main_at s = MainReady \<or> main_at s = MainRun \<longrightarrow> event_bytes s > 0 \<or> stop_at s h = StopWrite)) \<and>
     \<not> wild s"

lemma tunnel_off_inv: "sync_inv h tunnel_off"
  by (simp add: sync_inv_def tunnel_off_def in_stop_def)

lemmas sync_simps = atomic_fetch_or_def atomic_fetch_clear_def at_stop_def
  tunnel_init_step_def tunnel_run_step_def tunnel_event_step_def tunnel_fini_step_def

lemma in_stop_simps [simp]:
  "\<not> in_stop StopIdle" "\<not> in_stop StopEnter" "in_stop StopSend" "in_stop StopWrite" "in_stop StopMark" "in_stop StopLeave"
  by (simp_all add: in_stop_def)

lemma sync_inv_holder: "sync_inv h s \<Longrightarrow> in_stop (stop_at s i) \<Longrightarrow> i = h"
  unfolding sync_inv_def by blast

lemma sync_inv_wait: "sync_inv h s \<Longrightarrow> in_stop (stop_at s i) \<Longrightarrow> SYNC_WAIT \<in> tsync s"
  unfolding sync_inv_def by metis

lemma sync_inv_not_wild: "sync_inv h s \<Longrightarrow> \<not> wild s"
  unfolding sync_inv_def by blast

lemma sync_inv_serving: "sync_inv h s \<Longrightarrow> stop_at s h = StopSend \<or> stop_at s h = StopWrite \<Longrightarrow> serving s"
  unfolding sync_inv_def by blast

lemma main_step_inv: "sync_inv h s \<Longrightarrow> sync_inv h (tunnel_main_step ok s)"
proof (cases "main_at s")
  case MainOff
  assume "sync_inv h s"
  with MainOff show ?thesis by (simp add: sync_inv_def tunnel_main_step_def sync_simps serving_def) 
next
  case MainInit
  assume "sync_inv h s"
  with MainInit show ?thesis by (simp add: sync_inv_def tunnel_main_step_def sync_simps serving_def) 
next
  case MainReady
  assume "sync_inv h s"
  with MainReady show ?thesis by (simp add: sync_inv_def tunnel_main_step_def sync_simps serving_def) 
next
  case MainRun
  assume "sync_inv h s"
  with MainRun show ?thesis by (simp add: sync_inv_def tunnel_main_step_def sync_simps serving_def) auto
next
  case MainQuit
  assume "sync_inv h s"
  with MainQuit show ?thesis by (simp add: sync_inv_def tunnel_main_step_def sync_simps serving_def) 
next
  case MainFini
  assume "sync_inv h s"
  with MainFini show ?thesis by (simp add: sync_inv_def tunnel_main_step_def sync_simps serving_def) 
next
  case MainClose
  assume "sync_inv h s"
  with MainClose show ?thesis by (simp add: sync_inv_def tunnel_main_step_def sync_simps serving_def) 
qed

lemma holder_step_inv:
  assumes inv: "sync_inv h s" and "in_stop (stop_at s h)"
  shows "sync_inv h (tunnel_stop_step h s)"
proof (cases "stop_at s h")
  case StopSend
  with inv show ?thesis
    by (cases "SYNC_SENT \<in> tsync s") (simp_all add: sync_inv_def tunnel_stop_step_def sync_simps serving_def Let_def, auto)
next
  case StopWrite
  with inv show ?thesis by (simp add: sync_inv_def tunnel_stop_step_def sync_simps serving_def)
next
  case StopMark
  with inv show ?thesis by (simp add: sync_inv_def tunnel_stop_step_def sync_simps serving_def)
next
  case StopLeave
  with inv show ?thesis by (simp add: sync_inv_def tunnel_stop_step_def sync_simps serving_def)
qed (use assms in auto)

lemma outside_step_inv:
  assumes inv: "sync_inv h s" and o: "\<not> in_stop (stop_at s i)" "stop_at s i = StopEnter \<Longrightarrow> SYNC_WAIT \<in> tsync s"
  shows "sync_inv h (tunnel_stop_step i s)"
proof (cases "stop_at s i")
  case StopIdle
  with inv show ?thesis
    by (cases "i = h") (simp_all add: sync_inv_def tunnel_stop_step_def sync_simps serving_def)
next
  case StopEnter
  with o(2) have "tunnel_stop_step i s = s" by (simp add: tunnel_stop_step_def sync_simps insert_absorb)
  with inv show ?thesis by simp
qed (use o in auto)

lemma enter_step_inv:
  assumes inv: "sync_inv h s" and e: "stop_at s i = StopEnter" "SYNC_WAIT \<notin> tsync s"
  shows "sync_inv i (tunnel_stop_step i s)"
proof -
  have none: "\<not> in_stop (stop_at s j)" for j using inv e(2) by (cases "j = h") (auto simp: sync_inv_def)
  then have "stop_at s h \<noteq> StopWrite" using in_stop_simps by metis
  with inv e none show ?thesis
    by (simp add: sync_inv_def tunnel_stop_step_def sync_simps serving_def Let_def) auto
qed

lemma stop_step_inv: "sync_inv h s \<Longrightarrow> \<exists>h'. sync_inv h' (tunnel_stop_step i s)"
proof -
  assume inv: "sync_inv h s"
  from sync_inv_holder [OF inv, of i] show ?thesis
    using inv holder_step_inv [of h s] outside_step_inv [of h s i] enter_step_inv [of h s i] by blast
qed

lemma tunnel_reach_inv: "tunnel_reach s \<Longrightarrow> \<exists>h. sync_inv h s"
proof (induction rule: rtranclp_induct)
  case base
  show ?case using tunnel_off_inv by blast
next
  case (step s t)
  from step(2,3) show ?case by (auto elim!: tunnel_stepE intro: main_step_inv stop_step_inv)
qed

section \<open>Properties\<close>

text \<open>
  C12: However many threads call \<open>hev_socks5_tunnel_stop\<close> and however their operations and those of
  \<open>init\<close>, \<open>run\<close> and \<open>fini\<close> interleave, over any number of starts: at most one call is past its retry
  loop, and the byte for the event task is only ever written to an open descriptor.
\<close>
theorem tunnel_stop_safe:
  assumes "tunnel_reach s"
  shows "\<not> wild s \<and> (\<forall>i j. in_stop (stop_at s i) \<and> in_stop (stop_at s j) \<longrightarrow> i = j) \<and>
    (\<forall>i. stop_at s i = StopWrite \<longrightarrow> event_open s \<and> main_at s \<noteq> MainClose)"
proof -
  from tunnel_reach_inv [OF assms] obtain h where inv: "sync_inv h s" ..
  have "event_open s \<and> main_at s \<noteq> MainClose" if "stop_at s i = StopWrite" for i
    using sync_inv_serving [OF inv] sync_inv_holder [OF inv, of i] that by (auto simp: serving_def)
  with sync_inv_not_wild [OF inv] sync_inv_holder [OF inv] show ?thesis by blast
qed

text \<open>What a call that has seen \<open>SYNC_SEND\<close> can rely on until it returns.\<close>

definition announced :: "nat \<Rightarrow> tunnel_sync \<Rightarrow> bool" where
  "announced i s \<longleftrightarrow> sync_inv i s \<and> in_stop (stop_at s i) \<and> stop_at s i \<noteq> StopMark \<and> serving s \<and>
     (stop_at s i \<noteq> StopSend \<longrightarrow> SYNC_SENT \<in> tsync s \<or> main_at s = MainFini)"

lemma announced_step:
  assumes "tunnel_step s t" "in_stop (stop_at t i)" "announced i s"
  shows "announced i t"
proof -
  consider (1) j where "t = tunnel_stop_step j s" | (2) ok where "t = tunnel_main_step ok s"
    using assms(1) by (rule tunnel_stepE)
  then show ?thesis
  proof cases
    case 1
    show ?thesis
    proof (cases "j = i")
      case True
      with assms(3) have inv: "sync_inv i t" using holder_step_inv 1 by (auto simp: announced_def)
      from assms(3) consider "stop_at s i = StopSend" | "stop_at s i = StopWrite" | "stop_at s i = StopLeave"
        by (cases "stop_at s i") (auto simp: announced_def)
      then show ?thesis
      proof cases
        case 3
        with 1 True assms(2) show ?thesis by (simp add: tunnel_stop_step_def sync_simps)
      qed (use assms inv 1 True in \<open>auto simp: announced_def tunnel_stop_step_def sync_simps serving_def Let_def\<close>)
    next
      case False
      with assms(3) have "\<not> in_stop (stop_at s j)" "SYNC_WAIT \<in> tsync s"
        using sync_inv_holder sync_inv_wait unfolding announced_def by blast+
      moreover have "sync_inv i s" using assms(3) by (simp add: announced_def)
      ultimately have "sync_inv i t" using outside_step_inv 1 by blast
      moreover have "t = s \<or> t = at_stop j StopEnter s"
        using \<open>\<not> in_stop (stop_at s j)\<close> \<open>SYNC_WAIT \<in> tsync s\<close> 1
        by (cases "stop_at s j") (auto simp: tunnel_stop_step_def atomic_fetch_or_def insert_absorb)
      ultimately show ?thesis using assms(3) False by (auto simp: announced_def at_stop_def serving_def)
    qed
  next
    case 2
    from assms(3) have inv: "sync_inv i t" using main_step_inv 2 by (simp add: announced_def)
    from assms(3) have w: "SYNC_WAIT \<in> tsync s" "serving s" using sync_inv_wait unfolding announced_def by blast+
    from w(2) consider "main_at s = MainReady" | "main_at s = MainRun" | "main_at s = MainQuit" | "main_at s = MainFini"
      by (auto simp: serving_def)
    then show ?thesis
      using inv w assms(3) 2
      by cases (auto simp: announced_def tunnel_main_step_def sync_simps serving_def Let_def)
  qed
qed

text \<open>
  C13: A call of \<open>hev_socks5_tunnel_stop\<close> that has found \<open>SYNC_SEND\<close> set is not lost: whatever the
  other threads do meanwhile, when it is about to return a byte waits for the event task, which leaves
  its read at its next step, or the tunnel is on its way out already; and the descriptors are still open.
\<close>
theorem tunnel_stop_reaches:
  assumes "tunnel_reach s" "stop_at s i = StopSend"
    and "rtranclp (\<lambda>a b. tunnel_step a b \<and> in_stop (stop_at b i)) s t" "stop_at t i = StopLeave"
  shows "event_open t \<and> (main_at t = MainQuit \<or> main_at t = MainFini \<or>
    (main_at t = MainReady \<or> main_at t = MainRun) \<and> event_bytes t > 0) \<and>
    (main_at t = MainRun \<longrightarrow> main_at (tunnel_main_step ok t) = MainQuit)"
proof -
  from tunnel_reach_inv [OF assms(1)] obtain h where inv: "sync_inv h s" ..
  with assms(2) have "h = i" using sync_inv_holder [OF inv, of i] by simp
  with inv assms(2) have "announced i s" using sync_inv_serving [OF inv] by (simp add: announced_def)
  from assms(3) this have a: "announced i t"
    by (induction rule: rtranclp_induct) (auto intro: announced_step)
  with assms(4) have "event_open t \<and> (main_at t = MainQuit \<or> main_at t = MainFini \<or>
    (main_at t = MainReady \<or> main_at t = MainRun) \<and> event_bytes t > 0)"
    by (auto simp: announced_def sync_inv_def serving_def)
  then show ?thesis by (auto simp: tunnel_main_step_def tunnel_event_step_def)
qed

text \<open>
  C38: A call of \<open>hev_socks5_tunnel_stop\<close> that finds \<open>SYNC_SEND\<close> clear can be lost: if \<open>init\<close> ends and
  \<open>run\<close> tests \<open>SYNC_STOP\<close> before the call sets it, the call returns and the tunnel runs on, waiting for
  a byte that nobody has written.
\<close>
theorem tunnel_stop_lost:
  assumes "main_at s = MainInit" "event_bytes s = 0" "stop_at s i = StopEnter"
    and "SYNC_WAIT \<notin> tsync s" "SYNC_SEND \<notin> tsync s" "SYNC_STOP \<notin> tsync s"
  defines "t \<equiv> tunnel_stop_step i (tunnel_stop_step i (tunnel_main_step True (tunnel_main_step True (tunnel_stop_step i s))))"
  shows "rtranclp tunnel_step s t \<and> stop_at t i = StopIdle \<and> main_at t = MainRun \<and> event_bytes t = 0 \<and>
    SYNC_STOP \<in> tsync t \<and> tunnel_main_step ok t = t"
proof -
  have "rtranclp tunnel_step s t"
    unfolding t_def by (intro reach_stop reach_main rtranclp.rtrancl_refl)
  moreover have "stop_at t i = StopIdle \<and> main_at t = MainRun \<and> event_bytes t = 0 \<and> SYNC_STOP \<in> tsync t"
    using assms(1-6) by (simp add: t_def tunnel_stop_step_def tunnel_main_step_def sync_simps)
  ultimately show ?thesis by (simp add: tunnel_main_step_def tunnel_event_step_def)
qed

subsection \<open>Witnesses\<close>

text \<open>Thread 0 stops a tunnel that waits in its event task; thread 1 begins to stop it in between.\<close>

definition tunnel_waiting :: tunnel_sync where
  "tunnel_waiting = tunnel_stop_step 0 (tunnel_stop_step 0
     (tunnel_main_step True (tunnel_main_step True (tunnel_main_step True tunnel_off))))"

lemma tunnel_waiting_reach: "tunnel_reach tunnel_waiting"
  unfolding tunnel_waiting_def by (intro reach_stop reach_main rtranclp.rtrancl_refl)

lemma tunnel_waiting_eq: "tunnel_waiting = \<lparr>tsync = {SYNC_SEND, SYNC_WAIT}, event_open = True, event_bytes = 0,
   wild = False, main_at = MainRun, stop_at = (\<lambda>_. StopIdle)(0 := StopSend)\<rparr>"
  by (simp add: tunnel_waiting_def tunnel_stop_step_def tunnel_main_step_def tunnel_off_def sync_simps insert_commute)

theorem tunnel_stop_safe_witness: "\<not> wild tunnel_waiting \<and> in_stop (stop_at tunnel_waiting 0) \<and> \<not> in_stop (stop_at tunnel_waiting 1)"
  using tunnel_stop_safe [OF tunnel_waiting_reach] by (auto simp: tunnel_waiting_eq)

theorem tunnel_stop_reaches_witness:
  "main_at (tunnel_main_step True (tunnel_stop_step 1 (tunnel_stop_step 0 (tunnel_stop_step 0 tunnel_waiting)))) = MainQuit"
proof -
  let ?R = "\<lambda>a b. tunnel_step a b \<and> in_stop (stop_at b 0)"
  let ?a = "tunnel_stop_step 0 tunnel_waiting"
  let ?b = "tunnel_stop_step 0 ?a"
  let ?c = "tunnel_stop_step 1 ?b"
  note simps = tunnel_waiting_eq tunnel_stop_step_def sync_simps
  have st: "?R tunnel_waiting ?a" "?R ?a ?b" "?R ?b ?c"
    by (simp_all add: tunnel_step.stop) (simp_all add: simps)
  from r_into_rtranclp [of ?R, OF st(1)] st(2) have "rtranclp ?R tunnel_waiting ?b" by (rule rtranclp.rtrancl_into_rtrancl)
  from this st(3) have "rtranclp ?R tunnel_waiting ?c" by (rule rtranclp.rtrancl_into_rtrancl)
  moreover have "stop_at ?c 0 = StopLeave" "main_at ?c = MainRun" "stop_at tunnel_waiting 0 = StopSend"
    by (simp_all add: simps)
  ultimately show ?thesis using tunnel_stop_reaches [OF tunnel_waiting_reach, of 0 ?c True] by blast
qed

theorem tunnel_stop_lost_witness:
  "\<exists>t. tunnel_reach t \<and> stop_at t 3 = StopIdle \<and> main_at t = MainRun \<and> event_bytes t = 0 \<and> SYNC_STOP \<in> tsync t"
proof -
  let ?s = "tunnel_stop_step 3 (tunnel_main_step True tunnel_off)"
  have "tunnel_reach ?s" by (intro reach_stop reach_main rtranclp.rtrancl_refl)
  moreover have "main_at ?s = MainInit \<and> event_bytes ?s = 0 \<and> stop_at ?s 3 = StopEnter \<and> tsync ?s = {}"
    by (simp add: tunnel_stop_step_def tunnel_main_step_def tunnel_off_def sync_simps)
  ultimately show ?thesis using tunnel_stop_lost [of ?s 3] by (metis empty_iff rtranclp_trans)
qed

end
