(* ===== verification/Config.thy ===== *)
theory Config
  imports Session
begin

text \<open>
  The configuration, \<open>src/hev-config.c\<close>: the settings and how a YAML document sets them. The document
  is what \<open>yaml_parser_load\<close> has built; the parser of the text is an argument.
\<close>

section \<open>Strings and numbers of the C library\<close>

text \<open>
  A scalar of the document may contain a zero byte; the functions of the C library see what is before
  it. Keys and fixed words are written as HOL strings.
\<close>

definition cstr :: "bytes \<Rightarrow> bytes" where
  "cstr v = takeWhile (\<lambda>b. b \<noteq> 0) v"

definition str :: "string \<Rightarrow> bytes" where
  "str s = map of_char s"

definition strcmp_eq :: "bytes \<Rightarrow> string \<Rightarrow> bool" where
  "strcmp_eq v s \<longleftrightarrow> cstr v = str s"

definition tolower :: "u8 \<Rightarrow> u8" where
  "tolower c = (if 65 \<le> c \<and> c \<le> 90 then c + 32 else c)"

definition strcasecmp_eq :: "bytes \<Rightarrow> string \<Rightarrow> bool" where
  "strcasecmp_eq v s \<longleftrightarrow> map tolower (cstr v) = map tolower (str s)"

text \<open>\<open>strncpy\<close> into a field of more than \<open>n\<close> bytes that was zero: it pads with zeros up to \<open>n\<close>.\<close>

definition strncpy :: "nat \<Rightarrow> bytes \<Rightarrow> bytes" where
  "strncpy n v = take n (cstr v)"

definition digit_val :: "u8 \<Rightarrow> nat" where
  "digit_val c =
     (if 48 \<le> c \<and> c \<le> 57 then unat c - 48
      else if 97 \<le> c \<and> c \<le> 122 then unat c - 87
      else if 65 \<le> c \<and> c \<le> 90 then unat c - 55 else 99)"

definition c_isspace :: "u8 \<Rightarrow> bool" where
  "c_isspace c \<longleftrightarrow> c = 32 \<or> (9 \<le> c \<and> c \<le> 13)"

text \<open>The sign and the value before any range is applied; base 0 reads the prefixes of C.\<close>

definition scan_base :: "nat \<Rightarrow> bytes \<Rightarrow> nat \<times> bytes" where
  "scan_base base s =
     (if base = 0 then
        (case s of
           a # b # c # r \<Rightarrow>
             if a = 48 \<and> (b = 120 \<or> b = 88) \<and> digit_val c < 16 then (16, c # r)
             else (if a = 48 then 8 else 10, s)
         | a # _ \<Rightarrow> (if a = 48 then 8 else 10, s)
         | [] \<Rightarrow> (10, s))
      else (base, s))"

definition scan_int :: "nat \<Rightarrow> bytes \<Rightarrow> bool \<times> nat" where
  "scan_int base v =
     (let s = dropWhile c_isspace (cstr v);
          (neg, s) = (case s of [] \<Rightarrow> (False, s) | c # r \<Rightarrow> if c = 45 then (True, r) else if c = 43 then (False, r) else (False, s));
          (base, s) = scan_base base s
      in (neg, foldl (\<lambda>n d. n * base + d) 0 (takeWhile (\<lambda>d. d < base) (map digit_val s))))"

text \<open>\<open>unsigned long\<close> has 64 bits, and both conversions saturate.\<close>

definition strtoul :: "bytes \<Rightarrow> nat \<Rightarrow> u64" where
  "strtoul v base =
     (let (neg, n) = scan_int base v
      in if n \<ge> 2 ^ 64 then - 1 else if neg then - of_nat n else of_nat n)"

definition strtol :: "bytes \<Rightarrow> nat \<Rightarrow> int" where
  "strtol v base =
     (let (neg, n) = scan_int base v
      in if neg then max (- (2 ^ 63)) (- int n) else min (2 ^ 63 - 1) (int n))"

text \<open>What is stored in an \<open>int\<close> is reduced to 32 bits.\<close>

definition int32 :: "int \<Rightarrow> int" where
  "int32 x = sint (word_of_int x :: u32)"

definition strtoul_int :: "bytes \<Rightarrow> int" where
  "strtoul_int v = int32 (uint (strtoul v 10))"

text \<open>Four bytes in memory as an \<open>int\<close>, and \<open>ntohl\<close>.\<close>

definition ld32 :: "bytes \<Rightarrow> u32" where
  "ld32 b = ucast (b ! 0) OR push_bit 8 (ucast (b ! 1)) OR push_bit 16 (ucast (b ! 2)) OR push_bit 24 (ucast (b ! 3))"

definition ntohl :: "u32 \<Rightarrow> u32" where
  "ntohl x = push_bit 24 x OR (push_bit 8 x AND 0xff0000) OR (drop_bit 8 x AND 0xff00) OR drop_bit 24 x"

section \<open>The document\<close>

datatype yaml_node =
    YAML_SCALAR_NODE bytes
  | YAML_SEQUENCE_NODE "int list"
  | YAML_MAPPING_NODE "(int \<times> int) list"

type_synonym yaml_document = "yaml_node list"

definition yaml_document_get_node :: "yaml_document \<Rightarrow> int \<Rightarrow> yaml_node option" where
  "yaml_document_get_node doc i = (if 0 < i \<and> nat i \<le> length doc then Some (doc ! (nat i - 1)) else None)"

definition yaml_document_get_root_node :: "yaml_document \<Rightarrow> yaml_node option" where
  "yaml_document_get_root_node doc = (if doc \<noteq> [] then Some (doc ! 0) else None)"

text \<open>
  The loop that four of the parsing functions have in common: the pairs of scalars up to the first
  pair that is not one.
\<close>

fun scalar_pairs :: "yaml_document \<Rightarrow> (int \<times> int) list \<Rightarrow> (bytes \<times> bytes) list" where
  "scalar_pairs doc [] = []"
| "scalar_pairs doc ((k, v) # ps) =
     (if k = 0 \<or> v = 0 then []
      else
        (case yaml_document_get_node doc k of
           Some (YAML_SCALAR_NODE ky) \<Rightarrow>
             (case yaml_document_get_node doc v of
                Some (YAML_SCALAR_NODE val) \<Rightarrow> (ky, val) # scalar_pairs doc ps
              | _ \<Rightarrow> [])
         | _ \<Rightarrow> []))"

section \<open>The settings\<close>

record HevConfig =
  tun_name :: bytes
  tun_mtu :: u32
  multi_queue :: bool
  icmp :: bool
  tun_ipv4_address :: bytes
  tun_ipv6_address :: bytes
  tun_post_up_script :: bytes
  tun_pre_down_script :: bytes
  srv :: HevConfigServer
  mapdns_address :: u32
  mapdns_port :: int
  mapdns_network :: u32
  mapdns_netmask :: u32
  mapdns_cache_size :: int
  log_file :: bytes
  pid_file :: bytes
  max_session_count :: int
  task_stack_size :: int
  tcp_buffer_size :: int
  udp_recv_buffer_size :: int
  udp_copy_buffer_nums :: int
  connect_timeout :: int
  tcp_read_write_timeout :: int
  udp_read_write_timeout :: int
  limit_nofile :: int
  log_level :: int

text \<open>The levels of \<open>HevLoggerLevel\<close>.\<close>

definition HEV_LOGGER_DEBUG :: int where "HEV_LOGGER_DEBUG = 0"
definition HEV_LOGGER_INFO :: int where "HEV_LOGGER_INFO = 1"
definition HEV_LOGGER_WARN :: int where "HEV_LOGGER_WARN = 2"
definition HEV_LOGGER_ERROR :: int where "HEV_LOGGER_ERROR = 3"

definition TASK_STACK_SIZE :: int where "TASK_STACK_SIZE = 20480"
definition CONFIG_UDP_BUF_SIZE :: int where "CONFIG_UDP_BUF_SIZE = 1500"
definition CONFIG_TCP_SND_BUF :: int where "CONFIG_TCP_SND_BUF = 65528"

text \<open>\<open>hev_config_reset\<close> sets every setting.\<close>

definition hev_config_reset :: HevConfig where
  "hev_config_reset =
     \<lparr>tun_name = [], tun_mtu = 8500, multi_queue = False, icmp = False, tun_ipv4_address = [], tun_ipv6_address = [],
      tun_post_up_script = [], tun_pre_down_script = [],
      srv = \<lparr>srv_user = None, srv_pass = None, srv_mark = 0, srv_udp_in_udp = False, srv_port = 0, srv_pipeline = False,
             srv_fastopen = False, srv_udp_addr = [], srv_addr = []\<rparr>,
      mapdns_address = 0, mapdns_port = 0, mapdns_network = 0, mapdns_netmask = 0, mapdns_cache_size = 0,
      log_file = [], pid_file = [], max_session_count = 0, task_stack_size = 86016, tcp_buffer_size = 65536,
      udp_recv_buffer_size = 524288, udp_copy_buffer_nums = 10, connect_timeout = 10000,
      tcp_read_write_timeout = 300000, udp_read_write_timeout = 60000, limit_nofile = 65535, log_level = HEV_LOGGER_WARN\<rparr>"

section \<open>The sections of the document\<close>

text \<open>A parsing function returns the result and the settings; \<open>base\<close> is \<open>None\<close> where the code has \<open>NULL\<close>.\<close>

type_synonym config_parser = "yaml_document \<Rightarrow> yaml_node option \<Rightarrow> HevConfig \<Rightarrow> int \<times> HevConfig"

definition each_scalar :: "(bytes \<Rightarrow> bytes \<Rightarrow> HevConfig \<Rightarrow> HevConfig) \<Rightarrow> config_parser" where
  "each_scalar f doc base c =
     (case base of
        Some (YAML_MAPPING_NODE ps) \<Rightarrow> (0, fold (\<lambda>(k, v). f k v) (scalar_pairs doc ps) c)
      | _ \<Rightarrow> (-1, c))"

definition hev_config_parse_tunnel_ipv4 :: config_parser where
  "hev_config_parse_tunnel_ipv4 = each_scalar (\<lambda>k v c.
     if strcmp_eq k ''address'' then c\<lparr>tun_ipv4_address := strncpy 15 v\<rparr> else c)"

definition hev_config_parse_tunnel_ipv6 :: config_parser where
  "hev_config_parse_tunnel_ipv6 = each_scalar (\<lambda>k v c.
     if strcmp_eq k ''address'' then c\<lparr>tun_ipv6_address := strncpy 63 v\<rparr> else c)"

definition tunnel_scalar :: "bytes \<Rightarrow> bytes \<Rightarrow> HevConfig \<Rightarrow> HevConfig" where
  "tunnel_scalar k v c =
     (if strcmp_eq k ''name'' then c\<lparr>tun_name := strncpy 63 v\<rparr>
      else if strcmp_eq k ''mtu'' then c\<lparr>tun_mtu := ucast (strtoul v 10)\<rparr>
      else if strcmp_eq k ''multi-queue'' then c\<lparr>multi_queue := \<not> strcasecmp_eq v ''false''\<rparr>
      else if strcmp_eq k ''ipv4'' then c\<lparr>tun_ipv4_address := strncpy 15 v\<rparr>
      else if strcmp_eq k ''ipv6'' then c\<lparr>tun_ipv6_address := strncpy 63 v\<rparr>
      else if strcmp_eq k ''icmp'' then c\<lparr>icmp := strcasecmp_eq v ''reply''\<rparr>
      else if strcmp_eq k ''post-up-script'' then c\<lparr>tun_post_up_script := strncpy 63 v\<rparr>
      else if strcmp_eq k ''pre-down-script'' then c\<lparr>tun_pre_down_script := strncpy 63 v\<rparr>
      else c)"

text \<open>Here a value that is not a scalar does not end the loop; it may be one of two mappings.\<close>

fun tunnel_pairs :: "yaml_document \<Rightarrow> (int \<times> int) list \<Rightarrow> HevConfig \<Rightarrow> HevConfig" where
  "tunnel_pairs doc [] c = c"
| "tunnel_pairs doc ((k, v) # ps) c =
     (if k = 0 \<or> v = 0 then c
      else
        (case yaml_document_get_node doc k of
           Some (YAML_SCALAR_NODE ky) \<Rightarrow>
             (case yaml_document_get_node doc v of
                None \<Rightarrow> c
              | Some (YAML_SCALAR_NODE val) \<Rightarrow> tunnel_pairs doc ps (tunnel_scalar ky val c)
              | Some node \<Rightarrow> tunnel_pairs doc ps
                  (if strcmp_eq ky ''ipv4'' then snd (hev_config_parse_tunnel_ipv4 doc (Some node) c)
                   else if strcmp_eq ky ''ipv6'' then snd (hev_config_parse_tunnel_ipv6 doc (Some node) c)
                   else c))
         | _ \<Rightarrow> c))"

definition hev_config_parse_tunnel :: config_parser where
  "hev_config_parse_tunnel doc base c =
     (case base of Some (YAML_MAPPING_NODE ps) \<Rightarrow> (0, tunnel_pairs doc ps c) | _ \<Rightarrow> (-1, c))"

text \<open>The local pointers of \<open>hev_config_parse_socks5\<close> hold the last value of their key.\<close>

definition last_value :: "string \<Rightarrow> (bytes \<times> bytes) list \<Rightarrow> bytes option" where
  "last_value s ps = fold (\<lambda>(k, v) r. if strcmp_eq k s then Some v else r) ps None"

definition is_word :: "bytes option \<Rightarrow> string \<Rightarrow> bool" where
  "is_word v s \<longleftrightarrow> (case v of None \<Rightarrow> False | Some x \<Rightarrow> strcasecmp_eq x s)"

definition socks5_settings :: "(bytes \<times> bytes) list \<Rightarrow> bytes \<Rightarrow> bytes \<Rightarrow> HevConfigServer \<Rightarrow> HevConfigServer" where
  "socks5_settings ps addr port s =
     (let udpm = last_value ''udp'' ps; udpa = last_value ''udp-address'' ps; pipe = last_value ''pipeline'' ps;
          user = last_value ''username'' ps; pass = last_value ''password'' ps;
          mark = last_value ''mark'' ps; tfso = last_value ''tcp-fastopen'' ps;
          s = s\<lparr>srv_addr := strncpy 255 addr, srv_port := ucast (strtoul port 10)\<rparr>;
          s = (if is_word pipe ''true'' then s\<lparr>srv_pipeline := True\<rparr> else s);
          s = (if is_word udpm ''udp'' then s\<lparr>srv_udp_in_udp := True\<rparr> else s);
          s = (case udpa of Some u \<Rightarrow> s\<lparr>srv_udp_addr := strncpy 255 u\<rparr> | None \<Rightarrow> s);
          s = (case (user, pass) of
                 (Some u, Some p) \<Rightarrow> s\<lparr>srv_user := Some (strncpy 255 u), srv_pass := Some (strncpy 255 p)\<rparr>
               | _ \<Rightarrow> s);
          s = (case mark of Some m \<Rightarrow> s\<lparr>srv_mark := ucast (strtoul m 0)\<rparr> | None \<Rightarrow> s)
      in if tfso \<noteq> None then s\<lparr>srv_fastopen := is_word tfso ''true''\<rparr> else s)"

definition hev_config_parse_socks5 :: config_parser where
  "hev_config_parse_socks5 doc base c =
     (case base of
        Some (YAML_MAPPING_NODE pairs) \<Rightarrow>
          (let ps = scalar_pairs doc pairs
           in case last_value ''port'' ps of
                None \<Rightarrow> (-1, c)
              | Some port \<Rightarrow>
                  (case last_value ''address'' ps of
                     None \<Rightarrow> (-1, c)
                   | Some addr \<Rightarrow>
                       if (last_value ''username'' ps = None) \<noteq> (last_value ''password'' ps = None) then (-1, c)
                       else (0, c\<lparr>srv := socks5_settings ps addr port (srv c)\<rparr>)))
      | _ \<Rightarrow> (-1, c))"

definition mapdns_scalar :: "net_env \<Rightarrow> bytes \<Rightarrow> bytes \<Rightarrow> HevConfig \<Rightarrow> HevConfig" where
  "mapdns_scalar env k v c =
     (let addr = (\<lambda>old. case pton4 env (cstr v) of Some b \<Rightarrow> ld32 b | None \<Rightarrow> old)
      in if strcmp_eq k ''address'' then c\<lparr>mapdns_address := addr (mapdns_address c)\<rparr>
         else if strcmp_eq k ''port'' then c\<lparr>mapdns_port := strtoul_int v\<rparr>
         else if strcmp_eq k ''network'' then c\<lparr>mapdns_network := addr (mapdns_network c)\<rparr>
         else if strcmp_eq k ''netmask'' then c\<lparr>mapdns_netmask := addr (mapdns_netmask c)\<rparr>
         else if strcmp_eq k ''cache-size'' then c\<lparr>mapdns_cache_size := strtoul_int v\<rparr>
         else c)"

definition hev_config_parse_mapdns :: "net_env \<Rightarrow> config_parser" where
  "hev_config_parse_mapdns env doc base c =
     (let (res, c) = each_scalar (mapdns_scalar env) doc base c
      in if res < 0 then (-1, c)
         else (0, c\<lparr>mapdns_network := ntohl (mapdns_network c), mapdns_netmask := ntohl (mapdns_netmask c)\<rparr>))"

definition hev_config_parse_log_level :: "bytes \<Rightarrow> int" where
  "hev_config_parse_log_level v =
     (if strcmp_eq v ''debug'' then HEV_LOGGER_DEBUG
      else if strcmp_eq v ''info'' then HEV_LOGGER_INFO
      else if strcmp_eq v ''error'' then HEV_LOGGER_ERROR
      else HEV_LOGGER_WARN)"

definition misc_scalar :: "bytes \<Rightarrow> bytes \<Rightarrow> HevConfig \<Rightarrow> HevConfig" where
  "misc_scalar k v c =
     (if strcmp_eq k ''task-stack-size'' then c\<lparr>task_stack_size := strtoul_int v\<rparr>
      else if strcmp_eq k ''tcp-buffer-size'' then c\<lparr>tcp_buffer_size := strtoul_int v\<rparr>
      else if strcmp_eq k ''udp-recv-buffer-size'' then c\<lparr>udp_recv_buffer_size := strtoul_int v\<rparr>
      else if strcmp_eq k ''udp-copy-buffer-nums'' then c\<lparr>udp_copy_buffer_nums := strtoul_int v\<rparr>
      else if strcmp_eq k ''max-session-count'' then c\<lparr>max_session_count := strtoul_int v\<rparr>
      else if strcmp_eq k ''connect-timeout'' then c\<lparr>connect_timeout := strtoul_int v\<rparr>
      else if strcmp_eq k ''pid-file'' then c\<lparr>pid_file := strncpy 1023 v\<rparr>
      else if strcmp_eq k ''log-file'' then c\<lparr>log_file := strncpy 1023 v\<rparr>
      else if strcmp_eq k ''log-level'' then c\<lparr>log_level := hev_config_parse_log_level v\<rparr>
      else if strcmp_eq k ''limit-nofile'' then c\<lparr>limit_nofile := int32 (strtol v 10)\<rparr>
      else c)"

text \<open>The three timeouts are collected in local variables, which start at \<open>-1\<close>.\<close>

definition last_timeout :: "string \<Rightarrow> (bytes \<times> bytes) list \<Rightarrow> int" where
  "last_timeout s ps = (case last_value s ps of None \<Rightarrow> -1 | Some v \<Rightarrow> strtoul_int v)"

definition hev_config_parse_misc :: config_parser where
  "hev_config_parse_misc doc base c =
     (case base of
        Some (YAML_MAPPING_NODE pairs) \<Rightarrow>
          (let ps = scalar_pairs doc pairs;
               c = fold (\<lambda>(k, v). misc_scalar k v) ps c;
               rw = last_timeout ''read-write-timeout'' ps;
               tcp_rw = last_timeout ''tcp-read-write-timeout'' ps;
               udp_rw = last_timeout ''udp-read-write-timeout'' ps;
               tcp_rw = (if tcp_rw \<le> 0 then rw else tcp_rw);
               udp_rw = (if udp_rw \<le> 0 then rw else udp_rw);
               c = (if tcp_rw > 0 then c\<lparr>tcp_read_write_timeout := tcp_rw\<rparr> else c);
               c = (if udp_rw > 0 then c\<lparr>udp_read_write_timeout := udp_rw\<rparr> else c)
           in (0, c))
      | _ \<Rightarrow> (-1, c))"

section \<open>The whole document\<close>

definition config_section :: "net_env \<Rightarrow> bytes \<Rightarrow> config_parser" where
  "config_section env ky doc node c =
     (if strcmp_eq ky ''tunnel'' then hev_config_parse_tunnel doc node c
      else if strcmp_eq ky ''socks5'' then hev_config_parse_socks5 doc node c
      else if strcmp_eq ky ''mapdns'' then hev_config_parse_mapdns env doc node c
      else if strcmp_eq ky ''misc'' then hev_config_parse_misc doc node c
      else (0, c))"

fun config_sections :: "net_env \<Rightarrow> yaml_document \<Rightarrow> (int \<times> int) list \<Rightarrow> HevConfig \<Rightarrow> int \<times> HevConfig" where
  "config_sections env doc [] c = (0, c)"
| "config_sections env doc ((k, v) # ps) c =
     (if k = 0 \<or> v = 0 then (0, c)
      else
        (case yaml_document_get_node doc k of
           Some (YAML_SCALAR_NODE ky) \<Rightarrow>
             (let (res, c) = config_section env ky doc (yaml_document_get_node doc v) c
              in if res < 0 then (-1, c) else config_sections env doc ps c)
         | _ \<Rightarrow> (0, c)))"

text \<open>The product and the sums of the sizes are of type \<open>int\<close>; where they overflow they wrap around.\<close>

definition config_sizes :: "HevConfig \<Rightarrow> HevConfig" where
  "config_sizes c =
     (let c = (if tcp_buffer_size c > CONFIG_TCP_SND_BUF then c\<lparr>tcp_buffer_size := CONFIG_TCP_SND_BUF\<rparr> else c);
          udp_buffer_size = int32 (CONFIG_UDP_BUF_SIZE * udp_copy_buffer_nums c);
          min_task_stack_size = int32 (TASK_STACK_SIZE +
            (if tcp_buffer_size c > udp_buffer_size then tcp_buffer_size c else udp_buffer_size))
      in if task_stack_size c < min_task_stack_size then c\<lparr>task_stack_size := min_task_stack_size\<rparr> else c)"

definition hev_config_parse_doc :: "net_env \<Rightarrow> yaml_document \<Rightarrow> HevConfig \<Rightarrow> int \<times> HevConfig" where
  "hev_config_parse_doc env doc c =
     (case yaml_document_get_root_node doc of
        Some (YAML_MAPPING_NODE ps) \<Rightarrow>
          (let (res, c) = config_sections env doc ps c in if res < 0 then (-1, c) else (0, config_sizes c))
      | _ \<Rightarrow> (-1, c))"

text \<open>
  \<open>init_ok\<close> says whether the parser could be set up; \<open>load\<close> is the parser, \<open>files\<close> the files that can be
  opened.
\<close>

definition hev_config_init_from_str :: "net_env \<Rightarrow> bool \<Rightarrow> (bytes \<Rightarrow> yaml_document option) \<Rightarrow> bytes \<Rightarrow> int \<times> HevConfig" where
  "hev_config_init_from_str env init_ok load config_str =
     (let c = hev_config_reset
      in if \<not> init_ok then (-1, c)
         else (case load config_str of None \<Rightarrow> (-1, c) | Some doc \<Rightarrow> hev_config_parse_doc env doc c))"

definition hev_config_init_from_file ::
  "net_env \<Rightarrow> bool \<Rightarrow> (bytes \<Rightarrow> yaml_document option) \<Rightarrow> (bytes \<rightharpoonup> bytes) \<Rightarrow> bytes \<Rightarrow> int \<times> HevConfig" where
  "hev_config_init_from_file env init_ok load files config_path =
     (let c = hev_config_reset
      in if \<not> init_ok then (-1, c)
         else
           (case files config_path of
              None \<Rightarrow> (-1, c)
            | Some content \<Rightarrow>
                (case load content of None \<Rightarrow> (-1, c) | Some doc \<Rightarrow> hev_config_parse_doc env doc c)))"

section \<open>Reading the settings\<close>

definition non_empty :: "bytes \<Rightarrow> bytes option" where
  "non_empty s = (if s = [] then None else Some s)"

definition hev_config_get_tunnel_name :: "HevConfig \<Rightarrow> bytes option" where
  "hev_config_get_tunnel_name c = non_empty (tun_name c)"

definition hev_config_get_tunnel_ipv4_address :: "HevConfig \<Rightarrow> bytes option" where
  "hev_config_get_tunnel_ipv4_address c = non_empty (tun_ipv4_address c)"

definition hev_config_get_tunnel_ipv6_address :: "HevConfig \<Rightarrow> bytes option" where
  "hev_config_get_tunnel_ipv6_address c = non_empty (tun_ipv6_address c)"

definition hev_config_get_tunnel_post_up_script :: "HevConfig \<Rightarrow> bytes option" where
  "hev_config_get_tunnel_post_up_script c = non_empty (tun_post_up_script c)"

definition hev_config_get_tunnel_pre_down_script :: "HevConfig \<Rightarrow> bytes option" where
  "hev_config_get_tunnel_pre_down_script c = non_empty (tun_pre_down_script c)"

definition hev_config_get_misc_pid_file :: "HevConfig \<Rightarrow> bytes option" where
  "hev_config_get_misc_pid_file c = non_empty (pid_file c)"

definition hev_config_get_misc_log_file :: "HevConfig \<Rightarrow> bytes option" where
  "hev_config_get_misc_log_file c =
     (if log_file c = [] \<or> strcmp_eq (log_file c) ''null'' then None else Some (log_file c))"

end
