(* ===== verification/Config_Props.thy ===== *)
theory Config_Props
  imports Config
begin

text \<open>
  What a configuration can be after it was read, how large the stack of a task then is, and that a
  server description written as a document is read back.
\<close>

section \<open>Well-formed settings\<close>

text \<open>A text of at most \<open>n\<close> bytes, none of them zero: it fits its field with the zero behind it.\<close>

definition text_ok :: "nat \<Rightarrow> bytes \<Rightarrow> bool" where
  "text_ok n s \<longleftrightarrow> length s \<le> n \<and> 0 \<notin> set s"

definition int_ok :: "int \<Rightarrow> bool" where
  "int_ok x \<longleftrightarrow> - (2 ^ 31) \<le> x \<and> x < 2 ^ 31"

definition srv_ok :: "HevConfigServer \<Rightarrow> bool" where
  "srv_ok s \<longleftrightarrow> text_ok 255 (srv_addr s) \<and> text_ok 255 (srv_udp_addr s) \<and>
     (case (srv_user s, srv_pass s) of
        (Some u, Some p) \<Rightarrow> text_ok 255 u \<and> text_ok 255 p
      | (None, None) \<Rightarrow> True
      | _ \<Rightarrow> False)"

definition config_ok :: "HevConfig \<Rightarrow> bool" where
  "config_ok c \<longleftrightarrow>
     text_ok 63 (tun_name c) \<and> text_ok 15 (tun_ipv4_address c) \<and> text_ok 63 (tun_ipv6_address c) \<and>
     text_ok 63 (tun_post_up_script c) \<and> text_ok 63 (tun_pre_down_script c) \<and> srv_ok (srv c) \<and>
     text_ok 1023 (log_file c) \<and> text_ok 1023 (pid_file c) \<and>
     int_ok (mapdns_port c) \<and> int_ok (mapdns_cache_size c) \<and> int_ok (max_session_count c) \<and>
     int_ok (task_stack_size c) \<and> int_ok (tcp_buffer_size c) \<and> int_ok (udp_recv_buffer_size c) \<and>
     int_ok (udp_copy_buffer_nums c) \<and> int_ok (connect_timeout c) \<and> int_ok (limit_nofile c) \<and>
     0 < tcp_read_write_timeout c \<and> int_ok (tcp_read_write_timeout c) \<and>
     0 < udp_read_write_timeout c \<and> int_ok (udp_read_write_timeout c) \<and>
     log_level c \<in> {HEV_LOGGER_DEBUG, HEV_LOGGER_INFO, HEV_LOGGER_WARN, HEV_LOGGER_ERROR}"

lemma strncpy_ok [simp]: "text_ok n (strncpy n v)"
  by (auto simp: text_ok_def strncpy_def cstr_def dest!: in_set_takeD set_takeWhileD)

lemma int32_ok [simp]: "int_ok (int32 x)"
  using sint_greater_eq [of "word_of_int x :: u32"] sint_less [of "word_of_int x :: u32"]
  by (simp add: int_ok_def int32_def)

lemma strtoul_int_ok [simp]: "int_ok (strtoul_int v)"
  by (simp add: strtoul_int_def)

lemma int32_id: "int_ok x \<Longrightarrow> int32 x = x"
  by (simp add: int_ok_def int32_def int_word_sint)

lemma reset_ok: "config_ok hev_config_reset"
  by (simp add: config_ok_def hev_config_reset_def text_ok_def int_ok_def srv_ok_def HEV_LOGGER_WARN_def)

lemma tunnel_scalar_ok: "config_ok c \<Longrightarrow> config_ok (tunnel_scalar k v c)"
  by (simp add: config_ok_def tunnel_scalar_def)

lemma mapdns_scalar_ok: "config_ok c \<Longrightarrow> config_ok (mapdns_scalar env k v c)"
  by (simp add: config_ok_def mapdns_scalar_def Let_def)

lemma log_level_ok: "hev_config_parse_log_level v \<in> {HEV_LOGGER_DEBUG, HEV_LOGGER_INFO, HEV_LOGGER_WARN, HEV_LOGGER_ERROR}"
  by (simp add: hev_config_parse_log_level_def)

lemma misc_scalar_ok: "config_ok c \<Longrightarrow> config_ok (misc_scalar k v c)"
  using log_level_ok [of v] by (simp add: config_ok_def misc_scalar_def del: insert_iff)

lemma fold_ok:
  assumes "\<And>k v c. config_ok c \<Longrightarrow> config_ok (f k v c)" "config_ok c"
  shows "config_ok (fold (\<lambda>(k, v). f k v) ps c)"
  using assms(2) by (induction ps arbitrary: c) (auto intro: assms(1))

lemma each_scalar_ok:
  assumes "\<And>k v c. config_ok c \<Longrightarrow> config_ok (f k v c)" "config_ok c"
  shows "config_ok (snd (each_scalar f doc base c))"
  using fold_ok [of f, OF assms] assms(2) by (auto simp: each_scalar_def split: option.splits yaml_node.splits)

lemma address_ok:
  "config_ok c \<Longrightarrow> config_ok (c\<lparr>tun_ipv4_address := strncpy 15 v\<rparr>)"
  "config_ok c \<Longrightarrow> config_ok (c\<lparr>tun_ipv6_address := strncpy 63 v\<rparr>)"
  by (simp_all add: config_ok_def)

lemma tunnel_address_ok:
  "config_ok c \<Longrightarrow> config_ok (snd (hev_config_parse_tunnel_ipv4 doc base c))"
  "config_ok c \<Longrightarrow> config_ok (snd (hev_config_parse_tunnel_ipv6 doc base c))"
  unfolding hev_config_parse_tunnel_ipv4_def hev_config_parse_tunnel_ipv6_def
  by (rule each_scalar_ok; simp add: address_ok)+

lemma tunnel_pairs_ok: "config_ok c \<Longrightarrow> config_ok (tunnel_pairs doc ps c)"
proof (induction doc ps c rule: tunnel_pairs.induct)
  case (2 doc k v ps c)
  then show ?case
    by (auto split: option.splits yaml_node.splits simp: tunnel_scalar_ok tunnel_address_ok)
qed simp

lemma srv_ok_simps:
  "srv_ok (s\<lparr>srv_pipeline := b\<rparr>) = srv_ok s" "srv_ok (s\<lparr>srv_udp_in_udp := b\<rparr>) = srv_ok s"
  "srv_ok (s\<lparr>srv_mark := m\<rparr>) = srv_ok s" "srv_ok (s\<lparr>srv_fastopen := b\<rparr>) = srv_ok s"
  "srv_ok s \<Longrightarrow> srv_ok (s\<lparr>srv_udp_addr := strncpy 255 a\<rparr>)"
  "srv_ok s \<Longrightarrow> srv_ok (s\<lparr>srv_addr := strncpy 255 a, srv_port := p\<rparr>)"
  "srv_ok s \<Longrightarrow> srv_ok (s\<lparr>srv_user := Some (strncpy 255 u), srv_pass := Some (strncpy 255 q)\<rparr>)"
  by (simp_all add: srv_ok_def)

lemma socks5_settings_ok: "srv_ok s \<Longrightarrow> srv_ok (socks5_settings ps addr port s)"
  by (simp add: socks5_settings_def Let_def srv_ok_simps split: option.split)

lemma parse_socks5_ok:
  assumes "config_ok c"
  shows "config_ok (snd (hev_config_parse_socks5 doc base c))"
proof -
  have "config_ok (c\<lparr>srv := socks5_settings ps addr port (srv c)\<rparr>)" for ps addr port
    using assms socks5_settings_ok by (simp add: config_ok_def)
  with assms show ?thesis by (simp add: hev_config_parse_socks5_def Let_def split: option.split yaml_node.split)
qed

lemma last_timeout_ok: "int_ok (last_timeout s ps)"
  by (auto simp: last_timeout_def int_ok_def split: option.splits) (use strtoul_int_ok in \<open>auto simp: int_ok_def\<close>)

lemma parse_misc_ok:
  assumes "config_ok c"
  shows "config_ok (snd (hev_config_parse_misc doc base c))"
proof -
  have f: "config_ok (fold (\<lambda>(k, v). misc_scalar k v) ps c)" for ps
    using assms by (intro fold_ok misc_scalar_ok)
  have t: "config_ok (if 0 < a then c\<lparr>tcp_read_write_timeout := a\<rparr> else c)"
    and u: "config_ok (if 0 < a then c\<lparr>udp_read_write_timeout := a\<rparr> else c)" if "config_ok c" "int_ok a" for a c
    using that by (simp_all add: config_ok_def)
  have l: "int_ok (if last_timeout a ps \<le> 0 then last_timeout b ps else last_timeout a ps)" for a b ps
    by (simp add: last_timeout_ok)
  show ?thesis
    using assms t [OF f l] u [OF t [OF f l] l]
    by (simp add: hev_config_parse_misc_def Let_def split: option.split yaml_node.split)
qed

lemma parse_mapdns_ok:
  assumes "config_ok c"
  shows "config_ok (snd (hev_config_parse_mapdns env doc base c))"
proof -
  obtain r d where e: "each_scalar (mapdns_scalar env) doc base c = (r, d)" by fastforce
  with each_scalar_ok [of "mapdns_scalar env", OF mapdns_scalar_ok assms, of doc base] have "config_ok d" by simp
  then have "config_ok (d\<lparr>mapdns_network := ntohl (mapdns_network d), mapdns_netmask := ntohl (mapdns_netmask d)\<rparr>)"
    by (simp add: config_ok_def)
  with e \<open>config_ok d\<close> show ?thesis by (simp add: hev_config_parse_mapdns_def)
qed

lemma section_ok: "config_ok c \<Longrightarrow> config_ok (snd (config_section env k doc node c))"
  by (simp add: config_section_def parse_socks5_ok parse_misc_ok parse_mapdns_ok hev_config_parse_tunnel_def tunnel_pairs_ok
      split: option.split yaml_node.split)

lemma sections_ok: "config_ok c \<Longrightarrow> config_ok (snd (config_sections env doc ps c))"
proof (induction env doc ps c rule: config_sections.induct)
  case (2 env doc k v ps c)
  show ?case
  proof (cases "k = 0 \<or> v = 0 \<or> (\<nexists>x. yaml_document_get_node doc k = Some (YAML_SCALAR_NODE x))")
    case True
    with 2(2) show ?thesis by (auto split: option.splits yaml_node.splits)
  next
    case False
    then obtain x where x: "yaml_document_get_node doc k = Some (YAML_SCALAR_NODE x)" by blast
    obtain r d where e: "config_section env x doc (yaml_document_get_node doc v) c = (r, d)" by fastforce
    with section_ok [OF 2(2), of env x doc "yaml_document_get_node doc v"] have "config_ok d" by simp
    with 2(1) False x e show ?thesis by auto
  qed
qed simp

lemma section_result: "fst (config_section env k doc node c) \<in> {0, -1}"
  by (simp add: config_section_def hev_config_parse_tunnel_def hev_config_parse_socks5_def hev_config_parse_misc_def
      hev_config_parse_mapdns_def each_scalar_def Let_def split: option.split yaml_node.split prod.split)

lemma sections_result: "fst (config_sections env doc ps c) \<in> {0, -1}"
  by (induction env doc ps c rule: config_sections.induct) (auto split: option.splits yaml_node.splits prod.splits)

lemma sizes_ok: "config_ok c \<Longrightarrow> config_ok (config_sizes c)"
proof -
  assume c: "config_ok c"
  then have "config_ok (if tcp_buffer_size c > CONFIG_TCP_SND_BUF then c\<lparr>tcp_buffer_size := CONFIG_TCP_SND_BUF\<rparr> else c)"
    by (simp add: config_ok_def CONFIG_TCP_SND_BUF_def int_ok_def)
  moreover have "config_ok (d\<lparr>task_stack_size := int32 x\<rparr>)" if "config_ok d" for d x
    using that by (simp add: config_ok_def)
  ultimately show ?thesis by (simp add: config_sizes_def Let_def)
qed

lemma parse_doc_ok: "config_ok c \<Longrightarrow> config_ok (snd (hev_config_parse_doc env doc c))"
  using sections_ok [of c env doc] sizes_ok
  by (auto simp: hev_config_parse_doc_def split: option.split yaml_node.split prod.split) (metis snd_conv)+

lemma sizes_stack:
  "task_stack_size (config_sizes d) = max (task_stack_size d)
     (int32 (20480 + max (min (tcp_buffer_size d) 65528) (int32 (1500 * udp_copy_buffer_nums d))))"
  by (simp add: config_sizes_def Let_def CONFIG_TCP_SND_BUF_def CONFIG_UDP_BUF_SIZE_def TASK_STACK_SIZE_def max_def min_def)

lemma init_cases:
  "hev_config_init_from_file env init_ok load files path = x \<Longrightarrow>
   x = (-1, hev_config_reset) \<or> (\<exists>doc. x = hev_config_parse_doc env doc hev_config_reset)"
  "hev_config_init_from_str env init_ok load input = x \<Longrightarrow>
   x = (-1, hev_config_reset) \<or> (\<exists>doc. x = hev_config_parse_doc env doc hev_config_reset)"
  by (auto simp: hev_config_init_from_file_def hev_config_init_from_str_def Let_def split: if_splits option.splits)

section \<open>Documents\<close>

text \<open>Numbers as text, and a document with one section of scalars, as the parser would build it.\<close>

fun dec :: "nat \<Rightarrow> bytes" where
  "dec n = (if n < 10 then [48 + of_nat n] else dec (n div 10) @ [48 + of_nat (n mod 10)])"

declare dec.simps [simp del]

fun index_pairs :: "nat \<Rightarrow> nat \<Rightarrow> (int \<times> int) list" where
  "index_pairs n 0 = []"
| "index_pairs n (Suc m) = (int n, int n + 1) # index_pairs (n + 2) m"

definition scalar_nodes :: "(string \<times> bytes) list \<Rightarrow> yaml_node list" where
  "scalar_nodes kvs = concat (map (\<lambda>(k, v). [YAML_SCALAR_NODE (str k), YAML_SCALAR_NODE v]) kvs)"

definition section_doc :: "string \<Rightarrow> (string \<times> bytes) list \<Rightarrow> yaml_document" where
  "section_doc name kvs =
     [YAML_MAPPING_NODE [(2, 3)], YAML_SCALAR_NODE (str name), YAML_MAPPING_NODE (index_pairs 4 (length kvs))] @ scalar_nodes kvs"

definition server_pairs :: "HevConfigServer \<Rightarrow> (string \<times> bytes) list" where
  "server_pairs s =
     [(''address'', srv_addr s), (''port'', dec (unat (srv_port s))),
      (''udp'', str (if srv_udp_in_udp s then ''udp'' else ''tcp'')), (''udp-address'', srv_udp_addr s),
      (''pipeline'', str (if srv_pipeline s then ''true'' else ''false'')), (''mark'', dec (unat (srv_mark s))),
      (''tcp-fastopen'', str (if srv_fastopen s then ''true'' else ''false''))] @
     (case (srv_user s, srv_pass s) of (Some u, Some p) \<Rightarrow> [(''username'', u), (''password'', p)] | _ \<Rightarrow> [])"

lemma get_node_nth: "yaml_document_get_node (pre @ n # post) (int (length pre) + 1) = Some n"
  by (simp add: yaml_document_get_node_def nat_add_distrib)

lemma scalar_pairs_nodes:
  "scalar_pairs (pre @ scalar_nodes kvs) (index_pairs (length pre + 1) (length kvs)) = map (\<lambda>(k, v). (str k, v)) kvs"
proof (induction kvs arbitrary: pre)
  case (Cons x kvs)
  obtain k v where x: "x = (k, v)" by fastforce
  let ?pre = "pre @ [YAML_SCALAR_NODE (str k), YAML_SCALAR_NODE v]"
  have d: "scalar_nodes ((k, v) # kvs) = YAML_SCALAR_NODE (str k) # YAML_SCALAR_NODE v # scalar_nodes kvs"
    by (simp add: scalar_nodes_def)
  have "yaml_document_get_node (?pre @ scalar_nodes kvs) (int (length pre) + 1) = Some (YAML_SCALAR_NODE (str k))"
    "yaml_document_get_node (?pre @ scalar_nodes kvs) (int (length pre) + 2) = Some (YAML_SCALAR_NODE v)"
    using get_node_nth [of pre "YAML_SCALAR_NODE (str k)" "YAML_SCALAR_NODE v # scalar_nodes kvs"]
      get_node_nth [of "pre @ [YAML_SCALAR_NODE (str k)]" "YAML_SCALAR_NODE v" "scalar_nodes kvs"] by (simp_all add: add.commute)
  moreover have "scalar_pairs (?pre @ scalar_nodes kvs) (index_pairs (Suc (Suc (Suc (length pre)))) (length kvs)) =
    map (\<lambda>(k, v). (str k, v)) kvs" using Cons [of ?pre] by simp
  ultimately show ?case by (simp add: x d add.commute)
qed simp

lemma digit_val_dec: "k < 10 \<Longrightarrow> digit_val (48 + of_nat k) = k"
proof -
  assume "k < 10"
  then have "k \<in> {0, 1, 2, 3, 4, 5, 6, 7, 8, 9}" by auto
  then show ?thesis by (auto simp: digit_val_def)
qed

lemma dec_byte: "k < 10 \<Longrightarrow> (48 + of_nat k :: u8) \<noteq> 0 \<and> \<not> c_isspace (48 + of_nat k) \<and>
  (48 + of_nat k :: u8) \<noteq> 43 \<and> (48 + of_nat k :: u8) \<noteq> 45 \<and> ((48 + of_nat k :: u8) = 48 \<longleftrightarrow> k = 0)"
proof -
  assume "k < 10"
  then have "k \<in> {0, 1, 2, 3, 4, 5, 6, 7, 8, 9}" by auto
  then show ?thesis by (auto simp: c_isspace_def)
qed

lemma dec_props:
  "foldl (\<lambda>n d. n * 10 + d) 0 (map digit_val (dec n)) = n \<and> (\<forall>c \<in> set (dec n). c \<noteq> 0 \<and> digit_val c < 10) \<and>
   (\<exists>c r. dec n = c # r \<and> \<not> c_isspace c \<and> c \<noteq> 43 \<and> c \<noteq> 45 \<and> (c = 48 \<longrightarrow> n = 0 \<and> r = []))"
proof (induction n rule: dec.induct)
  case (1 n)
  show ?case
  proof (cases "n < 10")
    case True
    with dec_byte [of n] digit_val_dec [of n] show ?thesis by (simp add: dec.simps [of n])
  next
    case False
    note ih = 1 [OF False]
    have "n mod 10 < 10" "n div 10 \<noteq> 0" using False by auto
    with ih digit_val_dec [of "n mod 10"] dec_byte [of "n mod 10"] False show ?thesis
      by (auto simp: dec.simps [of n])
  qed
qed

lemma cstr_id: "0 \<notin> set v \<Longrightarrow> cstr v = v"
  by (auto simp: cstr_def takeWhile_eq_all_conv)

lemma strtoul_dec:
  assumes "n < 2 ^ 64" "base = 10 \<or> base = 0"
  shows "strtoul (dec n) base = of_nat n"
proof -
  from dec_props [of n] obtain c r where d: "dec n = c # r" "\<not> c_isspace c" "c \<noteq> 43" "c \<noteq> 45"
    "c = 48 \<longrightarrow> n = 0 \<and> r = []" by blast
  have z: "cstr (dec n) = dec n" using dec_props [of n] by (intro cstr_id) blast
  have t: "takeWhile (\<lambda>d. d < 10) (map digit_val (dec n)) = map digit_val (dec n)"
    using dec_props [of n] by (auto simp: takeWhile_eq_all_conv)
  show ?thesis
  proof (cases "base = 0 \<and> c = 48")
    case True
    with d have e: "dec n = [48]" "n = 0" by auto
    then have "strtoul (dec n) 0 = 0" unfolding e(1)
      by (simp add: strtoul_def scan_int_def scan_base_def cstr_def c_isspace_def digit_val_def)
    with True e show ?thesis by simp
  next
    case False
    have "scan_base base (dec n) = (10, dec n)"
      using False assms(2) d(1) by (cases r; cases "tl r") (auto simp: scan_base_def split: list.splits)
    moreover have "dropWhile c_isspace (dec n) = dec n"
      "(case dec n of [] \<Rightarrow> (False, dec n) | c # r \<Rightarrow> if c = 45 then (True, r) else if c = 43 then (False, r) else (False, dec n)) =
       (False, dec n)" using d by simp_all
    ultimately have "scan_int base (dec n) = (False, n)"
      using dec_props [of n] by (simp only: scan_int_def z Let_def split_conv t simp_thms)
    with assms(1) show ?thesis by (simp add: strtoul_def)
  qed
qed

section \<open>Properties\<close>

text \<open>
  C18: Whatever the configuration file holds, and whether reading it succeeds or not, the settings are
  well-formed afterwards: every text fits its field with its terminating zero, both credentials are
  there or none, every number is within the range of its type, the log level is one of the four and
  the timeouts of the sessions are positive.
\<close>
theorem config_type:
  assumes "hev_config_init_from_file env init_ok load files path = (r, c) \<or>
    hev_config_init_from_str env init_ok load input = (r, c)"
  shows "config_ok c \<and> (r = 0 \<or> r = -1)"
proof -
  have "config_ok (snd (hev_config_parse_doc env doc hev_config_reset))" for doc
    by (rule parse_doc_ok [OF reset_ok])
  moreover have "fst (hev_config_parse_doc env doc c) \<in> {0, -1}" for doc c
    by (simp add: hev_config_parse_doc_def split: option.split yaml_node.split prod.split)
  moreover have "(r, c) = (-1, hev_config_reset) \<or> (\<exists>doc. (r, c) = hev_config_parse_doc env doc hev_config_reset)"
    using assms init_cases by blast
  ultimately show ?thesis using reset_ok by (metis empty_iff fst_conv insert_iff snd_conv)
qed

text \<open>
  After a configuration was accepted, the buffer of a TCP session fits the send buffer of the
  stack, and unless the product of the buffers overflows the stack of a session's task holds the
  buffer of a TCP session, and that of a UDP session, above its base size.
\<close>
theorem config_stack_size:
  assumes "hev_config_init_from_file env init_ok load files path = (0, c)"
    and "- (2 ^ 31) \<le> 1500 * udp_copy_buffer_nums c" "1500 * udp_copy_buffer_nums c + 20480 < 2 ^ 31"
  shows "tcp_buffer_size c \<le> 65528 \<and> 20480 + tcp_buffer_size c \<le> task_stack_size c \<and>
    20480 + 1500 * udp_copy_buffer_nums c \<le> task_stack_size c"
proof -
  from assms(1) obtain doc where d: "hev_config_parse_doc env doc hev_config_reset = (0, c)"
    by (auto simp: hev_config_init_from_file_def Let_def split: if_splits option.splits)
  then obtain ps r d where e: "config_sections env doc ps hev_config_reset = (r, d)" "c = config_sizes d"
    by (auto simp: hev_config_parse_doc_def split: option.splits yaml_node.splits prod.splits if_splits)
  have "config_ok d" using sections_ok [OF reset_ok, of env doc ps] e(1) by simp
  then have t: "int_ok (tcp_buffer_size d)" by (simp add: config_ok_def)
  define tcp where "tcp = min (tcp_buffer_size d) 65528"
  have n: "udp_copy_buffer_nums c = udp_copy_buffer_nums d" "tcp_buffer_size c = tcp"
    by (auto simp: e(2) config_sizes_def Let_def CONFIG_TCP_SND_BUF_def tcp_def)
  have u: "int32 (1500 * udp_copy_buffer_nums d) = 1500 * udp_copy_buffer_nums d"
    using assms(2,3) n(1) by (intro int32_id) (simp add: int_ok_def)
  have m: "int32 (20480 + max tcp (1500 * udp_copy_buffer_nums d)) = 20480 + max tcp (1500 * udp_copy_buffer_nums d)"
    using assms(2,3) n(1) t by (intro int32_id) (auto simp: int_ok_def tcp_def)
  have "task_stack_size c = max (task_stack_size d) (20480 + max tcp (1500 * udp_copy_buffer_nums d))"
    unfolding e(2) sizes_stack u tcp_def [symmetric] m ..
  with n show ?thesis by (auto simp: tcp_def)
qed

text \<open>The section of the document in which each key stands once.\<close>

lemma section_doc_nodes:
  "yaml_document_get_root_node (section_doc name kvs) = Some (YAML_MAPPING_NODE [(2, 3)])"
  "yaml_document_get_node (section_doc name kvs) 2 = Some (YAML_SCALAR_NODE (str name))"
  "yaml_document_get_node (section_doc name kvs) 3 = Some (YAML_MAPPING_NODE (index_pairs 4 (length kvs)))"
  "scalar_pairs (section_doc name kvs) (index_pairs 4 (length kvs)) = map (\<lambda>(k, v). (str k, v)) kvs"
proof -
  show "yaml_document_get_root_node (section_doc name kvs) = Some (YAML_MAPPING_NODE [(2, 3)])"
    "yaml_document_get_node (section_doc name kvs) 2 = Some (YAML_SCALAR_NODE (str name))"
    "yaml_document_get_node (section_doc name kvs) 3 = Some (YAML_MAPPING_NODE (index_pairs 4 (length kvs)))"
    by (simp_all add: section_doc_def yaml_document_get_root_node_def yaml_document_get_node_def)
  have "length [a, b, c :: yaml_node] + 1 = 4" for a b c by simp
  then show "scalar_pairs (section_doc name kvs) (index_pairs 4 (length kvs)) = map (\<lambda>(k, v). (str k, v)) kvs"
    unfolding section_doc_def using scalar_pairs_nodes by metis
qed

lemma server_values:
  defines "ps \<equiv> \<lambda>s. map (\<lambda>(k, v). (str k, v)) (server_pairs s)"
  shows "last_value ''address'' (ps s) = Some (srv_addr s)" "last_value ''port'' (ps s) = Some (dec (unat (srv_port s)))"
    "last_value ''udp'' (ps s) = Some (str (if srv_udp_in_udp s then ''udp'' else ''tcp''))"
    "last_value ''udp-address'' (ps s) = Some (srv_udp_addr s)"
    "last_value ''pipeline'' (ps s) = Some (str (if srv_pipeline s then ''true'' else ''false''))"
    "last_value ''mark'' (ps s) = Some (dec (unat (srv_mark s)))"
    "last_value ''tcp-fastopen'' (ps s) = Some (str (if srv_fastopen s then ''true'' else ''false''))"
    "srv_ok s \<Longrightarrow> last_value ''username'' (ps s) = srv_user s"
    "srv_ok s \<Longrightarrow> last_value ''password'' (ps s) = srv_pass s"
  by (cases "srv_user s"; cases "srv_pass s";
      simp add: ps_def server_pairs_def last_value_def strcmp_eq_def cstr_def str_def srv_ok_def)+

text \<open>
  C19: A server description that is written as a \<open>socks5\<close> section is read back: for any address, port,
  mark, UDP address and credentials that fit their fields and any of the flags, the configuration is
  accepted and its server is that description, with all other settings at their defaults.
\<close>
theorem config_server_roundtrip:
  assumes "srv_ok s" "load input = Some (section_doc ''socks5'' (server_pairs s))"
  shows "hev_config_init_from_str env True load input = (0, config_sizes (hev_config_reset\<lparr>srv := s\<rparr>))"
proof -
  let ?ps = "map (\<lambda>(k, v). (str k, v)) (server_pairs s)"
  have t: "strncpy 255 v = v" if "text_ok 255 v" for v
    using that by (simp add: strncpy_def text_ok_def cstr_id)
  have w: "is_word (Some (str (if b then ''true'' else ''false''))) ''true'' = b"
    "is_word (Some (str (if b then ''udp'' else ''tcp''))) ''udp'' = b" for b
    by (cases b; simp add: is_word_def strcasecmp_eq_def cstr_def str_def tolower_def)+
  have n: "ucast (strtoul (dec (unat (srv_port s))) 10) = srv_port s" "ucast (strtoul (dec (unat (srv_mark s))) 0) = srv_mark s"
    using unat_less_size [of "srv_port s"] unat_less_size [of "srv_mark s"] by (simp_all add: strtoul_dec ucast_up_ucast_id is_up)
  have "socks5_settings ?ps (srv_addr s) (dec (unat (srv_port s))) (srv hev_config_reset) = s"
  proof -
    have o: "srv_ok s" by fact
    have f: "srv_addr s = strncpy 255 (srv_addr s)" "srv_udp_addr s = strncpy 255 (srv_udp_addr s)"
      using o t by (simp_all add: srv_ok_def)
    have "socks5_settings ?ps (srv_addr s) (dec (unat (srv_port s))) (srv hev_config_reset) =
      \<lparr>srv_user = srv_user s, srv_pass = srv_pass s, srv_mark = srv_mark s, srv_udp_in_udp = srv_udp_in_udp s,
       srv_port = srv_port s, srv_pipeline = srv_pipeline s, srv_fastopen = srv_fastopen s,
       srv_udp_addr = srv_udp_addr s, srv_addr = srv_addr s\<rparr>"
      unfolding socks5_settings_def Let_def server_values(3-7) server_values(8,9) [OF o] w n option.case f(1,2) [symmetric]
      using o t by (cases "srv_user s"; cases "srv_pass s") (simp_all add: hev_config_reset_def srv_ok_def)
    then show ?thesis by simp
  qed
  moreover have "(last_value ''username'' ?ps = None) = (last_value ''password'' ?ps = None)"
    using assms(1) server_values(8,9) [of s] by (auto simp: srv_ok_def split: option.splits)
  ultimately have "hev_config_parse_socks5 (section_doc ''socks5'' (server_pairs s))
      (Some (YAML_MAPPING_NODE (index_pairs 4 (length (server_pairs s))))) hev_config_reset = (0, hev_config_reset\<lparr>srv := s\<rparr>)"
    by (simp add: hev_config_parse_socks5_def section_doc_nodes Let_def server_values)
  moreover have "strcmp_eq (str ''socks5'') ''socks5''" "\<not> strcmp_eq (str ''socks5'') ''tunnel''"
    by (simp_all add: strcmp_eq_def cstr_def str_def)
  ultimately show ?thesis
    using assms(2)
    by (simp add: hev_config_init_from_str_def hev_config_parse_doc_def section_doc_nodes config_section_def)
qed

lemma misc_nums_parsed:
  assumes "files path = Some input" "load input = Some (section_doc ''misc'' [(''udp-copy-buffer-nums'', v)])"
  shows "hev_config_init_from_file env True load files path =
      (0, config_sizes (hev_config_reset\<lparr>udp_copy_buffer_nums := strtoul_int v\<rparr>))"
proof -
  let ?d = "section_doc ''misc'' [(''udp-copy-buffer-nums'', v)]"
  have "scalar_pairs ?d (index_pairs 4 1) = [(str ''udp-copy-buffer-nums'', v)]"
    using section_doc_nodes(4) [of "''misc''" "[(''udp-copy-buffer-nums'', v)]"] by simp
  moreover have "misc_scalar (str ''udp-copy-buffer-nums'') v c = c\<lparr>udp_copy_buffer_nums := strtoul_int v\<rparr>" for c
    by (simp add: misc_scalar_def strcmp_eq_def cstr_def str_def)
  moreover have "last_timeout t [(str ''udp-copy-buffer-nums'', v)] = -1"
    if "t \<in> {''read-write-timeout'', ''tcp-read-write-timeout'', ''udp-read-write-timeout''}" for t
    using that by (auto simp: last_timeout_def last_value_def strcmp_eq_def cstr_def str_def)
  ultimately have "hev_config_parse_misc ?d (Some (YAML_MAPPING_NODE (index_pairs 4 1))) hev_config_reset =
      (0, hev_config_reset\<lparr>udp_copy_buffer_nums := strtoul_int v\<rparr>)"
    by (simp add: hev_config_parse_misc_def Let_def)
  moreover have "strcmp_eq (str ''misc'') ''misc''" "\<not> strcmp_eq (str ''misc'') ''tunnel''"
      "\<not> strcmp_eq (str ''misc'') ''socks5''" "\<not> strcmp_eq (str ''misc'') ''mapdns''"
    by (simp_all add: strcmp_eq_def cstr_def str_def)
  ultimately show ?thesis
    using assms section_doc_nodes [of "''misc''" "[(''udp-copy-buffer-nums'', v)]"]
    by (simp add: hev_config_init_from_file_def hev_config_parse_doc_def config_section_def)
qed

text \<open>
  Nothing is checked beyond the \<open>socks5\<close> section that is there: a file without one is accepted, and
  leaves an empty server address, and the number of UDP buffers, which is the length of arrays on the
  stack, may be zero or negative.
\<close>
theorem config_unchecked:
  assumes "files path = Some input" "load input = Some (section_doc ''misc'' [(''udp-copy-buffer-nums'', v)])"
  shows "\<exists>c. hev_config_init_from_file env True load files path = (0, c) \<and> srv_addr (srv c) = [] \<and> srv_port (srv c) = 0 \<and>
    udp_copy_buffer_nums c = strtoul_int v"
  by (simp add: misc_nums_parsed [where files = files and load = load, OF assms] config_sizes_def Let_def hev_config_reset_def)

subsection \<open>Witnesses\<close>

definition server_example :: HevConfigServer where
  "server_example = \<lparr>srv_user = Some (str ''user''), srv_pass = Some (str ''secret''), srv_mark = 438, srv_udp_in_udp = True,
     srv_port = 1080, srv_pipeline = False, srv_fastopen = True, srv_udp_addr = [], srv_addr = str ''127.0.0.1''\<rparr>"

theorem config_server_roundtrip_witness:
  "srv (snd (hev_config_init_from_str \<lparr>pton4 = (\<lambda>_. None), pton6 = (\<lambda>_. None), gai = (\<lambda>_ _. None)\<rparr> True
     (\<lambda>_. Some (section_doc ''socks5'' (server_pairs server_example))) [])) = server_example"
proof -
  have "srv_ok server_example" by (simp add: server_example_def srv_ok_def text_ok_def str_def)
  from config_server_roundtrip [OF this refl] show ?thesis
    by (simp add: config_sizes_def Let_def hev_config_reset_def)
qed

definition no_names :: net_env where
  "no_names = \<lparr>pton4 = (\<lambda>_. None), pton6 = (\<lambda>_. None), gai = (\<lambda>_ _. None)\<rparr>"

theorem config_type_witness:
  "config_ok (snd (hev_config_init_from_str no_names True
     (\<lambda>_. Some (section_doc ''tunnel'' [(''name'', replicate 100 97), (''ipv4'', [49, 0, 50])])) []))"
  using config_type [where env = no_names and init_ok = True and input = "[]" and files = "\<lambda>_. None" and path = "[]"
      and load = "\<lambda>_. Some (section_doc ''tunnel'' [(''name'', replicate 100 97), (''ipv4'', [49, 0, 50])])",
      OF disjI2 [OF surjective_pairing]] by simp

definition copy_buffers :: "bytes \<Rightarrow> int \<times> HevConfig" where
  "copy_buffers v = hev_config_init_from_file no_names True
     (\<lambda>_. Some (section_doc ''misc'' [(''udp-copy-buffer-nums'', v)])) (\<lambda>_. Some []) []"

lemma copy_buffers_eq: "copy_buffers v = (0, config_sizes (hev_config_reset\<lparr>udp_copy_buffer_nums := strtoul_int v\<rparr>))"
  unfolding copy_buffers_def by (rule misc_nums_parsed) simp_all

lemma sizes_nums [simp]: "udp_copy_buffer_nums (config_sizes c) = udp_copy_buffer_nums c"
  by (simp add: config_sizes_def Let_def)

lemma ucast_minus_1: "(ucast (- 1 :: u64) :: u32) = - 1"
  by (rule bit_word_eqI) (simp add: bit_simps)

lemma nums_values: "strtoul_int [51, 48] = 30" "strtoul_int [45, 49] = -1"
  using ucast_minus_1 by (simp_all add: strtoul_int_def strtoul_def scan_int_def scan_base_def cstr_def c_isspace_def digit_val_def int32_def)

theorem config_stack_size_witness: "20480 + 45000 \<le> task_stack_size (snd (copy_buffers [51, 48]))"
proof -
  obtain c where c: "copy_buffers [51, 48] = (0, c)" "udp_copy_buffer_nums c = 30"
    by (simp add: copy_buffers_eq nums_values)
  from config_stack_size [OF c(1) [unfolded copy_buffers_def]] c show ?thesis by simp
qed

theorem config_unchecked_witness: "udp_copy_buffer_nums (snd (copy_buffers [45, 49])) = -1 \<and> srv_addr (srv (snd (copy_buffers [45, 49]))) = []"
proof -
  from config_unchecked [where files = "\<lambda>_. Some []" and path = "[]" and v = "[45, 49]"
      and load = "\<lambda>_. Some (section_doc ''misc'' [(''udp-copy-buffer-nums'', [45, 49])])" and env = no_names, OF refl refl]
  show ?thesis by (auto simp: copy_buffers_def nums_values)
qed

end
