(* ===== verification/Connection.thy ===== *)
theory Connection
  imports Server_Handshake
begin

text \<open>
  Both ends of the protocol: the client of \<open>core/src/hev-socks5-client.c\<close> connected to the server of
  \<open>core/src/hev-socks5-server.c\<close>. Each has its own world; what one writes is what the other reads.
\<close>

text \<open>The server lets the client in: nobody has to log in, or it knows the client's name and password.\<close>

definition admits :: "'a hev_socks5_server_scheme \<Rightarrow> addr list \<Rightarrow> 'b hev_socks5_client_scheme \<Rightarrow> bool" where
  "admits s xs c \<longleftrightarrow> creds_wf c \<and> server_ok s xs \<and>
     (case obj s of
        NoObj \<Rightarrow> \<not> has_creds c
      | UserObj _ \<Rightarrow> False
      | AuthObj a \<Rightarrow> \<exists>name pass u. auth_user c = Some name \<and> auth_pass c = Some pass \<and> name \<noteq> [] \<and> pass \<noteq> [] \<and>
          auth_map (shared s) xs name = Some u \<and> user_pass (users (shared s) u) = pass)"

lemma shared_timeout [simp]: "shared (hev_socks5_set_timeout s n) = shared s"
  by (simp add: hev_socks5_set_timeout_def)

lemma admits_timeout [simp]: "admits (hev_socks5_set_timeout s n) xs c = admits s xs c"
  by (simp add: admits_def split: held.split)

lemma admits_login:
  assumes "admits s xs c"
  obtains s2 where "logged_in s xs (methods_msg c @ creds_msg c) s s2" "(obj s \<noteq> NoObj) = has_creds c"
proof (cases "obj s")
  case NoObj
  with assms show thesis
    by (intro that [of s]) (auto simp: admits_def logged_in_def methods_msg_def creds_msg_def has_creds_def
        split: option.splits intro!: exI [of _ "[0]"])
next
  case (UserObj u)
  with assms show thesis by (simp add: admits_def)
next
  case (AuthObj a)
  with assms obtain name u where c: "auth_user c = Some name" "auth_pass c = Some (user_pass (users (shared s) u))"
    "name \<noteq> []" "user_pass (users (shared s) u) \<noteq> []" "auth_map (shared s) xs name = Some u" "auth_ok a (shared s) xs"
    "length name < 256" "length (user_pass (users (shared s) u)) < 256"
    by (auto simp: admits_def server_ok_def creds_wf_def)
  from authenticator_unref_returns [of a "hev_object_ref u (shared s)" xs] c(6)
  obtain s' where s': "authenticator_unref a (hev_object_ref u (shared s)) = Some s'" by auto
  show thesis
  proof (rule that)
    show "logged_in s xs (methods_msg c @ creds_msg c) s (s\<lparr>shared := s', obj := UserObj u\<rparr>)"
      unfolding logged_in_def AuthObj held.case
      by (rule exI [of _ "[2]"], rule exI [of _ name], rule exI [of _ u], rule exI [of _ s'])
        (use c s' in \<open>simp add: methods_msg_def creds_msg_def has_creds_def login_msg_def\<close>)
  qed (use AuthObj c in \<open>simp add: has_creds_def\<close>)
qed

text \<open>A reply that names a bound address is one the client takes exactly when its code is 0.\<close>

lemma reply_taken:
  assumes "length (sin6_addr ad) = 16"
  shows "(\<exists>m reply rest. (m = 0 \<or> m = 2) \<and> reply_ok reply \<and>
      greeting s @ [5, rp, 0] @ encode_ep (sockaddr_ep ad) = server_says m reply @ rest) \<longleftrightarrow> rp = 0"
    (is "?L \<longleftrightarrow> _")
proof
  assume ?L
  then obtain m reply rest where m: "m = 0 \<or> m = 2" "reply_ok reply" and
    e: "greeting s @ [5, rp, 0] @ encode_ep (sockaddr_ep ad) = server_says m reply @ rest" by blast
  from m(2) obtain a b r where r: "reply = a # b # r" "b = 0"
    by (cases reply; cases "tl reply") (auto simp: reply_ok_def)
  from e m(1) r show "rp = 0" by (auto simp: greeting_def server_says_def split: if_splits)
next
  assume rp: "rp = 0"
  have l: "length (bslice 12 4 (sin6_addr ad)) = 4" using assms by (simp add: bslice_def)
  have "reply_ok ([5, 0, 0] @ encode_ep (sockaddr_ep ad))"
    using assms l by (auto simp: reply_ok_def sockaddr_ep_def)
  then show ?L
    by (intro exI [of _ "if obj s = NoObj then 0 else 2"] exI [of _ "[5, 0, 0] @ encode_ep (sockaddr_ep ad)"]
        exI [of _ "[]"]) (auto simp: rp greeting_def server_says_def)
qed

lemma reply_exact:
  assumes "length (sin6_addr ad) = 16" "m = 0 \<or> m = 2" "reply_ok reply"
    and e: "greeting s @ [5, 0, 0] @ encode_ep (sockaddr_ep ad) = server_says m reply @ rest"
  shows "rest = [] \<and> (m = 0 \<longrightarrow> obj s = NoObj)"
proof -
  let ?r = "[5, 0, 0] @ encode_ep (sockaddr_ep ad)"
  have l: "length (bslice 12 4 (sin6_addr ad)) = 4" using assms(1) by (simp add: bslice_def)
  then have r: "length ?r = (if ?r ! 3 = 1 then 10 else 22)" using assms(1) by (auto simp: sockaddr_ep_def)
  have "m = (if obj s = NoObj then 0 else 2) \<and> ?r = reply @ rest"
    using e assms(2) by (auto simp: greeting_def server_says_def split: if_splits)
  moreover from this assms(3) have "?r ! 3 = reply ! 3" by (auto simp: reply_ok_def nth_append)
  ultimately have "length ?r = length reply \<and> m = (if obj s = NoObj then 0 else 2) \<and> ?r = reply @ rest"
    using r assms(3) unfolding reply_ok_def by auto
  then have "length reply = length (reply @ rest) \<and> m = (if obj s = NoObj then 0 else 2)" by metis
  then show ?thesis by (simp split: if_splits)
qed

text \<open>
  C3: Both ends agree. A server that admits the client gets the client's bytes, the client gets the
  server's; then the server lets the connection through if and only if the client takes it as
  established, pipelined or not, however the bytes are split into segments and however often either has to wait for
  them within its timeout. The client has then written exactly what the server has consumed,
  neither has touched a byte behind the handshake, and for CONNECT the server's own descriptor is
  connected to the target of the client's request.
\<close>
theorem client_meets_server:
  assumes s: "hev_socks5_server_handshake m env (hev_socks5_server_class sn tcp udp) s ws = (r, s', ws')"
    and c: "hev_socks5_client_handshake m hev_socks5_client_tcp_class pipeline c wc = (q, c', wc')"
    and up: "up_addr c = Some (encode_ep ep)" "ep_wf ep" "stype c \<noteq> HEV_SOCKS5_TYPE_NONE"
    and ad: "admits s xs c" and f: "fd0 s < 0" "fd1 s < 0" and e: "env_ok env" "\<And>k. length (sin6_addr (sn k)) = 16"
    and rs: "ready (hev_socks5_set_timeout s (tcp_timeout m)) ws (methods_msg c @ creds_msg c @ request_msg (stype c) ep @ data)"
    and rc: "ready (hev_socks5_set_timeout c (tcp_timeout m)) wc answer" "wire ws' (fd s) = wire ws (fd s) @ answer"
  shows "(q = 0 \<longleftrightarrow> r = 0) \<and> (r = 0 \<longrightarrow>
      wire wc' (fd c) = wire wc (fd c) @ methods_msg c @ creds_msg c @ request_msg (stype c) ep \<and>
      rx_bytes (rxq ws' (fd s)) = data \<and> rx_bytes (rxq wc' (fd c)) = [] \<and>
      (stype c = HEV_SOCKS5_TYPE_TCP \<longrightarrow> peer ws' (fd0 s') =
         Some (fst (snd (hev_socks5_addr_into_sockaddr6 env (encode_ep ep) sockaddr_zero (addr_family s))))))"
proof -
  let ?s = "hev_socks5_set_timeout s (tcp_timeout m)" and ?cmd = "the (req_cmd (stype c))"
  obtain res target fam where
    t: "hev_socks5_addr_into_sockaddr6 env (encode_ep ep) sockaddr_zero (addr_family s) = (res, target, fam)"
    by (metis prod_cases3)
  have "admits ?s xs c" using ad by simp
  then obtain s2 where li: "logged_in ?s xs (methods_msg c @ creds_msg c) ?s s2" by (rule admits_login)
  have li': "logged_in s xs (methods_msg c @ creds_msg c) ?s s2" using li logged_in_cong [of ?s s] by simp
  have oks: "server_ok s xs" and cw: "creds_wf c" using ad by (simp_all add: admits_def)
  have rd: "ready ?s ws ((methods_msg c @ creds_msg c) @ [5, ?cmd, 0] @ encode_ep ep @ data)"
    using rs by (simp add: request_msg_def)
  from server_answers [OF s rd up(2) oks li' f e t] obtain rp bnd addr where
    sv: "wire ws' (fd s) = wire ws (fd s) @ greeting s @ [5, rp, 0] @ encode_ep bnd"
      "bnd = sockaddr_ep addr" "length (sin6_addr addr) = 16" "rx_bytes (rxq ws' (fd s)) = data"
      "r = (if rp = 0 then 0 else -1)" "?cmd = 1 \<and> rp = 0 \<longrightarrow> peer ws' (fd0 s') = Some target" by blast
  have tx: "tx_flows (txq wc (fd c))" and ra: "rx_bytes (rxq wc (fd c)) = answer"
    using rc(1) by (simp_all add: ready_def)
  have rb: "answer = greeting s @ [5, rp, 0] @ encode_ep (sockaddr_ep addr)"
    using rc(2) sv(1,2) by simp
  have qr: "q = 0 \<longleftrightarrow> r = 0"
    using handshake_accepts [OF rc(1) up cw, of pipeline] c
    unfolding rb reply_taken [OF sv(3)] by (simp add: sv(5))
  have "wire wc' (fd c) = wire wc (fd c) @ methods_msg c @ creds_msg c @ request_msg (stype c) ep \<and>
    rx_bytes (rxq wc' (fd c)) = []" if "r = 0"
  proof -
    from that qr c have "hev_socks5_client_handshake m hev_socks5_client_tcp_class pipeline c wc = (0, c', wc')" by simp
    from handshake_dialogue [OF tx up cw this] obtain meth reply where
      d: "meth = 0 \<or> meth = 2" "reply_ok reply"
        "wire wc' (fd c) = wire wc (fd c) @ methods_msg c @
           (if pipeline \<or> meth = 2 then creds_msg c else []) @ request_msg (stype c) ep"
        "rx_bytes (rxq wc (fd c)) = server_says meth reply @ rx_bytes (rxq wc' (fd c))" by blast
    have "rp = 0" using that sv(5) by (simp split: if_splits)
    with reply_exact [OF sv(3) d(1,2)] d(4) rb ra have "rx_bytes (rxq wc' (fd c)) = []" "meth = 0 \<longrightarrow> obj s = NoObj" by auto
    moreover have "creds_msg c = []" if "obj s = NoObj"
      using ad that by (auto simp: admits_def has_creds_def creds_msg_def split: option.splits)
    ultimately show ?thesis using d(1,3) by auto
  qed
  moreover have "?cmd = 1" if "stype c = HEV_SOCKS5_TYPE_TCP" using that by simp
  moreover have "rp = 0" if "r = 0" using that sv(5) by (simp split: if_splits)
  ultimately show ?thesis using qr sv(4,6) t by auto
qed


section \<open>A login\<close>

text \<open>The equations by which the runs below are computed.\<close>

declare rb_search.simps [code] hev_socks5_authenticator_clear.simps [code]
  erase_color_loop.simps [code] find_successor.simps [code] rb_descend.simps [code]

definition login_client :: hev_socks5_client_tcp where
  "login_client = tcp_client (Some [97, 97]) (Some [98, 98, 98, 98]) (EpV4 [1, 2, 3, 4] 443)"

definition login_server_world :: world where
  "login_server_world = quiet\<lparr>sys := [9, 0, 0, 0],
     rxq := (\<lambda>_. [RData [5, 1, 2, 1, 2, 97, 97, 4, 98, 98], RData [98, 98, 5, 1, 0, 1, 1, 2, 3, 4, 1, 187, 42]])\<rparr>"

definition login_client_world :: world where
  "login_client_world = quiet\<lparr>rxq := (\<lambda>_. [RData [5, 2, 1, 0, 5, 0, 0], RData [1, 1, 2, 3, 4, 1, 187]])\<rparr>"

lemma login_server_run:
  "case hev_socks5_server_handshake misc_init small_env any_class (a_server (AuthObj 100)) login_server_world of
     (r, s, w) \<Rightarrow> (r, wire w 7, rxq w 7) = (0, [5, 2, 1, 0, 5, 0, 0, 1, 1, 2, 3, 4, 1, 187], [RData [42]])"
  by code_simp

lemma login_admitted: "admits (a_server (AuthObj 100)) [1, 2, 3, 4, 5] login_client"
  using auth_sample_ok
  by (auto simp: admits_def a_server_def login_client_def tcp_client_def creds_wf_def server_ok_def auth_map_def
      auth_sample_def numeral_eq_Suc)

theorem client_meets_server_witness:
  "fst (hev_socks5_client_handshake misc_init hev_socks5_client_tcp_class True login_client login_client_world) = 0"
proof -
  obtain r s' ws' where s: "hev_socks5_server_handshake misc_init small_env any_class (a_server (AuthObj 100))
    login_server_world = (r, s', ws')" by (metis prod_cases3)
  obtain q c' wc' where c: "hev_socks5_client_handshake misc_init hev_socks5_client_tcp_class True login_client
    login_client_world = (q, c', wc')" by (metis prod_cases3)
  have r: "r = 0" "wire ws' 7 = [5, 2, 1, 0, 5, 0, 0, 1, 1, 2, 3, 4, 1, 187]" using login_server_run s by simp_all
  have "q = 0 \<longleftrightarrow> r = 0"
    using client_meets_server [OF s [unfolded any_class_def] c _ _ _ login_admitted _ _ small_env_ok, of "EpV4 [1, 2, 3, 4] 443" "[42]"
        "[5, 2, 1, 0, 5, 0, 0, 1, 1, 2, 3, 4, 1, 187]"] r
    by (simp add: a_server_def login_client_def tcp_client_def methods_msg_def creds_msg_def has_creds_def request_msg_def
        login_server_world_def login_client_world_def quiet_def ready_def in_time_def misc_init_def hev_socks5_set_timeout_def sockaddr_zero_def hi8_def lo8_def)
  with c r show ?thesis by simp
qed

end
