(* ===== verification/Splice.thy ===== *)
theory Splice
  imports Session_TCP UDP_Relay
begin

text \<open>
  The TCP splicer of the SOCKS5 library, \<open>core/src/hev-socks5-tcp.c\<close>, and what it is made of in the
  task system: \<open>lib/io/buffer/hev-circular-buffer.c\<close> and \<open>hev_task_io_splice\<close> of
  \<open>lib/io/basic/hev-task-io.c\<close> in both of its variants, with a pipe of the kernel (the one that is
  built for Android) and with a buffer of its own.
\<close>

section \<open>The circular buffer\<close>

record circular_buffer =
  cb_rp :: u64
  cb_use :: u64
  cb_max :: u64
  cb_refs :: u32
  cb_data :: bytes

text \<open>\<open>junk\<close> is what new memory holds.\<close>

definition hev_circular_buffer_new :: "(nat \<Rightarrow> u8) \<Rightarrow> u64 \<Rightarrow> world \<Rightarrow> circular_buffer option \<times> world" where
  "hev_circular_buffer_new junk n w =
     (let (ok, w) = hev_malloc w
      in (if ok then Some \<lparr>cb_rp = 0, cb_use = 0, cb_max = n, cb_refs = 1, cb_data = map junk [0..<unat n]\<rparr> else None, w))"

definition hev_circular_buffer_ref :: "circular_buffer \<Rightarrow> circular_buffer" where
  "hev_circular_buffer_ref self = self\<lparr>cb_refs := cb_refs self + 1\<rparr>"

definition hev_circular_buffer_unref :: "circular_buffer \<Rightarrow> world \<Rightarrow> circular_buffer \<times> world" where
  "hev_circular_buffer_unref self w =
     (let self = self\<lparr>cb_refs := cb_refs self - 1\<rparr>
      in if cb_refs self \<noteq> 0 then (self, w) else (self, hev_free w))"

definition hev_circular_buffer_get_max_size :: "circular_buffer \<Rightarrow> u64" where
  "hev_circular_buffer_get_max_size self = cb_max self"

definition hev_circular_buffer_get_use_size :: "circular_buffer \<Rightarrow> u64" where
  "hev_circular_buffer_get_use_size self = cb_use self"

definition hev_circular_buffer_reading :: "circular_buffer \<Rightarrow> ring_iov list" where
  "hev_circular_buffer_reading self =
     (let upper_size = cb_max self - cb_rp self
      in if 0 = cb_use self then []
         else if cb_use self \<le> upper_size then [(cb_rp self, cb_use self)]
         else [(cb_rp self, upper_size), (0, cb_use self - upper_size)])"

definition hev_circular_buffer_read_finish :: "u64 \<Rightarrow> circular_buffer \<Rightarrow> circular_buffer" where
  "hev_circular_buffer_read_finish n self =
     self\<lparr>cb_rp := (cb_rp self + n) mod cb_max self, cb_use := cb_use self - n\<rparr>"

definition hev_circular_buffer_writing :: "circular_buffer \<Rightarrow> ring_iov list" where
  "hev_circular_buffer_writing self =
     (let w = (cb_rp self + cb_use self) mod cb_max self;
          upper_size = cb_max self - w;
          spc_size = cb_max self - cb_use self
      in if cb_use self = cb_max self then []
         else if spc_size \<le> upper_size then [(w, spc_size)]
         else [(w, upper_size), (0, spc_size - upper_size)])"

definition hev_circular_buffer_write_finish :: "u64 \<Rightarrow> circular_buffer \<Rightarrow> circular_buffer" where
  "hev_circular_buffer_write_finish n self = self\<lparr>cb_use := cb_use self + n\<rparr>"

section \<open>One direction, through a buffer\<close>

text \<open>
  The last argument is the world together with the descriptors that were shut down for writing. The
  bytes of a read go where the vector of the buffer points.
\<close>

type_synonym splice_world = "world \<times> int list"

definition again :: "int \<Rightarrow> world \<Rightarrow> int" where
  "again s w = (if 0 > s \<and> eagain w then 0 else -1)"

definition buffer_init :: "(nat \<Rightarrow> u8) \<Rightarrow> u64 \<Rightarrow> world \<Rightarrow> circular_buffer option \<times> world" where
  "buffer_init junk n w = hev_circular_buffer_new junk n w"

definition buffer_fini :: "circular_buffer \<Rightarrow> world \<Rightarrow> world" where
  "buffer_fini b w = snd (hev_circular_buffer_unref b w)"

definition buffer_fill :: "circular_buffer \<Rightarrow> int \<Rightarrow> world \<Rightarrow> int \<times> circular_buffer \<times> world" where
  "buffer_fill b fd_in w =
     (let iov = hev_circular_buffer_writing b
      in if iov \<noteq> [] then
           let (s, xs, w) = sys_recv fd_in (iov_size iov) w
           in if 0 \<ge> s then (again s w, b, w)
              else (1, hev_circular_buffer_write_finish (word_of_int s) (b\<lparr>cb_data := iov_scatter iov xs (cb_data b)\<rparr>), w)
         else (1, b, w))"

definition buffer_splice :: "circular_buffer \<Rightarrow> int \<Rightarrow> int \<Rightarrow> splice_world \<Rightarrow> int \<times> circular_buffer \<times> splice_world" where
  "buffer_splice b fd_in fd_out = (\<lambda>(w, sh).
     (let (res, b, w) = buffer_fill b fd_in w; iov = hev_circular_buffer_reading b
      in if iov \<noteq> [] then
           let (s, w) = sys_writev fd_out (map (\<lambda>(off, len). bslice (unat off) (unat len) (cb_data b)) iov) w
           in if 0 \<ge> s then (again s w, b, w, sh)
              else (1, hev_circular_buffer_read_finish (word_of_int s) b, w, sh)
         else if res < 0 then (res, b, w, fd_out # sh)
         else (res, b, w, sh)))"

section \<open>One direction, through a pipe\<close>

text \<open>
  \<open>pipe_data\<close> are the bytes in the kernel's pipe, which has room for \<open>pipe_cap\<close>: a \<open>splice\<close> into a
  full pipe reports \<open>EAGAIN\<close>, and so may any other.
\<close>

record pipe_splicer =
  pipe_r :: int
  pipe_w :: int
  wlen :: u64
  blen :: u64
  pipe_data :: bytes
  pipe_cap :: nat

definition sys_pipe :: "world \<Rightarrow> int \<times> int \<times> int \<times> world" where
  "sys_pipe w =
     (let (r, w) = sys_call w; (a, w) = sys_call w; (b, w) = sys_call w
      in (r, a, b, if r < 0 then w else w\<lparr>opened := b # a # opened w\<rparr>))"

text \<open>The capacity of a pipe is a number of pages.\<close>

definition pipe_size :: "u32 \<Rightarrow> nat" where
  "pipe_size pages = 4096 * Suc (unat pages)"

definition pipe_init :: "u32 \<Rightarrow> world \<Rightarrow> pipe_splicer option \<times> world" where
  "pipe_init pages w =
     (let (res, a, b, w) = sys_pipe w
      in if res < 0 then (None, w)
         else
           let (res, w) = sys_call w
           in if res < 0 then (None, sys_close b (sys_close a w))
              else
                let (res, w) = sys_call w
                in if res < 0 then (None, sys_close b (sys_close a w))
                   else
                     let (res, w) = sys_call w
                     in (Some \<lparr>pipe_r = a, pipe_w = b, wlen = 0, blen = (if res < 0 then -1 else of_nat (pipe_size pages)),
                               pipe_data = [], pipe_cap = pipe_size pages\<rparr>, w))"

definition pipe_fini :: "pipe_splicer \<Rightarrow> world \<Rightarrow> world" where
  "pipe_fini p w = sys_close (pipe_w p) (sys_close (pipe_r p) w)"

definition splice_in :: "int \<Rightarrow> pipe_splicer \<Rightarrow> world \<Rightarrow> int \<times> bytes \<times> world" where
  "splice_in f p w =
     (if length (pipe_data p) \<ge> pipe_cap p then (-1, [], w\<lparr>eagain := True\<rparr>)
      else sys_recv f (min (unat (blen p)) (pipe_cap p - length (pipe_data p))) w)"

definition pipe_fill :: "pipe_splicer \<Rightarrow> int \<Rightarrow> world \<Rightarrow> int \<times> pipe_splicer \<times> world" where
  "pipe_fill p fd_in w =
     (let (s, xs, w) = splice_in fd_in p w
      in if 0 \<ge> s then (again s w, p, w)
         else (1, p\<lparr>wlen := wlen p + word_of_int s, pipe_data := pipe_data p @ xs\<rparr>, w))"

definition pipe_splice :: "pipe_splicer \<Rightarrow> int \<Rightarrow> int \<Rightarrow> splice_world \<Rightarrow> int \<times> pipe_splicer \<times> splice_world" where
  "pipe_splice p fd_in fd_out = (\<lambda>(w, sh).
     (let (res, p, w) = pipe_fill p fd_in w
      in if wlen p \<noteq> 0 then
           let (s, w) = sys_writev fd_out [take (unat (blen p)) (pipe_data p)] w
           in if 0 \<ge> s then (again s w, p, w, sh)
              else (1, p\<lparr>wlen := wlen p - word_of_int s, pipe_data := drop (nat s) (pipe_data p)\<rparr>, w, sh)
         else if res < 0 then (res, p, w, fd_out # sh)
         else (res, p, w, sh)))"

section \<open>Both directions\<close>

text \<open>\<open>ENABLE_IO_SPLICE_SYSCALL\<close> selects the functions of one of the variants.\<close>

record 'b splicer_ops =
  splicer_init :: "world \<Rightarrow> 'b option \<times> world"
  splicer_fini :: "'b \<Rightarrow> world \<Rightarrow> world"
  io_splice :: "'b \<Rightarrow> int \<Rightarrow> int \<Rightarrow> splice_world \<Rightarrow> int \<times> 'b \<times> splice_world"

definition buffer_ops :: "(nat \<Rightarrow> u8) \<Rightarrow> u64 \<Rightarrow> circular_buffer splicer_ops" where
  "buffer_ops junk n = \<lparr>splicer_init = buffer_init junk n, splicer_fini = buffer_fini, io_splice = buffer_splice\<rparr>"

definition pipe_ops :: "u32 \<Rightarrow> pipe_splicer splicer_ops" where
  "pipe_ops pages = \<lparr>splicer_init = pipe_init pages, splicer_fini = pipe_fini, io_splice = pipe_splice\<rparr>"

partial_function (option) splice_loop ::
  "('b \<Rightarrow> int \<Rightarrow> int \<Rightarrow> splice_world \<Rightarrow> int \<times> 'b \<times> splice_world) \<Rightarrow> int \<Rightarrow> int \<Rightarrow> int \<Rightarrow> int \<Rightarrow> 'o yielder \<Rightarrow>
   int \<Rightarrow> int \<Rightarrow> 'b \<Rightarrow> 'b \<Rightarrow> 'o \<Rightarrow> splice_world \<Rightarrow> ('b \<times> 'b \<times> 'o \<times> splice_world) option" where
  "splice_loop step a_i a_o b_i b_o y res_f res_b f b self e =
     (let (res_f, f, e) = (if res_f \<ge> 0 then step f a_i b_o e else (res_f, f, e));
          (res_b, b, e) = (if res_b \<ge> 0 then step b b_i a_o e else (res_b, b, e));
          t = (if res_f > 0 \<or> res_b > 0 then Some HEV_TASK_YIELD
               else if and res_f res_b = 0 then Some HEV_TASK_WAITIO
               else None)
      in case t of None \<Rightarrow> Some (f, b, self, e)
         | Some t \<Rightarrow>
             (let (r, self, w) = y t self (fst e)
              in if r \<noteq> 0 then Some (f, b, self, w, snd e)
                 else splice_loop step a_i a_o b_i b_o y res_f res_b f b self (w, snd e)))"

definition hev_task_io_splice ::
  "'b splicer_ops \<Rightarrow> int \<Rightarrow> int \<Rightarrow> int \<Rightarrow> int \<Rightarrow> 'o yielder \<Rightarrow> 'o \<Rightarrow> world \<Rightarrow> ('o \<times> splice_world) option" where
  "hev_task_io_splice ops a_i a_o b_i b_o y self w =
     (case splicer_init ops w of
        (None, w) \<Rightarrow> Some (self, w, [])
      | (Some f, w) \<Rightarrow>
          (case splicer_init ops w of
             (None, w) \<Rightarrow> Some (self, splicer_fini ops f w, [])
           | (Some b, w) \<Rightarrow>
               (case splice_loop (io_splice ops) a_i a_o b_i b_o y 1 1 f b self (w, []) of
                  None \<Rightarrow> None
                | Some (f, b, self, w, sh) \<Rightarrow> Some (self, splicer_fini ops f (splicer_fini ops b w), sh))))"

definition hev_socks5_tcp_splicer ::
  "'b splicer_ops \<Rightarrow> int \<Rightarrow> 'a hev_socks5_scheme \<Rightarrow> world \<Rightarrow> (int \<times> 'a hev_socks5_scheme \<times> splice_world) option" where
  "hev_socks5_tcp_splicer ops f self w =
     (let cfd = fd self
      in if cfd < 0 then Some (-1, self, w, [])
         else
           let (res, w) = sys_call w;
               w = (if res < 0 then snd (sys_call w) else w)
           in map_option (\<lambda>(self, e). (0, self, e)) (hev_task_io_splice ops cfd cfd f f hev_socks5_task_io_yielder self w))"

section \<open>The circular buffer is a queue\<close>

text \<open>A ring (\<open>misc/hev-ring-buffer.c\<close>) with nothing in flight, whose write position is computed when it is needed.\<close>

definition circ_ring :: "circular_buffer \<Rightarrow> ring_buffer" where
  "circ_ring b = \<lparr>rp = cb_rp b, wp = (cb_rp b + cb_use b) mod cb_max b, rda_size = cb_use b, use_size = cb_use b,
     max_size = cb_max b, data = cb_data b\<rparr>"

definition circ_inv :: "circular_buffer \<Rightarrow> bool" where
  "circ_inv b \<longleftrightarrow> unat (cb_max b) = length (cb_data b) \<and> 0 < length (cb_data b) \<and> length (cb_data b) < 2 ^ 63 \<and>
     unat (cb_rp b) < length (cb_data b) \<and> unat (cb_use b) \<le> length (cb_data b) \<and> cb_refs b = 1"

definition circ_bytes :: "circular_buffer \<Rightarrow> bytes" where
  "circ_bytes b = readable (circ_ring b)"

lemma circ_reading: "hev_circular_buffer_reading b = hev_ring_buffer_reading (circ_ring b)"
  by (simp add: hev_circular_buffer_reading_def hev_ring_buffer_reading_def circ_ring_def Let_def)

lemma circ_writing: "hev_circular_buffer_writing b = hev_ring_buffer_writing (circ_ring b)"
  by (simp add: hev_circular_buffer_writing_def hev_ring_buffer_writing_def circ_ring_def Let_def)

lemma circ_ring_inv: "circ_inv b \<Longrightarrow> ring_inv (circ_ring b)"
  by (simp add: circ_inv_def ring_inv_def circ_ring_def unat_add_no_overflow unat_mod)

lemma circ_free: "ring_free (circ_ring b) = length (cb_data b) - unat (cb_use b)"
  by (simp add: ring_free_def circ_ring_def)

lemma circ_fill:
  assumes "circ_inv b" "length xs \<le> ring_free (circ_ring b)"
  defines "b' \<equiv> hev_circular_buffer_write_finish (of_nat (length xs))
    (b\<lparr>cb_data := iov_scatter (hev_circular_buffer_writing b) xs (cb_data b)\<rparr>)"
  shows "circ_inv b'" "circ_bytes b' = circ_bytes b @ xs"
proof -
  note r = circ_ring_inv [OF assms(1)]
  note n = unat_of_nat_le_free [OF r assms(2)] and f = ring_fill_unat [OF r assms(2)]
  have l: "length (cb_data b') = length (cb_data b)" and use: "unat (cb_use b') = unat (cb_use b) + length xs"
    using scatter_nth(2) [OF r assms(2), of 0] f assms(1)
    by (auto simp: b'_def hev_circular_buffer_write_finish_def circ_writing circ_inv_def circ_ring_def
        ring_fill_def hev_ring_buffer_write_finish_def)
  show "circ_inv b'"
    using assms(1,2) l use by (auto simp: circ_inv_def circ_free b'_def hev_circular_buffer_write_finish_def)
  have "readable (circ_ring b') = readable (ring_fill xs (circ_ring b))"
    by (simp add: readable_def b'_def hev_circular_buffer_write_finish_def circ_writing circ_ring_def
        ring_fill_def hev_ring_buffer_write_finish_def)
  with ring_fill_readable [OF r assms(2)] show "circ_bytes b' = circ_bytes b @ xs" by (simp add: circ_bytes_def)
qed

lemma circ_drain:
  assumes "circ_inv b" "n \<le> length (circ_bytes b)"
  defines "b' \<equiv> hev_circular_buffer_read_finish (of_nat n) b"
  shows "circ_inv b'" "circ_bytes b' = drop n (circ_bytes b)"
proof -
  note r = circ_ring_inv [OF assms(1)]
  have "length (circ_bytes b) < 2 ^ 64" using assms(1) by (simp add: circ_bytes_def readable_def circ_ring_def circ_inv_def)
  with assms(2) have n: "unat (of_nat n :: u64) = n" by (intro unat_of_nat_small) simp
  note f = read_finish_spec [OF r, of "of_nat n", unfolded n, OF assms(2) [unfolded circ_bytes_def]]
  have e: "cb_rp b' = rp (hev_ring_buffer_read_finish (of_nat n) (circ_ring b))"
    "cb_use b' = rda_size (hev_ring_buffer_read_finish (of_nat n) (circ_ring b))"
    by (simp_all add: b'_def hev_circular_buffer_read_finish_def hev_ring_buffer_read_finish_def circ_ring_def)
  have "cb_data b' = cb_data b" "cb_max b' = cb_max b" "cb_refs b' = cb_refs b"
    by (simp_all add: b'_def hev_circular_buffer_read_finish_def)
  with f(1) e assms(1) show "circ_inv b'"
    by (auto simp: circ_inv_def ring_inv_def circ_ring_def hev_ring_buffer_read_finish_def)
  have "readable (circ_ring b') = readable (hev_ring_buffer_read_finish (of_nat n) (circ_ring b))"
    by (simp add: readable_def circ_ring_def b'_def hev_circular_buffer_read_finish_def hev_ring_buffer_read_finish_def)
  with f(2) show "circ_bytes b' = drop n (circ_bytes b)" by (simp add: circ_bytes_def)
qed

lemma circ_full: "circ_inv b \<Longrightarrow> hev_circular_buffer_writing b = [] \<Longrightarrow> circ_bytes b \<noteq> []"
  by (auto simp: hev_circular_buffer_writing_def circ_inv_def circ_bytes_def readable_def circ_ring_def Let_def split: if_splits
      dest: arg_cong [where f = length])

lemma circ_peek:
  assumes "circ_inv b"
  shows "iov_gather (hev_circular_buffer_reading b) (cb_data b) = circ_bytes b"
    "hev_circular_buffer_reading b = [] \<longleftrightarrow> circ_bytes b = []"
proof -
  have d: "cb_data b = data (circ_ring b)" by (simp add: circ_ring_def)
  show "iov_gather (hev_circular_buffer_reading b) (cb_data b) = circ_bytes b"
    unfolding circ_reading circ_bytes_def d by (rule reading_gather [OF circ_ring_inv [OF assms]])
  have "circ_bytes b = [] \<longleftrightarrow> cb_use b = 0"
    by (simp add: circ_bytes_def readable_def circ_ring_def word_eq_0_unat flip: length_0_conv)
  then show "hev_circular_buffer_reading b = [] \<longleftrightarrow> circ_bytes b = []"
    by (auto simp: hev_circular_buffer_reading_def Let_def)
qed

section \<open>One direction\<close>

text \<open>
  \<open>direction\<close>: bytes were read from one descriptor into the buffer, with contents \<open>c\<close>, and from there
  written to the other one, in order; nothing else has changed. \<open>dir_load\<close> is what is still to come.
\<close>

definition dir_load :: "int \<Rightarrow> int \<Rightarrow> bytes \<Rightarrow> world \<Rightarrow> nat" where
  "dir_load fi fo c w = 2 * rx_load (rxq w fi) + length (txq w fo) + length c"

definition calm_rx :: "recv_ev list \<Rightarrow> bool" where
  "calm_rx es \<longleftrightarrow> (\<forall>e \<in> set es. e \<noteq> RErr \<and> e \<noteq> RData [])"

definition calm_tx :: "send_ev list \<Rightarrow> bool" where
  "calm_tx es \<longleftrightarrow> (\<forall>e \<in> set es. e \<noteq> SErr \<and> e \<noteq> SAccept 0)"

definition passed :: "int \<Rightarrow> int \<Rightarrow> bytes \<Rightarrow> world \<Rightarrow> bytes \<Rightarrow> world \<Rightarrow> bool" where
  "passed fi fo c w c' w' \<longleftrightarrow>
     (\<exists>xs ys. rx_bytes (rxq w fi) = xs @ rx_bytes (rxq w' fi) \<and> wire w' fo = wire w fo @ ys \<and> c @ xs = ys @ c')"

definition touches :: "int \<Rightarrow> int \<Rightarrow> world \<Rightarrow> world \<Rightarrow> bool" where
  "touches fi fo w w' \<longleftrightarrow>
     (\<exists>r t v e. w' = w\<lparr>rxq := (rxq w)(fi := r), txq := (txq w)(fo := t), wire := (wire w)(fo := v), eagain := e\<rparr>)"

definition direction :: "int \<Rightarrow> int \<Rightarrow> bytes \<Rightarrow> world \<Rightarrow> bytes \<Rightarrow> world \<Rightarrow> bool" where
  "direction fi fo c w c' w' \<longleftrightarrow> passed fi fo c w c' w' \<and> dir_load fi fo c' w' \<le> dir_load fi fo c w \<and>
     touches fi fo w w' \<and>
     (calm_rx (rxq w fi) \<longrightarrow> calm_rx (rxq w' fi)) \<and> (calm_tx (txq w fo) \<longrightarrow> calm_tx (txq w' fo))"

lemma passed_trans:
  assumes "passed fi fo c w c1 w1" "passed fi fo c1 w1 c2 w2"
  shows "passed fi fo c w c2 w2"
proof -
  from assms obtain xs ys xs1 ys1 where
    a: "rx_bytes (rxq w fi) = xs @ rx_bytes (rxq w1 fi)" "wire w1 fo = wire w fo @ ys" "c @ xs = ys @ c1" and
    b: "rx_bytes (rxq w1 fi) = xs1 @ rx_bytes (rxq w2 fi)" "wire w2 fo = wire w1 fo @ ys1" "c1 @ xs1 = ys1 @ c2"
    by (auto simp: passed_def)
  have "c @ (xs @ xs1) = (ys @ ys1) @ c2" using a(3) b(3) by (metis append.assoc)
  with a b show ?thesis unfolding passed_def
    by (intro exI [of _ "xs @ xs1"] exI [of _ "ys @ ys1"]) simp
qed

lemma passed_refl [simp, intro]: "passed fi fo c w c w"
  by (auto simp: passed_def intro!: exI [of _ "[]"])

lemma touches_trans:
  assumes "touches fi fo w w1" "touches fi fo w1 w2"
  shows "touches fi fo w w2"
proof -
  from assms(1) obtain r t v e where
    1: "w1 = w\<lparr>rxq := (rxq w)(fi := r), txq := (txq w)(fo := t), wire := (wire w)(fo := v), eagain := e\<rparr>"
    unfolding touches_def by blast
  from assms(2) obtain r' t' v' e' where
    2: "w2 = w1\<lparr>rxq := (rxq w1)(fi := r'), txq := (txq w1)(fo := t'), wire := (wire w1)(fo := v'), eagain := e'\<rparr>"
    unfolding touches_def by blast
  from 2 have "w2 = w\<lparr>rxq := (rxq w)(fi := r'), txq := (txq w)(fo := t'), wire := (wire w)(fo := v'), eagain := e'\<rparr>"
    by (simp add: 1)
  then show ?thesis unfolding touches_def by blast
qed

lemma direction_trans:
  "direction fi fo c w c1 w1 \<Longrightarrow> direction fi fo c1 w1 c2 w2 \<Longrightarrow> direction fi fo c w c2 w2"
  unfolding direction_def by (meson le_trans passed_trans touches_trans)

lemma direction_refl [simp]: "direction fi fo c w c w"
proof -
  have "w = w\<lparr>rxq := (rxq w)(fi := rxq w fi), txq := (txq w)(fo := txq w fo), wire := (wire w)(fo := wire w fo), eagain := eagain w\<rparr>"
    by simp
  then have "touches fi fo w w" unfolding touches_def by blast
  then show ?thesis by (simp add: direction_def)
qed

lemma direction_fields:
  assumes "direction fi fo c w c' w'"
  shows "opened w' = opened w" "live w' = live w" "yields w' = yields w" "sys w' = sys w"
    "g \<noteq> fi \<Longrightarrow> rxq w' g = rxq w g" "g \<noteq> fo \<Longrightarrow> txq w' g = txq w g" "g \<noteq> fo \<Longrightarrow> wire w' g = wire w g"
  using assms by (auto simp: direction_def touches_def)

lemma recv_once:
  assumes r: "sys_recv fi n w = (s, xs, w')"
  shows "\<exists>es b. w' = w\<lparr>rxq := (rxq w)(fi := es), eagain := b\<rparr> \<and> rx_bytes (rxq w fi) = xs @ rx_bytes es \<and>
    (calm_rx (rxq w fi) \<longrightarrow> calm_rx es) \<and> int (length xs) = max 0 s \<and> length xs \<le> n \<and>
    2 * rx_load es + length xs \<le> 2 * rx_load (rxq w fi) \<and>
    (0 < s \<or> again s w' = 0 \<longrightarrow> 2 * rx_load es + length xs < 2 * rx_load (rxq w fi)) \<and>
    (s \<le> 0 \<and> again s w' \<noteq> 0 \<and> calm_rx (rxq w fi) \<and> 0 < n \<longrightarrow> es = [])"
proof (cases "rxq w fi")
  case Nil
  with r have "w' = w" "s = 0" "xs = []" by (auto simp: sys_recv_def)
  moreover have "(rxq w)(fi := []) = rxq w" using Nil by (metis fun_upd_triv)
  ultimately show ?thesis using Nil by (intro exI [of _ "[]"] exI [of _ "eagain w"]) (simp add: again_def)
next
  case (Cons e es)
  show ?thesis
  proof (cases e)
    case (RData bs)
    define k where "k = min n (length bs)"
    define rest where "rest = (if k < length bs then RData (drop k bs) # es else es)"
    from r Cons RData have e: "s = int k" "xs = take k bs" "w' = w\<lparr>rxq := (rxq w)(fi := rest)\<rparr>"
      unfolding k_def rest_def by (auto simp: sys_recv_def Let_def split: if_splits)
    have "w' = w\<lparr>rxq := (rxq w)(fi := rest), eagain := eagain w\<rparr>" using e(3) by simp
    moreover have "rx_bytes (rxq w fi) = xs @ rx_bytes rest" "calm_rx (rxq w fi) \<longrightarrow> calm_rx rest"
      "int (length xs) = max 0 s" "length xs \<le> n" "2 * rx_load rest + length xs \<le> 2 * rx_load (rxq w fi)"
      "0 < s \<or> again s w' = 0 \<longrightarrow> 2 * rx_load rest + length xs < 2 * rx_load (rxq w fi)"
      "\<not> (s \<le> 0 \<and> again s w' \<noteq> 0 \<and> calm_rx (rxq w fi) \<and> 0 < n)"
      using Cons RData e by (auto simp: rest_def k_def calm_rx_def again_def)
    ultimately show ?thesis by blast
  next
    case RAgain
    with r Cons have "w' = w\<lparr>rxq := (rxq w)(fi := es), eagain := True\<rparr>" "s = -1" "xs = []" by (auto simp: sys_recv_def)
    with Cons RAgain show ?thesis by (intro exI [of _ es] exI [of _ True]) (simp add: again_def calm_rx_def)
  next
    case RErr
    with r Cons have "w' = w\<lparr>rxq := (rxq w)(fi := es), eagain := False\<rparr>" "s = -1" "xs = []" by (auto simp: sys_recv_def)
    with Cons RErr show ?thesis by (intro exI [of _ es] exI [of _ False]) (simp add: again_def calm_rx_def)
  qed
qed

lemma rx_direction:
  assumes "w' = w\<lparr>rxq := (rxq w)(fi := es), eagain := b\<rparr>" "rx_bytes (rxq w fi) = xs @ rx_bytes es"
    "calm_rx (rxq w fi) \<longrightarrow> calm_rx es" "2 * rx_load es + length xs \<le> 2 * rx_load (rxq w fi)"
  shows "direction fi fo c w (c @ xs) w'"
proof -
  have "w' = w\<lparr>rxq := (rxq w)(fi := es), txq := (txq w)(fo := txq w fo), wire := (wire w)(fo := wire w fo), eagain := b\<rparr>"
    using assms(1) by simp
  then have "touches fi fo w w'" unfolding touches_def by blast
  moreover have "passed fi fo c w (c @ xs) w'"
    using assms(1,2) by (auto simp: passed_def intro!: exI [of _ xs] exI [of _ "[]"])
  ultimately show ?thesis using assms unfolding direction_def dir_load_def by auto
qed

lemma recv_direction:
  assumes r: "sys_recv fi n w = (s, xs, w')"
  shows "direction fi fo c w (c @ xs) w'" "int (length xs) = max 0 s" "length xs \<le> n"
    "0 < s \<or> again s w' = 0 \<Longrightarrow> dir_load fi fo (c @ xs) w' < dir_load fi fo c w"
    "s \<le> 0 \<Longrightarrow> again s w' \<noteq> 0 \<Longrightarrow> calm_rx (rxq w fi) \<Longrightarrow> 0 < n \<Longrightarrow> rxq w' fi = []"
proof -
  from recv_once [OF r] obtain es b where
    e: "w' = w\<lparr>rxq := (rxq w)(fi := es), eagain := b\<rparr>" "rx_bytes (rxq w fi) = xs @ rx_bytes es"
      "calm_rx (rxq w fi) \<longrightarrow> calm_rx es" "2 * rx_load es + length xs \<le> 2 * rx_load (rxq w fi)" and
    l: "int (length xs) = max 0 s" "length xs \<le> n"
      "0 < s \<or> again s w' = 0 \<longrightarrow> 2 * rx_load es + length xs < 2 * rx_load (rxq w fi)"
      "s \<le> 0 \<and> again s w' \<noteq> 0 \<and> calm_rx (rxq w fi) \<and> 0 < n \<longrightarrow> es = []" by blast
  show "direction fi fo c w (c @ xs) w'" using e by (rule rx_direction)
  show "int (length xs) = max 0 s" "length xs \<le> n" using l by blast+
  have "dir_load fi fo (c @ xs) w' = 2 * rx_load es + length xs + length (txq w fo) + length c"
    using e(1) by (simp add: dir_load_def)
  then show "0 < s \<or> again s w' = 0 \<Longrightarrow> dir_load fi fo (c @ xs) w' < dir_load fi fo c w"
    using l(3) by (simp add: dir_load_def)
  show "s \<le> 0 \<Longrightarrow> again s w' \<noteq> 0 \<Longrightarrow> calm_rx (rxq w fi) \<Longrightarrow> 0 < n \<Longrightarrow> rxq w' fi = []"
    using e(1) l(4) by simp
qed

lemma writev_direction:
  assumes r: "sys_writev fo iov w = (s, w')" and c: "c = concat iov @ c'" "concat iov \<noteq> []"
  shows "direction fi fo c w (drop (nat s) c) w'" "s \<le> int (length (concat iov))"
    "0 < s \<or> again s w' = 0 \<Longrightarrow> dir_load fi fo (drop (nat s) c) w' < dir_load fi fo c w"
    "s \<le> 0 \<Longrightarrow> again s w' \<noteq> 0 \<Longrightarrow> \<not> calm_tx (txq w fo)"
proof -
  let ?d = "concat iov"
  have "\<exists>n es b. w' = w\<lparr>txq := (txq w)(fo := es), wire := (wire w)(fo := wire w fo @ take n ?d), eagain := b\<rparr> \<and>
    n = nat s \<and> n \<le> length ?d \<and> (calm_tx (txq w fo) \<longrightarrow> calm_tx es) \<and> length es \<le> length (txq w fo) \<and>
    (0 < s \<or> again s w' = 0 \<longrightarrow> 0 < n \<or> length es < length (txq w fo)) \<and>
    (s \<le> 0 \<and> again s w' \<noteq> 0 \<longrightarrow> \<not> calm_tx (txq w fo))"
  proof (cases "txq w fo")
    case Nil
    with r have "w' = w\<lparr>txq := (txq w)(fo := []), wire := (wire w)(fo := wire w fo @ take (length ?d) ?d), eagain := eagain w\<rparr>"
      "s = int (length ?d)" by (auto simp: sys_writev_def Let_def)
    with Nil c(2) show ?thesis
      by (intro exI [of _ "length ?d"] exI [of _ "[]"] exI [of _ "eagain w"]) (auto simp: again_def)
  next
    case (Cons e es)
    show ?thesis
    proof (cases e)
      case (SAccept m)
      define k where "k = min m (length ?d)"
      from r Cons SAccept have
        "w' = w\<lparr>txq := (txq w)(fo := es), wire := (wire w)(fo := wire w fo @ take k ?d), eagain := eagain w\<rparr>" "s = int k"
        by (auto simp: sys_writev_def Let_def k_def)
      with Cons SAccept c(2) show ?thesis
        by (intro exI [of _ k] exI [of _ es] exI [of _ "eagain w"]) (auto simp: again_def calm_tx_def k_def min_def split: if_splits)
    next
      case SAgain
      from r Cons SAgain have
        "w' = w\<lparr>txq := (txq w)(fo := es), wire := (wire w)(fo := wire w fo @ take 0 ?d), eagain := True\<rparr>" "s = -1"
        by (auto simp: sys_writev_def Let_def)
      with Cons SAgain show ?thesis
        by (intro exI [of _ 0] exI [of _ es] exI [of _ True]) (auto simp: again_def calm_tx_def)
    next
      case SErr
      from r Cons SErr have
        "w' = w\<lparr>txq := (txq w)(fo := es), wire := (wire w)(fo := wire w fo @ take 0 ?d), eagain := False\<rparr>" "s = -1"
        by (auto simp: sys_writev_def Let_def)
      with Cons SErr show ?thesis
        by (intro exI [of _ 0] exI [of _ es] exI [of _ False]) (auto simp: again_def calm_tx_def)
    qed
  qed
  then obtain n es b where
    w: "w' = w\<lparr>txq := (txq w)(fo := es), wire := (wire w)(fo := wire w fo @ take n ?d), eagain := b\<rparr>" and
    n: "n = nat s" "n \<le> length ?d" "calm_tx (txq w fo) \<longrightarrow> calm_tx es" "length es \<le> length (txq w fo)"
      "0 < s \<or> again s w' = 0 \<longrightarrow> 0 < n \<or> length es < length (txq w fo)"
      "s \<le> 0 \<and> again s w' \<noteq> 0 \<longrightarrow> \<not> calm_tx (txq w fo)" by blast
  have w2: "w' = w\<lparr>rxq := (rxq w)(fi := rxq w fi), txq := (txq w)(fo := es), wire := (wire w)(fo := wire w fo @ take n ?d), eagain := b\<rparr>"
    using w by simp
  then have w2: "touches fi fo w w'" unfolding touches_def by blast
  have t: "take n ?d @ drop n c = c" using c(1) n(2) by simp
  have p: "passed fi fo c w (drop n c) w'"
    using w t by (auto simp: passed_def intro!: exI [of _ "[]"] exI [of _ "take n ?d"])
  have ld: "dir_load fi fo (drop n c) w' = 2 * rx_load (rxq w fi) + length es + (length c - n)"
    using w by (simp add: dir_load_def)
  have qs: "rxq w' fi = rxq w fi" "txq w' fo = es" using w by simp_all
  have nc: "n \<le> length c" using c(1) n(2) by simp
  show "direction fi fo c w (drop (nat s) c) w'"
    using p n(3,4) w2 ld nc qs unfolding direction_def n(1) [symmetric]
    by (auto simp: dir_load_def)
  show "s \<le> int (length ?d)" using n(1,2) by simp
  show "0 < s \<or> again s w' = 0 \<Longrightarrow> dir_load fi fo (drop (nat s) c) w' < dir_load fi fo c w"
    using ld n(1,4,5) nc by (auto simp: dir_load_def)
  show "s \<le> 0 \<Longrightarrow> again s w' \<noteq> 0 \<Longrightarrow> \<not> calm_tx (txq w fo)" using n(6) by blast
qed

text \<open>
  The contract of a splicer: a step passes bytes on in order; it returns -1, 0 or 1, and less is left to
  come unless it returns -1; on connections without errors that is the end of the stream with an empty
  buffer, and then the other connection is shut down for writing. \<open>inv h\<close> is the invariant of a splicer
  with the descriptors \<open>h\<close>.
\<close>

definition splicer_step :: "int \<Rightarrow> int \<Rightarrow> bytes \<Rightarrow> splice_world \<Rightarrow> int \<Rightarrow> bytes \<Rightarrow> splice_world \<Rightarrow> bool" where
  "splicer_step fi fo c = (\<lambda>(w, sh) res c' (w', sh').
     direction fi fo c w c' w' \<and> set sh \<subseteq> set sh' \<and> res \<in> {-1, 0, 1} \<and>
     (0 \<le> res \<longrightarrow> dir_load fi fo c' w' < dir_load fi fo c w) \<and>
     (res < 0 \<and> calm_rx (rxq w fi) \<and> calm_tx (txq w fo) \<longrightarrow> c' = [] \<and> rxq w' fi = [] \<and> fo \<in> set sh'))"

locale splicer =
  fixes step :: "'b \<Rightarrow> int \<Rightarrow> int \<Rightarrow> splice_world \<Rightarrow> int \<times> 'b \<times> splice_world"
    and inv :: "'h \<Rightarrow> 'b \<Rightarrow> bool" and contents :: "'b \<Rightarrow> bytes"
  assumes step: "inv h b \<Longrightarrow> step b fi fo e = (res, b', e') \<Longrightarrow>
    inv h b' \<and> splicer_step fi fo (contents b) e res (contents b') e'"

text \<open>A step is a read into the buffer followed by a write out of it.\<close>

lemma fill_then_drain:
  assumes f: "direction fi fo c w c1 w1" "r1 \<in> {-1, 0, 1}"
      "r1 = 1 \<and> c1 = [] \<or> (r1 = 0 \<and> c1 = []) \<Longrightarrow> dir_load fi fo c1 w1 < dir_load fi fo c w"
      "r1 < 0 \<Longrightarrow> calm_rx (rxq w fi) \<Longrightarrow> rxq w1 fi = []"
    and d: "c1 = [] \<Longrightarrow> res = r1 \<and> c' = c1 \<and> w' = w1 \<and> sh' = (if res < 0 then fo # sh else sh)"
      "c1 \<noteq> [] \<Longrightarrow> \<exists>s iov c2. sys_writev fo iov w1 = (s, w') \<and> c1 = concat iov @ c2 \<and> concat iov \<noteq> [] \<and>
         c' = drop (nat s) c1 \<and> res = (if 0 \<ge> s then again s w' else 1) \<and> sh' = sh"
  shows "splicer_step fi fo c (w, sh) res c' (w', sh')"
proof (cases "c1 = []")
  case True
  with d(1) f show ?thesis by (auto simp: splicer_step_def)
next
  case False
  with d(2) obtain s iov c2 where s: "sys_writev fo iov w1 = (s, w')" "c1 = concat iov @ c2" "concat iov \<noteq> []"
    "c' = drop (nat s) c1" "res = (if 0 \<ge> s then again s w' else 1)" "sh' = sh" by blast
  note w1 = writev_direction(1) [OF s(1,2,3), of fi, folded s(4)]
  note w3 = writev_direction(3) [OF s(1,2,3), of fi, folded s(4)] and w4 = writev_direction(4) [OF s(1,2,3)]
  have calm: "calm_tx (txq w fo) \<Longrightarrow> calm_tx (txq w1 fo)" using f(1) by (simp add: direction_def)
  have load: "dir_load fi fo c1 w1 \<le> dir_load fi fo c w" using f(1) by (simp add: direction_def)
  have res: "res \<in> {-1, 0, 1}" "0 \<le> res \<longleftrightarrow> 0 < s \<or> again s w' = 0"
    using s(5) by (auto simp: again_def)
  have "res < 0 \<Longrightarrow> s \<le> 0 \<and> again s w' \<noteq> 0" using s(5) by (auto split: if_splits)
  with w4 calm have "res < 0 \<Longrightarrow> \<not> calm_tx (txq w fo)" by blast
  with w3 res load direction_trans [OF f(1) w1] s(6) show ?thesis
    by (auto simp: splicer_step_def)
qed

lemma again_cases: "again s w \<in> {-1, 0}"
  by (simp add: again_def)

lemma concat_slices: "concat (map (\<lambda>(off, len). bslice (unat off) (unat len) d) v) = iov_gather v d"
  by (simp add: iov_gather_def)

text \<open>What the first half of a step does, of either variant.\<close>

definition filled :: "int \<Rightarrow> int \<Rightarrow> bytes \<Rightarrow> world \<Rightarrow> int \<Rightarrow> bytes \<Rightarrow> world \<Rightarrow> bool" where
  "filled fi fo c w r c' w' \<longleftrightarrow> direction fi fo c w c' w' \<and> r \<in> {-1, 0, 1} \<and>
     (0 \<le> r \<and> c' = [] \<longrightarrow> dir_load fi fo c' w' < dir_load fi fo c w) \<and>
     (r < 0 \<and> calm_rx (rxq w fi) \<longrightarrow> rxq w' fi = [])"

lemma recv_filled:
  assumes "sys_recv fi n w = (s, xs, w')" "0 < n"
  shows "filled fi fo c w (if 0 \<ge> s then again s w' else 1) (c @ xs) w'"
  using recv_direction(1,4) [OF assms(1), of fo c] recv_direction(5) [OF assms(1)] assms(2) again_cases [of s w']
  by (auto simp: filled_def)

lemma buffer_filled:
  assumes inv: "circ_inv b" and f: "buffer_fill b fi w = (r, b', w')"
  shows "circ_inv b' \<and> filled fi fo (circ_bytes b) w r (circ_bytes b') w'"
proof (cases "hev_circular_buffer_writing b = []")
  case True
  with f circ_full [OF inv] have "r = 1" "b' = b" "w' = w" "circ_bytes b \<noteq> []" by (auto simp: buffer_fill_def)
  with inv show ?thesis by (simp add: filled_def)
next
  case False
  let ?iov = "hev_circular_buffer_writing b"
  obtain s xs w2 where r: "sys_recv fi (iov_size ?iov) w = (s, xs, w2)" by (metis prod_cases3)
  have n: "iov_size ?iov = ring_free (circ_ring b)"
    unfolding circ_writing by (rule writing_size(1) [OF circ_ring_inv [OF inv]])
  have "cb_use b \<noteq> cb_max b" using False by (auto simp: hev_circular_buffer_writing_def Let_def)
  then have "unat (cb_use b) \<noteq> unat (cb_max b)" by (simp add: word_unat_eq_iff)
  with inv have pos: "0 < iov_size ?iov" by (simp add: n circ_free circ_inv_def)
  note fl = recv_filled [OF r pos, of fo "circ_bytes b"] and l = recv_direction(2,3) [OF r]
  show ?thesis
  proof (cases "0 \<ge> s")
    case True
    with f False r l fl inv show ?thesis by (auto simp: buffer_fill_def)
  next
    case s: False
    with l have sx: "s = int (length xs)" by simp
    from circ_fill [OF inv, of xs] l(2) n f False r s fl show ?thesis by (auto simp: buffer_fill_def Let_def sx)
  qed
qed

lemma buffer_step:
  assumes inv: "circ_inv b" and st: "buffer_splice b fi fo (w, sh) = (res, b', w', sh')"
  shows "circ_inv b' \<and> splicer_step fi fo (circ_bytes b) (w, sh) res (circ_bytes b') (w', sh')"
proof -
  obtain r1 b1 w1 where f: "buffer_fill b fi w = (r1, b1, w1)" by (metis prod_cases3)
  from buffer_filled [OF inv f] have b1: "circ_inv b1" and fl: "filled fi fo (circ_bytes b) w r1 (circ_bytes b1) w1" by blast+
  let ?iov = "hev_circular_buffer_reading b1" and ?v = "map (\<lambda>(off, len). bslice (unat off) (unat len) (cb_data b1))
    (hev_circular_buffer_reading b1)"
  obtain s w2 where v: "sys_writev fo ?v w1 = (s, w2)" by (cases "sys_writev fo ?v w1")
  have cv: "concat ?v = circ_bytes b1" unfolding concat_slices by (rule circ_peek(1) [OF b1])
  note pk = circ_peek(2) [OF b1]
  have e: "(if circ_bytes b1 = [] then (r1, b1, w1, if r1 < 0 then fo # sh else sh)
     else if 0 \<ge> s then (again s w2, b1, w2, sh)
     else (1, hev_circular_buffer_read_finish (word_of_int s) b1, w2, sh)) = (res, b', w', sh')"
    using st v pk by (auto simp: buffer_splice_def f split: if_splits)
  show ?thesis
  proof (cases "circ_bytes b1 = []")
    case True
    with e have "res = r1" "b' = b1" "w' = w1" "sh' = (if r1 < 0 then fo # sh else sh)" by auto
    with b1 fl True show ?thesis by (auto simp: splicer_step_def filled_def)
  next
    case False
    have sl: "s \<le> int (length (circ_bytes b1))"
      using writev_direction(2) [OF v, of "circ_bytes b1" "[]"] False by (simp add: cv)
    have b': "circ_inv b' \<and> circ_bytes b' = drop (nat s) (circ_bytes b1) \<and> w' = w2 \<and> sh' = sh \<and>
      res = (if 0 \<ge> s then again s w2 else 1)"
    proof (cases "0 \<ge> s")
      case True
      with False e b1 show ?thesis by auto
    next
      case s: False
      then have "word_of_int s = (of_nat (nat s) :: u64)" "nat s \<le> length (circ_bytes b1)" using sl by simp_all
      moreover have "w' = w2" "sh' = sh" "res = 1" "b' = hev_circular_buffer_read_finish (word_of_int s) b1"
        using e False s by (simp_all split: if_splits)
      ultimately show ?thesis using circ_drain [OF b1, of "nat s"] s by simp
    qed
    have "splicer_step fi fo (circ_bytes b) (w, sh) res (circ_bytes b') (w', sh')"
    proof (rule fill_then_drain)
      show "direction fi fo (circ_bytes b) w (circ_bytes b1) w1" "r1 \<in> {-1, 0, 1}"
        using fl by (simp_all add: filled_def)
      show "\<exists>s iov c2. sys_writev fo iov w1 = (s, w') \<and> circ_bytes b1 = concat iov @ c2 \<and> concat iov \<noteq> [] \<and>
         circ_bytes b' = drop (nat s) (circ_bytes b1) \<and> res = (if 0 \<ge> s then again s w' else 1) \<and> sh' = sh"
        using b' v cv False by (intro exI [of _ s] exI [of _ ?v] exI [of _ "[]"]) auto
    qed (use False fl in \<open>auto simp: filled_def\<close>)
    with b' show ?thesis by simp
  qed
qed

text \<open>The pipe: \<open>wlen\<close> counts what is in it.\<close>

definition pipe_inv :: "int \<times> int \<Rightarrow> pipe_splicer \<Rightarrow> bool" where
  "pipe_inv h p \<longleftrightarrow> h = (pipe_r p, pipe_w p) \<and> unat (wlen p) = length (pipe_data p) \<and> length (pipe_data p) \<le> pipe_cap p \<and>
     0 < pipe_cap p \<and> pipe_cap p < 2 ^ 63 \<and> pipe_cap p \<le> unat (blen p)"

lemma pipe_filled:
  assumes inv: "pipe_inv h p" and f: "pipe_fill p fi w = (r, p', w')"
  shows "pipe_inv h p' \<and> filled fi fo (pipe_data p) w r (pipe_data p') w'"
proof (cases "length (pipe_data p) \<ge> pipe_cap p")
  case True
  with f have e: "r = 0" "p' = p" "w' = w\<lparr>eagain := True\<rparr>" by (auto simp: pipe_fill_def splice_in_def again_def)
  from True inv have "pipe_data p \<noteq> []" by (auto simp: pipe_inv_def)
  moreover have "direction fi fo (pipe_data p) w (pipe_data p) w'"
    using rx_direction [where w' = w' and w = w and fi = fi and es = "rxq w fi" and b = True and xs = "[]" and fo = fo
        and c = "pipe_data p"] e(3) by simp
  ultimately show ?thesis using e inv by (simp add: filled_def)
next
  case False
  let ?n = "min (unat (blen p)) (pipe_cap p - length (pipe_data p))"
  obtain s xs w2 where r: "sys_recv fi ?n w = (s, xs, w2)" by (metis prod_cases3)
  have pos: "0 < ?n" using False inv by (auto simp: pipe_inv_def)
  note fl = recv_filled [OF r pos, of fo "pipe_data p"] and l = recv_direction(2,3) [OF r]
  show ?thesis
  proof (cases "0 \<ge> s")
    case True
    with f False r l fl inv show ?thesis by (auto simp: pipe_fill_def splice_in_def)
  next
    case s: False
    with l have sx: "s = int (length xs)" by simp
    have b: "length (pipe_data p) + length xs \<le> pipe_cap p" using l(2) False by linarith
    then have "unat (wlen p + of_nat (length xs)) = length (pipe_data p) + length xs"
      using inv by (subst unat_add_no_overflow) (simp_all add: pipe_inv_def unat_of_nat_small)
    with f False r s fl b inv show ?thesis by (auto simp: pipe_fill_def splice_in_def pipe_inv_def sx)
  qed
qed

lemma pipe_step:
  assumes inv: "pipe_inv h p" and st: "pipe_splice p fi fo (w, sh) = (res, p', w', sh')"
  shows "pipe_inv h p' \<and> splicer_step fi fo (pipe_data p) (w, sh) res (pipe_data p') (w', sh')"
proof -
  obtain r1 p1 w1 where f: "pipe_fill p fi w = (r1, p1, w1)" by (metis prod_cases3)
  from pipe_filled [OF inv f] have p1: "pipe_inv h p1" and fl: "filled fi fo (pipe_data p) w r1 (pipe_data p1) w1" by blast+
  obtain s w2 where v: "sys_writev fo [pipe_data p1] w1 = (s, w2)" by (cases "sys_writev fo [pipe_data p1] w1")
  have t: "take (unat (blen p1)) (pipe_data p1) = pipe_data p1" using p1 by (simp add: pipe_inv_def)
  have z: "wlen p1 = 0 \<longleftrightarrow> pipe_data p1 = []"
    using p1 by (simp add: pipe_inv_def word_eq_0_unat)
  have e: "(if pipe_data p1 = [] then (r1, p1, w1, if r1 < 0 then fo # sh else sh)
     else if 0 \<ge> s then (again s w2, p1, w2, sh)
     else (1, p1\<lparr>wlen := wlen p1 - word_of_int s, pipe_data := drop (nat s) (pipe_data p1)\<rparr>, w2, sh)) = (res, p', w', sh')"
    using st v t z by (auto simp: pipe_splice_def f split: if_splits)
  show ?thesis
  proof (cases "pipe_data p1 = []")
    case True
    with e have "res = r1" "p' = p1" "w' = w1" "sh' = (if r1 < 0 then fo # sh else sh)" by auto
    with p1 fl True show ?thesis by (auto simp: splicer_step_def filled_def)
  next
    case False
    have sl: "s \<le> int (length (pipe_data p1))"
      using writev_direction(2) [OF v, of "pipe_data p1" "[]"] False by simp
    have p': "pipe_inv h p' \<and> pipe_data p' = drop (nat s) (pipe_data p1) \<and> w' = w2 \<and> sh' = sh \<and>
      res = (if 0 \<ge> s then again s w2 else 1)"
    proof (cases "0 \<ge> s")
      case True
      with False e p1 show ?thesis by auto
    next
      case s: False
      then obtain k where k: "s = int k" by (metis zero_less_imp_eq_int linorder_not_less)
      then have n: "k \<le> length (pipe_data p1)" using sl by simp
      then have "unat (of_nat k :: u64) = k" using p1 by (intro unat_of_nat_small) (simp add: pipe_inv_def)
      then have "unat (wlen p1 - of_nat k) = length (pipe_data p1) - k"
        using n p1 by (subst unat_sub_no_underflow) (simp_all add: pipe_inv_def)
      then show ?thesis using False s e p1 by (auto simp: pipe_inv_def k)
    qed
    have "splicer_step fi fo (pipe_data p) (w, sh) res (pipe_data p') (w', sh')"
    proof (rule fill_then_drain)
      show "direction fi fo (pipe_data p) w (pipe_data p1) w1" "r1 \<in> {-1, 0, 1}"
        using fl by (simp_all add: filled_def)
      show "\<exists>s iov c2. sys_writev fo iov w1 = (s, w') \<and> pipe_data p1 = concat iov @ c2 \<and> concat iov \<noteq> [] \<and>
         pipe_data p' = drop (nat s) (pipe_data p1) \<and> res = (if 0 \<ge> s then again s w' else 1) \<and> sh' = sh"
        using p' v False by (intro exI [of _ s] exI [of _ "[pipe_data p1]"] exI [of _ "[]"]) auto
    qed (use False fl in \<open>auto simp: filled_def\<close>)
    with p' show ?thesis by simp
  qed
qed

interpretation buffer: splicer buffer_splice "\<lambda>_ :: unit. circ_inv" circ_bytes
  by unfold_locales (use buffer_step in fastforce)

interpretation pipe: splicer pipe_splice pipe_inv pipe_data
  by unfold_locales (use pipe_step in fastforce)

section \<open>The loop\<close>

text \<open>
  A session that nobody ends is not interrupted in its next \<open>n\<close> waits when it has no timeout or all of
  them end in time.
\<close>

definition patient :: "nat \<Rightarrow> 'a hev_socks5_scheme \<Rightarrow> world \<Rightarrow> bool" where
  "patient n self w \<longleftrightarrow> timeout self \<noteq> 0 \<and> (\<forall>e \<in> set (yields w). \<not> ended e) \<and>
     (0 < timeout self \<longrightarrow> n \<le> length (yields w) \<and> (\<forall>e \<in> set (yields w). 0 < remain e))"

lemma yielder_patient:
  assumes "hev_socks5_task_io_yielder t self w = (r, self', w')" "patient (Suc n) self w"
  shows "r = 0 \<and> patient n self' w'"
  using assms
  by (cases "yields w")
    (auto simp: hev_socks5_task_io_yielder_def hev_task_sleep_def patient_def task_switch_def split: if_splits)

lemma patient_less: "patient n self w \<Longrightarrow> m \<le> n \<Longrightarrow> patient m self w"
  by (auto simp: patient_def)

definition side :: "bool \<Rightarrow> int \<Rightarrow> bytes \<Rightarrow> int \<Rightarrow> int \<Rightarrow> world \<Rightarrow> int list \<Rightarrow> bool" where
  "side good res c fi fo w sh \<longleftrightarrow> res \<in> {-1, 0, 1} \<and>
     (good \<longrightarrow> calm_rx (rxq w fi) \<and> calm_tx (txq w fo) \<and> (res < 0 \<longrightarrow> c = [] \<and> rxq w fi = [] \<and> fo \<in> set sh))"

lemma side_other:
  assumes "direction fi fo c w c' w'" "gi \<noteq> fi" "go \<noteq> fo" "set sh \<subseteq> set sh'"
  shows "side good r d gi go w sh \<Longrightarrow> side good r d gi go w' sh'" "dir_load gi go d w' = dir_load gi go d w"
    "passed gi go d w' d' w2 \<Longrightarrow> passed gi go d w d' w2" "passed gi go d w2 d' w' = passed gi go d w2 d' w"
  using direction_fields(5) [OF assms(1,2)] direction_fields(6,7) [OF assms(1,3)] assms(4)
  by (auto simp: side_def dir_load_def passed_def)

lemma waited_same:
  assumes "waited s w s' w'"
  shows "side good r c fi fo w' sh = side good r c fi fo w sh" "dir_load fi fo c w' = dir_load fi fo c w"
    "passed fi fo c w' c' w2 = passed fi fo c w c' w2" "passed fi fo c w2 c' w' = passed fi fo c w2 c' w"
  using waited_fields [OF assms] by (simp_all add: side_def dir_load_def passed_def)

definition both :: "bool \<Rightarrow> int \<Rightarrow> int \<Rightarrow> bytes \<Rightarrow> bytes \<Rightarrow> world \<Rightarrow> bytes \<Rightarrow> bytes \<Rightarrow> world \<Rightarrow> int list \<Rightarrow> bool" where
  "both good a b cf cb w cf' cb' w' sh' \<longleftrightarrow>
     passed a b cf w cf' w' \<and> passed b a cb w cb' w' \<and> opened w' = opened w \<and> live w' = live w \<and>
     (good \<longrightarrow> cf' = [] \<and> rxq w' a = [] \<and> b \<in> set sh' \<and> cb' = [] \<and> rxq w' b = [] \<and> a \<in> set sh')"

context splicer begin

lemma turn:
  assumes "inv h b" "side good res (contents b) fi fo w sh"
    "(if res \<ge> 0 then step b fi fo (w, sh) else (res, b, w, sh)) = (res', b', w', sh')"
  shows "inv h b' \<and> direction fi fo (contents b) w (contents b') w' \<and> side good res' (contents b') fi fo w' sh' \<and>
    set sh \<subseteq> set sh' \<and> (0 \<le> res' \<longrightarrow> dir_load fi fo (contents b') w' < dir_load fi fo (contents b) w)"
proof (cases "0 \<le> res")
  case True
  with assms(3) have st: "step b fi fo (w, sh) = (res', b', w', sh')" by simp
  from step [OF assms(1) st] assms(2) show ?thesis by (auto simp: splicer_step_def side_def direction_def)
next
  case False
  with assms show ?thesis by auto
qed

lemma loop_relays:
  fixes self :: "'a hev_socks5_scheme"
  assumes "inv h f" "inv k b" "a \<noteq> c"
    "side good rf (contents f) a c w sh" "side good rb (contents b) c a w sh"
    "good \<Longrightarrow> patient (dir_load a c (contents f) w + dir_load c a (contents b) w) self w"
  shows "\<exists>f' b' self' w' sh'. splice_loop step a a c c hev_socks5_task_io_yielder rf rb f b self (w, sh) =
      Some (f', b', self', w', sh') \<and> inv h f' \<and> inv k b' \<and>
      both good a c (contents f) (contents b) w (contents f') (contents b') w' sh'"
  using assms
proof (induction "dir_load a c (contents f) w + dir_load c a (contents b) w" arbitrary: f b rf rb self w sh rule: less_induct)
  case less
  obtain r1 f1 w1 sh1 where t1: "(if rf \<ge> 0 then step f a c (w, sh) else (rf, f, w, sh)) = (r1, f1, w1, sh1)"
    by (metis prod_cases4)
  obtain r2 b2 w2 sh2 where t2: "(if rb \<ge> 0 then step b c a (w1, sh1) else (rb, b, w1, sh1)) = (r2, b2, w2, sh2)"
    by (metis prod_cases4)
  note f1 = turn [OF less.prems(1,4) t1]
  have d1: "direction a c (contents f) w (contents f1) w1" and s1: "set sh \<subseteq> set sh1" using f1 by blast+
  note o1 = side_other [OF d1 less.prems(3) [symmetric] less.prems(3) s1]
  note f2 = turn [OF less.prems(2) o1(1) [OF less.prems(5)] t2]
  have d2: "direction c a (contents b) w1 (contents b2) w2" and s2: "set sh1 \<subseteq> set sh2" using f2 by blast+
  note o2 = side_other [OF d2 less.prems(3) less.prems(3) [symmetric] s2]
  have sd: "side good r1 (contents f1) a c w2 sh2" "side good r2 (contents b2) c a w2 sh2"
    using o2(1) f1 f2 by blast+
  have pw: "passed a c (contents f) w (contents f1) w2" "passed c a (contents b) w (contents b2) w2"
    using o2(4) o1(3) d1 d2 by (auto simp: direction_def)
  have fl: "opened w2 = opened w" "live w2 = live w" "yields w2 = yields w"
    using direction_fields [OF d1] direction_fields [OF d2] by simp_all
  have le: "dir_load a c (contents f1) w2 \<le> dir_load a c (contents f) w"
    "dir_load c a (contents b2) w2 \<le> dir_load c a (contents b) w"
    using d1 d2 o1(2) o2(2) by (auto simp: direction_def)
  have lt: "dir_load a c (contents f1) w2 + dir_load c a (contents b2) w2 < dir_load a c (contents f) w + dir_load c a (contents b) w"
    if "0 \<le> r1 \<or> 0 \<le> r2"
    using that le f1 f2 o1(2) o2(2) by (auto intro: add_less_le_mono add_le_less_mono)
  have pt: "good \<Longrightarrow> patient (Suc (dir_load a c (contents f1) w2 + dir_load c a (contents b2) w2)) self w2"
    if "0 \<le> r1 \<or> 0 \<le> r2"
    using patient_less [OF less.prems(6) Suc_leI [OF lt [OF that]]] fl by (simp add: patient_def)
  have rr: "r1 \<in> {-1, 0, 1}" "r2 \<in> {-1, 0, 1}" using sd by (simp_all add: side_def)
  define t where "t = (if r1 > 0 \<or> r2 > 0 then Some HEV_TASK_YIELD else if and r1 r2 = 0 then Some HEV_TASK_WAITIO else None)"
  have tN: "t = None \<longleftrightarrow> r1 < 0 \<and> r2 < 0" using rr by (auto simp: t_def)
  have eq: "splice_loop step a a c c hev_socks5_task_io_yielder rf rb f b self (w, sh) =
    (case t of None \<Rightarrow> Some (f1, b2, self, w2, sh2)
     | Some t \<Rightarrow> (let (r, self, w) = hev_socks5_task_io_yielder t self w2
         in if r \<noteq> 0 then Some (f1, b2, self, w, sh2)
            else splice_loop step a a c c hev_socks5_task_io_yielder r1 r2 f1 b2 self (w, sh2)))"
    by (subst splice_loop.simps) (simp only: t1 t2 t_def Let_def split_conv fst_conv snd_conv)
  show ?case
  proof (cases t)
    case None
    with tN sd pw fl f1 f2 show ?thesis unfolding eq by (auto simp: both_def side_def)
  next
    case (Some ty)
    obtain r self' w' where y: "hev_socks5_task_io_yielder ty self w2 = (r, self', w')" by (metis prod_cases3)
    note wt = yielder_waited [OF y] and ws = waited_same [OF yielder_waited [OF y]]
    show ?thesis
    proof (cases "r = 0")
      case False
      from tN Some have "0 \<le> r1 \<or> 0 \<le> r2" by auto
      with False yielder_patient [OF y] pt have "\<not> good" by blast
      with eq Some y False pw ws fl f1 f2 waited_fields(10,13) [OF wt] show ?thesis by (auto simp: both_def)
    next
      case True
      have ge: "0 \<le> r1 \<or> 0 \<le> r2" using tN Some by auto
      have pt': "good \<Longrightarrow> patient (dir_load a c (contents f1) w' + dir_load c a (contents b2) w') self' w'"
        using yielder_patient [OF y pt [OF ge]] by (simp add: ws)
      from lt [OF ge] have "dir_load a c (contents f1) w' + dir_load c a (contents b2) w' <
        dir_load a c (contents f) w + dir_load c a (contents b) w" by (simp add: ws)
      note ih = less.hyps [OF this]
      have "\<exists>f' b' self'' w'' sh'. splice_loop step a a c c hev_socks5_task_io_yielder r1 r2 f1 b2 self' (w', sh2) =
          Some (f', b', self'', w'', sh') \<and> inv h f' \<and> inv k b' \<and>
          both good a c (contents f1) (contents b2) w' (contents f') (contents b') w'' sh'"
        using f1 f2 sd ws(1) less.prems(3) pt' by (intro ih) auto
      then obtain f' b' self'' w'' sh' where
        l: "splice_loop step a a c c hev_socks5_task_io_yielder r1 r2 f1 b2 self' (w', sh2) = Some (f', b', self'', w'', sh')"
        and i: "inv h f'" "inv k b'" and bo: "both good a c (contents f1) (contents b2) w' (contents f') (contents b') w'' sh'" by blast
      have "both good a c (contents f) (contents b) w (contents f') (contents b') w'' sh'"
        using bo pw fl waited_fields(10,13) [OF wt] unfolding both_def ws(3) by (metis passed_trans)
      with l i eq Some y True show ?thesis by auto
    qed
  qed
qed

end

section \<open>The whole call\<close>

definition kept :: "world \<Rightarrow> world \<Rightarrow> bool" where
  "kept w w' \<longleftrightarrow> rxq w' = rxq w \<and> txq w' = txq w \<and> wire w' = wire w \<and> yields w' = yields w"

text \<open>What a splicer takes when it is made it gives back when it is finished.\<close>

locale splicer_object = splicer "io_splice ops" inv contents
  for ops :: "'b splicer_ops" and inv :: "'h \<Rightarrow> 'b \<Rightarrow> bool" and contents +
  assumes init: "splicer_init ops w = (r, w') \<Longrightarrow> kept w w' \<and>
      (case r of None \<Rightarrow> opened w' = opened w \<and> live w' = live w
       | Some b \<Rightarrow> \<exists>h. inv h b \<and> contents b = [] \<and>
           (\<forall>b' v. inv h b' \<longrightarrow> opened v = opened w' \<longrightarrow> live v = live w' \<longrightarrow>
              opened (splicer_fini ops b' v) = opened w \<and> live (splicer_fini ops b' v) = live w))"
    and fini: "kept w (splicer_fini ops b w)"
begin

lemma init_Some:
  assumes "splicer_init ops w = (Some b, w')"
  obtains h where "inv h b" "contents b = []" "kept w w'"
    "\<And>b' v. inv h b' \<Longrightarrow> opened v = opened w' \<Longrightarrow> live v = live w' \<Longrightarrow>
       opened (splicer_fini ops b' v) = opened w \<and> live (splicer_fini ops b' v) = live w"
  using init [OF assms] by auto

lemma kept_same: "kept w w' \<Longrightarrow> passed fi fo c w' c' w2 = passed fi fo c w c' w2"
  "kept w w' \<Longrightarrow> passed fi fo c w2 c' w' = passed fi fo c w2 c' w"
  by (simp_all add: kept_def passed_def)

lemma splice_relays:
  fixes self :: "'a hev_socks5_scheme"
  assumes "a \<noteq> c" and good: "good \<Longrightarrow> calm_rx (rxq w a) \<and> calm_tx (txq w c) \<and> calm_rx (rxq w c) \<and> calm_tx (txq w a) \<and>
      patient (dir_load a c [] w + dir_load c a [] w) self w \<and> fst (splicer_init ops w) \<noteq> None \<and> fst (splicer_init ops (snd (splicer_init ops w))) \<noteq> None"
  shows "\<exists>self' w' sh' cf cb. hev_task_io_splice ops a a c c hev_socks5_task_io_yielder self w = Some (self', w', sh') \<and>
    both good a c [] [] w cf cb w' sh'"
proof -
  obtain r w1 where i1: "splicer_init ops w = (r, w1)" by (cases "splicer_init ops w")
  show ?thesis
  proof (cases r)
    case None
    with i1 init [OF i1] good show ?thesis
      by (auto simp: hev_task_io_splice_def both_def kept_same intro!: exI [of _ "[]"])
  next
    case (Some f)
    from init_Some [OF i1 [unfolded Some]] obtain h where f: "inv h f" "contents f = []" "kept w w1"
      "\<And>b' v. inv h b' \<Longrightarrow> opened v = opened w1 \<Longrightarrow> live v = live w1 \<Longrightarrow>
         opened (splicer_fini ops b' v) = opened w \<and> live (splicer_fini ops b' v) = live w" by metis
    obtain r2 w2 where i2: "splicer_init ops w1 = (r2, w2)" by (cases "splicer_init ops w1")
    show ?thesis
    proof (cases r2)
      case None
      with init [OF i2] have w2: "kept w1 w2" "opened w2 = opened w1" "live w2 = live w1" by auto
      with f(4) [OF f(1) w2(2,3)] f(3) fini [of w2 f] good i1 i2 Some None show ?thesis
        by (auto simp: hev_task_io_splice_def both_def kept_same intro!: exI [of _ "[]"])
    next
      case b: (Some b)
      from init_Some [OF i2 [unfolded b]] obtain k where b': "inv k b" "contents b = []" "kept w1 w2"
        "\<And>b' v. inv k b' \<Longrightarrow> opened v = opened w2 \<Longrightarrow> live v = live w2 \<Longrightarrow>
           opened (splicer_fini ops b' v) = opened w1 \<and> live (splicer_fini ops b' v) = live w1" by metis
      have kw: "kept w w2" using f(3) b'(3) by (simp add: kept_def)
      have "side good 1 (contents f) a c w2 []" "side good 1 (contents b) c a w2 []"
        "good \<Longrightarrow> patient (dir_load a c (contents f) w2 + dir_load c a (contents b) w2) self w2"
        using good kw f(2) b'(2) by (auto simp: side_def kept_def patient_def dir_load_def)
      from loop_relays [OF f(1) b'(1) assms(1) this] obtain f2 b2 self2 w3 sh where
        l: "splice_loop (io_splice ops) a a c c hev_socks5_task_io_yielder 1 1 f b self (w2, []) = Some (f2, b2, self2, w3, sh)"
        "inv h f2" "inv k b2" and bo: "both good a c [] [] w2 (contents f2) (contents b2) w3 sh"
        unfolding f(2) b'(2) by blast
      let ?w4 = "splicer_fini ops b2 w3" and ?w5 = "splicer_fini ops f2 (splicer_fini ops b2 w3)"
      have "opened w3 = opened w2" "live w3 = live w2" using bo by (simp_all add: both_def)
      from b'(4) [OF l(3) this] have "opened ?w4 = opened w1" "live ?w4 = live w1" by blast+
      from f(4) [OF l(2) this] have o: "opened ?w5 = opened w" "live ?w5 = live w" by blast+
      have "kept w3 ?w5" using fini [of w3 b2] fini [of ?w4 f2] by (simp add: kept_def)
      then have "both good a c [] [] w (contents f2) (contents b2) ?w5 sh"
        using bo o kw unfolding both_def by (simp add: kept_same) (simp add: kept_def)
      with l(1) i1 i2 Some b show ?thesis by (auto simp: hev_task_io_splice_def)
    qed
  qed
qed

end

lemma sys_call_kept [simp]:
  "kept w (snd (sys_call w))" "opened (snd (sys_call w)) = opened w" "live (snd (sys_call w)) = live w"
  "allocs (snd (sys_call w)) = allocs w" "sys (snd (sys_call w)) = tl (sys w)"
  by (auto simp: sys_call_def kept_def split: list.splits)

lemma kept_trans: "kept w w1 \<Longrightarrow> kept w1 w2 \<Longrightarrow> kept w w2"
  by (simp add: kept_def)

lemma kept_upd [simp]: "kept w (w'\<lparr>opened := os\<rparr>) = kept w w'" "kept w (sys_close g w') = kept w w'"
  "kept w (hev_free w') = kept w w'"
  by (simp_all add: kept_def sys_close_def hev_free_def)

lemma sys_pipe_eq:
  assumes "sys_pipe w = (r, a, b, w')"
  shows "kept w w'" "opened w' = (if r < 0 then opened w else b # a # opened w)" "live w' = live w"
proof -
  obtain x w1 y w2 z w3 where c: "sys_call w = (x, w1)" "sys_call w1 = (y, w2)" "sys_call w2 = (z, w3)"
    by (metis prod.exhaust)
  note k = sys_call_kept(1-3) [of w, unfolded c] sys_call_kept(1-3) [of w1, unfolded c] sys_call_kept(1-3) [of w2, unfolded c]
  have "kept w w3" using k(1,4,7) by (simp add: kept_def)
  with assms c k show "kept w w'" "opened w' = (if r < 0 then opened w else b # a # opened w)" "live w' = live w"
    by (auto simp: sys_pipe_def split: if_splits)
qed

lemma pipe_size_bounds: "0 < pipe_size n" "pipe_size n < 2 ^ 63"
proof -
  have "unat n < 2 ^ 32" using unsigned_less [of n] by simp
  then show "0 < pipe_size n" "pipe_size n < 2 ^ 63" by (simp_all add: pipe_size_def)
qed

lemma pipe_init_spec:
  assumes "pipe_init n w = (r, w')"
  shows "kept w w' \<and> live w' = live w \<and> (case r of None \<Rightarrow> opened w' = opened w
    | Some p \<Rightarrow> pipe_inv (pipe_r p, pipe_w p) p \<and> pipe_data p = [] \<and> opened w' = pipe_w p # pipe_r p # opened w)"
proof -
  obtain q a b w1 where p: "sys_pipe w = (q, a, b, w1)" by (metis prod_cases4)
  obtain q2 w2 where c2: "sys_call w1 = (q2, w2)" by (cases "sys_call w1")
  obtain q3 w3 where c3: "sys_call w2 = (q3, w3)" by (cases "sys_call w2")
  obtain q4 w4 where c4: "sys_call w3 = (q4, w4)" by (cases "sys_call w3")
  note k = sys_pipe_eq [OF p] sys_call_kept(1-3) [of w1, unfolded c2] sys_call_kept(1-3) [of w2, unfolded c3]
    sys_call_kept(1-3) [of w3, unfolded c4]
  have k1: "kept w w1" "kept w w2" "kept w w3" "kept w w4" using k(1,4,7,10) by (simp_all add: kept_def)
  note sz = pipe_size_bounds [of n]
  have u: "unat (of_nat (pipe_size n) :: u64) = pipe_size n" using sz(2) by (intro unat_of_nat_small) simp
  have m: "pipe_size n \<le> unat (- 1 :: u64)" using sz(2) by (simp add: unsigned_minus_1_eq_mask mask_eq_exp_minus_1)
  have cl: "opened (sys_close b (sys_close a v)) = os" "live (sys_close b (sys_close a v)) = live v"
    if "opened v = b # a # os" for v os using that by (auto simp: sys_close_def)
  consider "q < 0" | "0 \<le> q" "q2 < 0" | "0 \<le> q" "0 \<le> q2" "q3 < 0" | "0 \<le> q" "0 \<le> q2" "0 \<le> q3" by linarith
  then show ?thesis
  proof cases
    case 4
    with assms p c2 c3 c4 k k1 u m sz show ?thesis by (auto simp: pipe_init_def pipe_inv_def)
  qed (use assms p c2 c3 k k1 cl in \<open>auto simp: pipe_init_def\<close>)
qed

interpretation pipe_object: splicer_object "pipe_ops pages" pipe_inv pipe_data for pages
proof unfold_locales
  fix w r w' assume "splicer_init (pipe_ops pages) w = (r, w')"
  then have "pipe_init pages w = (r, w')" by (simp add: pipe_ops_def)
  note i = pipe_init_spec [OF this]
  have "opened (pipe_fini p v) = os \<and> live (pipe_fini p v) = live v" if "opened v = pipe_w p # pipe_r p # os" for p v os
    using that by (auto simp: pipe_fini_def sys_close_def)
  with i show "kept w w' \<and>
      (case r of None \<Rightarrow> opened w' = opened w \<and> live w' = live w
       | Some b \<Rightarrow> \<exists>h. pipe_inv h b \<and> pipe_data b = [] \<and>
           (\<forall>b' v. pipe_inv h b' \<longrightarrow> opened v = opened w' \<longrightarrow> live v = live w' \<longrightarrow>
              opened (splicer_fini (pipe_ops pages) b' v) = opened w \<and> live (splicer_fini (pipe_ops pages) b' v) = live w))"
    by (auto simp: pipe_ops_def pipe_inv_def split: option.splits)
qed (use pipe_step in \<open>auto simp: pipe_ops_def pipe_fini_def kept_def sys_close_def\<close>)

interpretation buffer_object: splicer_object "buffer_ops junk 8192" "\<lambda>_ :: unit. circ_inv" circ_bytes for junk
proof unfold_locales
  fix w r w' assume "splicer_init (buffer_ops junk 8192) w = (r, w')"
  then show "kept w w' \<and>
      (case r of None \<Rightarrow> opened w' = opened w \<and> live w' = live w
       | Some b \<Rightarrow> \<exists>h :: unit. circ_inv b \<and> circ_bytes b = [] \<and>
           (\<forall>b' v. circ_inv b' \<longrightarrow> opened v = opened w' \<longrightarrow> live v = live w' \<longrightarrow>
              opened (splicer_fini (buffer_ops junk 8192) b' v) = opened w \<and>
              live (splicer_fini (buffer_ops junk 8192) b' v) = live w))"
    by (auto simp: buffer_ops_def buffer_init_def hev_circular_buffer_new_def hev_malloc_def kept_def circ_inv_def
        circ_bytes_def circ_ring_def readable_def buffer_fini_def hev_circular_buffer_unref_def hev_free_def
        split: list.splits bool.splits if_splits)
qed (use buffer_step in \<open>auto simp: buffer_ops_def buffer_fini_def hev_circular_buffer_unref_def hev_free_def kept_def Let_def\<close>)

text \<open>What a run of the splicer has done; \<open>good\<close> says when nothing may be missing.\<close>

definition relayed :: "bool \<Rightarrow> 'a hev_socks5_scheme \<Rightarrow> int \<Rightarrow> world \<Rightarrow> (int \<times> 'a hev_socks5_scheme \<times> splice_world) option \<Rightarrow> bool" where
  "relayed good self f w r \<longleftrightarrow> (\<exists>self' w' sh up rest down rest'. r = Some (0, self', w', sh) \<and>
     rx_bytes (rxq w (fd self)) = up @ rest \<and> wire w' f = wire w f @ up \<and>
     rx_bytes (rxq w f) = down @ rest' \<and> wire w' (fd self) = wire w (fd self) @ down \<and>
     opened w' = opened w \<and> live w' = live w \<and>
     (good \<longrightarrow> rest = [] \<and> rest' = [] \<and> f \<in> set sh \<and> fd self \<in> set sh))"

lemma both_relayed:
  assumes "both good (fd self) f [] [] w cf cb w' sh"
  shows "relayed good self f w (Some (0, self', w', sh))"
proof -
  from assms obtain xs ys xs' ys' where
    "rx_bytes (rxq w (fd self)) = xs @ rx_bytes (rxq w' (fd self))" "wire w' f = wire w f @ ys" "xs = ys @ cf"
    "rx_bytes (rxq w f) = xs' @ rx_bytes (rxq w' f)" "wire w' (fd self) = wire w (fd self) @ ys'" "xs' = ys' @ cb"
    by (auto simp: both_def passed_def)
  with assms show ?thesis
    unfolding relayed_def
    by (intro exI [of _ self'] exI [of _ w'] exI [of _ sh] exI [of _ ys] exI [of _ "cf @ rx_bytes (rxq w' (fd self))"]
        exI [of _ ys'] exI [of _ "cb @ rx_bytes (rxq w' f)"]) (auto simp: both_def)
qed

lemma pipe_init_ok:
  assumes "6 \<le> length (sys w)" "\<forall>r \<in> set (sys w). 0 \<le> r"
  shows "fst (pipe_init n w) \<noteq> None \<and> sys (snd (pipe_init n w)) = drop 6 (sys w)"
proof -
  from assms(1) obtain a b c d e g rs where "sys w = a # b # c # d # e # g # rs"
    by (auto simp: numeral_eq_Suc Suc_le_length_iff)
  with assms(2) show ?thesis by (simp add: pipe_init_def sys_pipe_def sys_call_def Let_def)
qed

text \<open>
  No errors, no end before the end of the script, and no interruption in as many waits as there can be:
  every round takes something off the load.
\<close>

definition calm :: "'a hev_socks5_scheme \<Rightarrow> int \<Rightarrow> world \<Rightarrow> bool" where
  "calm self f w \<longleftrightarrow> calm_rx (rxq w (fd self)) \<and> calm_tx (txq w f) \<and> calm_rx (rxq w f) \<and> calm_tx (txq w (fd self)) \<and>
     patient (dir_load (fd self) f [] w + dir_load f (fd self) [] w) self w"

text \<open>The descriptor is registered before: one call, or two when it was registered already.\<close>

definition added :: "world \<Rightarrow> world" where
  "added w = (let (res, w) = sys_call w in if res < 0 then snd (sys_call w) else w)"

lemma added: "kept w (added w)" "opened (added w) = opened w" "live (added w) = live w" "allocs (added w) = allocs w"
  "\<forall>r \<in> set (sys w). 0 \<le> r \<Longrightarrow> 13 \<le> length (sys w) \<Longrightarrow> sys (added w) = tl (sys w)"
proof -
  have e: "added w = (if fst (sys_call w) < 0 then snd (sys_call (snd (sys_call w))) else snd (sys_call w))"
    by (simp add: added_def split_beta)
  show "kept w (added w)" using kept_trans [OF sys_call_kept(1) [of w] sys_call_kept(1)] by (simp add: e)
  show "opened (added w) = opened w" "live (added w) = live w" "allocs (added w) = allocs w" by (simp_all add: e)
  show "\<forall>r \<in> set (sys w). 0 \<le> r \<Longrightarrow> 13 \<le> length (sys w) \<Longrightarrow> sys (added w) = tl (sys w)"
    by (cases "sys w") (auto simp: added_def sys_call_def)
qed

lemma splicer_relayed:
  assumes "0 \<le> fd self" "good \<Longrightarrow> calm self f w"
    and r: "\<exists>self' w' sh cf cb. hev_task_io_splice ops (fd self) (fd self) f f hev_socks5_task_io_yielder self (added w) =
      Some (self', w', sh) \<and> both good (fd self) f [] [] (added w) cf cb w' sh"
  shows "relayed good self f w (hev_socks5_tcp_splicer ops f self w)"
proof -
  from r obtain self' w' sh cf cb where
    e: "hev_task_io_splice ops (fd self) (fd self) f f hev_socks5_task_io_yielder self (added w) = Some (self', w', sh)"
    and b: "both good (fd self) f [] [] (added w) cf cb w' sh" by blast
  have "both good (fd self) f [] [] w cf cb w' sh"
    using b added(1-3) [of w] unfolding both_def passed_def kept_def by simp
  from both_relayed [OF this, of self'] e assms(1) show ?thesis
    by (simp add: hev_socks5_tcp_splicer_def added_def Let_def split_beta)
qed

text \<open>
  C39: The TCP splicer relays between its connection and another descriptor \<open>f\<close>. For every finite behaviour
  of the two connections and of the other tasks, whichever of its two variants was built, it returns,
  gives back the pipes or buffers it used, and in each direction what was written is, in order and
  once, the beginning of what the other side had sent. Nothing is missing when the pipes or buffers
  could be made, neither connection reports an error or ends in the middle (\<open>calm\<close>), nobody ends the
  session and no wait times out: then it ends only when both peers have ended their streams,
  everything they sent was delivered, and both connections were shut down for writing.
\<close>
theorem tcp_splicer_relays:
  fixes self :: "'a hev_socks5_scheme"
  assumes "0 \<le> fd self" "f \<noteq> fd self"
  shows "relayed (calm self f w \<and> 13 \<le> length (sys w) \<and> (\<forall>r \<in> set (sys w). 0 \<le> r)) self f w
      (hev_socks5_tcp_splicer (pipe_ops pages) f self w) \<and>
    relayed (calm self f w \<and> allocs w = []) self f w (hev_socks5_tcp_splicer (buffer_ops junk 8192) f self w)"
proof
  let ?w = "added w"
  have k: "kept w ?w" by (rule added)
  have c: "calm self f w \<Longrightarrow> calm_rx (rxq ?w (fd self)) \<and> calm_tx (txq ?w f) \<and> calm_rx (rxq ?w f) \<and>
      calm_tx (txq ?w (fd self)) \<and> patient (dir_load (fd self) f [] ?w + dir_load f (fd self) [] ?w) self ?w"
    using k by (simp add: calm_def kept_def patient_def dir_load_def)
  let ?g = "calm self f w \<and> 13 \<le> length (sys w) \<and> (\<forall>r \<in> set (sys w). 0 \<le> r)"
  have p: "fst (pipe_init pages ?w) \<noteq> None \<and> fst (pipe_init pages (snd (pipe_init pages ?w))) \<noteq> None" if ?g
  proof -
    have q: "sys ?w = tl (sys w)" using added(5) that by blast
    have tl: "set (tl xs) \<subseteq> set xs" for xs :: "int list" by (cases xs) auto
    have ln: "13 \<le> length (sys w)" using that by blast
    then have l: "6 \<le> length (sys ?w)" using q by simp
    have n: "\<forall>r \<in> set (sys ?w). 0 \<le> r" using that q tl [of "sys w"] by auto
    note i = pipe_init_ok [OF l n, of pages]
    have l2: "6 \<le> length (sys (snd (pipe_init pages ?w)))" using ln q i by simp
    have n2: "\<forall>r \<in> set (sys (snd (pipe_init pages ?w))). 0 \<le> r"
      using n i set_drop_subset [of 6 "sys ?w"] by auto
    from pipe_init_ok [OF l2 n2, of pages] i show ?thesis by blast
  qed
  show "relayed ?g self f w (hev_socks5_tcp_splicer (pipe_ops pages) f self w)"
    using assms(1) by (rule splicer_relayed) (blast, rule pipe_object.splice_relays,
      use assms(2) c p in \<open>simp_all add: pipe_ops_def\<close>)
  have "fst (hev_circular_buffer_new junk 8192 v) \<noteq> None \<and> allocs (snd (hev_circular_buffer_new junk 8192 v)) = []"
    if "allocs v = []" for v
    using that by (simp add: hev_circular_buffer_new_def hev_malloc_def)
  with added(4) have "allocs w = [] \<Longrightarrow> fst (splicer_init (buffer_ops junk 8192) ?w) \<noteq> None \<and>
      fst (splicer_init (buffer_ops junk 8192) (snd (splicer_init (buffer_ops junk 8192) ?w))) \<noteq> None"
    by (simp add: buffer_ops_def buffer_init_def)
  then show "relayed (calm self f w \<and> allocs w = []) self f w (hev_socks5_tcp_splicer (buffer_ops junk 8192) f self w)"
    using assms(1) by (intro splicer_relayed) (blast+, rule buffer_object.splice_relays,
      use assms(2) c in simp_all)
qed

definition relay_tcp_session :: hev_socks5 where
  "relay_tcp_session = \<lparr>fd = 3, timeout = -1, stype = HEV_SOCKS5_TYPE_TCP, udp_associated = False, addr_family = AF_INET\<rparr>"

definition relay_tcp_world :: world where
  "relay_tcp_world = quiet\<lparr>rxq := (\<lambda>g. if g = 3 then [RData [1, 2], RAgain, RData [3]] else [RAgain, RData [9]]),
     txq := (\<lambda>g. if g = 4 then [SAccept 1, SAgain] else []), sys := replicate 13 5\<rparr>"

theorem tcp_splicer_relays_witness:
  "\<exists>self' w' sh. hev_socks5_tcp_splicer (pipe_ops 15) 4 relay_tcp_session relay_tcp_world = Some (0, self', w', sh) \<and>
     wire w' 4 = [1, 2, 3] \<and> wire w' 3 = [9] \<and> opened w' = [] \<and> {3, 4} \<subseteq> set sh"
proof -
  have c: "calm relay_tcp_session 4 relay_tcp_world" "13 \<le> length (sys relay_tcp_world)" "\<forall>r \<in> set (sys relay_tcp_world). 0 \<le> r"
    by (auto simp: calm_def calm_rx_def calm_tx_def patient_def relay_tcp_session_def relay_tcp_world_def quiet_def)
  have "relayed (calm relay_tcp_session 4 relay_tcp_world \<and> 13 \<le> length (sys relay_tcp_world) \<and> (\<forall>r \<in> set (sys relay_tcp_world). 0 \<le> r))
      relay_tcp_session 4 relay_tcp_world (hev_socks5_tcp_splicer (pipe_ops 15) 4 relay_tcp_session relay_tcp_world)"
    using tcp_splicer_relays [of relay_tcp_session 4 relay_tcp_world 15] by (simp add: relay_tcp_session_def)
  with c have r: "relayed True relay_tcp_session 4 relay_tcp_world
      (hev_socks5_tcp_splicer (pipe_ops 15) 4 relay_tcp_session relay_tcp_world)" by simp
  have "fd relay_tcp_session = 3" "rx_bytes (rxq relay_tcp_world 3) = [1, 2, 3]" "rx_bytes (rxq relay_tcp_world 4) = [9]"
    "wire relay_tcp_world = (\<lambda>_. [])" "opened relay_tcp_world = []"
    by (simp_all add: relay_tcp_session_def relay_tcp_world_def quiet_def)
  with r show ?thesis unfolding relayed_def by auto
qed

end
