(* ===== verification/TUN_Device.thy ===== *)
theory TUN_Device
  imports Config Session
begin

text \<open>
  What the tunnel asks of the operating system: the TUN device of \<open>src/hev-tunnel-linux.c\<close>, the
  scripts of \<open>src/misc/hev-exec.c\<close> and the log file of \<open>src/misc/hev-logger.c\<close>.
\<close>

section \<open>The system\<close>

text \<open>
  \<open>sysq\<close> says which of the next system calls and allocations fail, and how (\<open>None\<close>: the call succeeds;
  so does a call beyond the list); \<open>fds\<close> are the open descriptors, \<open>ifaces\<close> the network interfaces by
  name, \<open>scripts\<close> the programs that were started, each with the state its interface was in at that
  moment (\<open>sc_iface\<close>). The objects of the task system and of the TCP/IP
  stack are addresses: \<open>task_refs\<close> holds a task once for each reference to it, \<open>running\<close> the tasks the
  scheduler runs, the other lists what is allocated and not yet freed. \<open>heap\<close> holds the blocks of the
  C library's allocator while there is no mapped DNS (which then keeps them), \<open>objs\<close> is the
  world of the sessions. \<open>flow_in\<close> are the datagrams handed to UDP sessions, with their destination,
  \<open>answers\<close> those the mapped DNS has sent, with source and destination.
\<close>

datatype errno = EEXIST | EAGAIN | EOTHER

record iface =
  if_mtu :: int
  if_up :: bool
  if_addr4 :: "bytes option"
  if_mask4 :: u32
  if_addr6 :: "(bytes \<times> nat) list"

record script =
  sc_path :: bytes
  sc_name :: bytes
  sc_index :: bytes
  sc_wait :: bool
  sc_iface :: "iface option"

text \<open>
  A UDP control block of the stack: the flow it stands for (a source address and port) once it is
  \<open>connected\<close>, and who receives its datagrams.
\<close>

datatype udp_recv_fn = RecvNone | RecvTunnel | RecvDns | RecvSession addr

record udp_block =
  up_id :: addr
  remote_ip :: ip_addr
  remote_port :: u16
  connected :: bool
  pretend_netif_idx :: nat
  up_recv :: udp_recv_fn

record host =
  sysq :: "errno option list"
  fds :: "int list"
  ifaces :: "bytes \<Rightarrow> iface option"
  scripts :: "script list"
  task_refs :: "addr list"
  running :: "addr list"
  tcp_pcbs :: "addr list"
  udp_pcbs :: "udp_block list"
  netifs :: "addr list"
  heap :: "addr list"
  objs :: world
  flow_in :: "(addr \<times> bytes list \<times> ip_addr \<times> u16) list"
  answers :: "(bytes \<times> ip_addr \<times> u16 \<times> ip_addr \<times> u16) list"

text \<open>A system in which nothing fails, for the concrete examples.\<close>

definition idle_host :: host where
  "idle_host = \<lparr>sysq = [], fds = [2, 1, 0], ifaces = (\<lambda>_. None), scripts = [], task_refs = [], running = [],
     tcp_pcbs = [], udp_pcbs = [], netifs = [], heap = [], objs = quiet, flow_in = [], answers = []\<rparr>"

text \<open>
  \<open>pick_name\<close> is the name the kernel gives an interface that was asked for under some name (which it
  completes when it is empty or a pattern), \<open>if_nametoindex\<close> the number of an interface.
\<close>

record host_env =
  net :: net_env
  pick_name :: "bytes \<Rightarrow> bytes"
  if_nametoindex :: "bytes \<Rightarrow> u32"

definition sys :: "host \<Rightarrow> errno option \<times> host" where
  "sys h = (case sysq h of [] \<Rightarrow> (None, h) | e # es \<Rightarrow> (e, h\<lparr>sysq := es\<rparr>))"

text \<open>A new descriptor is the lowest number that is not in use.\<close>

definition lowest_fd :: "int list \<Rightarrow> int" where
  "lowest_fd fs = hd (filter (\<lambda>n. n \<notin> set fs) (map int [0..<Suc (length fs)]))"

lemma lowest_fd:
  "lowest_fd fs \<notin> set fs" "lowest_fd fs \<ge> 0"
proof -
  let ?xs = "map int [0..<Suc (length fs)]"
  have "card (set ?xs) = Suc (length fs)" by (simp add: card_image del: upt_Suc)
  then have "\<not> set ?xs \<subseteq> set fs" using card_mono [of "set fs" "set ?xs"] card_length [of fs] by auto
  then have "filter (\<lambda>n. n \<notin> set fs) ?xs \<noteq> []" by (auto simp: filter_empty_conv)
  then have "lowest_fd fs \<in> set (filter (\<lambda>n. n \<notin> set fs) ?xs)" unfolding lowest_fd_def by (rule hd_in_set)
  then show "lowest_fd fs \<notin> set fs" "lowest_fd fs \<ge> 0" by (auto simp del: upt_Suc)
qed

definition fd_open :: "host \<Rightarrow> int \<times> host" where
  "fd_open h =
     (let (e, h) = sys h
      in if e \<noteq> None then (-1, h) else (lowest_fd (fds h), h\<lparr>fds := lowest_fd (fds h) # fds h\<rparr>))"

definition fd_close :: "int \<Rightarrow> host \<Rightarrow> host" where
  "fd_close f h = h\<lparr>fds := remove1 f (fds h)\<rparr>"

text \<open>An \<open>ioctl\<close> that changes the interface \<open>n\<close>; there is no such call on one that does not exist.\<close>

definition if_ioctl :: "bytes \<Rightarrow> (iface \<Rightarrow> iface) \<Rightarrow> host \<Rightarrow> errno option \<times> host" where
  "if_ioctl n f h =
     (let (e, h) = sys h
      in case (e, ifaces h n) of
           (None, Some i) \<Rightarrow> (None, h\<lparr>ifaces := (ifaces h)(n \<mapsto> f i)\<rparr>)
         | (None, None) \<Rightarrow> (Some EOTHER, h)
         | (Some e, _) \<Rightarrow> (Some e, h))"

definition new_iface :: iface where
  "new_iface = \<lparr>if_mtu = 1500, if_up = False, if_addr4 = None, if_mask4 = 0, if_addr6 = []\<rparr>"

text \<open>\<open>TUNSETIFF\<close> attaches the descriptor to an interface, which it creates if there is none.\<close>

definition tun_set_iff :: "host_env \<Rightarrow> bytes \<Rightarrow> host \<Rightarrow> errno option \<times> bytes \<times> host" where
  "tun_set_iff env n h =
     (let (e, h) = sys h; m = pick_name env n
      in if e \<noteq> None then (e, n, h)
         else (None, m, h\<lparr>ifaces := (ifaces h)(m := Some (case ifaces h m of None \<Rightarrow> new_iface | Some i \<Rightarrow> i))\<rparr>))"

section \<open>The device\<close>

text \<open>The static variable \<open>tun_name\<close> is passed along; the flag \<open>multi_q\<close> only changes the request.\<close>

definition hev_tunnel_open :: "host_env \<Rightarrow> bytes option \<Rightarrow> bool \<Rightarrow> bytes \<Rightarrow> host \<Rightarrow> int \<times> bytes \<times> host" where
  "hev_tunnel_open env name multi_q tun h =
     (let (f, h) = fd_open h
      in if f < 0 then (-1, tun, h)
         else
           let ifr_name = (case name of None \<Rightarrow> [] | Some n \<Rightarrow> strncpy 15 n);
               (e, ifr_name, h) = tun_set_iff env ifr_name h
           in if e \<noteq> None then (-1, tun, fd_close f h) else (f, ifr_name, h))"

definition hev_tunnel_close :: "int \<Rightarrow> host \<Rightarrow> host" where
  "hev_tunnel_close f h = fd_close f h"

definition hev_tunnel_set_mtu :: "int \<Rightarrow> bytes \<Rightarrow> host \<Rightarrow> int \<times> host" where
  "hev_tunnel_set_mtu mtu tun h =
     (let (f, h) = fd_open h
      in if f < 0 then (-1, h)
         else let (e, h) = if_ioctl tun (\<lambda>i. i\<lparr>if_mtu := mtu\<rparr>) h
              in (if e = None then 0 else -1, fd_close f h))"

definition hev_tunnel_set_state :: "bool \<Rightarrow> bytes \<Rightarrow> host \<Rightarrow> int \<times> host" where
  "hev_tunnel_set_state up tun h =
     (let (f, h) = fd_open h
      in if f < 0 then (-1, h)
         else let (e, h) = if_ioctl tun id h
              in if e \<noteq> None then (-1, fd_close f h)
                 else let (e, h) = if_ioctl tun (\<lambda>i. i\<lparr>if_up := up\<rparr>) h
                      in (if e = None then 0 else -1, fd_close f h))"

definition hev_tunnel_set_ipv4 :: "host_env \<Rightarrow> bytes \<Rightarrow> nat \<Rightarrow> bytes \<Rightarrow> host \<Rightarrow> int \<times> host" where
  "hev_tunnel_set_ipv4 env addr len tun h =
     (let (f, h) = fd_open h
      in if f < 0 then (-1, h)
         else case pton4 (net env) addr of
                None \<Rightarrow> (0, fd_close f h)
              | Some a \<Rightarrow>
                  (let (e, h) = if_ioctl tun (\<lambda>i. i\<lparr>if_addr4 := Some a\<rparr>) h
                   in if e \<noteq> None then (-1, fd_close f h)
                      else let (e, h) = if_ioctl tun (\<lambda>i. i\<lparr>if_mask4 := ntohl (push_bit (32 - len) (-1))\<rparr>) h
                           in (if e = None \<or> e = Some EEXIST then 0 else -1, fd_close f h)))"

definition hev_tunnel_set_ipv6 :: "host_env \<Rightarrow> bytes \<Rightarrow> nat \<Rightarrow> bytes \<Rightarrow> host \<Rightarrow> int \<times> host" where
  "hev_tunnel_set_ipv6 env addr len tun h =
     (let (f, h) = fd_open h
      in if f < 0 then (-1, h)
         else
           let (e, h) = if_ioctl tun id h
           in if e \<noteq> None then (-1, fd_close f h)
              else case pton6 (net env) addr of
                     None \<Rightarrow> (0, fd_close f h)
                   | Some a \<Rightarrow>
                       (let (e, h) = if_ioctl tun (\<lambda>i. i\<lparr>if_addr6 := if_addr6 i @ [(a, len)]\<rparr>) h
                        in (if e = None \<or> e = Some EEXIST then 0 else -1, fd_close f h)))"

text \<open>A number in decimal, as \<open>%d\<close> prints it into a field of 15 bytes.\<close>

fun digits :: "nat \<Rightarrow> bytes" where
  "digits n = (if n < 10 then [of_nat (48 + n)] else digits (n div 10) @ [of_nat (48 + n mod 10)])"

declare digits.simps [simp del]

definition print_int :: "int \<Rightarrow> bytes" where
  "print_int x = (if x < 0 then 45 # digits (nat (- x)) else digits (nat x))"

definition hev_tunnel_get_index :: "host_env \<Rightarrow> bytes \<Rightarrow> bytes" where
  "hev_tunnel_get_index env tun = take 14 (print_int (sint (if_nametoindex env tun)))"

section \<open>Scripts\<close>

text \<open>The result of a script is not looked at.\<close>

definition hev_exec_run :: "bytes \<Rightarrow> bytes \<Rightarrow> bytes \<Rightarrow> bool \<Rightarrow> host \<Rightarrow> host" where
  "hev_exec_run script_path name index wait h =
     (let (e, h) = sys h
      in if e \<noteq> None then h
         else h\<lparr>scripts := scripts h @ [\<lparr>sc_path = script_path, sc_name = name, sc_index = index, sc_wait = wait,
                              sc_iface = ifaces h name\<rparr>]\<rparr>)"

section \<open>The log file\<close>

text \<open>The two loggers, of the tunnel and of the SOCKS5 library, have the same code and two states.\<close>

record logger =
  log_fd :: int
  req_level :: int

definition hev_logger_init :: "int \<Rightarrow> bytes option \<Rightarrow> logger \<Rightarrow> host \<Rightarrow> int \<times> logger \<times> host" where
  "hev_logger_init level path l h =
     (case path of
        None \<Rightarrow> (0, l, h)
      | Some p \<Rightarrow>
          (let l = l\<lparr>req_level := level\<rparr>; (f, h) = fd_open h; l = l\<lparr>log_fd := f\<rparr>
           in if log_fd l < 0 then (-1, l, h) else (0, l, h)))"

definition hev_logger_fini :: "logger \<Rightarrow> host \<Rightarrow> host" where
  "hev_logger_fini l h = (if log_fd l \<ge> 0 then fd_close (log_fd l) h else h)"

definition hev_logger_enabled :: "int \<Rightarrow> logger \<Rightarrow> bool" where
  "hev_logger_enabled level l \<longleftrightarrow> level \<ge> req_level l \<and> log_fd l \<ge> 0"

end
