(* ===== verification/Task_Mutex.thy ===== *)
theory Task_Mutex
  imports Prelude
begin

text \<open>
  The mutex of the task system, \<open>third-part/hev-task-system/src/kern/sync/hev-task-mutex.c\<close>, which
  serialises the use of the TCP/IP stack. Tasks are cooperative: between two yields a task runs alone,
  so each operation up to the next yield is one step.
\<close>

section \<open>The mutex and its tasks\<close>

text \<open>
  A task that waits has a \<open>HevTaskMutexNode\<close> on its own stack; the node of task \<open>t\<close> is identified
  with \<open>t\<close>, \<open>wnext\<close> is its field \<open>next\<close>. A waiting task runs again only when it is \<open>awake\<close>.
\<close>

datatype mutex_pc = MxOut | MxWait | MxIn

record task_mutex =
  locker :: bool
  waiters :: ptr
  wnext :: "addr \<Rightarrow> ptr"
  mx_at :: "addr \<Rightarrow> mutex_pc"
  awake :: "addr \<Rightarrow> bool"

definition mx_task_wakeup :: "addr \<Rightarrow> task_mutex \<Rightarrow> task_mutex" where
  "mx_task_wakeup t s = s\<lparr>awake := (awake s)(t := True)\<rparr>"

definition hev_task_mutex_init :: "task_mutex \<Rightarrow> task_mutex" where
  "hev_task_mutex_init s = s\<lparr>locker := False, waiters := None\<rparr>"

text \<open>\<open>hev_task_mutex_lock\<close> up to its first yield or to its end.\<close>

definition hev_task_mutex_lock :: "addr \<Rightarrow> task_mutex \<Rightarrow> task_mutex" where
  "hev_task_mutex_lock t s =
     (if locker s
      then s\<lparr>wnext := (wnext s)(t := waiters s), waiters := Some t, mx_at := (mx_at s)(t := MxWait),
             awake := (awake s)(t := False)\<rparr>
      else s\<lparr>locker := True, mx_at := (mx_at s)(t := MxIn)\<rparr>)"

text \<open>What a waiting task does when the scheduler runs it: it yields again or takes the mutex.\<close>

definition mutex_lock_resume :: "addr \<Rightarrow> task_mutex \<Rightarrow> task_mutex" where
  "mutex_lock_resume t s =
     (if locker s \<or> waiters s \<noteq> Some t then s\<lparr>awake := (awake s)(t := False)\<rparr>
      else s\<lparr>waiters := wnext s t, locker := True, mx_at := (mx_at s)(t := MxIn)\<rparr>)"

definition hev_task_mutex_trylock :: "addr \<Rightarrow> task_mutex \<Rightarrow> int \<times> task_mutex" where
  "hev_task_mutex_trylock t s =
     (if locker s then (-1, s) else (0, s\<lparr>locker := True, mx_at := (mx_at s)(t := MxIn)\<rparr>))"

definition hev_task_mutex_unlock :: "addr \<Rightarrow> task_mutex \<Rightarrow> task_mutex" where
  "hev_task_mutex_unlock t s =
     (let s = s\<lparr>locker := False, mx_at := (mx_at s)(t := MxOut)\<rparr>
      in case waiters s of None \<Rightarrow> s | Some n \<Rightarrow> mx_task_wakeup n s)"

text \<open>
  Any task may wake any other one, as the timer, the reactor and the terminator of a session do. A
  task locks only while it is outside and unlocks only what it has locked.
\<close>

inductive mutex_step :: "task_mutex \<Rightarrow> task_mutex \<Rightarrow> bool" where
  lock: "mx_at s t = MxOut \<Longrightarrow> mutex_step s (hev_task_mutex_lock t s)"
| resume: "mx_at s t = MxWait \<Longrightarrow> awake s t \<Longrightarrow> mutex_step s (mutex_lock_resume t s)"
| trylock: "mx_at s t = MxOut \<Longrightarrow> mutex_step s (snd (hev_task_mutex_trylock t s))"
| unlock: "mx_at s t = MxIn \<Longrightarrow> mutex_step s (hev_task_mutex_unlock t s)"
| wakeup: "mutex_step s (mx_task_wakeup t s)"

inductive_cases mutex_stepE [consumes 1, case_names lock resume trylock unlock wakeup]: "mutex_step s s'"

definition mutex_start :: task_mutex where
  "mutex_start = hev_task_mutex_init
     \<lparr>locker = True, waiters = None, wnext = (\<lambda>_. None), mx_at = (\<lambda>_. MxOut), awake = (\<lambda>_. True)\<rparr>"

abbreviation mutex_reach :: "task_mutex \<Rightarrow> bool" where
  "mutex_reach s \<equiv> rtranclp mutex_step mutex_start s"

section \<open>The invariant\<close>

text \<open>The chain of nodes behind \<open>waiters\<close>, the latest first.\<close>

fun wchain :: "(addr \<Rightarrow> ptr) \<Rightarrow> ptr \<Rightarrow> addr list \<Rightarrow> bool" where
  "wchain nx p [] \<longleftrightarrow> p = None"
| "wchain nx p (t # ts) \<longleftrightarrow> p = Some t \<and> wchain nx (nx t) ts"

lemma wchain_upd [simp]: "t \<notin> set ws \<Longrightarrow> wchain (nx(t := x)) p ws = wchain nx p ws"
  by (induction ws arbitrary: p) auto

definition mutex_inv :: "addr list \<Rightarrow> ptr \<Rightarrow> task_mutex \<Rightarrow> bool" where
  "mutex_inv ws own s \<longleftrightarrow>
     wchain (wnext s) (waiters s) ws \<and> distinct ws \<and> (\<forall>t. t \<in> set ws \<longleftrightarrow> mx_at s t = MxWait) \<and>
     (locker s \<longleftrightarrow> own \<noteq> None) \<and> (\<forall>t. own = Some t \<longleftrightarrow> mx_at s t = MxIn) \<and>
     (\<not> locker s \<longrightarrow> ws \<noteq> [] \<longrightarrow> awake s (hd ws))"

lemma mutex_inv_start: "mutex_inv [] None mutex_start"
  by (simp add: mutex_inv_def mutex_start_def hev_task_mutex_init_def)

lemma inv_lock:
  assumes "mutex_inv ws own s" "mx_at s t = MxOut"
  shows "\<exists>ws own. mutex_inv ws own (hev_task_mutex_lock t s)"
proof (cases "locker s")
  case True
  have "t \<notin> set ws" "own \<noteq> Some t" using assms by (auto simp: mutex_inv_def)
  with assms True have "mutex_inv (t # ws) own (hev_task_mutex_lock t s)"
    by (auto simp: mutex_inv_def hev_task_mutex_lock_def)
  then show ?thesis by blast
next
  case False
  with assms have "mutex_inv ws (Some t) (hev_task_mutex_lock t s)"
    by (auto simp: mutex_inv_def hev_task_mutex_lock_def)
  then show ?thesis by blast
qed

lemma inv_trylock:
  assumes "mutex_inv ws own s" "mx_at s t = MxOut"
  shows "\<exists>ws own. mutex_inv ws own (snd (hev_task_mutex_trylock t s))"
  using assms inv_lock [OF assms] by (cases "locker s") (auto simp: hev_task_mutex_trylock_def hev_task_mutex_lock_def)

lemma inv_wakeup: "mutex_inv ws own s \<Longrightarrow> mutex_inv ws own (mx_task_wakeup t s)"
  by (auto simp: mutex_inv_def mx_task_wakeup_def)

lemma inv_waiters: "mutex_inv ws own s \<Longrightarrow> waiters s = (case ws of [] \<Rightarrow> None | t # _ \<Rightarrow> Some t)"
  by (cases ws) (auto simp: mutex_inv_def)

lemma inv_resume:
  assumes "mutex_inv ws own s" "mx_at s t = MxWait"
  shows "\<exists>ws own. mutex_inv ws own (mutex_lock_resume t s)"
proof (cases "locker s \<or> waiters s \<noteq> Some t")
  case True
  with assms inv_waiters [OF assms(1)] have "mutex_inv ws own (mutex_lock_resume t s)"
    by (auto simp: mutex_inv_def mutex_lock_resume_def split: list.splits)
  then show ?thesis by blast
next
  case False
  then obtain ws' where "ws = t # ws'" using assms by (cases ws) (auto simp: mutex_inv_def)
  with assms False have "mutex_inv ws' (Some t) (mutex_lock_resume t s)"
    by (auto simp: mutex_inv_def mutex_lock_resume_def)
  then show ?thesis by blast
qed

lemma inv_unlock:
  assumes "mutex_inv ws own s" "mx_at s t = MxIn"
  shows "mutex_inv ws None (hev_task_mutex_unlock t s)"
proof -
  have "own = Some t" using assms by (simp add: mutex_inv_def)
  with assms inv_waiters [OF assms(1)] show ?thesis
    by (auto simp: mutex_inv_def hev_task_mutex_unlock_def mx_task_wakeup_def split: list.splits)
qed

lemma inv_step:
  assumes "mutex_step s s'" "mutex_inv ws own s"
  shows "\<exists>ws own. mutex_inv ws own s'"
  using assms(1)
proof (cases rule: mutex_step.cases)
  case (lock t)
  with inv_lock assms(2) show ?thesis by simp
next
  case (resume t)
  with inv_resume assms(2) show ?thesis by simp
next
  case (trylock t)
  with inv_trylock assms(2) show ?thesis by simp
next
  case (unlock t)
  with inv_unlock assms(2) show ?thesis by blast
next
  case (wakeup t)
  with inv_wakeup assms(2) show ?thesis by blast
qed

lemma inv_reach: "mutex_reach s \<Longrightarrow> \<exists>ws own. mutex_inv ws own s"
proof (induction rule: rtranclp_induct)
  case base
  show ?case using mutex_inv_start by blast
next
  case (step s s')
  then show ?case using inv_step by blast
qed

section \<open>Properties\<close>

text \<open>
  C15: The mutex of the tasks excludes and forgets nobody. However the tasks lock, try, unlock and wake
  each other, at most one of them is inside; and when nobody is inside while some task waits, one of
  the waiting tasks is awake and takes the mutex when it is run: no wake-up is lost, although a task
  that comes later may overtake, and the waiting tasks form a stack.
\<close>
theorem task_mutex_safe:
  assumes "mutex_reach s"
  shows "(mx_at s t = MxIn \<and> mx_at s u = MxIn \<longrightarrow> t = u) \<and>
    ((\<forall>v. mx_at s v \<noteq> MxIn) \<and> mx_at s u = MxWait \<longrightarrow>
       (\<exists>v. mx_at s v = MxWait \<and> awake s v \<and> mx_at (mutex_lock_resume v s) v = MxIn))"
proof -
  from inv_reach [OF assms] obtain ws own where i: "mutex_inv ws own s" by blast
  note w = inv_waiters [OF i]
  have "\<exists>v. mx_at s v = MxWait \<and> awake s v \<and> mx_at (mutex_lock_resume v s) v = MxIn"
    if "\<forall>v. mx_at s v \<noteq> MxIn" "mx_at s u = MxWait"
  proof -
    from i that have "\<not> locker s" "ws \<noteq> []" by (auto simp: mutex_inv_def)
    then show ?thesis
      using i w by (intro exI [of _ "hd ws"]) (auto simp: mutex_inv_def mutex_lock_resume_def neq_Nil_conv)
  qed
  moreover have "t = u" if "mx_at s t = MxIn" "mx_at s u = MxIn"
  proof -
    from i that have "own = Some t" "own = Some u" by (simp_all add: mutex_inv_def)
    then show ?thesis by simp
  qed
  ultimately show ?thesis by blast
qed

definition mutex_contended :: task_mutex where
  "mutex_contended = hev_task_mutex_unlock 1 (hev_task_mutex_lock 2 (hev_task_mutex_lock 1 mutex_start))"

lemma mutex_step_into:
  "mutex_reach s \<Longrightarrow> mx_at s t = MxOut \<Longrightarrow> mutex_reach (hev_task_mutex_lock t s)"
  "mutex_reach s \<Longrightarrow> mx_at s t = MxIn \<Longrightarrow> mutex_reach (hev_task_mutex_unlock t s)"
  using mutex_step.lock mutex_step.unlock by (meson rtranclp.rtrancl_into_rtrancl)+

lemma contended_reach: "mutex_reach mutex_contended"
  unfolding mutex_contended_def
  by (intro mutex_step_into rtranclp.rtrancl_refl)
    (simp_all add: hev_task_mutex_lock_def mutex_start_def hev_task_mutex_init_def)

lemma task_mutex_safe_witness:
  "\<exists>v. mx_at mutex_contended v = MxWait \<and> mx_at (mutex_lock_resume v mutex_contended) v = MxIn"
proof -
  have "mx_at mutex_contended v \<noteq> MxIn" "mx_at mutex_contended 2 = MxWait" for v
    by (auto simp: mutex_contended_def hev_task_mutex_lock_def hev_task_mutex_unlock_def mutex_start_def
        hev_task_mutex_init_def mx_task_wakeup_def)
  with task_mutex_safe [OF contended_reach, of 0 2] show ?thesis by auto
qed

text \<open>A task that locks again what it holds: nobody ever enters any more.\<close>

lemma relock_stuck:
  assumes "mutex_reach s" "mx_at s t = MxIn" "rtranclp mutex_step (hev_task_mutex_lock t s) s'"
  shows "locker s' \<and> mx_at s' t = MxWait \<and> (\<forall>u. mx_at s' u \<noteq> MxIn)"
  using assms(3)
proof (induction rule: rtranclp_induct)
  case base
  from inv_reach [OF assms(1)] obtain ws own where i: "mutex_inv ws own s" by blast
  then have "own = Some t" using assms(2) by (simp add: mutex_inv_def)
  with i have "locker s" "u \<noteq> t \<Longrightarrow> mx_at s u \<noteq> MxIn" for u
    unfolding mutex_inv_def by (simp, metis option.inject)
  then show ?case by (simp add: hev_task_mutex_lock_def)
next
  case (step s1 s2)
  from step(2,3) show ?case
    by (elim mutex_stepE)
      (auto simp: hev_task_mutex_lock_def mutex_lock_resume_def hev_task_mutex_trylock_def mx_task_wakeup_def)
qed

end
