(* ===== verification/Tunnel.thy ===== *)
theory Tunnel
  imports TUN_Device Task_Mutex Tunnel_Sync
begin

text \<open>
  The life of the tunnel, \<open>src/hev-socks5-tunnel.c\<close>: what \<open>init\<close> allocates and \<open>fini\<close> gives back.
\<close>

section \<open>The state\<close>

text \<open>
  The static variables of the file, and the single instance of the mapped DNS. \<open>sess\<close> are the objects
  of the sessions: the node in the set and the task. The threads that call \<open>stop\<close> are the subject of
  \<open>Tunnel_Sync\<close>; here \<open>tflags\<close> is \<open>tsync\<close> as the thread of the tunnel meets it.
\<close>

record tunnel =
  run :: bool
  tflags :: "sync set"
  tun_fd :: int
  tun_fd_local :: bool
  tun_dev :: bytes
  event_fds :: "int \<times> int"
  stat_tx_packets :: u64
  stat_rx_packets :: u64
  stat_tx_bytes :: u64
  stat_rx_bytes :: u64
  netif :: ptr
  tcp :: ptr
  udp :: ptr
  mutex :: task_mutex
  task_event :: ptr
  task_lwip_io :: ptr
  task_lwip_timer :: ptr
  dns :: "(addr \<times> HevMappedDNS) option"
  sess_set :: sessions
  sess :: "(addr \<times> addr) list"

text \<open>The static variables when the program starts.\<close>

definition tunnel_statics :: tunnel where
  "tunnel_statics =
     \<lparr>run = False, tflags = {}, tun_fd = -1, tun_fd_local = False, tun_dev = [], event_fds = (-1, -1),
      stat_tx_packets = 0, stat_rx_packets = 0, stat_tx_bytes = 0, stat_rx_bytes = 0,
      netif = None, tcp = None, udp = None, mutex = mutex_start,
      task_event = None, task_lwip_io = None, task_lwip_timer = None, dns = None,
      sess_set = \<lparr>session_set = (empty_list, \<lparr>nxt = (\<lambda>_. None), prv = (\<lambda>_. None)\<rparr>), session_count = 0,
                  session_timeout = (\<lambda>_. 0), session_woken = []\<rparr>, sess = []\<rparr>"

type_synonym ts = "tunnel \<times> host"

text \<open>A new object gets an address that is not in use; the allocation may fail.\<close>

definition fresh_obj :: "addr list \<Rightarrow> addr" where
  "fresh_obj xs = Suc (foldr max xs 0)"

lemma fresh_obj [simp]: "fresh_obj xs \<notin> set xs"
proof -
  have "x \<in> set xs \<Longrightarrow> x \<le> foldr max xs 0" for x by (induction xs) auto
  then show ?thesis by (fastforce simp: fresh_obj_def)
qed

text \<open>\<open>hev_task_new\<close>, \<open>hev_task_ref\<close> and \<open>hev_task_unref\<close>: a task lives as long as it is referred to.\<close>

definition hev_task_new :: "host \<Rightarrow> ptr \<times> host" where
  "hev_task_new h =
     (let (e, h) = sys h; t = fresh_obj (task_refs h)
      in if e \<noteq> None then (None, h) else (Some t, h\<lparr>task_refs := t # task_refs h\<rparr>))"

definition hev_task_ref :: "addr \<Rightarrow> host \<Rightarrow> host" where
  "hev_task_ref t h = h\<lparr>task_refs := t # task_refs h\<rparr>"

definition hev_task_unref :: "addr \<Rightarrow> host \<Rightarrow> host" where
  "hev_task_unref t h = h\<lparr>task_refs := remove1 t (task_refs h)\<rparr>"

definition hev_task_run :: "addr \<Rightarrow> host \<Rightarrow> host" where
  "hev_task_run t h = (if t \<in> set (running h) then h else h\<lparr>running := t # running h\<rparr>)"

section \<open>The device\<close>

definition tunnel_local_init :: "host_env \<Rightarrow> HevConfig \<Rightarrow> ts \<Rightarrow> int \<times> ts" where
  "tunnel_local_init env cfg = (\<lambda>(t, h).
     (let t = t\<lparr>tun_fd_local := True\<rparr>;
          (f, dev, h) = hev_tunnel_open env (hev_config_get_tunnel_name cfg) (multi_queue cfg) (tun_dev t) h;
          t = t\<lparr>tun_fd := f, tun_dev := dev\<rparr>
      in if f < 0 then (-1, t, h)
         else
           let (res, h) = hev_tunnel_set_mtu (sint (tun_mtu cfg)) dev h
           in if res < 0 then (-1, t, h)
              else
                let (res, h) = (case hev_config_get_tunnel_ipv4_address cfg of None \<Rightarrow> (0, h)
                                | Some a \<Rightarrow> hev_tunnel_set_ipv4 env a 32 dev h)
                in if res < 0 then (-1, t, h)
                   else
                     let (res, h) = (case hev_config_get_tunnel_ipv6_address cfg of None \<Rightarrow> (0, h)
                                     | Some a \<Rightarrow> hev_tunnel_set_ipv6 env a 128 dev h)
                     in if res < 0 then (-1, t, h)
                        else
                          let (res, h) = hev_tunnel_set_state True dev h
                          in if res < 0 then (-1, t, h)
                             else
                               (0, t, case hev_config_get_tunnel_post_up_script cfg of None \<Rightarrow> h
                                      | Some p \<Rightarrow> hev_exec_run p dev (hev_tunnel_get_index env dev) False h)))"

definition tunnel_init :: "host_env \<Rightarrow> HevConfig \<Rightarrow> int \<Rightarrow> ts \<Rightarrow> int \<times> ts" where
  "tunnel_init env cfg extern_tun_fd = (\<lambda>(t, h).
     (if extern_tun_fd \<ge> 0 then
        (let (e, h) = sys h
         in if e \<noteq> None then (-1, t, h) else (0, t\<lparr>tun_fd := extern_tun_fd\<rparr>, h))
      else tunnel_local_init env cfg (t, h)))"

definition tunnel_fini :: "host_env \<Rightarrow> HevConfig \<Rightarrow> ts \<Rightarrow> ts" where
  "tunnel_fini env cfg = (\<lambda>(t, h).
     (if \<not> tun_fd_local t then (t, h)
      else
        let h = (case hev_config_get_tunnel_pre_down_script cfg of None \<Rightarrow> h
                 | Some p \<Rightarrow> hev_exec_run p (tun_dev t) (hev_tunnel_get_index env (tun_dev t)) True h)
        in if tun_fd t \<ge> 0 then (t\<lparr>tun_fd_local := False, tun_fd := -1\<rparr>, hev_tunnel_close (tun_fd t) h)
           else (t, h)))"

section \<open>The gateway\<close>

text \<open>
  The interface of the stack and the two control blocks that take every connection and every flow. Of
  the stack's functions: \<open>tcp_listen\<close> replaces a control block by a smaller one and leaves it alone
  when there is no memory; \<open>netif_add_noaddr\<close> fails only when the handler it calls does, and
  \<open>netif_init_handler\<close> does not.
\<close>

definition tcp_new :: "host \<Rightarrow> ptr \<times> host" where
  "tcp_new h =
     (let (e, h) = sys h; p = fresh_obj (tcp_pcbs h)
      in if e \<noteq> None then (None, h) else (Some p, h\<lparr>tcp_pcbs := p # tcp_pcbs h\<rparr>))"

definition tcp_listen :: "addr \<Rightarrow> host \<Rightarrow> ptr \<times> host" where
  "tcp_listen pcb h =
     (let (e, h) = sys h; lpcb = fresh_obj (tcp_pcbs h)
      in if e \<noteq> None then (None, h) else (Some lpcb, h\<lparr>tcp_pcbs := lpcb # remove1 pcb (tcp_pcbs h)\<rparr>))"

definition udp_new :: "host \<Rightarrow> udp_block option \<times> host" where
  "udp_new h =
     (let (e, h) = sys h
      in if e \<noteq> None then (None, h)
         else (Some \<lparr>up_id = fresh_obj (map up_id (udp_pcbs h)), remote_ip = \<lparr>ip_bytes = replicate 16 0, ip_type = IPADDR_TYPE_ANY\<rparr>,
                 remote_port = 0, connected = False, pretend_netif_idx = 0, up_recv = RecvNone\<rparr>, h))"

definition udp_remove :: "addr \<Rightarrow> host \<Rightarrow> host" where
  "udp_remove p h = h\<lparr>udp_pcbs := filter (\<lambda>b. up_id b \<noteq> p) (udp_pcbs h)\<rparr>"

text \<open>Numbers of interfaces start at one; \<open>udp_bind\<close> makes the block the one for all flows of its interface.\<close>

definition gateway_init :: "ts \<Rightarrow> int \<times> ts" where
  "gateway_init = (\<lambda>(t, h).
     (let n = fresh_obj (netifs h); t = t\<lparr>netif := Some n\<rparr>; h = h\<lparr>netifs := n # netifs h\<rparr>;
          (p, h) = tcp_new h; t = t\<lparr>tcp := p\<rparr>
      in case p of None \<Rightarrow> (-1, t, h)
         | Some p \<Rightarrow>
             (let (l, h) = tcp_listen p h; t = t\<lparr>tcp := l\<rparr>;
                  (u, h) = udp_new h
              in case u of None \<Rightarrow> (-1, t\<lparr>udp := None\<rparr>, h)
                 | Some u \<Rightarrow>
                     (0, t\<lparr>udp := Some (up_id u)\<rparr>,
                      h\<lparr>udp_pcbs := u\<lparr>pretend_netif_idx := n, up_recv := RecvTunnel\<rparr> # udp_pcbs h\<rparr>))))"

definition gateway_fini :: "ts \<Rightarrow> ts" where
  "gateway_fini = (\<lambda>(t, h).
     (let h = (case udp t of None \<Rightarrow> h | Some u \<Rightarrow> udp_remove u h); t = t\<lparr>udp := None\<rparr>;
          h = (case tcp t of None \<Rightarrow> h | Some p \<Rightarrow> h\<lparr>tcp_pcbs := remove1 p (tcp_pcbs h)\<rparr>); t = t\<lparr>tcp := None\<rparr>;
          h = (case netif t of None \<Rightarrow> h | Some n \<Rightarrow> h\<lparr>netifs := remove1 n (netifs h)\<rparr>)
      in (t\<lparr>netif := None\<rparr>, h)))"

section \<open>The tasks\<close>

definition event_task_init :: "ts \<Rightarrow> int \<times> ts" where
  "event_task_init = (\<lambda>(t, h).
     (let (e, h) = sys h; a = lowest_fd (fds h); b = lowest_fd (a # fds h)
      in if e \<noteq> None then (-1, t, h)
         else
           let t = t\<lparr>event_fds := (a, b)\<rparr>; h = h\<lparr>fds := b # a # fds h\<rparr>; (e, h) = sys h
           in if e \<noteq> None then (-1, t, h)
              else let (p, h) = hev_task_new h
                   in (if p = None then -1 else 0, t\<lparr>task_event := p\<rparr>, h)))"

definition unref_opt :: "ptr \<Rightarrow> host \<Rightarrow> host" where
  "unref_opt p h = (case p of None \<Rightarrow> h | Some t \<Rightarrow> hev_task_unref t h)"

definition close_opt :: "int \<Rightarrow> host \<Rightarrow> host" where
  "close_opt f h = (if f \<ge> 0 then fd_close f h else h)"

definition event_task_fini :: "ts \<Rightarrow> ts" where
  "event_task_fini = (\<lambda>(t, h).
     (t\<lparr>task_event := None, event_fds := (-1, -1)\<rparr>,
      close_opt (snd (event_fds t)) (close_opt (fst (event_fds t)) (unref_opt (task_event t) h))))"

definition lwip_io_task_init :: "ts \<Rightarrow> int \<times> ts" where
  "lwip_io_task_init = (\<lambda>(t, h).
     (let (p, h) = hev_task_new h in (if p = None then -1 else 0, t\<lparr>task_lwip_io := p\<rparr>, h)))"

definition lwip_io_task_fini :: "ts \<Rightarrow> ts" where
  "lwip_io_task_fini = (\<lambda>(t, h). (t\<lparr>task_lwip_io := None\<rparr>, unref_opt (task_lwip_io t) h))"

definition lwip_timer_task_init :: "ts \<Rightarrow> int \<times> ts" where
  "lwip_timer_task_init = (\<lambda>(t, h).
     (let (p, h) = hev_task_new h in (if p = None then -1 else 0, t\<lparr>task_lwip_timer := p\<rparr>, h)))"

definition lwip_timer_task_fini :: "ts \<Rightarrow> ts" where
  "lwip_timer_task_fini = (\<lambda>(t, h). (t\<lparr>task_lwip_timer := None\<rparr>, unref_opt (task_lwip_timer t) h))"

section \<open>The mapped DNS\<close>

text \<open>The instance takes the blocks of the heap with it; without one they stay in \<open>heap\<close>.\<close>

definition mapped_dns_init :: "allocator \<Rightarrow> HevConfig \<Rightarrow> ts \<Rightarrow> int \<times> ts" where
  "mapped_dns_init malloc cfg = (\<lambda>(t, h).
     (if mapdns_cache_size cfg = 0 then (0, t, h)
      else case hev_mapped_dns_new malloc (mapdns_network cfg) (mapdns_netmask cfg) (mapdns_cache_size cfg) (heap h) of
             None \<Rightarrow> (-1, t, h)
           | Some d \<Rightarrow> (0, t\<lparr>dns := Some d\<rparr>, h)))"

definition mapped_dns_fini :: "ts \<Rightarrow> ts option" where
  "mapped_dns_fini = (\<lambda>(t, h).
     (case dns t of None \<Rightarrow> Some (t, h)
      | Some (a, d) \<Rightarrow>
          (case hev_mapped_dns_destruct a d of None \<Rightarrow> None
           | Some bs \<Rightarrow> Some (t\<lparr>dns := None\<rparr>, h\<lparr>heap := bs\<rparr>))))"

section \<open>The tunnel\<close>

text \<open>
  \<open>fini\<close> behind its retry loop. The result is \<open>None\<close> when the memory of the mapped DNS is accessed out
  of bounds.
\<close>

definition hev_socks5_tunnel_fini :: "host_env \<Rightarrow> HevConfig \<Rightarrow> ts \<Rightarrow> ts option" where
  "hev_socks5_tunnel_fini env cfg = (\<lambda>(t, h).
     (case mapped_dns_fini (t\<lparr>tflags := snd (atomic_fetch_clear (tflags t) {SYNC_SEND, SYNC_SENT})\<rparr>, h) of
        None \<Rightarrow> None
      | Some s \<Rightarrow>
          (let (t, h) = tunnel_fini env cfg (gateway_fini (event_task_fini (lwip_io_task_fini (lwip_timer_task_fini s))))
           in Some (t\<lparr>stat_tx_packets := 0, stat_rx_packets := 0, stat_tx_bytes := 0, stat_rx_bytes := 0\<rparr>, h))))"

definition init_then :: "(ts \<Rightarrow> int \<times> ts) \<Rightarrow> (ts \<Rightarrow> int \<times> ts) \<Rightarrow> ts \<Rightarrow> int \<times> ts" where
  "init_then f g s = (let (res, s) = f s in if res < 0 then (res, s) else g s)"

definition tunnel_inits :: "allocator \<Rightarrow> host_env \<Rightarrow> HevConfig \<Rightarrow> int \<Rightarrow> ts \<Rightarrow> int \<times> ts" where
  "tunnel_inits malloc env cfg fd0 =
     init_then (tunnel_init env cfg fd0)
       (init_then gateway_init
         (init_then event_task_init
           (init_then lwip_io_task_init
             (init_then lwip_timer_task_init (mapped_dns_init malloc cfg)))))"

definition hev_socks5_tunnel_init :: "allocator \<Rightarrow> host_env \<Rightarrow> HevConfig \<Rightarrow> int \<Rightarrow> ts \<Rightarrow> (int \<times> ts) option" where
  "hev_socks5_tunnel_init malloc env cfg fd0 s =
     (let (res, t, h) = tunnel_inits malloc env cfg fd0 s
      in if res < 0 then map_option (\<lambda>s. (-1, s)) (hev_socks5_tunnel_fini env cfg (t, h))
         else Some (0, t\<lparr>mutex := hev_task_mutex_init (mutex t),
                         tflags := snd (atomic_fetch_or (tflags t) {SYNC_SEND})\<rparr>, h))"

text \<open>\<open>run\<close> up to the scheduler.\<close>

definition start_task :: "ptr \<Rightarrow> host \<Rightarrow> host" where
  "start_task p h = (case p of None \<Rightarrow> h | Some t \<Rightarrow> hev_task_run t (hev_task_ref t h))"

definition hev_socks5_tunnel_run :: "ts \<Rightarrow> bool \<times> ts" where
  "hev_socks5_tunnel_run = (\<lambda>(t, h).
     (let (res, f) = atomic_fetch_clear (tflags t) {SYNC_STOP}; t = t\<lparr>tflags := f\<rparr>
      in if SYNC_STOP \<in> res then (False, t, h)
         else (True, t\<lparr>run := True\<rparr>,
               start_task (task_lwip_timer t) (start_task (task_lwip_io t) (start_task (task_event t) h)))))"

definition hev_socks5_tunnel_stats :: "tunnel \<Rightarrow> u64 \<times> u64 \<times> u64 \<times> u64" where
  "hev_socks5_tunnel_stats t = (stat_tx_packets t, stat_tx_bytes t, stat_rx_packets t, stat_rx_bytes t)"

end
