(* ===== verification/Tunnel_Input.thy ===== *)
theory Tunnel_Input
  imports Tunnel Session_TCP Session_UDP
begin

text \<open>
  What the task \<open>lwip_io\<close> does with a packet, \<open>src/hev-socks5-tunnel.c\<close>: the handlers of the stack that
  make a session of a new connection or flow, and the demultiplexing of UDP flows by the stack
  (\<open>udp_input\<close> of \<open>third-part/lwip/src/core/udp.c\<close>), which calls them. All of it runs in that task, which
  holds the mutex of the stack meanwhile.
\<close>

section \<open>Outcomes\<close>

text \<open>
  A handler returns, or it waits for a mutex, or the program is aborted (an access out of bounds, or
  a call of \<open>abort\<close>).
\<close>

datatype 'a outcome = Returns 'a | Waits | Aborts

datatype err_t = ERR_OK | ERR_MEM | ERR_RST | ERR_ABRT | ERR_WOULDBLOCK | ERR_IF

section \<open>New sessions\<close>

text \<open>\<open>hev_task_wakeup\<close> of a task that is not running any more aborts the program.\<close>

definition start_session :: "HevConfig \<Rightarrow> addr \<Rightarrow> int \<Rightarrow> addr \<Rightarrow> ts \<Rightarrow> 'a \<Rightarrow> 'a outcome \<times> ts" where
  "start_session cfg node tmo task = (\<lambda>(t, h) res.
     (let p = (sess_set t)\<lparr>session_timeout := (session_timeout (sess_set t))(node := tmo)\<rparr>;
          t = t\<lparr>sess_set := hev_socks5_tunnel_insert_session (max_session_count cfg) node p, sess := (node, task) # sess t\<rparr>;
          h = hev_task_run task h
      in (case task_lwip_timer t of None \<Rightarrow> Aborts
          | Some tm \<Rightarrow> if tm \<in> set (running h) then Returns res else Aborts, t, h)))"

text \<open>
  \<open>self\<close> is the task that runs. A session that is destroyed takes the mutex; when that has to wait,
  nothing behind it happens.
\<close>

definition with_mutex :: "addr \<Rightarrow> (ts \<Rightarrow> ts) \<Rightarrow> ts \<Rightarrow> 'a \<Rightarrow> 'a outcome \<times> ts" where
  "with_mutex self f = (\<lambda>(t, h) res.
     (let t = t\<lparr>mutex := hev_task_mutex_lock self (mutex t)\<rparr>
      in if mx_at (mutex t) self \<noteq> MxIn then (Waits, t, h)
         else let (t, h) = f (t, h)
              in (Returns res, t\<lparr>mutex := hev_task_mutex_unlock self (mutex t)\<rparr>, h)))"

definition new_node :: "tunnel \<Rightarrow> addr" where
  "new_node t = fresh_obj (map fst (sess t))"

text \<open>
  A connection the stack has accepted, with the address it was made to. \<open>addr0\<close> is what the uninitialised
  local variable of the constructor holds.
\<close>

definition tcp_accept_handler :: "HevConfig \<Rightarrow> HevSocks5Addr \<Rightarrow> addr \<Rightarrow> ip_addr \<Rightarrow> u16 \<Rightarrow> err_t \<Rightarrow> ts \<Rightarrow> err_t outcome \<times> ts" where
  "tcp_accept_handler cfg addr0 self local_ip local_port err = (\<lambda>(t, h).
     (if err \<noteq> ERR_OK then (Returns err, t, h)
      else if \<not> run t then (Returns ERR_RST, t, h)
      else
        (case hev_socks5_session_tcp_new addr0 (new_node t) local_ip local_port (map_option snd (dns t)) (objs h) of
           None \<Rightarrow> (Aborts, t, h)
         | Some (s, d, w) \<Rightarrow>
             (let t = t\<lparr>dns := (case dns t of None \<Rightarrow> None | Some (a, d0) \<Rightarrow> Some (a, case d of None \<Rightarrow> d0 | Some d \<Rightarrow> d))\<rparr>;
                  h = h\<lparr>objs := w\<rparr>
              in case s of
                   None \<Rightarrow> (Returns ERR_MEM, t, h)
                 | Some s \<Rightarrow>
                     (let (task, h) = hev_task_new h
                      in case task of
                           None \<Rightarrow> with_mutex self (\<lambda>(t, h). (t, h\<lparr>objs := hev_socks5_client_tcp_destruct s (objs h)\<rparr>)) (t, h) ERR_MEM
                         | Some k \<Rightarrow> start_session cfg (new_node t) (timeout s) k (t, h) ERR_OK)))))"

section \<open>UDP flows\<close>

record udp_dgram =
  src_ip :: ip_addr
  src_port :: u16
  dst_ip :: ip_addr
  dst_port :: u16
  payload :: "bytes list"

definition set_recv :: "addr \<Rightarrow> udp_recv_fn \<Rightarrow> host \<Rightarrow> host" where
  "set_recv p f h = h\<lparr>udp_pcbs := map (\<lambda>b. if up_id b = p then b\<lparr>up_recv := f\<rparr> else b) (udp_pcbs h)\<rparr>"

text \<open>The handler for new flows: \<open>p\<close> is the new control block, \<open>ip\<close> and \<open>port\<close> the destination.\<close>

definition for_dns :: "HevConfig \<Rightarrow> tunnel \<Rightarrow> ip_addr \<Rightarrow> u16 \<Rightarrow> bool" where
  "for_dns cfg t ip port \<longleftrightarrow>
     dns t \<noteq> None \<and> ip_type ip = IPADDR_TYPE_V4 \<and> mapdns_port cfg = uint port \<and> mapdns_address cfg = ld32 (ip_bytes ip)"

definition tunnel_udp_recv_handler :: "HevConfig \<Rightarrow> addr \<Rightarrow> addr \<Rightarrow> ip_addr \<Rightarrow> u16 \<Rightarrow> ts \<Rightarrow> unit outcome \<times> ts" where
  "tunnel_udp_recv_handler cfg self p ip port = (\<lambda>(t, h).
     (if \<not> run t then (Returns (), t, udp_remove p h)
      else if for_dns cfg t ip port then (Returns (), t, set_recv p RecvDns h)
      else
        (let (s, w) = hev_socks5_session_udp_new (srv cfg) (new_node t) (objs h); h = h\<lparr>objs := w\<rparr>
         in case s of
              None \<Rightarrow> (Returns (), t, udp_remove p h)
            | Some s \<Rightarrow>
                (let h = set_recv p (RecvSession (new_node t)) h; (task, h) = hev_task_new h
                 in case task of
                      None \<Rightarrow> with_mutex self (\<lambda>(t, h). (t, udp_remove p (h\<lparr>objs := hev_socks5_client_udp_destruct s (objs h)\<rparr>))) (t, h) ()
                    | Some k \<Rightarrow> start_session cfg (new_node t) (timeout s) k (t, h) ()))))"

text \<open>A request to the mapped DNS; \<open>mem\<close> is what a new packet buffer holds.\<close>

definition dns_recv_handler :: "allocator \<Rightarrow> bytes \<Rightarrow> udp_block \<Rightarrow> udp_dgram \<Rightarrow> ts \<Rightarrow> unit outcome \<times> ts" where
  "dns_recv_handler malloc mem b d = (\<lambda>(t, h).
     (let (e, h) = sys h
      in if e \<noteq> None then (Returns (), t, udp_remove (up_id b) h)
         else
           case (dns t, payload d) of
             (Some (a, self), req # _) \<Rightarrow>
               (case hev_mapped_dns_handle malloc req mem self of
                  None \<Rightarrow> (Aborts, t, h)
                | Some (res, _, buf, self) \<Rightarrow>
                    (Returns (), t\<lparr>dns := Some (a, self)\<rparr>,
                     udp_remove (up_id b)
                       (if res < 0 then h
                        else h\<lparr>answers := answers h @ [(take (nat res) buf, dst_ip d, dst_port d, remote_ip b, remote_port b)]\<rparr>)))
           | _ \<Rightarrow> (Aborts, t, h)))"

section \<open>The demultiplexing\<close>

definition ip_addr_cmp :: "ip_addr \<Rightarrow> ip_addr \<Rightarrow> bool" where
  "ip_addr_cmp a b \<longleftrightarrow> ip_type a = ip_type b \<and>
     (if ip_type a = IPADDR_TYPE_V4 then take 4 (ip_bytes a) = take 4 (ip_bytes b) else ip_bytes a = ip_bytes b)"

text \<open>All control blocks are of the kind that stands for every host of an interface.\<close>

definition flow_block :: "udp_dgram \<Rightarrow> udp_block \<Rightarrow> bool" where
  "flow_block d b \<longleftrightarrow> pretend_netif_idx b \<noteq> 0 \<and> remote_port b = src_port d \<and> ip_addr_cmp (remote_ip b) (src_ip d)"

definition listening :: "ptr \<Rightarrow> udp_block \<Rightarrow> bool" where
  "listening inp b \<longleftrightarrow> pretend_netif_idx b \<noteq> 0 \<and> inp = Some (pretend_netif_idx b) \<and> \<not> connected b \<and> up_recv b \<noteq> RecvNone"

definition own_address :: "ip_addr \<Rightarrow> bool" where
  "own_address ip \<longleftrightarrow>
     (if ip_type ip = IPADDR_TYPE_V4 then take 4 (ip_bytes ip) = [127, 0, 0, 1]
      else ip_bytes ip = replicate 15 0 @ [1])"

definition udp_flow_deliver :: "allocator \<Rightarrow> bytes \<Rightarrow> HevConfig \<Rightarrow> addr \<Rightarrow> udp_block \<Rightarrow> udp_dgram \<Rightarrow> ts \<Rightarrow> unit outcome \<times> ts" where
  "udp_flow_deliver malloc mem cfg self b d = (\<lambda>(t, h).
     (case up_recv b of
        RecvNone \<Rightarrow> (Returns (), t, h)
      | RecvTunnel \<Rightarrow> tunnel_udp_recv_handler cfg self (up_id b) (src_ip d) (src_port d) (t, h)
      | RecvDns \<Rightarrow> dns_recv_handler malloc mem b d (t, h)
      | RecvSession n \<Rightarrow> (Returns (), t, h\<lparr>flow_in := flow_in h @ [(n, payload d, dst_ip d, dst_port d)]\<rparr>)))"

text \<open>A control block for a new flow, at the head of the list.\<close>

definition udp_new_flow :: "udp_block \<Rightarrow> udp_dgram \<Rightarrow> host \<Rightarrow> udp_block option \<times> host" where
  "udp_new_flow l d h =
     (let (n, h) = udp_new h
      in case n of None \<Rightarrow> (None, h)
         | Some n \<Rightarrow>
             (let n = n\<lparr>remote_ip := src_ip d, remote_port := src_port d, connected := True,
                        pretend_netif_idx := pretend_netif_idx l\<rparr>
              in (Some n, h\<lparr>udp_pcbs := n # udp_pcbs h\<rparr>)))"

text \<open>\<open>None\<close>: the loop between \<open>again\<close> and \<open>goto again\<close> does not end.\<close>

partial_function (option) udp_input :: "allocator \<Rightarrow> bytes \<Rightarrow> HevConfig \<Rightarrow> addr \<Rightarrow> udp_dgram \<Rightarrow> ts \<Rightarrow> (unit outcome \<times> ts) option" where
  "udp_input malloc mem cfg self d s =
     (case find (flow_block d) (udp_pcbs (snd s)) of
        Some b \<Rightarrow> Some (udp_flow_deliver malloc mem cfg self b d s)
      | None \<Rightarrow>
          if own_address (dst_ip d) then Some (Returns (), s)
          else
            (case find (listening (netif (fst s))) (udp_pcbs (snd s)) of
               None \<Rightarrow> Some (Returns (), s)
             | Some l \<Rightarrow>
                 (let (n, h) = udp_new_flow l d (snd s)
                  in case n of
                       None \<Rightarrow> Some (Returns (), fst s, h)
                     | Some n \<Rightarrow>
                         (let (res, s) = tunnel_udp_recv_handler cfg self (up_id n) (dst_ip d) (dst_port d) (fst s, h)
                          in if res = Returns () then udp_input malloc mem cfg self d s else Some (res, s)))))"

end
