(* ===== verification/Tunnel_Flows.thy ===== *)
theory Tunnel_Flows
  imports Tunnel_Input
begin

text \<open>
  UDP flows: how the stack and the handlers of the tunnel find the session of a datagram, and what
  happens when there is no memory for its task.
\<close>

lemma sys_none: "sysq h = [] \<Longrightarrow> sys h = (None, h)"
  by (simp add: sys_def)

lemma udp_remove_new [simp]:
  "up_id b \<notin> set (map up_id bs) \<Longrightarrow> udp_remove (up_id b) (h\<lparr>udp_pcbs := b # bs\<rparr>) = h\<lparr>udp_pcbs := bs\<rparr>"
proof -
  assume "up_id b \<notin> set (map up_id bs)"
  then have "filter (\<lambda>x. up_id x \<noteq> up_id b) bs = bs" by (intro filter_True) (auto simp: image_iff)
  then show ?thesis by (simp add: udp_remove_def)
qed

text \<open>The control block of a new flow.\<close>

definition flow_pcb :: "udp_block \<Rightarrow> udp_dgram \<Rightarrow> host \<Rightarrow> udp_block" where
  "flow_pcb l d h = \<lparr>up_id = fresh_obj (map up_id (udp_pcbs h)), remote_ip = src_ip d, remote_port = src_port d,
     connected = True, pretend_netif_idx = pretend_netif_idx l, up_recv = RecvNone\<rparr>"

lemma udp_new_flow_some:
  "sysq h = [] \<Longrightarrow> udp_new_flow l d h = (Some (flow_pcb l d h), h\<lparr>udp_pcbs := flow_pcb l d h # udp_pcbs h\<rparr>)"
  by (simp add: udp_new_flow_def udp_new_def sys_none flow_pcb_def Let_def)

lemma flow_pcb_fresh: "up_id (flow_pcb l d h) \<notin> set (map up_id (udp_pcbs h))"
  unfolding flow_pcb_def by (simp del: set_map)

lemma listening_idx: "find (listening inp) bs = Some l \<Longrightarrow> pretend_netif_idx l \<noteq> 0"
  by (auto simp: find_Some_iff listening_def)

lemma set_recv_new [simp]:
  assumes "up_id b \<notin> set (map up_id bs)"
  shows "set_recv (up_id b) f (h\<lparr>udp_pcbs := b # bs\<rparr>) = h\<lparr>udp_pcbs := b\<lparr>up_recv := f\<rparr> # bs\<rparr>"
proof -
  have "map (\<lambda>x. if up_id x = up_id b then x\<lparr>up_recv := f\<rparr> else x) bs = bs"
    using assms by (intro map_idI) (auto simp: image_iff)
  then show ?thesis by (simp add: set_recv_def)
qed

lemma ip_addr_cmp_refl [simp]: "ip_addr_cmp a a"
  by (simp add: ip_addr_cmp_def)

lemma flow_block_pcb:
  "pretend_netif_idx l \<noteq> 0 \<Longrightarrow> src_ip d' = src_ip d \<Longrightarrow> src_port d' = src_port d \<Longrightarrow>
   flow_block d' ((flow_pcb l d h)\<lparr>up_recv := f\<rparr>)"
  by (simp add: flow_block_def flow_pcb_def)

section \<open>Datagrams and their flows\<close>

text \<open>What the handler for new flows does when the tunnel runs and there is memory.\<close>

definition session_started :: "HevConfig \<Rightarrow> addr \<Rightarrow> ts \<Rightarrow> ts \<Rightarrow> bool" where
  "session_started cfg n = (\<lambda>(t, h) (t', h').
     (\<exists>k. sess t' = (n, k) # sess t \<and> k \<notin> set (task_refs h) \<and> k \<in> set (running h')) \<and> n \<notin> fst ` set (sess t) \<and>
     (\<forall>ns. sessions_ok (sess_set t) ns \<longrightarrow> n \<notin> set ns \<longrightarrow> sessions_ok (sess_set t') (ns @ [n])) \<and>
     dns t' = dns t \<and> netif t' = netif t \<and> run t')"

lemma new_node_fresh: "new_node t \<notin> fst ` set (sess t)"
  using fresh_obj [of "map fst (sess t)"] by (simp add: new_node_def del: fresh_obj)

lemma start_session_ok:
  assumes "task_lwip_timer t = Some tm" "tm \<in> set (running h)" "run t" "k \<notin> set (task_refs h0)"
    "start_session cfg (new_node t) tmo k (t, h) () = (r, t', h')"
  shows "r = Returns ()" "session_started cfg (new_node t) (t, h0) (t', h')" "udp_pcbs h' = udp_pcbs h" "flow_in h' = flow_in h"
proof -
  have "sessions_ok ((sess_set t)\<lparr>session_timeout := f\<rparr>) ns = sessions_ok (sess_set t) ns" for f ns
    by (simp add: sessions_ok_def)
  then show "r = Returns ()" "session_started cfg (new_node t) (t, h0) (t', h')" "udp_pcbs h' = udp_pcbs h" "flow_in h' = flow_in h"
    using assms new_node_fresh [of t]
    by (auto simp: start_session_def hev_task_run_def session_started_def Let_def insert_session_ok split: if_splits)
qed

lemma new_flow_session:
  assumes "run t" "\<not> for_dns cfg t ip port" "task_lwip_timer t = Some tm" "tm \<in> set (running h)"
    "sysq h = []" "allocs (objs h) = []" "up_id b \<notin> set (map up_id bs)"
  shows "\<exists>t' h'. tunnel_udp_recv_handler cfg self (up_id b) ip port (t, h\<lparr>udp_pcbs := b # bs\<rparr>) = (Returns (), t', h') \<and>
    session_started cfg (new_node t) (t, h) (t', h') \<and> flow_in h' = flow_in h \<and>
    udp_pcbs h' = b\<lparr>up_recv := RecvSession (new_node t)\<rparr> # bs"
proof -
  obtain s where s: "hev_socks5_session_udp_new (srv cfg) (new_node t) (objs h) = (Some s, (objs h)\<lparr>live := live (objs h) + 1\<rparr>)"
    using assms(6) by (simp add: hev_socks5_session_udp_new_def hev_socks5_session_udp_construct_def hev_malloc_def)
  let ?k = "fresh_obj (task_refs h)"
  let ?h = "h\<lparr>objs := (objs h)\<lparr>live := live (objs h) + 1\<rparr>, udp_pcbs := b\<lparr>up_recv := RecvSession (new_node t)\<rparr> # bs,
    task_refs := ?k # task_refs h\<rparr>"
  have c: "h\<lparr>udp_pcbs := b # bs, objs := w\<rparr> = (h\<lparr>objs := w\<rparr>)\<lparr>udp_pcbs := b # bs\<rparr>" for w by simp
  have "tunnel_udp_recv_handler cfg self (up_id b) ip port (t, h\<lparr>udp_pcbs := b # bs\<rparr>) =
      start_session cfg (new_node t) (timeout s) ?k (t, ?h) ()"
    unfolding tunnel_udp_recv_handler_def using assms(1,2,5) s set_recv_new [OF assms(7)]
    by (simp add: Let_def c hev_task_new_def sys_def del: set_map)
  moreover obtain r t' h' where e: "start_session cfg (new_node t) (timeout s) ?k (t, ?h) () = (r, t', h')"
    by (metis prod_cases3)
  ultimately show ?thesis
    using start_session_ok [OF assms(3) _ assms(1) fresh_obj e] assms(4) by (auto simp del: set_map)
qed

lemma deliver_session:
  assumes "find (flow_block d) (udp_pcbs h) = Some b" "up_recv b = RecvSession n"
  shows "udp_input malloc mem cfg self d (t, h) =
    Some (Returns (), t, h\<lparr>flow_in := flow_in h @ [(n, payload d, dst_ip d, dst_port d)]\<rparr>)"
  using assms by (subst udp_input.simps) (simp add: udp_flow_deliver_def)

lemma new_flow_input:
  assumes "find (flow_block d) (udp_pcbs h) = None" "\<not> own_address (dst_ip d)"
    "find (listening (netif t)) (udp_pcbs h) = Some l" "sysq h = []"
    "tunnel_udp_recv_handler cfg self (up_id (flow_pcb l d h)) (dst_ip d) (dst_port d)
       (t, h\<lparr>udp_pcbs := flow_pcb l d h # udp_pcbs h\<rparr>) = (Returns (), s)"
  shows "udp_input malloc mem cfg self d (t, h) = udp_input malloc mem cfg self d s"
  using assms by (subst udp_input.simps) (simp add: udp_new_flow_some)

text \<open>
  C8: A UDP flow is a source address and port. While the tunnel runs and memory lasts, the first datagram of
  a flow starts exactly one session, which is appended to the set of sessions, and is handed to it; so
  is every later datagram with this source, to whatever address it goes, while those of other sources
  find the flows they found before. A datagram of a new flow to
  the address of the mapped DNS starts no session: its request is given to the mapped DNS, whose answer
  goes back to the source, and the stack's list of flows is as before.
\<close>
theorem udp_flows:
  assumes run: "run t" "task_lwip_timer t = Some tm" "tm \<in> set (running h)"
    and new: "find (flow_block d) (udp_pcbs h) = None" "\<not> own_address (dst_ip d)"
    and l: "find (listening (netif t)) (udp_pcbs h) \<noteq> None"
    and mem: "sysq h = []" "allocs (objs h) = []"
  shows "(\<not> for_dns cfg t (dst_ip d) (dst_port d) \<longrightarrow>
      (\<exists>t' h'. udp_input malloc b cfg self d (t, h) = Some (Returns (), t', h') \<and>
        session_started cfg (new_node t) (t, h) (t', h') \<and>
        flow_in h' = flow_in h @ [(new_node t, payload d, dst_ip d, dst_port d)] \<and>
        (\<forall>d2. src_port d2 \<noteq> src_port d \<or> \<not> ip_addr_cmp (src_ip d) (src_ip d2) \<longrightarrow>
           find (flow_block d2) (udp_pcbs h') = find (flow_block d2) (udp_pcbs h)) \<and>
        (\<forall>d2. src_ip d2 = src_ip d \<and> src_port d2 = src_port d \<longrightarrow>
           udp_input malloc b cfg self d2 (t', h') =
             Some (Returns (), t', h'\<lparr>flow_in := flow_in h' @ [(new_node t, payload d2, dst_ip d2, dst_port d2)]\<rparr>)))) \<and>
    (\<forall>a dns0 res req' buf dns1.
       for_dns cfg t (dst_ip d) (dst_port d) \<and> dns t = Some (a, dns0) \<and> payload d \<noteq> [] \<and>
       hev_mapped_dns_handle malloc (hd (payload d)) b dns0 = Some (res, req', buf, dns1) \<longrightarrow>
       udp_input malloc b cfg self d (t, h) =
         Some (Returns (), t\<lparr>dns := Some (a, dns1)\<rparr>,
           (if res < 0 then h
            else h\<lparr>answers := answers h @ [(take (nat res) buf, dst_ip d, dst_port d, src_ip d, src_port d)]\<rparr>)))"
proof -
  obtain l where l: "find (listening (netif t)) (udp_pcbs h) = Some l" using l by auto
  let ?b = "flow_pcb l d h"
  note fresh = flow_pcb_fresh [of l d h] and idx = listening_idx [OF l]
  have 1: "\<exists>t' h'. udp_input malloc b cfg self d (t, h) = Some (Returns (), t', h') \<and>
        session_started cfg (new_node t) (t, h) (t', h') \<and>
        flow_in h' = flow_in h @ [(new_node t, payload d, dst_ip d, dst_port d)] \<and>
        (\<forall>d2. src_port d2 \<noteq> src_port d \<or> \<not> ip_addr_cmp (src_ip d) (src_ip d2) \<longrightarrow>
           find (flow_block d2) (udp_pcbs h') = find (flow_block d2) (udp_pcbs h)) \<and>
        (\<forall>d2. src_ip d2 = src_ip d \<and> src_port d2 = src_port d \<longrightarrow>
           udp_input malloc b cfg self d2 (t', h') =
             Some (Returns (), t', h'\<lparr>flow_in := flow_in h' @ [(new_node t, payload d2, dst_ip d2, dst_port d2)]\<rparr>))"
    if "\<not> for_dns cfg t (dst_ip d) (dst_port d)"
  proof -
    from new_flow_session [OF run(1) that run(2,3) mem fresh] obtain t' h'
      where h: "tunnel_udp_recv_handler cfg self (up_id ?b) (dst_ip d) (dst_port d)
          (t, h\<lparr>udp_pcbs := ?b # udp_pcbs h\<rparr>) = (Returns (), t', h')"
        "session_started cfg (new_node t) (t, h) (t', h')" "flow_in h' = flow_in h"
        "udp_pcbs h' = ?b\<lparr>up_recv := RecvSession (new_node t)\<rparr> # udp_pcbs h" by blast
    have "find (flow_block d2) (udp_pcbs (h'\<lparr>flow_in := f\<rparr>)) = Some (?b\<lparr>up_recv := RecvSession (new_node t)\<rparr>)"
      if "src_ip d2 = src_ip d" "src_port d2 = src_port d" for d2 f
      using flow_block_pcb [OF idx that] h(4) by simp
    note f = this deliver_session [OF this]
    from f(2) [of d] f(1) [of d "flow_in h'"]
    have "udp_input malloc b cfg self d (t', h') =
        Some (Returns (), t', h'\<lparr>flow_in := flow_in h @ [(new_node t, payload d, dst_ip d, dst_port d)]\<rparr>)"
      using deliver_session [of d h' _ "new_node t"] h(3,4) flow_block_pcb [OF idx refl refl] by simp
    moreover have "find (flow_block d2) (udp_pcbs h') = find (flow_block d2) (udp_pcbs h)"
      if "src_port d2 \<noteq> src_port d \<or> \<not> ip_addr_cmp (src_ip d) (src_ip d2)" for d2
      using that h(4) by (auto simp: flow_block_def flow_pcb_def)
    ultimately show ?thesis using new_flow_input [OF new l mem(1) h(1)] f(2) h(2,3)
      by (intro exI [of _ t'] exI [of _ "h'\<lparr>flow_in := flow_in h @ [(new_node t, payload d, dst_ip d, dst_port d)]\<rparr>"])
        (simp add: session_started_def)
  qed
  have 2: "udp_input malloc b cfg self d (t, h) =
      Some (Returns (), t\<lparr>dns := Some (a, dns1)\<rparr>, (if res < 0 then h
        else h\<lparr>answers := answers h @ [(take (nat res) buf, dst_ip d, dst_port d, src_ip d, src_port d)]\<rparr>))"
    if q: "for_dns cfg t (dst_ip d) (dst_port d)" "dns t = Some (a, dns0)" "payload d \<noteq> []"
      "hev_mapped_dns_handle malloc (hd (payload d)) b dns0 = Some (res, req', buf, dns1)" for a dns0 res req' buf dns1
  proof -
    let ?h = "h\<lparr>udp_pcbs := ?b\<lparr>up_recv := RecvDns\<rparr> # udp_pcbs h\<rparr>"
    have "tunnel_udp_recv_handler cfg self (up_id ?b) (dst_ip d) (dst_port d) (t, h\<lparr>udp_pcbs := ?b # udp_pcbs h\<rparr>) =
        (Returns (), t, ?h)"
      using run(1) q(1) set_recv_new [OF fresh] by (simp add: tunnel_udp_recv_handler_def del: set_map)
    note e = new_flow_input [OF new l mem(1) this]
    have "find (flow_block d) (udp_pcbs ?h) = Some (?b\<lparr>up_recv := RecvDns\<rparr>)"
      using flow_block_pcb [OF idx refl refl] by simp
    note f = this
    have c: "?h\<lparr>answers := x\<rparr> = (h\<lparr>answers := x\<rparr>)\<lparr>udp_pcbs := ?b\<lparr>up_recv := RecvDns\<rparr> # udp_pcbs h\<rparr>" for x
      by simp
    have "udp_remove (up_id ?b) (?h\<lparr>answers := x\<rparr>) = h\<lparr>answers := x\<rparr>"
      "udp_remove (up_id ?b) ?h = h" for x unfolding c
      using udp_remove_new [of "?b\<lparr>up_recv := RecvDns\<rparr>" "udp_pcbs h" "h\<lparr>answers := x\<rparr>"]
        udp_remove_new [of "?b\<lparr>up_recv := RecvDns\<rparr>" "udp_pcbs h" h] fresh by (simp_all del: set_map)
    note this f
    with q(2-4) mem(1) show ?thesis unfolding e
      by (subst udp_input.simps)
        (auto simp: udp_flow_deliver_def dns_recv_handler_def sys_def flow_pcb_def neq_Nil_conv del: set_map)
  qed
  from 1 2 show ?thesis by blast
qed

section \<open>No memory for a task\<close>

lemma with_mutex_held:
  assumes "mutex_reach (mutex t)" "mx_at (mutex t) self = MxIn"
  shows "with_mutex self f (t, h) r = (Waits, t\<lparr>mutex := hev_task_mutex_lock self (mutex t)\<rparr>, h)"
  using relock_stuck [OF assms rtranclp.rtrancl_refl] by (simp add: with_mutex_def)

text \<open>
  C40: Running out of memory at the wrong moment stops the tunnel for good. The handlers for new connections
  and new flows are called by the task that holds the mutex of the stack. When the session could be
  created but its task could not, they destroy the session, whose destructor locks the same mutex: the
  task then waits for itself, and in no later state does any task hold the mutex again, so that no
  packet is processed any more and no session ends.
\<close>
theorem tunnel_task_memory:
  assumes m: "mutex_reach (mutex t)" "mx_at (mutex t) self = MxIn" and run: "run t" and nomem: "sysq h = Some e # es"
    and tcp: "hev_socks5_session_tcp_new junk (new_node t) lip lport (map_option snd (dns t)) (objs h) = Some (Some s, d, w)"
    and udp: "allocs (objs h) = []" "\<not> for_dns cfg t ip port"
    and m1: "m1 \<in> {mutex (fst (snd (tcp_accept_handler cfg junk self lip lport ERR_OK (t, h)))),
                   mutex (fst (snd (tunnel_udp_recv_handler cfg self p ip port (t, h))))}"
    and later: "rtranclp mutex_step m1 m2"
  shows "fst (tcp_accept_handler cfg junk self lip lport ERR_OK (t, h)) = Waits \<and>
    fst (tunnel_udp_recv_handler cfg self p ip port (t, h)) = Waits \<and>
    mx_at m2 self = MxWait \<and> (\<forall>u. mx_at m2 u \<noteq> MxIn)"
proof -
  let ?m = "hev_task_mutex_lock self (mutex t)"
  obtain u where u: "hev_socks5_session_udp_new (srv cfg) (new_node t) (objs h) = (Some u, (objs h)\<lparr>live := live (objs h) + 1\<rparr>)"
    using udp(1) by (simp add: hev_socks5_session_udp_new_def hev_socks5_session_udp_construct_def hev_malloc_def)
  have w: "with_mutex self f (t\<lparr>dns := x\<rparr>, h) ERR_MEM = (Waits, t\<lparr>dns := x, mutex := ?m\<rparr>, h)" for f x h
    using with_mutex_held [of "t\<lparr>dns := x\<rparr>"] m by simp
  have 1: "\<exists>t' h'. tcp_accept_handler cfg junk self lip lport ERR_OK (t, h) = (Waits, t'\<lparr>mutex := ?m\<rparr>, h')"
    using run tcp nomem by (auto simp: tcp_accept_handler_def hev_task_new_def sys_def Let_def w)
  have 2: "\<exists>t' h'. tunnel_udp_recv_handler cfg self p ip port (t, h) = (Waits, t'\<lparr>mutex := ?m\<rparr>, h')"
    using run udp(2) u nomem
    by (auto simp: tunnel_udp_recv_handler_def set_recv_def hev_task_new_def sys_def Let_def with_mutex_held [OF m])
  have "rtranclp mutex_step ?m m2" using m1 later 1 2 by auto
  with relock_stuck [OF m] 1 2 show ?thesis by auto
qed

section \<open>Examples\<close>

definition flow_example :: ts where
  "flow_example = (\<lambda>(_, t, h). (t\<lparr>run := True, task_lwip_timer := Some 3\<rparr>, h\<lparr>running := [3], task_refs := [3]\<rparr>))
     (gateway_init (tunnel_statics, idle_host))"

definition ip4_example :: "u8 \<Rightarrow> ip_addr" where
  "ip4_example x = \<lparr>ip_bytes = [10, 0, 0, x] @ replicate 12 0, ip_type = IPADDR_TYPE_V4\<rparr>"

definition dgram_example :: udp_dgram where
  "dgram_example = \<lparr>src_ip = ip4_example 1, src_port = 5000, dst_ip = ip4_example 2, dst_port = 53, payload = [[1, 2, 3]]\<rparr>"

lemmas flow_example_simps = flow_example_def dgram_example_def ip4_example_def gateway_init_def tunnel_statics_def
  idle_host_def tcp_new_def tcp_listen_def udp_new_def sys_def fresh_obj_def flow_block_def listening_def
  own_address_def for_dns_def

lemma udp_flows_witness:
  "\<exists>t' h'. udp_input (\<lambda>_. None) [] hev_config_reset 1 dgram_example flow_example = Some (Returns (), t', h') \<and>
     flow_in h' = [(1, [[1, 2, 3]], ip4_example 2, 53)]"
proof -
  have "new_node (fst flow_example) = 1" "payload dgram_example = [[1, 2, 3]]" "dst_ip dgram_example = ip4_example 2"
    "dst_port dgram_example = 53" "flow_in (snd flow_example) = []" "\<not> for_dns hev_config_reset (fst flow_example) ip port" for ip port
    by (simp_all add: flow_example_simps new_node_def Let_def)
  with udp_flows [of "fst flow_example" 3 "snd flow_example" dgram_example hev_config_reset "\<lambda>_. None" "[]" 1]
  show ?thesis by (simp add: flow_example_simps Let_def quiet_def) metis
qed

lemma tunnel_task_memory_witness:
  "fst (tcp_accept_handler hev_config_reset [] 3 (ip4_example 2) 80 ERR_OK
     (tunnel_statics\<lparr>run := True, mutex := hev_task_mutex_lock 3 mutex_start\<rparr>, idle_host\<lparr>sysq := [Some EOTHER]\<rparr>)) = Waits"
proof -
  let ?t = "tunnel_statics\<lparr>run := True, mutex := hev_task_mutex_lock 3 mutex_start\<rparr>"
  have "mutex_reach (hev_task_mutex_lock 3 mutex_start)" "mx_at (hev_task_mutex_lock 3 mutex_start) 3 = MxIn"
    using mutex_step_into(1) [OF rtranclp.rtrancl_refl, of 3]
    by (simp_all add: hev_task_mutex_lock_def mutex_start_def hev_task_mutex_init_def)
  moreover have "\<exists>s d w. hev_socks5_session_tcp_new [] (new_node ?t) (ip4_example 2) 80 (map_option snd (dns ?t)) (objs idle_host) =
      Some (Some s, d, w)"
    by (simp add: tunnel_statics_def idle_host_def quiet_def ip4_example_def hev_socks5_session_tcp_new_def hev_malloc_def
        hev_socks5_session_tcp_construct_def hev_socks5_addr_from_lwip_def hev_socks5_client_tcp_construct_def
        hev_socks5_addr_from_ipv4_def Let_def)
  ultimately show ?thesis
    using tunnel_task_memory [where t = ?t and self = 3 and h = "idle_host\<lparr>sysq := [Some EOTHER]\<rparr>" and junk = "[]"
        and lip = "ip4_example 2" and lport = 80 and ip = "ip4_example 2" and port = 53 and cfg = hev_config_reset and p = 1
        and e = EOTHER and es = "[]", OF _ _ _ _ _ _ _ insertI1 rtranclp.rtrancl_refl]
    by (auto simp: tunnel_statics_def idle_host_def quiet_def for_dns_def)
qed

end
