(* ===== verification/Tunnel_Run.thy ===== *)
theory Tunnel_Run
  imports Tunnel_Flows
begin

text \<open>
  The tunnel while its tasks run, \<open>src/hev-socks5-tunnel.c\<close>: the steps of the three tasks and of the
  sessions, and what is allocated in every state they can reach.
\<close>

section \<open>Steps\<close>

text \<open>A packet of \<open>n\<close> bytes was read, or \<open>n\<close> bytes were written (\<open>n \<le> 0\<close> with an \<open>errno\<close>: nothing was).\<close>

definition lwip_io_packet :: "nat \<Rightarrow> tunnel \<Rightarrow> tunnel" where
  "lwip_io_packet n t = t\<lparr>stat_tx_packets := stat_tx_packets t + 1, stat_tx_bytes := stat_tx_bytes t + of_nat n\<rparr>"

definition netif_output_handler :: "int \<Rightarrow> errno \<Rightarrow> tunnel \<Rightarrow> err_t \<times> tunnel" where
  "netif_output_handler n errno t =
     (if n \<le> 0 then (if errno = EAGAIN then ERR_WOULDBLOCK else ERR_IF, t)
      else (ERR_OK, t\<lparr>stat_rx_packets := stat_rx_packets t + 1, stat_rx_bytes := stat_rx_bytes t + word_of_int n\<rparr>))"

text \<open>The loop of the event task over the set of sessions.\<close>

partial_function (option) terminate_all :: "ptr \<Rightarrow> sessions \<Rightarrow> sessions option" where
  "terminate_all p s =
     (case p of None \<Rightarrow> Some s
      | Some n \<Rightarrow> terminate_all (hev_list_node_next (snd (session_set s)) n) (terminate_node n s))"

definition event_task_stop :: "tunnel \<Rightarrow> tunnel option" where
  "event_task_stop t =
     (let t = t\<lparr>run := False, tflags := snd (atomic_fetch_clear (tflags t) {SYNC_SENT})\<rparr>
      in map_option (\<lambda>s. t\<lparr>sess_set := s\<rparr>) (terminate_all (hev_list_first (session_set (sess_set t))) (sess_set t)))"

text \<open>A task that ends gives up the reference the scheduler holds.\<close>

definition task_end :: "addr \<Rightarrow> host \<Rightarrow> host" where
  "task_end k h = hev_task_unref k (h\<lparr>running := remove1 k (running h)\<rparr>)"

text \<open>What \<open>hev_socks5_session_task_entry\<close> does behind the run of the session; a UDP session removes its flow.\<close>

definition hev_socks5_session_task_entry :: "addr \<Rightarrow> addr \<Rightarrow> ts \<Rightarrow> ts" where
  "hev_socks5_session_task_entry n k = (\<lambda>(t, h).
     (t\<lparr>sess_set := hev_socks5_tunnel_delete_session n (sess_set t), sess := remove1 (n, k) (sess t)\<rparr>,
      task_end k (h\<lparr>udp_pcbs := filter (\<lambda>b. up_recv b \<noteq> RecvSession n) (udp_pcbs h)\<rparr>)))"

text \<open>
  The steps. The sessions change their own world \<open>objs\<close> in ways that are not described here, move their
  nodes in the set, and translate addresses by the mapped DNS; new sessions are created by the handlers
  inside of \<open>lwip_io\<close>, whose loop ends with \<open>run\<close> and does not wait between the test of \<open>run\<close> and the
  call of the stack. The event task waits for the two other tasks.
\<close>

inductive task_step :: "allocator \<Rightarrow> HevConfig \<Rightarrow> ts \<Rightarrow> ts \<Rightarrow> bool" for malloc cfg where
  packet: "task_lwip_io t = Some io \<Longrightarrow> io \<in> set (running h) \<Longrightarrow> run t \<Longrightarrow>
    task_step malloc cfg (t, h) (lwip_io_packet n t, h)"
| accept: "task_lwip_io t = Some io \<Longrightarrow> io \<in> set (running h) \<Longrightarrow> run t \<Longrightarrow>
    tcp_accept_handler cfg junk io ip port err (t, h) = (Returns r, s) \<Longrightarrow> task_step malloc cfg (t, h) s"
| datagram: "task_lwip_io t = Some io \<Longrightarrow> io \<in> set (running h) \<Longrightarrow> run t \<Longrightarrow> ip_type (src_ip d) \<noteq> IPADDR_TYPE_ANY \<Longrightarrow>
    udp_input malloc mem cfg io d (t, h) = Some (Returns (), s) \<Longrightarrow> task_step malloc cfg (t, h) s"
| sending: "task_step malloc cfg (t, h) (snd (netif_output_handler n e t), h)"
| work: "task_step malloc cfg (t, h) (t, h\<lparr>objs := w\<rparr>)"
| touch: "n \<in> fst ` set (sess t) \<Longrightarrow> task_step malloc cfg (t, h)
    (t\<lparr>sess_set := hev_socks5_tunnel_update_session (max_session_count cfg) n (sess_set t)\<rparr>, h)"
| lookup: "dns t = Some (a, d) \<Longrightarrow> hev_mapped_dns_lookup ip d = Some (name, d') \<Longrightarrow>
    task_step malloc cfg (t, h) (t\<lparr>dns := Some (a, d')\<rparr>, h)"
| session_end: "(n, k) \<in> set (sess t) \<Longrightarrow> task_step malloc cfg (t, h) (hev_socks5_session_task_entry n k (t, h))"
| stop: "task_event t = Some ev \<Longrightarrow> ev \<in> set (running h) \<Longrightarrow> run t \<Longrightarrow> event_task_stop t = Some t' \<Longrightarrow>
    task_step malloc cfg (t, h) (t', h)"
| io_end: "task_lwip_io t = Some io \<Longrightarrow> io \<in> set (running h) \<Longrightarrow> \<not> run t \<Longrightarrow> task_step malloc cfg (t, h) (t, task_end io h)"
| timer_end: "task_lwip_timer t = Some tm \<Longrightarrow> tm \<in> set (running h) \<Longrightarrow> \<not> run t \<Longrightarrow> task_step malloc cfg (t, h) (t, task_end tm h)"
| event_end: "task_event t = Some ev \<Longrightarrow> ev \<in> set (running h) \<Longrightarrow> \<not> run t \<Longrightarrow>
    task_lwip_io t = Some io \<Longrightarrow> io \<notin> set (running h) \<Longrightarrow> task_lwip_timer t = Some tm \<Longrightarrow> tm \<notin> set (running h) \<Longrightarrow>
    task_step malloc cfg (t, h) (t, task_end ev h)"

inductive_cases task_stepE [consumes 1]: "task_step malloc cfg s s'"

section \<open>What is allocated\<close>

text \<open>
  \<open>g\<close> are the three tasks of the tunnel, \<open>refs0\<close> the references and \<open>blocks0\<close> the blocks of the heap that
  were there before. Every task that runs has one reference more.
\<close>

definition tasks_ok :: "addr multiset \<Rightarrow> addr \<times> addr \<times> addr \<Rightarrow> ts \<Rightarrow> bool" where
  "tasks_ok refs0 = (\<lambda>(ev, io, tm) (t, h).
     task_event t = Some ev \<and> task_lwip_io t = Some io \<and> task_lwip_timer t = Some tm \<and>
     distinct (running h) \<and> mset (task_refs h) = refs0 + {#ev, io, tm#} + mset (running h) \<and>
     set (running h) \<subseteq> {ev, io, tm} \<union> snd ` set (sess t) \<and> snd ` set (sess t) \<subseteq> set (running h) - {ev, io, tm} \<and>
     distinct (map fst (sess t)) \<and> distinct (map snd (sess t)) \<and>
     (run t \<longrightarrow> io \<in> set (running h) \<and> tm \<in> set (running h)))"

definition sess_ok :: "tunnel \<Rightarrow> bool" where
  "sess_ok t \<longleftrightarrow> (\<exists>ns. sessions_ok (sess_set t) ns \<and> set ns = fst ` set (sess t))"

definition flows_ok :: "ts \<Rightarrow> bool" where
  "flows_ok = (\<lambda>(t, h). \<exists>fl l. udp_pcbs h = fl @ [l] \<and> udp t = Some (up_id l) \<and> ip_type (remote_ip l) = IPADDR_TYPE_ANY \<and> up_recv l = RecvTunnel \<and>
     distinct (map up_id (udp_pcbs h)) \<and> (\<forall>b \<in> set fl. \<exists>n \<in> fst ` set (sess t). up_recv b = RecvSession n))"

definition tdns_ok :: "addr list \<Rightarrow> ts \<Rightarrow> bool" where
  "tdns_ok blocks0 = (\<lambda>(t, h). case dns t of None \<Rightarrow> heap h = blocks0
     | Some (a, d) \<Rightarrow> 0 \<le> sint (NOT (dns_mask d)) \<and> (\<exists>lru. dns_ok (mset (a # blocks0)) d lru))"

text \<open>The rest does not change.\<close>

definition fixed :: "ts \<Rightarrow> (int \<times> bool \<times> bytes \<times> (int \<times> int) \<times> ptr \<times> ptr \<times> ptr) \<times> int list \<times> addr list \<times> addr list" where
  "fixed = (\<lambda>(t, h). ((tun_fd t, tun_fd_local t, tun_dev t, event_fds t, netif t, tcp t, udp t), fds h, tcp_pcbs h, netifs h))"

lemma running_refs: "tasks_ok refs0 g (t, h) \<Longrightarrow> k \<notin> set (task_refs h) \<Longrightarrow> k \<notin> set (running h)"
  by (cases g) (auto simp: tasks_ok_def dest!: arg_cong [where f = set_mset])

lemma tasks_start:
  assumes "tasks_ok refs0 g (t, h)" "k \<notin> set (task_refs h)" "n \<notin> fst ` set (sess t)"
  shows "tasks_ok refs0 g (t\<lparr>sess := (n, k) # sess t\<rparr>, h\<lparr>task_refs := k # task_refs h, running := k # running h\<rparr>)"
proof -
  obtain ev io tm where g: "g = (ev, io, tm)" by (cases g)
  have "k \<notin> {ev, io, tm}" using assms(1,2) by (auto simp: tasks_ok_def g dest!: arg_cong [where f = set_mset])
  with running_refs [OF assms(1,2)] assms show ?thesis by (auto simp: tasks_ok_def g)
qed

lemma image_remove1:
  "distinct (map f xs) \<Longrightarrow> x \<in> set xs \<Longrightarrow> f ` set (remove1 x xs) = f ` set xs - {f x}"
  by (induction xs) (auto simp: image_iff)

lemma distinct_map_remove1: "distinct (map f xs) \<Longrightarrow> distinct (map f (remove1 x xs))"
  by (induction xs) (auto simp: image_iff dest: set_remove1_subset [THEN subsetD])

lemma tasks_session_end:
  assumes "tasks_ok refs0 g (t, h)" "(n, k) \<in> set (sess t)"
  shows "tasks_ok refs0 g (t\<lparr>sess := remove1 (n, k) (sess t)\<rparr>, task_end k h)"
proof -
  obtain ev io tm where g: "g = (ev, io, tm)" by (cases g)
  from assms have k: "k \<in> set (running h)" "k \<notin> {ev, io, tm}" and d: "distinct (map snd (sess t))" "distinct (map fst (sess t))"
    by (auto simp: tasks_ok_def g)
  have "snd ` set (remove1 (n, k) (sess t)) = snd ` set (sess t) - {k}"
    using image_remove1 [OF d(1) assms(2)] by simp
  moreover have "mset (remove1 k (task_refs h)) = refs0 + {#ev, io, tm#} + mset (remove1 k (running h))"
    using assms(1) k by (simp add: tasks_ok_def g)
  moreover have "set (remove1 k (running h)) = set (running h) - {k}"
    using assms(1) by (simp add: tasks_ok_def g set_remove1_eq)
  ultimately show ?thesis
    using assms(1) k(2) d by (auto simp: tasks_ok_def g task_end_def hev_task_unref_def distinct_map_remove1)
qed

lemma tasks_end:
  assumes "tasks_ok refs0 (ev, io, tm) (t, h)" "k \<in> {ev, io, tm}" "k \<in> set (running h)" "\<not> run t"
  shows "tasks_ok refs0 (ev, io, tm) (t, task_end k h)"
  using assms by (auto simp: tasks_ok_def task_end_def hev_task_unref_def set_remove1_eq)

subsection \<open>The mapped DNS\<close>

definition dns_moved :: "HevMappedDNS option \<Rightarrow> HevMappedDNS option \<Rightarrow> bool" where
  "dns_moved a b \<longleftrightarrow> a = b \<or> (\<exists>d ip name d'. a = Some d \<and> b = Some d' \<and> hev_mapped_dns_lookup ip d = Some (name, d'))"

lemma addr_from_lwip_moves:
  "hev_socks5_addr_from_lwip addr ip port a = Some (r, x, b) \<Longrightarrow> dns_moved a b"
  by (auto simp: hev_socks5_addr_from_lwip_def dns_moved_def split: ip_type.splits option.splits)

lemma session_tcp_new_moves:
  "hev_socks5_session_tcp_new addr n ip port a w = Some (s, b, w') \<Longrightarrow> dns_moved a b"
  by (auto simp: hev_socks5_session_tcp_new_def hev_socks5_session_tcp_construct_def Let_def dns_moved_def
      dest!: addr_from_lwip_moves split: prod.splits if_splits option.splits)

lemma tdns_lookup:
  assumes "tdns_ok blocks0 (t, h)" "dns t = Some (a, d)" "hev_mapped_dns_lookup ip d = Some (name, d')"
  shows "tdns_ok blocks0 (t\<lparr>dns := Some (a, d')\<rparr>, h)"
proof -
  from assms(1,2) obtain lru where d: "dns_ok (mset (a # blocks0)) d lru" "0 \<le> sint (NOT (dns_mask d))"
    by (auto simp: tdns_ok_def)
  from lookup_ok [OF this, of ip] assms(3) d(2) show ?thesis by (auto simp: tdns_ok_def same_net_def)
qed

lemma tdns_moved:
  assumes "tdns_ok blocks0 (t, h)" "dns_moved (map_option snd (dns t)) b"
  shows "tdns_ok blocks0 (t\<lparr>dns := (case dns t of None \<Rightarrow> None | Some (a, d0) \<Rightarrow> Some (a, case b of None \<Rightarrow> d0 | Some d \<Rightarrow> d))\<rparr>, h)"
proof (cases "map_option snd (dns t) = b")
  case True
  then have "(case dns t of None \<Rightarrow> None | Some (a, d0) \<Rightarrow> Some (a, case b of None \<Rightarrow> d0 | Some d \<Rightarrow> d)) = dns t"
    by (cases "dns t") auto
  with assms(1) show ?thesis by simp
next
  case False
  with assms(2) tdns_lookup [OF assms(1)] show ?thesis by (auto simp: dns_moved_def)
qed

lemma tdns_handle:
  assumes "allocates malloc" "tdns_ok blocks0 (t, h)" "dns t = Some (a, d)" "hev_mapped_dns_handle malloc req mem d = Some (r, rq, buf, d')"
  shows "tdns_ok blocks0 (t\<lparr>dns := Some (a, d')\<rparr>, h)"
proof -
  from assms(2,3) obtain lru where d: "dns_ok (mset (a # blocks0)) d lru" "0 \<le> sint (NOT (dns_mask d))"
    by (auto simp: tdns_ok_def)
  from dns_handle_ok [OF assms(1) d(1), of req mem] assms(4) d(2) show ?thesis by (auto simp: tdns_ok_def same_net_def)
qed

subsection \<open>New sessions\<close>

lemma start_session_eq:
  assumes "k \<notin> set (running h)" "start_session cfg n tmo k (t, h) res = (r, t', h')"
  shows "h' = h\<lparr>running := k # running h\<rparr>" "\<exists>p. t' = t\<lparr>sess_set := p, sess := (n, k) # sess t\<rparr> \<and>
    (\<forall>ns. sessions_ok (sess_set t) ns \<longrightarrow> n \<notin> set ns \<longrightarrow> sessions_ok p (ns @ [n]))"
proof -
  have e: "sessions_ok ((sess_set t)\<lparr>session_timeout := f\<rparr>) ns = sessions_ok (sess_set t) ns" for f ns
    by (simp add: sessions_ok_def)
  show "h' = h\<lparr>running := k # running h\<rparr>"
    using assms by (auto simp: start_session_def hev_task_run_def Let_def)
  show "\<exists>p. t' = t\<lparr>sess_set := p, sess := (n, k) # sess t\<rparr> \<and>
    (\<forall>ns. sessions_ok (sess_set t) ns \<longrightarrow> n \<notin> set ns \<longrightarrow> sessions_ok p (ns @ [n]))"
    using assms by (auto simp: start_session_def Let_def e insert_session_ok(1))
qed

definition run_inv :: "addr multiset \<Rightarrow> addr \<times> addr \<times> addr \<Rightarrow> addr list \<Rightarrow> ts \<Rightarrow> bool" where
  "run_inv refs0 g blocks0 s \<longleftrightarrow> tasks_ok refs0 g s \<and> sess_ok (fst s) \<and> flows_ok s \<and> tdns_ok blocks0 s"

text \<open>A new session, with the block of its flow if it has one.\<close>

lemma session_run_inv:
  assumes "run_inv refs0 g blocks0 (t, h)" "k \<notin> set (task_refs h)"
    and h1: "h1 = h\<lparr>task_refs := k # task_refs h, sysq := q, objs := w, udp_pcbs := us @ udp_pcbs h\<rparr>"
    and us: "us = [] \<or> (\<exists>b. us = [b] \<and> up_id b \<notin> up_id ` set (udp_pcbs h) \<and> up_recv b = RecvSession (new_node t))"
    and s: "start_session cfg (new_node t) tmo k (t, h1) res = (r, t', h')"
  shows "run_inv refs0 g blocks0 (t', h')" "fixed (t', h') = fixed (t, h)"
proof -
  have k: "k \<notin> set (running h)" using assms(1,2) running_refs [of refs0 g t h k] by (simp add: run_inv_def)
  then have k1: "k \<notin> set (running h1)" by (simp add: h1)
  from start_session_eq [OF k1 s] obtain p where e: "h' = h1\<lparr>running := k # running h\<rparr>"
    "t' = t\<lparr>sess_set := p, sess := (new_node t, k) # sess t\<rparr>"
    "\<forall>ns. sessions_ok (sess_set t) ns \<longrightarrow> new_node t \<notin> set ns \<longrightarrow> sessions_ok p (ns @ [new_node t])"
    by (auto simp: h1)
  have "tasks_ok refs0 g (t, h)" using assms(1) by (simp add: run_inv_def)
  from tasks_start [OF this assms(2) new_node_fresh] have "tasks_ok refs0 g (t', h')"
    by (cases g) (auto simp: e h1 tasks_ok_def)
  moreover have "sess_ok t'" using assms(1) e(3) new_node_fresh [of t] by (force simp: run_inv_def sess_ok_def e(2))
  moreover have "flows_ok (t', h')"
    using assms(1) us by (auto simp: run_inv_def flows_ok_def e h1)
  moreover have "tdns_ok blocks0 (t', h')"
    using assms(1) by (auto simp: run_inv_def tdns_ok_def e h1 split: option.splits)
  ultimately show "run_inv refs0 g blocks0 (t', h')" by (simp add: run_inv_def)
  show "fixed (t', h') = fixed (t, h)" by (simp add: fixed_def e h1)
qed

lemma sys_eq: "\<exists>e q. sys h = (e, h\<lparr>sysq := q\<rparr>)"
proof (cases "sysq h")
  case Nil
  then show ?thesis by (intro exI [of _ None] exI [of _ "sysq h"]) (simp add: sys_def)
qed (auto simp: sys_def)

lemma run_inv_cong:
  assumes "run_inv refs0 g blocks0 (t, h)" "tdns_ok blocks0 (t', h')" "udp_pcbs h' = udp_pcbs h" "task_refs h' = task_refs h"
    "running h' = running h" "task_event t' = task_event t" "task_lwip_io t' = task_lwip_io t"
    "task_lwip_timer t' = task_lwip_timer t" "run t' = run t" "sess t' = sess t" "sess_set t' = sess_set t" "udp t' = udp t"
  shows "run_inv refs0 g blocks0 (t', h')"
  using assms by (cases g) (auto simp: run_inv_def tasks_ok_def sess_ok_def flows_ok_def)

lemma accept_inv:
  assumes "run_inv refs0 g blocks0 (t, h)" "tcp_accept_handler cfg junk self ip port err (t, h) = (Returns r, t', h')"
  shows "run_inv refs0 g blocks0 (t', h') \<and> fixed (t', h') = fixed (t, h)"
proof (cases "err = ERR_OK \<and> run t")
  case False
  with assms show ?thesis by (auto simp: tcp_accept_handler_def split: if_splits)
next
  case ok: True
  obtain s d w where n: "hev_socks5_session_tcp_new junk (new_node t) ip port (map_option snd (dns t)) (objs h) = Some (s, d, w)"
    using assms(2) ok by (auto simp: tcp_accept_handler_def split: option.splits)
  define t1 where "t1 = t\<lparr>dns := (case dns t of None \<Rightarrow> None | Some (a, d0) \<Rightarrow> Some (a, case d of None \<Rightarrow> d0 | Some d \<Rightarrow> d))\<rparr>"
  define h1 where "h1 = h\<lparr>objs := w\<rparr>"
  have td: "tdns_ok blocks0 (t1, h)"
    unfolding t1_def using tdns_moved session_tcp_new_moves [OF n] assms(1) by (auto simp: run_inv_def)
  have i1: "run_inv refs0 g blocks0 (t1, h)"
    by (rule run_inv_cong [OF assms(1) td]) (simp_all add: t1_def)
  have n1: "new_node t1 = new_node t" by (simp add: t1_def new_node_def)
  show ?thesis
  proof (cases s)
    case None
    with assms(2) ok n have e: "t' = t1" "h' = h1" by (simp_all add: tcp_accept_handler_def t1_def h1_def Let_def)
    have "run_inv refs0 g blocks0 (t1, h1)"
      by (rule run_inv_cong [OF i1]) (use td in \<open>auto simp: h1_def tdns_ok_def split: option.splits\<close>)
    then show ?thesis by (simp add: e fixed_def t1_def h1_def)
  next
    case (Some s)
    obtain e q where q: "sys h1 = (e, h1\<lparr>sysq := q\<rparr>)" using sys_eq by blast
    show ?thesis
    proof (cases e)
      case None
      with q have tn: "hev_task_new h1 = (Some (fresh_obj (task_refs h)), h1\<lparr>sysq := q, task_refs := fresh_obj (task_refs h) # task_refs h\<rparr>)"
        by (simp add: hev_task_new_def h1_def Let_def)
      with assms(2) ok n Some have st: "start_session cfg (new_node t1) (timeout s) (fresh_obj (task_refs h))
          (t1, h1\<lparr>sysq := q, task_refs := fresh_obj (task_refs h) # task_refs h\<rparr>) ERR_OK = (Returns r, t', h')"
        by (simp add: tcp_accept_handler_def t1_def h1_def Let_def)
      from session_run_inv [OF i1 fresh_obj _ _ st, where q = q and w = w and us = "[]"] show ?thesis
        by (simp add: h1_def) (simp add: fixed_def t1_def)
    next
      case (Some e')
      with q have tn: "hev_task_new h1 = (None, h1\<lparr>sysq := q\<rparr>)" by (simp add: hev_task_new_def Let_def)
      have e: "with_mutex self (\<lambda>(t, h). (t, h\<lparr>objs := hev_socks5_client_tcp_destruct s (objs h)\<rparr>))
          (t1, h1\<lparr>sysq := q\<rparr>) ERR_MEM = (Returns r, t', h')"
        using assms(2) ok n \<open>_ = Some s\<close> tn by (simp add: tcp_accept_handler_def t1_def h1_def Let_def)
      then obtain m w' where f: "t' = t1\<lparr>mutex := m\<rparr>" "h' = h\<lparr>sysq := q, objs := w'\<rparr>"
        by (auto simp: with_mutex_def h1_def Let_def split: if_splits)
      have "run_inv refs0 g blocks0 (t', h')"
        by (rule run_inv_cong [OF i1]) (use td in \<open>auto simp: f tdns_ok_def split: option.splits\<close>)
      then show ?thesis by (simp add: f fixed_def t1_def)
    qed
  qed
qed

subsection \<open>Flows\<close>

text \<open>A flow to the mapped DNS exists only inside of \<open>udp_input\<close>.\<close>

definition dns_pending :: "addr multiset \<Rightarrow> addr \<times> addr \<times> addr \<Rightarrow> addr list \<Rightarrow> udp_dgram \<Rightarrow> ts \<Rightarrow> bool" where
  "dns_pending refs0 g blocks0 d = (\<lambda>(t, h). \<exists>b bs. udp_pcbs h = b # bs \<and> up_recv b = RecvDns \<and> flow_block d b \<and>
     up_id b \<notin> up_id ` set bs \<and> run_inv refs0 g blocks0 (t, h\<lparr>udp_pcbs := bs\<rparr>))"

lemma tdns_cong: "tdns_ok blocks0 (t, h) \<Longrightarrow> dns t' = dns t \<Longrightarrow> heap h' = heap h \<Longrightarrow> tdns_ok blocks0 (t', h')"
  by (auto simp: tdns_ok_def split: option.splits)

lemma run_inv_same:
  assumes "run_inv refs0 g blocks0 (t, h)" "dns t' = dns t" "heap h' = heap h" "udp_pcbs h' = udp_pcbs h" "task_refs h' = task_refs h"
    "running h' = running h" "task_event t' = task_event t" "task_lwip_io t' = task_lwip_io t"
    "task_lwip_timer t' = task_lwip_timer t" "run t' = run t" "sess t' = sess t" "sess_set t' = sess_set t" "udp t' = udp t"
  shows "run_inv refs0 g blocks0 (t', h')"
  using assms(1) by (rule run_inv_cong) (use assms tdns_cong in \<open>auto simp: run_inv_def\<close>)

lemma udp_remove_cons:
  "up_id b \<notin> up_id ` set bs \<Longrightarrow> udp_pcbs h = b # bs \<Longrightarrow> udp_remove (up_id b) h = h\<lparr>udp_pcbs := bs\<rparr>"
  using udp_remove_new [of b bs h] by (metis (no_types) host.surjective host.update_convs(8) image_set)

lemma udp_handler_inv:
  assumes i: "run_inv refs0 g blocks0 (t, h)" and f: "up_id b \<notin> up_id ` set (udp_pcbs h)" "flow_block d b"
    and r: "tunnel_udp_recv_handler cfg self (up_id b) ip port (t, h\<lparr>sysq := q, udp_pcbs := b # udp_pcbs h\<rparr>) = (Returns (), t', h')"
  shows "(run_inv refs0 g blocks0 (t', h') \<or> dns_pending refs0 g blocks0 d (t', h')) \<and> fixed (t', h') = fixed (t, h)"
proof -
  let ?h = "h\<lparr>sysq := q, udp_pcbs := b # udp_pcbs h\<rparr>"
  have rm: "udp_remove (up_id b) ?h = h\<lparr>sysq := q\<rparr>" using udp_remove_cons [OF f(1), of ?h] by simp
  consider "\<not> run t" | "run t" "for_dns cfg t ip port" | "run t" "\<not> for_dns cfg t ip port" by blast
  then show ?thesis
  proof cases
    case 1
    with r rm have e: "t' = t" "h' = h\<lparr>sysq := q\<rparr>" by (simp_all add: tunnel_udp_recv_handler_def)
    have "run_inv refs0 g blocks0 (t', h')" unfolding e by (rule run_inv_same [OF i]) simp_all
    then show ?thesis by (simp add: e fixed_def)
  next
    case 2
    with r have e: "t' = t" "h' = set_recv (up_id b) RecvDns ?h" by (simp_all add: tunnel_udp_recv_handler_def)
    have e2: "h' = h\<lparr>sysq := q, udp_pcbs := b\<lparr>up_recv := RecvDns\<rparr> # udp_pcbs h\<rparr>"
      unfolding e using set_recv_new [of b "udp_pcbs h" RecvDns "h\<lparr>sysq := q\<rparr>"] f(1) by simp
    have "run_inv refs0 g blocks0 (t, h\<lparr>sysq := q\<rparr>)" by (rule run_inv_same [OF i]) simp_all
    with f show ?thesis by (auto simp: dns_pending_def e(1) e2 fixed_def flow_block_def)
  next
    case 3
    obtain u w where u: "hev_socks5_session_udp_new (srv cfg) (new_node t) (objs h) = (u, w)" by (metis surj_pair)
    show ?thesis
    proof (cases u)
      case None
      with r 3 u have e: "t' = t" "h' = udp_remove (up_id b) (?h\<lparr>objs := w\<rparr>)" by (simp_all add: tunnel_udp_recv_handler_def)
      have e2: "h' = h\<lparr>sysq := q, objs := w\<rparr>" unfolding e using udp_remove_cons [OF f(1), of "?h\<lparr>objs := w\<rparr>"] by simp
      have "run_inv refs0 g blocks0 (t', h')" unfolding e(1) e2 by (rule run_inv_same [OF i]) simp_all
      then show ?thesis by (simp add: e(1) e2 fixed_def)
    next
      case (Some s)
      let ?b = "b\<lparr>up_recv := RecvSession (new_node t)\<rparr>"
      let ?h1 = "h\<lparr>sysq := q, objs := w, udp_pcbs := ?b # udp_pcbs h\<rparr>"
      have c: "?h\<lparr>objs := w\<rparr> = (h\<lparr>sysq := q, objs := w\<rparr>)\<lparr>udp_pcbs := b # udp_pcbs h\<rparr>" by simp
      have sr: "set_recv (up_id b) (RecvSession (new_node t)) (?h\<lparr>objs := w\<rparr>) = ?h1"
        unfolding c using set_recv_new [of b "udp_pcbs h"] f(1) by simp
      obtain e q' where q': "sys ?h1 = (e, ?h1\<lparr>sysq := q'\<rparr>)" using sys_eq by blast
      show ?thesis
      proof (cases e)
        case None
        let ?k = "fresh_obj (task_refs h)"
        have "hev_task_new ?h1 = (Some ?k, ?h1\<lparr>sysq := q', task_refs := ?k # task_refs h\<rparr>)"
          using q' None by (simp add: hev_task_new_def Let_def)
        with r 3 u Some sr have st: "start_session cfg (new_node t) (timeout s) ?k (t, ?h1\<lparr>sysq := q', task_refs := ?k # task_refs h\<rparr>) () =
            (Returns (), t', h')" by (simp add: tunnel_udp_recv_handler_def Let_def)
        from session_run_inv [OF i fresh_obj _ _ st, where q = q' and w = w and us = "[?b]"] f(1) show ?thesis by simp
      next
        case (Some e')
        then have tn: "hev_task_new ?h1 = (None, ?h1\<lparr>sysq := q'\<rparr>)" using q' by (simp add: hev_task_new_def Let_def)
        have rm: "udp_remove (up_id b) (?h1\<lparr>sysq := q', objs := w'\<rparr>) = h\<lparr>sysq := q', objs := w'\<rparr>" for w'
          using udp_remove_cons [of ?b "udp_pcbs h" "?h1\<lparr>sysq := q', objs := w'\<rparr>"] f(1) by simp
        from r 3 u \<open>u = Some s\<close> sr tn obtain m where e: "t' = t\<lparr>mutex := m\<rparr>"
          "h' = udp_remove (up_id b) (?h1\<lparr>sysq := q', objs := hev_socks5_client_udp_destruct s w\<rparr>)"
          by (auto simp: tunnel_udp_recv_handler_def with_mutex_def Let_def split: if_splits)
        have "run_inv refs0 g blocks0 (t', h')" unfolding e rm by (rule run_inv_same [OF i]) simp_all
        then show ?thesis unfolding e rm by (simp add: fixed_def)
      qed
    qed
  qed
qed

lemma deliver_inv:
  assumes m: "allocates malloc" and i: "run_inv refs0 g blocks0 (t, h) \<or> dns_pending refs0 g blocks0 d (t, h)"
    and b: "find (flow_block d) (udp_pcbs h) = Some b" "ip_type (src_ip d) \<noteq> IPADDR_TYPE_ANY"
    and r: "udp_flow_deliver malloc mem cfg self b d (t, h) = (Returns (), t', h')"
  shows "run_inv refs0 g blocks0 (t', h') \<and> fixed (t', h') = fixed (t, h)"
  using i
proof
  assume i: "run_inv refs0 g blocks0 (t, h)"
  from b have bf: "b \<in> set (udp_pcbs h)" "ip_type (remote_ip b) \<noteq> IPADDR_TYPE_ANY"
    by (auto simp: find_Some_iff flow_block_def ip_addr_cmp_def)
  with i obtain n where "up_recv b = RecvSession n" by (auto simp: run_inv_def flows_ok_def dest: bspec)
  with r have e: "t' = t" "h' = h\<lparr>flow_in := flow_in h @ [(n, payload d, dst_ip d, dst_port d)]\<rparr>"
    by (simp_all add: udp_flow_deliver_def)
  have "run_inv refs0 g blocks0 (t', h')" unfolding e by (rule run_inv_same [OF i]) simp_all
  then show ?thesis by (simp add: e fixed_def)
next
  assume "dns_pending refs0 g blocks0 d (t, h)"
  then obtain c bs where p: "udp_pcbs h = c # bs" "up_recv c = RecvDns" "flow_block d c" "up_id c \<notin> up_id ` set bs"
    "run_inv refs0 g blocks0 (t, h\<lparr>udp_pcbs := bs\<rparr>)" by (auto simp: dns_pending_def)
  with b(1) r have d: "dns_recv_handler malloc mem c d (t, h) = (Returns (), t', h')" by (simp add: udp_flow_deliver_def)
  obtain e q where q: "sys h = (e, h\<lparr>sysq := q\<rparr>)" using sys_eq by blast
  have rm: "udp_remove (up_id c) (h\<lparr>sysq := q\<rparr>) = h\<lparr>sysq := q, udp_pcbs := bs\<rparr>"
    "udp_remove (up_id c) (h\<lparr>sysq := q, answers := x\<rparr>) = h\<lparr>sysq := q, answers := x, udp_pcbs := bs\<rparr>" for x
    using udp_remove_cons [OF p(4)] p(1) by simp_all
  show ?thesis
  proof (cases e)
    case (Some e')
    with d q rm have e: "t' = t" "h' = h\<lparr>sysq := q, udp_pcbs := bs\<rparr>" by (simp_all add: dns_recv_handler_def)
    have "run_inv refs0 g blocks0 (t', h')" unfolding e by (rule run_inv_same [OF p(5)]) simp_all
    then show ?thesis by (simp add: e fixed_def)
  next
    case None
    with d q obtain a d0 req qs res rq buf d1 where dn: "dns t = Some (a, d0)" "payload d = req # qs"
      "hev_mapped_dns_handle malloc req mem d0 = Some (res, rq, buf, d1)"
      by (auto simp: dns_recv_handler_def split: option.splits list.splits prod.splits)
    with d q None rm have e: "t' = t\<lparr>dns := Some (a, d1)\<rparr>" and
      e2: "\<exists>x. h' = h\<lparr>sysq := q, answers := x, udp_pcbs := bs\<rparr> \<or> h' = h\<lparr>sysq := q, udp_pcbs := bs\<rparr>"
      by (auto simp: dns_recv_handler_def split: if_splits)
    have "tdns_ok blocks0 (t, h\<lparr>udp_pcbs := bs\<rparr>)" using p(5) by (simp add: run_inv_def)
    from tdns_handle [OF m this dn(1,3)] have "tdns_ok blocks0 (t', h)" by (rule tdns_cong) (simp_all add: e)
    then have td: "tdns_ok blocks0 (t', h')" using e2 by (auto intro: tdns_cong)
    have "run_inv refs0 g blocks0 (t', h')"
      by (rule run_inv_cong [OF p(5) td]) (use e e2 in auto)
    then show ?thesis using e e2 by (auto simp: fixed_def)
  qed
qed

lemma udp_input_inv:
  assumes m: "allocates malloc" and r: "udp_input malloc mem cfg self d s = Some (Returns (), s')"
    and d: "ip_type (src_ip d) \<noteq> IPADDR_TYPE_ANY" and i: "run_inv refs0 g blocks0 s \<or> dns_pending refs0 g blocks0 d s"
  shows "run_inv refs0 g blocks0 s' \<and> fixed s' = fixed s"
proof (rule udp_input.raw_induct [where P = "\<lambda>ma mem cfg self d s r. ma = malloc \<longrightarrow> ip_type (src_ip d) \<noteq> IPADDR_TYPE_ANY \<longrightarrow>
    run_inv refs0 g blocks0 s \<or> dns_pending refs0 g blocks0 d s \<longrightarrow>
    (\<forall>s'. r = (Returns (), s') \<longrightarrow> run_inv refs0 g blocks0 s' \<and> fixed s' = fixed s)", OF _ r, rule_format], goal_cases)
  case (1 input ma mem cfg self d s r s')
  obtain t h where s: "s = (t, h)" by (cases s)
  obtain t' h' where s': "s' = (t', h')" by (cases s')
  show ?case
  proof (cases "find (flow_block d) (udp_pcbs h)")
    case (Some b)
    with 1(2,3,6) have "udp_flow_deliver malloc mem cfg self b d (t, h) = (Returns (), t', h')" by (simp add: s s')
    from deliver_inv [OF m 1(5) [unfolded s] Some 1(4) this] show ?thesis by (simp add: s s')
  next
    case None
    then have i: "run_inv refs0 g blocks0 (t, h)" using 1(5) by (auto simp: s dns_pending_def split: if_splits)
    show ?thesis
    proof (cases "own_address (dst_ip d) \<or> find (listening (netif t)) (udp_pcbs h) = None")
      case True
      with None 1(2,6) have "s' = s" by (auto simp: s split: if_splits)
      with i show ?thesis by (simp add: s)
    next
      case False
      then obtain l where l: "find (listening (netif t)) (udp_pcbs h) = Some l" "\<not> own_address (dst_ip d)" by auto
      obtain e q where q: "sys h = (e, h\<lparr>sysq := q\<rparr>)" using sys_eq by blast
      show ?thesis
      proof (cases e)
        case (Some e')
        with None l 1(2,6) q have e: "t' = t" "h' = h\<lparr>sysq := q\<rparr>"
          by (simp_all add: s s' udp_new_flow_def udp_new_def Let_def)
        have "run_inv refs0 g blocks0 (t', h')" unfolding e by (rule run_inv_same [OF i]) simp_all
        then show ?thesis by (simp add: s s' e fixed_def)
      next
        case None
        let ?b = "flow_pcb l d h"
        have nf: "udp_new_flow l d h = (Some ?b, h\<lparr>sysq := q, udp_pcbs := ?b # udp_pcbs h\<rparr>)"
          using q None by (simp add: udp_new_flow_def udp_new_def flow_pcb_def Let_def)
        obtain res t1 h1 where hd: "tunnel_udp_recv_handler cfg self (up_id ?b) (dst_ip d) (dst_port d)
            (t, h\<lparr>sysq := q, udp_pcbs := ?b # udp_pcbs h\<rparr>) = (res, t1, h1)" by (metis prod_cases3)
        have body: "(if res = Returns () then input malloc mem cfg self d (t1, h1) else Some (res, t1, h1)) = Some (Returns (), t', h')"
          using 1(2,3,6) \<open>find (flow_block d) (udp_pcbs h) = None\<close> l nf hd by (simp add: s s' split: if_splits)
        then have res: "res = Returns ()" and rec: "input malloc mem cfg self d (t1, h1) = Some (Returns (), t', h')"
          by (auto split: if_splits)
        have fb: "flow_block d ?b" using listening_idx [OF l(1)] by (simp add: flow_block_def flow_pcb_def)
        from udp_handler_inv [OF i _ fb hd [unfolded res]] flow_pcb_fresh [of l d h]
        have i1: "run_inv refs0 g blocks0 (t1, h1) \<or> dns_pending refs0 g blocks0 d (t1, h1)" and f1: "fixed (t1, h1) = fixed (t, h)"
          by auto
        from 1(1) [OF rec refl 1(4) i1 refl] f1 show ?thesis by (simp add: s s')
      qed
    qed
  qed
qed (use d i in simp_all)

section \<open>Every step keeps it\<close>

lemma terminate_all_ok:
  "dll (session_set s) (as @ bs) \<Longrightarrow> \<exists>s'. terminate_all (first_or bs None) s = Some s' \<and>
     session_set s' = session_set s \<and> session_count s' = session_count s \<and>
     session_timeout s' = (\<lambda>n. if n \<in> set bs then 0 else session_timeout s n)"
proof (induction bs arbitrary: as s)
  case Nil
  then show ?case by (subst terminate_all.simps) simp
next
  case (Cons n bs)
  have "dll (session_set (terminate_node n s)) ((as @ [n]) @ bs)" using Cons.prems by simp
  from Cons.IH [OF this] dll_next [OF Cons.prems] show ?case
    by (subst terminate_all.simps) (auto simp: fun_eq_iff)
qed

lemma event_stop_ok:
  assumes "sessions_ok (sess_set t) ns"
  shows "\<exists>p. event_task_stop t = Some (t\<lparr>run := False, tflags := tflags t - {SYNC_SENT}, sess_set := p\<rparr>) \<and>
    sessions_ok p ns \<and> (\<forall>n \<in> set ns. session_timeout p n = 0)"
proof -
  from assms have d: "dll (session_set (sess_set t)) ([] @ ns)" by (simp add: sessions_ok_def)
  from terminate_all_ok [OF d] dll_first [of "session_set (sess_set t)" ns] assms show ?thesis
    by (auto simp: event_task_stop_def atomic_fetch_clear_def sessions_ok_def Let_def)
qed

lemma flows_session_end:
  assumes "flows_ok (t, h)" "distinct (map fst (sess t))" "(n, k) \<in> set (sess t)"
  shows "flows_ok (t\<lparr>sess := remove1 (n, k) (sess t), sess_set := p\<rparr>,
    h\<lparr>udp_pcbs := filter (\<lambda>b. up_recv b \<noteq> RecvSession n) (udp_pcbs h)\<rparr>)"
proof -
  from assms(1) obtain fl l where f: "udp_pcbs h = fl @ [l]" "udp t = Some (up_id l)" "ip_type (remote_ip l) = IPADDR_TYPE_ANY"
    "up_recv l = RecvTunnel" "distinct (map up_id (udp_pcbs h))" "\<forall>b \<in> set fl. \<exists>n \<in> fst ` set (sess t). up_recv b = RecvSession n"
    by (auto simp: flows_ok_def)
  have "\<exists>m \<in> fst ` set (remove1 (n, k) (sess t)). up_recv b = RecvSession m"
    if "b \<in> set fl" "up_recv b \<noteq> RecvSession n" for b
    using f(6) that image_remove1 [OF assms(2,3)] by force
  with f show ?thesis
    unfolding flows_ok_def by (auto simp: distinct_map_filter intro!: exI [of _ "filter (\<lambda>b. up_recv b \<noteq> RecvSession n) fl"] exI [of _ l])
qed

lemma session_end_inv:
  assumes "run_inv refs0 g blocks0 (t, h)" "(n, k) \<in> set (sess t)"
  shows "run_inv refs0 g blocks0 (hev_socks5_session_task_entry n k (t, h)) \<and>
    fixed (hev_socks5_session_task_entry n k (t, h)) = fixed (t, h)"
proof -
  let ?t = "t\<lparr>sess_set := hev_socks5_tunnel_delete_session n (sess_set t), sess := remove1 (n, k) (sess t)\<rparr>"
  let ?us = "filter (\<lambda>b. up_recv b \<noteq> RecvSession n) (udp_pcbs h)"
  from assms(1) have i: "tasks_ok refs0 g (t, h)" "sess_ok t" "flows_ok (t, h)" "tdns_ok blocks0 (t, h)" by (simp_all add: run_inv_def)
  have d: "distinct (map fst (sess t))" using i(1) by (cases g) (simp add: tasks_ok_def)
  from tasks_session_end [OF i(1) assms(2)] have "tasks_ok refs0 g (?t, task_end k (h\<lparr>udp_pcbs := ?us\<rparr>))"
    by (cases g) (simp add: tasks_ok_def task_end_def hev_task_unref_def)
  moreover have "sess_ok ?t"
  proof -
    obtain ns where ns: "sessions_ok (sess_set t) ns" "set ns = fst ` set (sess t)" using i(2) by (auto simp: sess_ok_def)
    have "distinct ns" using ns(1) dll_distinct [of "session_set (sess_set t)" ns] by (simp add: sessions_ok_def)
    then have "set (remove1 n ns) = fst ` set (remove1 (n, k) (sess t))"
      using image_remove1 [OF d assms(2)] ns(2) by (simp add: set_remove1_eq)
    moreover have "n \<in> set ns" using assms(2) ns(2) by force
    ultimately show ?thesis
      using delete_session_ok [OF ns(1)] by (auto simp: sess_ok_def)
  qed
  moreover have "flows_ok (?t, task_end k (h\<lparr>udp_pcbs := ?us\<rparr>))"
    using flows_session_end [OF i(3) d assms(2)] by (simp add: flows_ok_def task_end_def hev_task_unref_def)
  moreover have "tdns_ok blocks0 (?t, task_end k (h\<lparr>udp_pcbs := ?us\<rparr>))"
    by (rule tdns_cong [OF i(4)]) (simp_all add: task_end_def hev_task_unref_def)
  ultimately show ?thesis
    by (simp add: run_inv_def hev_socks5_session_task_entry_def fixed_def task_end_def hev_task_unref_def)
qed

lemma task_end_inv:
  assumes "run_inv refs0 (ev, io, tm) blocks0 (t, h)" "k \<in> {ev, io, tm}" "k \<in> set (running h)" "\<not> run t"
  shows "run_inv refs0 (ev, io, tm) blocks0 (t, task_end k h) \<and> fixed (t, task_end k h) = fixed (t, h)"
proof -
  from assms(1) have "tasks_ok refs0 (ev, io, tm) (t, h)" "tdns_ok blocks0 (t, h)" by (simp_all add: run_inv_def)
  with tasks_end [OF _ assms(2-4)] tdns_cong [of blocks0 t h t "task_end k h"] assms(1) show ?thesis
    by (auto simp: run_inv_def task_end_def hev_task_unref_def flows_ok_def fixed_def)
qed

lemma task_step_inv:
  assumes "allocates malloc" "task_step malloc cfg s s'" "run_inv refs0 g blocks0 s"
  shows "run_inv refs0 g blocks0 s' \<and> fixed s' = fixed s"
  using assms(2,3)
proof (cases rule: task_step.cases)
  case (packet t io h n)
  have "run_inv refs0 g blocks0 (lwip_io_packet n t, h)"
    by (rule run_inv_same [OF assms(3) [unfolded packet]]) (simp_all add: lwip_io_packet_def)
  then show ?thesis by (simp add: packet fixed_def lwip_io_packet_def)
next
  case (accept t io h junk ip port err r)
  obtain t' h' where "s' = (t', h')" by (cases s')
  with accept_inv [OF assms(3) [unfolded accept]] accept show ?thesis by simp
next
  case (datagram t io h d mem)
  with udp_input_inv [OF assms(1) datagram(6,5), of refs0 g blocks0] assms(3) show ?thesis by simp
next
  case (sending t h n e)
  have "run_inv refs0 g blocks0 (snd (netif_output_handler n e t), h)"
    by (rule run_inv_same [OF assms(3) [unfolded sending]]) (simp_all add: netif_output_handler_def)
  then show ?thesis by (simp add: sending fixed_def netif_output_handler_def)
next
  case (work t h w)
  have "run_inv refs0 g blocks0 (t, h\<lparr>objs := w\<rparr>)"
    by (rule run_inv_same [OF assms(3) [unfolded work]]) simp_all
  then show ?thesis by (simp add: work fixed_def)
next
  case (touch n t h)
  let ?t = "t\<lparr>sess_set := hev_socks5_tunnel_update_session (max_session_count cfg) n (sess_set t)\<rparr>"
  have i: "run_inv refs0 g blocks0 (t, h)" using assms(3) touch by simp
  then obtain ns where ns: "sessions_ok (sess_set t) ns" "set ns = fst ` set (sess t)" by (auto simp: run_inv_def sess_ok_def)
  have "distinct ns" using ns(1) dll_distinct [of "session_set (sess_set t)" ns] by (simp add: sessions_ok_def)
  moreover have n: "n \<in> set ns" using touch(3) ns(2) by simp
  ultimately have "set (if max_session_count cfg = 0 then ns else remove1 n ns @ [n]) = set ns"
    by (auto simp: set_remove1_eq)
  with update_session_ok [OF ns(1) n, of "max_session_count cfg"] ns(2) have "sess_ok ?t"
    unfolding sess_ok_def by (auto simp del: set_append)
  moreover from i have "tasks_ok refs0 g (?t, h)" by (cases g) (simp add: run_inv_def tasks_ok_def)
  moreover from i have "tdns_ok blocks0 (?t, h)" by (simp add: run_inv_def tdns_ok_def)
  moreover from i have "flows_ok (?t, h)" by (simp add: run_inv_def flows_ok_def)
  ultimately show ?thesis by (simp add: touch run_inv_def fixed_def)
next
  case (lookup t a d ip name d' h)
  have i: "run_inv refs0 g blocks0 (t, h)" using assms(3) lookup by simp
  then have "tdns_ok blocks0 (t\<lparr>dns := Some (a, d')\<rparr>, h)" using tdns_lookup lookup by (simp add: run_inv_def)
  from run_inv_cong [OF i this] show ?thesis by (simp add: lookup fixed_def)
next
  case (session_end n k t h)
  with session_end_inv assms(3) show ?thesis by simp
next
  case (stop t ev h t')
  have i: "run_inv refs0 g blocks0 (t, h)" using assms(3) stop by simp
  then obtain ns where ns: "sessions_ok (sess_set t) ns" "set ns = fst ` set (sess t)" by (auto simp: run_inv_def sess_ok_def)
  from event_stop_ok [OF ns(1)] stop obtain p where e: "t' = t\<lparr>run := False, tflags := tflags t - {SYNC_SENT}, sess_set := p\<rparr>"
    "sessions_ok p ns" by auto
  from i have "tdns_ok blocks0 (t', h)" by (auto simp: run_inv_def e intro: tdns_cong)
  with i e ns(2) show ?thesis
    by (cases g) (auto simp: stop run_inv_def tasks_ok_def sess_ok_def flows_ok_def fixed_def)
next
  case (io_end t io h)
  with assms(3) task_end_inv [of refs0 _ _ _ blocks0 t h io] show ?thesis
    by (cases g) (auto simp: run_inv_def tasks_ok_def)
next
  case (timer_end t tm h)
  with assms(3) task_end_inv [of refs0 _ _ _ blocks0 t h tm] show ?thesis
    by (cases g) (auto simp: run_inv_def tasks_ok_def)
next
  case (event_end t ev h io tm)
  with assms(3) task_end_inv [of refs0 _ _ _ blocks0 t h ev] show ?thesis
    by (cases g) (auto simp: run_inv_def tasks_ok_def)
qed

end
