(* ===== verification/Tunnel_Life.thy ===== *)
theory Tunnel_Life
  imports Tunnel_Run
begin

text \<open>
  Everything the tunnel allocates it gives back: \<open>init\<close> and \<open>fini\<close> of \<open>src/hev-socks5-tunnel.c\<close>, with the
  tasks and sessions of \<open>Tunnel_Run\<close> between them.
\<close>

section \<open>What the tunnel owns\<close>

definition opt_mset :: "ptr \<Rightarrow> addr multiset" where
  "opt_mset p = (case p of None \<Rightarrow> {#} | Some a \<Rightarrow> {#a#})"

definition fd_mset :: "int \<Rightarrow> int multiset" where
  "fd_mset f = (if f \<ge> 0 then {#f#} else {#})"

lemma opt_mset_simps [simp]: "opt_mset None = {#}" "opt_mset (Some a) = {#a#}"
  by (simp_all add: opt_mset_def)

text \<open>
  \<open>owns h0 leak (t, h)\<close>: what is allocated in \<open>h\<close> is what was allocated in \<open>h0\<close>, what the variables of the
  tunnel refer to, and the control blocks \<open>leak\<close> that nothing refers to.
\<close>

definition owns :: "host \<Rightarrow> addr multiset \<Rightarrow> ts \<Rightarrow> bool" where
  "owns h0 leak = (\<lambda>(t, h).
     mset (fds h) = mset (fds h0) + (if tun_fd_local t then fd_mset (tun_fd t) else {#}) +
       fd_mset (fst (event_fds t)) + fd_mset (snd (event_fds t)) \<and>
     mset (task_refs h) = mset (task_refs h0) + opt_mset (task_event t) + opt_mset (task_lwip_io t) + opt_mset (task_lwip_timer t) \<and>
     mset (tcp_pcbs h) = mset (tcp_pcbs h0) + opt_mset (tcp t) + leak \<and>
     mset (netifs h) = mset (netifs h0) + opt_mset (netif t) \<and>
     map up_id (udp_pcbs h) = (case udp t of None \<Rightarrow> [] | Some u \<Rightarrow> [u]) \<and>
     (\<forall>b \<in> set (udp_pcbs h). ip_type (remote_ip b) = IPADDR_TYPE_ANY \<and> up_recv b = RecvTunnel) \<and>
     tdns_ok (heap h0) (t, h) \<and> running h = [] \<and> sess t = [] \<and> sess_ok t \<and> \<not> run t)"

text \<open>The variables as they are when there is no tunnel.\<close>

definition tunnel_idle :: "tunnel \<Rightarrow> bool" where
  "tunnel_idle t \<longleftrightarrow> \<not> run t \<and> event_fds t = (-1, -1) \<and> netif t = None \<and> tcp t = None \<and> udp t = None \<and>
     task_event t = None \<and> task_lwip_io t = None \<and> task_lwip_timer t = None \<and> dns t = None \<and> sess t = [] \<and> sess_ok t \<and>
     (tun_fd_local t \<longrightarrow> tun_fd t < 0)"

text \<open>The variables \<open>fini\<close> leaves: also the statistics and the flags of the event pipe are cleared.\<close>

definition tunnel_reset :: "tunnel \<Rightarrow> bool" where
  "tunnel_reset t \<longleftrightarrow> tunnel_idle t \<and> stat_tx_packets t = 0 \<and> stat_rx_packets t = 0 \<and> stat_tx_bytes t = 0 \<and>
     stat_rx_bytes t = 0 \<and> SYNC_SEND \<notin> tflags t \<and> SYNC_SENT \<notin> tflags t"

text \<open>
  The descriptor of the device \<open>fini\<close> leaves in \<open>tun_fd\<close>: none when the device was the tunnel's own; one it was given
  is kept.
\<close>

definition left_fd :: "tunnel \<Rightarrow> int" where
  "left_fd t = (if tun_fd_local t \<and> tun_fd t \<ge> 0 then -1 else tun_fd t)"

text \<open>\<open>released h0 leak h\<close>: nothing is allocated but what was before, and \<open>leak\<close>.\<close>

definition released :: "host \<Rightarrow> addr multiset \<Rightarrow> host \<Rightarrow> bool" where
  "released h0 leak h \<longleftrightarrow> mset (fds h) = mset (fds h0) \<and> mset (task_refs h) = mset (task_refs h0) \<and>
     mset (tcp_pcbs h) = mset (tcp_pcbs h0) + leak \<and> mset (netifs h) = mset (netifs h0) \<and> udp_pcbs h = [] \<and>
     mset (heap h) = mset (heap h0) \<and> running h = []"

section \<open>\<open>fini\<close>\<close>

lemma tdns_fini:
  assumes "tdns_ok blocks0 (t, h)"
  shows "\<exists>bs. mapped_dns_fini (t, h) = Some (t\<lparr>dns := None\<rparr>, h\<lparr>heap := bs\<rparr>) \<and> mset bs = mset blocks0"
proof (cases "dns t")
  case None
  with assms have "mapped_dns_fini (t, h) = Some (t\<lparr>dns := None\<rparr>, h\<lparr>heap := heap h\<rparr>)" "heap h = blocks0"
    by (simp_all add: mapped_dns_fini_def tdns_ok_def)
  then show ?thesis by metis
next
  case (Some p)
  then obtain a d lru where d: "dns t = Some (a, d)" "dns_ok (mset (a # blocks0)) d lru"
    using assms by (cases p) (auto simp: tdns_ok_def)
  with mapped_dns_destruct_frees [OF d(2)] show ?thesis by (auto simp: mapped_dns_fini_def)
qed

lemma exec_run_simps [simp]:
  "fds (hev_exec_run p n i w h) = fds h" "task_refs (hev_exec_run p n i w h) = task_refs h"
  "tcp_pcbs (hev_exec_run p n i w h) = tcp_pcbs h" "netifs (hev_exec_run p n i w h) = netifs h"
  "udp_pcbs (hev_exec_run p n i w h) = udp_pcbs h" "heap (hev_exec_run p n i w h) = heap h"
  "running (hev_exec_run p n i w h) = running h"
  using sys_eq [of h] by (auto simp: hev_exec_run_def)

lemma unref_opt_simps [simp]:
  "mset (task_refs (unref_opt p h)) = mset (task_refs h) - opt_mset p" "fds (unref_opt p h) = fds h"
  "tcp_pcbs (unref_opt p h) = tcp_pcbs h" "netifs (unref_opt p h) = netifs h" "udp_pcbs (unref_opt p h) = udp_pcbs h"
  "heap (unref_opt p h) = heap h" "running (unref_opt p h) = running h"
  by (simp_all add: unref_opt_def hev_task_unref_def split: option.splits)

lemma close_opt_simps [simp]:
  "mset (fds (close_opt f h)) = mset (fds h) - fd_mset f" "task_refs (close_opt f h) = task_refs h"
  "tcp_pcbs (close_opt f h) = tcp_pcbs h" "netifs (close_opt f h) = netifs h" "udp_pcbs (close_opt f h) = udp_pcbs h"
  "heap (close_opt f h) = heap h" "running (close_opt f h) = running h"
  by (simp_all add: close_opt_def fd_close_def fd_mset_def)

lemma gateway_fini_eq:
  "\<exists>h'. gateway_fini (t, h) = (t\<lparr>udp := None, tcp := None, netif := None\<rparr>, h') \<and> fds h' = fds h \<and> task_refs h' = task_refs h \<and>
     heap h' = heap h \<and> running h' = running h \<and> mset (tcp_pcbs h') = mset (tcp_pcbs h) - opt_mset (tcp t) \<and>
     mset (netifs h') = mset (netifs h) - opt_mset (netif t) \<and>
     (map up_id (udp_pcbs h) = (case udp t of None \<Rightarrow> [] | Some u \<Rightarrow> [u]) \<longrightarrow> udp_pcbs h' = [])"
  by (auto simp: gateway_fini_def udp_remove_def split: option.splits)

lemma tunnel_fini_eq:
  "\<exists>t' h'. tunnel_fini env cfg (t, h) = (t', h') \<and> task_refs h' = task_refs h \<and> heap h' = heap h \<and> running h' = running h \<and>
     tcp_pcbs h' = tcp_pcbs h \<and> netifs h' = netifs h \<and> udp_pcbs h' = udp_pcbs h \<and>
     mset (fds h') = mset (fds h) - (if tun_fd_local t then fd_mset (tun_fd t) else {#}) \<and>
     (t' = t \<or> t' = t\<lparr>tun_fd_local := False, tun_fd := -1\<rparr>) \<and> (tun_fd_local t' \<longrightarrow> tun_fd_local t \<and> tun_fd t < 0) \<and>
     tun_fd t' = left_fd t"
  by (auto simp: tunnel_fini_def hev_tunnel_close_def fd_close_def fd_mset_def left_fd_def Let_def split: option.splits)

lemma fini_releases:
  assumes "owns h0 leak (t, h)"
  shows "\<exists>t' h'. hev_socks5_tunnel_fini env cfg (t, h) = Some (t', h') \<and> released h0 leak h' \<and> tunnel_reset t' \<and>
    (tun_fd_local t' \<longrightarrow> tun_fd_local t \<and> tun_fd t < 0) \<and> tun_fd t' = left_fd t"
proof -
  let ?t = "t\<lparr>tflags := snd (atomic_fetch_clear (tflags t) {SYNC_SEND, SYNC_SENT})\<rparr>"
  have "tdns_ok (heap h0) (?t, h)" using assms by (auto simp: owns_def intro: tdns_cong)
  from tdns_fini [OF this] obtain bs where d: "mapped_dns_fini (?t, h) = Some (?t\<lparr>dns := None\<rparr>, h\<lparr>heap := bs\<rparr>)"
    "mset bs = mset (heap h0)" by blast
  let ?t1 = "?t\<lparr>dns := None, task_lwip_timer := None, task_lwip_io := None, task_event := None, event_fds := (-1, -1)\<rparr>"
  obtain h1 where h1: "event_task_fini (lwip_io_task_fini (lwip_timer_task_fini (?t\<lparr>dns := None\<rparr>, h\<lparr>heap := bs\<rparr>))) = (?t1, h1)"
    "mset (task_refs h1) = mset (task_refs h) - opt_mset (task_lwip_timer t) - opt_mset (task_lwip_io t) - opt_mset (task_event t)"
    "mset (fds h1) = mset (fds h) - fd_mset (fst (event_fds t)) - fd_mset (snd (event_fds t))"
    "tcp_pcbs h1 = tcp_pcbs h" "netifs h1 = netifs h" "udp_pcbs h1 = udp_pcbs h" "heap h1 = bs" "running h1 = running h"
    by (simp add: event_task_fini_def lwip_io_task_fini_def lwip_timer_task_fini_def)
  from gateway_fini_eq [of ?t1 h1] obtain h2 where h2:
    "gateway_fini (?t1, h1) = (?t1\<lparr>udp := None, tcp := None, netif := None\<rparr>, h2)" "fds h2 = fds h1" "task_refs h2 = task_refs h1"
    "heap h2 = heap h1" "running h2 = running h1" "mset (tcp_pcbs h2) = mset (tcp_pcbs h1) - opt_mset (tcp t)"
    "mset (netifs h2) = mset (netifs h1) - opt_mset (netif t)" "udp_pcbs h2 = []"
    using assms h1(6) by (auto simp: owns_def)
  from tunnel_fini_eq [of env cfg "?t1\<lparr>udp := None, tcp := None, netif := None\<rparr>" h2] obtain t3 h3 where h3:
    "tunnel_fini env cfg (?t1\<lparr>udp := None, tcp := None, netif := None\<rparr>, h2) = (t3, h3)" "task_refs h3 = task_refs h2"
    "heap h3 = heap h2" "running h3 = running h2" "tcp_pcbs h3 = tcp_pcbs h2" "netifs h3 = netifs h2" "udp_pcbs h3 = udp_pcbs h2"
    "mset (fds h3) = mset (fds h2) - (if tun_fd_local t then fd_mset (tun_fd t) else {#})"
    "t3 = ?t1\<lparr>udp := None, tcp := None, netif := None\<rparr> \<or> t3 = ?t1\<lparr>udp := None, tcp := None, netif := None, tun_fd_local := False, tun_fd := -1\<rparr>"
    "tun_fd_local t3 \<longrightarrow> tun_fd_local t \<and> tun_fd t < 0" "tun_fd t3 = left_fd t" by (auto simp: left_fd_def cong: if_cong)
  from assms d(2) h1 h2 h3 have "released h0 leak h3" by (simp add: released_def owns_def)
  moreover from assms h3(9,10) have "tunnel_idle t3" by (auto simp: tunnel_idle_def owns_def sess_ok_def)
  then have "tunnel_reset (t3\<lparr>stat_tx_packets := 0, stat_rx_packets := 0, stat_tx_bytes := 0, stat_rx_bytes := 0\<rparr>)"
    using h3(9) by (auto simp: tunnel_reset_def tunnel_idle_def sess_ok_def atomic_fetch_clear_def)
  moreover have "hev_socks5_tunnel_fini env cfg (t, h) =
      Some (t3\<lparr>stat_tx_packets := 0, stat_rx_packets := 0, stat_tx_bytes := 0, stat_rx_bytes := 0\<rparr>, h3)"
    using d(1) h1(1) h2(1) h3(1) by (simp add: hev_socks5_tunnel_fini_def)
  ultimately show ?thesis using h3(10,11) by auto
qed

section \<open>\<open>init\<close>\<close>

text \<open>Each function called by \<open>init\<close> keeps \<open>owns\<close>, whether it succeeds or not.\<close>

lemma owns_idle:
  assumes "tunnel_idle t" "\<not> tun_fd_local t" "udp_pcbs h = []" "running h = []"
  shows "owns h {#} (t, h)"
  using assms by (auto simp: owns_def tunnel_idle_def tdns_ok_def fd_mset_def)

lemma fd_mset_lowest [simp]: "fd_mset (lowest_fd fs) = {#lowest_fd fs#}" "fd_mset (-1) = {#}"
  using lowest_fd(2) by (simp_all add: fd_mset_def)

text \<open>The calls that configure the device open a socket and close it again.\<close>

definition same_objs :: "host \<Rightarrow> host \<Rightarrow> bool" where
  "same_objs h h' \<longleftrightarrow> task_refs h' = task_refs h \<and> running h' = running h \<and> tcp_pcbs h' = tcp_pcbs h \<and>
     udp_pcbs h' = udp_pcbs h \<and> netifs h' = netifs h \<and> heap h' = heap h"

lemma same_objs_refl [simp]: "same_objs h h"
  by (simp add: same_objs_def)

lemma same_objs_trans [trans]: "same_objs a b \<Longrightarrow> same_objs b c \<Longrightarrow> same_objs a c"
  by (simp add: same_objs_def)

lemma sys_keeps: "sys h = (e, h') \<Longrightarrow> same_objs h h' \<and> fds h' = fds h \<and> ifaces h' = ifaces h"
  by (auto simp: sys_def same_objs_def split: list.splits)

lemma if_ioctl_keeps: "if_ioctl n f h = (e, h') \<Longrightarrow> same_objs h h' \<and> fds h' = fds h"
  by (auto simp: if_ioctl_def Let_def same_objs_def dest!: sys_keeps split: prod.splits option.splits)

lemma fd_open_keeps:
  "fd_open h = (f, h') \<Longrightarrow> same_objs h h' \<and> (f = -1 \<and> fds h' = fds h \<or> f \<ge> 0 \<and> fds h' = f # fds h)"
  using lowest_fd(2) by (auto simp: fd_open_def Let_def same_objs_def dest!: sys_keeps split: prod.splits if_splits)

lemma fd_close_keeps [simp]: "same_objs h (fd_close f h') = same_objs h h'" "fds (fd_close f h') = remove1 f (fds h')"
  by (simp_all add: fd_close_def same_objs_def)

lemma set_mtu_keeps: "hev_tunnel_set_mtu m n h = (r, h') \<Longrightarrow> same_objs h h' \<and> fds h' = fds h"
  by (auto simp: hev_tunnel_set_mtu_def Let_def split: prod.splits if_splits
      dest!: fd_open_keeps if_ioctl_keeps intro: same_objs_trans)

lemma set_state_keeps: "hev_tunnel_set_state u n h = (r, h') \<Longrightarrow> same_objs h h' \<and> fds h' = fds h"
  by (auto simp: hev_tunnel_set_state_def Let_def split: prod.splits if_splits
      dest!: fd_open_keeps if_ioctl_keeps intro: same_objs_trans)

lemma set_ipv4_keeps: "hev_tunnel_set_ipv4 env a l n h = (r, h') \<Longrightarrow> same_objs h h' \<and> fds h' = fds h"
  by (auto simp: hev_tunnel_set_ipv4_def Let_def split: prod.splits if_splits option.splits
      dest!: fd_open_keeps if_ioctl_keeps intro: same_objs_trans)

lemma set_ipv6_keeps: "hev_tunnel_set_ipv6 env a l n h = (r, h') \<Longrightarrow> same_objs h h' \<and> fds h' = fds h"
  by (auto simp: hev_tunnel_set_ipv6_def Let_def split: prod.splits if_splits option.splits
      dest!: fd_open_keeps if_ioctl_keeps intro: same_objs_trans)

lemma set_iff_keeps: "tun_set_iff env n h = (e, m, h') \<Longrightarrow> same_objs h h' \<and> fds h' = fds h"
  by (cases "sys h") (auto simp: tun_set_iff_def Let_def same_objs_def dest!: sys_keeps split: if_splits)

lemma open_keeps:
  "hev_tunnel_open env n q dev h = (f, dev', h') \<Longrightarrow>
     same_objs h h' \<and> (f = -1 \<and> fds h' = fds h \<or> f \<ge> 0 \<and> fds h' = f # fds h)"
  by (auto simp: hev_tunnel_open_def Let_def split: prod.splits if_splits
      dest!: fd_open_keeps set_iff_keeps intro: same_objs_trans)

lemma exec_keeps: "same_objs h (hev_exec_run p n i w h')  = same_objs h h'"
  by (simp add: same_objs_def)

lemma local_init_keeps:
  assumes "tunnel_local_init env cfg (t, h) = (r, t', h')"
  shows "\<exists>f dev. t' = t\<lparr>tun_fd_local := True, tun_fd := f, tun_dev := dev\<rparr> \<and> same_objs h h' \<and>
    (f = -1 \<and> r = -1 \<and> fds h' = fds h \<or> f \<ge> 0 \<and> fds h' = f # fds h)"
proof -
  obtain f dev h1 where o: "hev_tunnel_open env (hev_config_get_tunnel_name cfg) (multi_queue cfg) (tun_dev t) h = (f, dev, h1)"
    by (metis prod_cases3)
  obtain r2 h2 where m: "hev_tunnel_set_mtu (sint (tun_mtu cfg)) dev h1 = (r2, h2)" by (metis surj_pair)
  obtain r3 h3 where v4: "(case hev_config_get_tunnel_ipv4_address cfg of None \<Rightarrow> (0, h2)
      | Some a \<Rightarrow> hev_tunnel_set_ipv4 env a 32 dev h2) = (r3, h3)" by (metis surj_pair)
  obtain r4 h4 where v6: "(case hev_config_get_tunnel_ipv6_address cfg of None \<Rightarrow> (0, h3)
      | Some a \<Rightarrow> hev_tunnel_set_ipv6 env a 128 dev h3) = (r4, h4)" by (metis surj_pair)
  obtain r5 h5 where st: "hev_tunnel_set_state True dev h4 = (r5, h5)" by (metis surj_pair)
  have k: "same_objs h1 h2 \<and> fds h2 = fds h1" "same_objs h2 h3 \<and> fds h3 = fds h2" "same_objs h3 h4 \<and> fds h4 = fds h3"
    "same_objs h4 h5 \<and> fds h5 = fds h4"
    using set_mtu_keeps [OF m] v4 v6 set_state_keeps [OF st]
    by (auto split: option.splits dest!: set_ipv4_keeps set_ipv6_keeps)
  let ?t = "t\<lparr>tun_fd_local := True, tun_fd := f, tun_dev := dev\<rparr>"
  have c: "t' = ?t \<and> (f < 0 \<and> h' = h1 \<and> r = -1 \<or> f \<ge> 0 \<and> (h' \<in> {h2, h3, h4, h5} \<or> (\<exists>p n i. h' = hev_exec_run p n i False h5)))"
    using assms o m v4 v6 st by (auto simp: tunnel_local_init_def Let_def split: if_splits option.splits)
  have "same_objs h1 h' \<and> fds h' = fds h1" if "f \<ge> 0"
  proof -
    have "same_objs h1 h2" "same_objs h1 h3" "same_objs h1 h4" "same_objs h1 h5" "fds h3 = fds h1" "fds h4 = fds h1" "fds h5 = fds h1"
      using k by (simp_all add: same_objs_def)
    with c that k(1) show ?thesis by (auto simp: exec_keeps)
  qed
  with c open_keeps [OF o] show ?thesis by (auto intro: same_objs_trans)
qed

lemma owns_cong:
  assumes "owns h0 leak (t, h)" "same_objs h h'"
    "mset (fds h') + (if tun_fd_local t then fd_mset (tun_fd t) else {#}) = mset (fds h) + (if tun_fd_local t' then fd_mset (tun_fd t') else {#})"
    "t' = t\<lparr>tun_fd_local := l, tun_fd := f, tun_dev := dev\<rparr>"
  shows "owns h0 leak (t', h')"
proof -
  have "mset (fds h') + (if tun_fd_local t then fd_mset (tun_fd t) else {#}) =
      (mset (fds h0) + (if tun_fd_local t' then fd_mset (tun_fd t') else {#}) + fd_mset (fst (event_fds t')) +
        fd_mset (snd (event_fds t'))) + (if tun_fd_local t then fd_mset (tun_fd t) else {#})"
    using assms(1,3,4) by (simp add: owns_def ac_simps)
  then have "mset (fds h') = mset (fds h0) + (if tun_fd_local t' then fd_mset (tun_fd t') else {#}) +
      fd_mset (fst (event_fds t')) + fd_mset (snd (event_fds t'))" by (simp only: add_right_cancel)
  with assms(1,2,4) show ?thesis by (auto simp: owns_def same_objs_def sess_ok_def intro: tdns_cong)
qed

lemma tunnel_init_owns:
  assumes "owns h0 leak (t, h)" "\<not> tun_fd_local t" "tunnel_init env cfg fd0 (t, h) = (r, t', h')"
  shows "owns h0 leak (t', h') \<and> (r \<ge> 0 \<longrightarrow> tun_fd_local t' \<longrightarrow> tun_fd t' \<ge> 0)"
proof (cases "fd0 \<ge> 0")
  case True
  with assms(3) sys_keeps [of h] have "t' = t\<lparr>tun_fd := tun_fd t\<rparr> \<or> t' = t\<lparr>tun_fd := fd0\<rparr>" "same_objs h h'" "fds h' = fds h"
    by (cases "sys h"; auto simp: tunnel_init_def Let_def split: if_splits)+
  then obtain f where e: "t' = t\<lparr>tun_fd := f\<rparr>" "same_objs h h'" "fds h' = fds h" by blast
  have "owns h0 leak (t', h')"
    by (rule owns_cong [OF assms(1) e(2), where l = False and f = f and dev = "tun_dev t"]) (use assms(2) e in auto)
  then show ?thesis using assms(2) e(1) by simp
next
  case False
  with assms(3) have "tunnel_local_init env cfg (t, h) = (r, t', h')" by (simp add: tunnel_init_def)
  from local_init_keeps [OF this] obtain f dev where e: "t' = t\<lparr>tun_fd_local := True, tun_fd := f, tun_dev := dev\<rparr>"
    "same_objs h h'" "f = -1 \<and> r = -1 \<and> fds h' = fds h \<or> f \<ge> 0 \<and> fds h' = f # fds h" by blast
  have "owns h0 leak (t', h')"
    by (rule owns_cong [OF assms(1) e(2) _ e(1)]) (use assms(2) e(1,3) in \<open>auto simp: fd_mset_def\<close>)
  with e show ?thesis by auto
qed

lemma sess_ok_upd [simp]:
  "sess_ok (t\<lparr>netif := p\<rparr>) = sess_ok t" "sess_ok (t\<lparr>tcp := p\<rparr>) = sess_ok t" "sess_ok (t\<lparr>udp := p\<rparr>) = sess_ok t"
  "sess_ok (t\<lparr>task_event := p\<rparr>) = sess_ok t" "sess_ok (t\<lparr>task_lwip_io := p\<rparr>) = sess_ok t"
  "sess_ok (t\<lparr>task_lwip_timer := p\<rparr>) = sess_ok t" "sess_ok (t\<lparr>event_fds := ef\<rparr>) = sess_ok t"
  "sess_ok (t\<lparr>dns := d\<rparr>) = sess_ok t" "sess_ok (t\<lparr>mutex := m\<rparr>) = sess_ok t" "sess_ok (t\<lparr>tflags := fl\<rparr>) = sess_ok t"
  "sess_ok (t\<lparr>run := r\<rparr>) = sess_ok t"
  by (simp_all add: sess_ok_def)

lemma tcp_new_eq:
  "tcp_new h = (p, h') \<Longrightarrow> fds h' = fds h \<and> task_refs h' = task_refs h \<and> running h' = running h \<and> udp_pcbs h' = udp_pcbs h \<and>
     netifs h' = netifs h \<and> heap h' = heap h \<and> mset (tcp_pcbs h') = mset (tcp_pcbs h) + opt_mset p"
  by (cases "sys h") (auto simp: tcp_new_def Let_def same_objs_def dest!: sys_keeps split: if_splits)

lemma tcp_listen_eq:
  "tcp_listen p h = (l, h') \<Longrightarrow> p \<in> set (tcp_pcbs h) \<Longrightarrow> fds h' = fds h \<and> task_refs h' = task_refs h \<and> running h' = running h \<and>
     udp_pcbs h' = udp_pcbs h \<and> netifs h' = netifs h \<and> heap h' = heap h \<and>
     mset (tcp_pcbs h') = (case l of None \<Rightarrow> mset (tcp_pcbs h) | Some l \<Rightarrow> add_mset l (mset (tcp_pcbs h) - {#p#}))"
  by (cases "sys h") (auto simp: tcp_listen_def Let_def same_objs_def dest!: sys_keeps split: if_splits)

lemma udp_new_eq:
  "udp_new h = (u, h') \<Longrightarrow> same_objs h h' \<and> fds h' = fds h \<and>
     (\<forall>b. u = Some b \<longrightarrow> ip_type (remote_ip b) = IPADDR_TYPE_ANY \<and> up_id b \<notin> up_id ` set (udp_pcbs h))"
  using fresh_obj [of "map up_id (udp_pcbs h)"]
  by (cases "sys h") (auto simp: udp_new_def Let_def same_objs_def dest!: sys_keeps split: if_splits simp del: fresh_obj)

lemma gateway_init_owns:
  assumes o: "owns h0 {#} (t, h)" and n: "netif t = None" "tcp t = None" "udp t = None"
    and g: "gateway_init (t, h) = (r, t', h')"
  shows "\<exists>leak p l u. owns h0 leak (t', h') \<and> size leak \<le> 1 \<and> (leak \<noteq> {#} \<longrightarrow> l = None) \<and>
    t' = t\<lparr>netif := p, tcp := l, udp := u\<rparr> \<and> (r \<ge> 0 \<longrightarrow> u \<noteq> None)"
proof -
  let ?n = "fresh_obj (netifs h)"
  let ?h1 = "h\<lparr>netifs := ?n # netifs h\<rparr>"
  obtain p h2 where p: "tcp_new ?h1 = (p, h2)" by (metis surj_pair)
  note p' = tcp_new_eq [OF p]
  have up: "udp_pcbs h = []" using o n(3) by (simp add: owns_def)
  show ?thesis
  proof (cases p)
    case None
    have "t\<lparr>netif := Some ?n, tcp := None\<rparr> = t\<lparr>netif := Some ?n, tcp := None, udp := None\<rparr>"
      using n(3) by (intro tunnel.equality) simp_all
    with g p None have e: "t' = t\<lparr>netif := Some ?n, tcp := None, udp := None\<rparr>" "h' = h2" "r = -1"
      by (simp_all add: gateway_init_def Let_def)
    have "tdns_ok (heap h0) (t', h')" by (rule tdns_cong [of _ t h]) (use o p' e in \<open>auto simp: owns_def\<close>)
    with o n p' None have "owns h0 {#} (t', h')" by (simp add: owns_def e)
    then show ?thesis using e by (intro exI [of _ "{#}"]) auto
  next
    case (Some q)
    obtain l h3 where l: "tcp_listen q h2 = (l, h3)" by (metis surj_pair)
    have "q \<in># mset (tcp_pcbs h2)" using p' Some by simp
    then have "q \<in> set (tcp_pcbs h2)" by simp
    note l' = tcp_listen_eq [OF l this]
    obtain u h4 where u: "udp_new h3 = (u, h4)" by (metis surj_pair)
    note u' = udp_new_eq [OF u]
    let ?leak = "if l = None then {#q#} else {#}"
    have tc: "mset (tcp_pcbs h4) = mset (tcp_pcbs h) + opt_mset l + ?leak"
      using p' l' u' Some by (cases l) (auto simp: same_objs_def)
    have e: "t' = t\<lparr>netif := Some ?n, tcp := l, udp := map_option up_id u\<rparr> \<and>
        h' = (case u of None \<Rightarrow> h4 | Some b \<Rightarrow> h4\<lparr>udp_pcbs := b\<lparr>pretend_netif_idx := ?n, up_recv := RecvTunnel\<rparr> # udp_pcbs h4\<rparr>) \<and>
        (r \<ge> 0 \<longrightarrow> u \<noteq> None)"
      using g p Some l u by (cases u) (auto simp: gateway_init_def Let_def)
    have "tdns_ok (heap h0) (t', h')"
      by (rule tdns_cong [of _ t h]) (use o p' l' u' e in \<open>auto simp: owns_def same_objs_def split: option.splits\<close>)
    then have "owns h0 ?leak (t', h')"
      using o n p' l' u' e tc up by (cases u) (auto simp: owns_def same_objs_def)
    then show ?thesis using e by (intro exI [of _ ?leak] exI [of _ "Some ?n"] exI [of _ l] exI [of _ "map_option up_id u"]) auto
  qed
qed

lemma task_new_eq:
  "hev_task_new h = (p, h') \<Longrightarrow> fds h' = fds h \<and> running h' = running h \<and> udp_pcbs h' = udp_pcbs h \<and> tcp_pcbs h' = tcp_pcbs h \<and>
     netifs h' = netifs h \<and> heap h' = heap h \<and> mset (task_refs h') = mset (task_refs h) + opt_mset p \<and>
     (\<forall>k. p = Some k \<longrightarrow> k \<notin> set (task_refs h))"
  by (cases "sys h") (auto simp: hev_task_new_def Let_def same_objs_def dest!: sys_keeps split: if_splits)

lemma event_init_owns:
  assumes o: "owns h0 leak (t, h)" and n: "event_fds t = (-1, -1)" "task_event t = None"
    and g: "event_task_init (t, h) = (r, t', h')"
  shows "owns h0 leak (t', h') \<and> (\<exists>ef p. t' = t\<lparr>event_fds := ef, task_event := p\<rparr> \<and> (r \<ge> 0 \<longrightarrow> p \<noteq> None))"
proof -
  let ?a = "lowest_fd (fds h)" let ?b = "lowest_fd (?a # fds h)"
  have t: "t\<lparr>event_fds := ef\<rparr> = t\<lparr>event_fds := ef, task_event := None\<rparr>" "t = t\<lparr>event_fds := (-1, -1), task_event := None\<rparr>" for ef
    using n by (auto intro: tunnel.equality)
  obtain e1 q1 where s1: "sys h = (e1, h\<lparr>sysq := q1\<rparr>)" using sys_eq by blast
  obtain e2 q2 where s2: "sys (h\<lparr>sysq := q1, fds := ?b # ?a # fds h\<rparr>) = (e2, h\<lparr>fds := ?b # ?a # fds h, sysq := q2\<rparr>)"
    using sys_eq [of "h\<lparr>sysq := q1, fds := ?b # ?a # fds h\<rparr>"] by auto
  let ?h2 = "h\<lparr>fds := ?b # ?a # fds h, sysq := q2\<rparr>"
  consider "e1 \<noteq> None" | "e1 = None" "e2 \<noteq> None" | p h3 where "e1 = None" "e2 = None" "hev_task_new ?h2 = (p, h3)"
    by (metis surj_pair)
  then show ?thesis
  proof cases
    case 1
    with g s1 have e: "t' = t" "h' = h\<lparr>sysq := q1\<rparr>" "r = -1" by (simp_all add: event_task_init_def Let_def)
    have "owns h0 leak (t', h')" using o unfolding e by (auto simp: owns_def intro: tdns_cong)
    moreover have "t' = t\<lparr>event_fds := (-1, -1), task_event := None\<rparr>" using e(1) t(2) by simp
    ultimately show ?thesis using e(3) by (metis neg_0_le_iff_le not_one_le_zero)
  next
    case 2
    with g s1 s2 have e: "t' = t\<lparr>event_fds := (?a, ?b)\<rparr>" "h' = ?h2" "r = -1" by (simp_all add: event_task_init_def Let_def)
    have "owns h0 leak (t', h')" using o n unfolding e by (auto simp: owns_def intro: tdns_cong)
    moreover have "t' = t\<lparr>event_fds := (?a, ?b), task_event := None\<rparr>" using e(1) t(1) by simp
    ultimately show ?thesis using e(3) by (metis neg_0_le_iff_le not_one_le_zero)
  next
    case 3
    with g s1 s2 have e: "t' = t\<lparr>event_fds := (?a, ?b), task_event := p\<rparr>" "h' = h3" "r = (if p = None then -1 else 0)"
      by (simp_all add: event_task_init_def Let_def)
    have "owns h0 leak (t', h')" using o n task_new_eq [OF 3(3)] unfolding e by (auto simp: owns_def intro: tdns_cong)
    with e show ?thesis by auto
  qed
qed

lemma owns_task_refs:
  assumes "owns h0 leak (t, h)" "k \<notin> set (task_refs h)"
  shows "Some k \<noteq> task_event t" "Some k \<noteq> task_lwip_io t" "Some k \<noteq> task_lwip_timer t"
proof -
  have "k \<notin># mset (task_refs h)" using assms(2) by simp
  moreover have "mset (task_refs h) = mset (task_refs h0) + opt_mset (task_event t) + opt_mset (task_lwip_io t) + opt_mset (task_lwip_timer t)"
    using assms(1) by (simp add: owns_def)
  ultimately have "k \<notin># opt_mset (task_event t) + opt_mset (task_lwip_io t) + opt_mset (task_lwip_timer t)" by simp
  moreover have "Some k = p \<Longrightarrow> k \<in># opt_mset p" for p by (drule sym) simp
  ultimately show "Some k \<noteq> task_event t" "Some k \<noteq> task_lwip_io t" "Some k \<noteq> task_lwip_timer t"
    unfolding union_iff by blast+
qed

lemma io_init_owns:
  assumes "owns h0 leak (t, h)" "task_lwip_io t = None" "lwip_io_task_init (t, h) = (r, t', h')"
  shows "owns h0 leak (t', h') \<and> (\<exists>p. t' = t\<lparr>task_lwip_io := p\<rparr> \<and> (r \<ge> 0 \<longrightarrow> p \<noteq> None \<and> p \<noteq> task_event t \<and> p \<noteq> task_lwip_timer t))"
proof -
  obtain p h1 where p: "hev_task_new h = (p, h1)" by (metis surj_pair)
  with assms(3) have e: "t' = t\<lparr>task_lwip_io := p\<rparr>" "h' = h1" "r = (if p = None then -1 else 0)"
    by (simp_all add: lwip_io_task_init_def)
  have "owns h0 leak (t', h')" using assms(1,2) task_new_eq [OF p] unfolding e by (auto simp: owns_def intro: tdns_cong)
  moreover have "r \<ge> 0 \<longrightarrow> p \<noteq> None \<and> p \<noteq> task_event t \<and> p \<noteq> task_lwip_io t \<and> p \<noteq> task_lwip_timer t"
    using e(3) task_new_eq [OF p] owns_task_refs [OF assms(1)] by (cases p) simp_all
  ultimately show ?thesis using e(1) by blast
qed

lemma timer_init_owns:
  assumes "owns h0 leak (t, h)" "task_lwip_timer t = None" "lwip_timer_task_init (t, h) = (r, t', h')"
  shows "owns h0 leak (t', h') \<and> (\<exists>p. t' = t\<lparr>task_lwip_timer := p\<rparr> \<and> (r \<ge> 0 \<longrightarrow> p \<noteq> None \<and> p \<noteq> task_event t \<and> p \<noteq> task_lwip_io t))"
proof -
  obtain p h1 where p: "hev_task_new h = (p, h1)" by (metis surj_pair)
  with assms(3) have e: "t' = t\<lparr>task_lwip_timer := p\<rparr>" "h' = h1" "r = (if p = None then -1 else 0)"
    by (simp_all add: lwip_timer_task_init_def)
  have "owns h0 leak (t', h')" using assms(1,2) task_new_eq [OF p] unfolding e by (auto simp: owns_def intro: tdns_cong)
  moreover have "r \<ge> 0 \<longrightarrow> p \<noteq> None \<and> p \<noteq> task_event t \<and> p \<noteq> task_lwip_io t \<and> p \<noteq> task_lwip_timer t"
    using e(3) task_new_eq [OF p] owns_task_refs [OF assms(1)] by (cases p) simp_all
  ultimately show ?thesis using e(1) by blast
qed

lemma dns_init_owns:
  assumes "owns h0 leak (t, h)" "dns t = None" "0 \<le> mapdns_cache_size cfg" "mapped_dns_init malloc cfg (t, h) = (r, t', h')"
  shows "owns h0 leak (t', h') \<and> (\<exists>d. t' = t\<lparr>dns := d\<rparr>)"
proof (cases "mapdns_cache_size cfg = 0 \<or>
    hev_mapped_dns_new malloc (mapdns_network cfg) (mapdns_netmask cfg) (mapdns_cache_size cfg) (heap h) = None")
  case True
  with assms(4) have "t' = t" "h' = h" by (auto simp: mapped_dns_init_def split: if_splits)
  moreover have "t = t\<lparr>dns := dns t\<rparr>" by simp
  ultimately show ?thesis using assms(1) by blast
next
  case False
  then obtain a d where d: "hev_mapped_dns_new malloc (mapdns_network cfg) (mapdns_netmask cfg) (mapdns_cache_size cfg) (heap h) = Some (a, d)"
    by auto
  with False assms(4) have e: "t' = t\<lparr>dns := Some (a, d)\<rparr>" "h' = h" by (auto simp: mapped_dns_init_def)
  have h: "heap h = heap h0" using assms(1,2) by (simp add: owns_def tdns_ok_def)
  have "0 < mapdns_cache_size cfg" using False assms(3) by simp
  from dns_new_ok [OF d this] this h have "tdns_ok (heap h0) (t', h')" by (auto simp: tdns_ok_def e)
  with assms(1) show ?thesis by (auto simp: e owns_def)
qed

lemma init_thenE:
  assumes "init_then f g s = (r, t', h')"
  obtains "f s = (r, t', h')" "r < 0" | r1 t1 h1 where "f s = (r1, t1, h1)" "r1 \<ge> 0" "g (t1, h1) = (r, t', h')"
  using assms by (auto simp: init_then_def split: prod.splits if_splits)

lemma tunnel_init_frame:
  "tunnel_init env cfg fd0 (t, h) = (r, t', h') \<Longrightarrow> \<exists>l f dev. t' = t\<lparr>tun_fd_local := l, tun_fd := f, tun_dev := dev\<rparr>"
proof (cases "fd0 \<ge> 0")
  case True
  moreover assume "tunnel_init env cfg fd0 (t, h) = (r, t', h')"
  ultimately have "t' = t\<lparr>tun_fd_local := tun_fd_local t, tun_fd := tun_fd t, tun_dev := tun_dev t\<rparr> \<or>
      t' = t\<lparr>tun_fd_local := tun_fd_local t, tun_fd := fd0, tun_dev := tun_dev t\<rparr>"
    by (cases "sys h") (auto simp: tunnel_init_def Let_def split: if_splits)
  then show ?thesis by blast
next
  case False
  moreover assume "tunnel_init env cfg fd0 (t, h) = (r, t', h')"
  ultimately show ?thesis using local_init_keeps [of env cfg t h r t' h'] by (auto simp: tunnel_init_def)
qed

lemma tunnel_inits_owns:
  assumes idle: "tunnel_idle t" "\<not> tun_fd_local t" "udp_pcbs h = []" "running h = []" and c: "0 \<le> mapdns_cache_size cfg"
    and r: "tunnel_inits malloc env cfg fd0 (t, h) = (r, t', h')"
  shows "\<exists>leak. owns h leak (t', h') \<and> size leak \<le> 1 \<and> (leak \<noteq> {#} \<longrightarrow> tcp t' = None) \<and>
    (r \<ge> 0 \<longrightarrow> task_event t' \<noteq> None \<and> task_lwip_io t' \<noteq> None \<and> task_lwip_timer t' \<noteq> None \<and> udp t' \<noteq> None \<and>
       task_event t' \<noteq> task_lwip_io t' \<and> task_event t' \<noteq> task_lwip_timer t' \<and> task_lwip_io t' \<noteq> task_lwip_timer t' \<and>
       (tun_fd_local t' \<longrightarrow> tun_fd t' \<ge> 0))"
proof -
  note o0 = owns_idle [OF idle]
  from r show ?thesis unfolding tunnel_inits_def
  proof (cases rule: init_thenE)
    case 1
    from tunnel_init_owns [OF o0 idle(2) 1(1)] 1(2) show ?thesis by (intro exI [of _ "{#}"]) auto
  next
    case (2 r1 t1 h1)
    from tunnel_init_owns [OF o0 idle(2) 2(1)] 2(2) have o1: "owns h {#} (t1, h1)" "tun_fd_local t1 \<longrightarrow> tun_fd t1 \<ge> 0" by auto
    from tunnel_init_frame [OF 2(1)] idle(1) have u1: "netif t1 = None" "tcp t1 = None" "udp t1 = None" "event_fds t1 = (-1, -1)"
      "task_event t1 = None" "task_lwip_io t1 = None" "task_lwip_timer t1 = None" "dns t1 = None"
      by (auto simp: tunnel_idle_def)
    from 2(3) show ?thesis
    proof (cases rule: init_thenE)
      case 1
      from gateway_init_owns [OF o1(1) u1(1-3) 1(1)] 1(2) show ?thesis by fastforce
    next
      case (2 r2 t2 h2)
      from gateway_init_owns [OF o1(1) u1(1-3) 2(1)] 2(2) obtain leak p l u where
        o2: "owns h leak (t2, h2)" "size leak \<le> 1" "leak \<noteq> {#} \<longrightarrow> l = None" "t2 = t1\<lparr>netif := p, tcp := l, udp := u\<rparr>" "u \<noteq> None"
        by blast
      have u2: "event_fds t2 = (-1, -1)" "task_event t2 = None" using u1 o2(4) by simp_all
      from 2(3) show ?thesis
      proof (cases rule: init_thenE)
        case 1
        from event_init_owns [OF o2(1) u2 1(1)] 1(2) o2 show ?thesis by fastforce
      next
        case (2 r3 t3 h3)
        from event_init_owns [OF o2(1) u2 2(1)] 2(2) obtain ef pe where
          o3: "owns h leak (t3, h3)" "t3 = t2\<lparr>event_fds := ef, task_event := pe\<rparr>" "pe \<noteq> None" by blast
        have u3: "task_lwip_io t3 = None" using u1 o2(4) o3(2) by simp
        from 2(3) show ?thesis
        proof (cases rule: init_thenE)
          case 1
          from io_init_owns [OF o3(1) u3 1(1)] 1(2) o2 o3 show ?thesis by fastforce
        next
          case (2 r4 t4 h4)
          from io_init_owns [OF o3(1) u3 2(1)] 2(2) obtain pi where
            o4: "owns h leak (t4, h4)" "t4 = t3\<lparr>task_lwip_io := pi\<rparr>" "pi \<noteq> None" "pi \<noteq> task_event t3" by blast
          have u4: "task_lwip_timer t4 = None" using u1 o2(4) o3(2) o4(2) by simp
          from 2(3) show ?thesis
          proof (cases rule: init_thenE)
            case 1
            from timer_init_owns [OF o4(1) u4 1(1)] 1(2) o2 o3 o4 show ?thesis by fastforce
          next
            case (2 r5 t5 h5)
            from timer_init_owns [OF o4(1) u4 2(1)] 2(2) obtain pt where
              o5: "owns h leak (t5, h5)" "t5 = t4\<lparr>task_lwip_timer := pt\<rparr>" "pt \<noteq> None"
              "pt \<noteq> task_event t4" "pt \<noteq> task_lwip_io t4" by blast
            have u5: "dns t5 = None" using u1 o2(4) o3(2) o4(2) o5(2) by simp
            from dns_init_owns [OF o5(1) u5 c 2(3)] obtain d where o6: "owns h leak (t', h')" "t' = t5\<lparr>dns := d\<rparr>" by blast
            with o1(2) o2 o3 o4 o5 show ?thesis by (intro exI [of _ leak]) auto
          qed
        qed
      qed
    qed
  qed
qed

text \<open>The device: only \<open>tunnel_init\<close> writes \<open>tun_fd\<close> and \<open>tun_fd_local\<close>.\<close>

definition keeps_fd :: "(ts \<Rightarrow> int \<times> ts) \<Rightarrow> bool" where
  "keeps_fd f \<longleftrightarrow> (\<forall>t h r t' h'. f (t, h) = (r, t', h') \<longrightarrow> tun_fd t' = tun_fd t \<and> tun_fd_local t' = tun_fd_local t)"

lemma keeps_fd_then: "keeps_fd f \<Longrightarrow> keeps_fd g \<Longrightarrow> keeps_fd (init_then f g)"
  unfolding keeps_fd_def by (auto elim!: init_thenE) metis+

lemma inits_keep_fd:
  "keeps_fd gateway_init" "keeps_fd event_task_init" "keeps_fd lwip_io_task_init" "keeps_fd lwip_timer_task_init"
  "keeps_fd (mapped_dns_init malloc cfg)"
  unfolding keeps_fd_def
  by (auto simp: gateway_init_def event_task_init_def lwip_io_task_init_def lwip_timer_task_init_def mapped_dns_init_def Let_def
      split: prod.splits option.splits if_splits)

lemma tunnel_inits_fd:
  assumes "tunnel_inits malloc env cfg fd0 (t, h) = (r, t', h')" "\<not> tun_fd_local t"
  shows "if fd0 < 0 then tun_fd_local t' \<and> left_fd t' = -1
    else \<not> tun_fd_local t' \<and> (tun_fd t' = fd0 \<or> r < 0 \<and> tun_fd t' = tun_fd t)"
proof -
  have own: "if fd0 < 0 then tun_fd_local t1 \<and> left_fd t1 = -1
      else \<not> tun_fd_local t1 \<and> (tun_fd t1 = fd0 \<or> r1 < 0 \<and> tun_fd t1 = tun_fd t)"
    if "tunnel_init env cfg fd0 (t, h) = (r1, t1, h1)" for r1 t1 h1
  proof (cases "fd0 \<ge> 0")
    case True
    with that assms(2) show ?thesis by (auto simp: tunnel_init_def split: prod.splits if_splits)
  next
    case False
    with that local_init_keeps [of env cfg t h r1 t1 h1] show ?thesis by (auto simp: tunnel_init_def left_fd_def)
  qed
  from assms(1) show ?thesis unfolding tunnel_inits_def
  proof (cases rule: init_thenE)
    case 1
    with own show ?thesis by blast
  next
    case (2 r1 t1 h1)
    have "tun_fd t' = tun_fd t1 \<and> tun_fd_local t' = tun_fd_local t1"
      using keeps_fd_then [OF inits_keep_fd(1) keeps_fd_then [OF inits_keep_fd(2) keeps_fd_then [OF inits_keep_fd(3)
        keeps_fd_then [OF inits_keep_fd(4,5)]]]] 2(3) unfolding keeps_fd_def by blast
    with own [OF 2(1)] 2(2) show ?thesis by (auto simp: left_fd_def split: if_splits)
  qed
qed

section \<open>The run\<close>

lemma run_start_inv:
  assumes o: "owns h0 leak (t, h)" and g: "task_event t = Some ev" "task_lwip_io t = Some io" "task_lwip_timer t = Some tm"
      "ev \<noteq> io" "ev \<noteq> tm" "io \<noteq> tm" and u: "udp t \<noteq> None"
    and r: "hev_socks5_tunnel_run (t\<lparr>mutex := m, tflags := f\<rparr>, h) = (b, t1, h1)"
  shows "run_inv (mset (task_refs h0)) (ev, io, tm) (heap h0) (t1, h1) \<and> fixed (t1, h1) = fixed (t, h)"
proof -
  obtain l where l: "udp_pcbs h = [l]" "udp t = Some (up_id l)" "ip_type (remote_ip l) = IPADDR_TYPE_ANY" "up_recv l = RecvTunnel"
    using o u by (auto simp: owns_def)
  let ?t = "t\<lparr>mutex := m, tflags := f - {SYNC_STOP}\<rparr>"
  have t1: "t1 = (if SYNC_STOP \<in> f then ?t else ?t\<lparr>run := True\<rparr>)"
    using r by (auto simp: hev_socks5_tunnel_run_def atomic_fetch_clear_def Let_def split: if_splits)
  have h1: "h1 = (if SYNC_STOP \<in> f then h else h\<lparr>running := [tm, io, ev], task_refs := tm # io # ev # task_refs h\<rparr>)"
    using r g o by (auto simp: hev_socks5_tunnel_run_def atomic_fetch_clear_def Let_def start_task_def hev_task_run_def
        hev_task_ref_def owns_def split: if_splits)
  have "tasks_ok (mset (task_refs h0)) (ev, io, tm) (t1, h1)"
    using o g by (auto simp: t1 h1 tasks_ok_def owns_def)
  moreover have "sess_ok t1" using o by (simp add: t1 owns_def)
  moreover have "flows_ok (t1, h1)" using l by (auto simp: flows_ok_def t1 h1)
  moreover have "tdns_ok (heap h0) (t1, h1)" using o by (auto simp: owns_def t1 h1 intro: tdns_cong)
  ultimately show ?thesis by (auto simp: run_inv_def fixed_def t1 h1)
qed

lemma run_over_owns:
  assumes o: "owns h0 leak (t, h)" and i: "run_inv (mset (task_refs h0)) g (heap h0) (t2, h2)"
    and f: "fixed (t2, h2) = fixed (t, h)" and r: "running h2 = []"
  shows "owns h0 leak (t2, h2)"
proof -
  from i r have s: "sess t2 = []" "\<not> run t2" by (cases g; auto simp: run_inv_def tasks_ok_def)+
  from i r have k: "mset (task_refs h2) = mset (task_refs h0) + opt_mset (task_event t2) + opt_mset (task_lwip_io t2) + opt_mset (task_lwip_timer t2)"
    by (cases g) (auto simp: run_inv_def tasks_ok_def)
  from i s obtain l where l: "udp_pcbs h2 = [l]" "udp t2 = Some (up_id l)" "ip_type (remote_ip l) = IPADDR_TYPE_ANY" "up_recv l = RecvTunnel"
    by (auto simp: run_inv_def flows_ok_def)
  have "udp t = Some (up_id l)" using f l(2) by (simp add: fixed_def)
  with o f s k l i r show ?thesis by (auto simp: owns_def fixed_def run_inv_def)
qed

section \<open>Properties\<close>


definition env_example :: host_env where
  "env_example = \<lparr>net = \<lparr>pton4 = (\<lambda>_. None), pton6 = (\<lambda>_. None), gai = (\<lambda>_ _. None)\<rparr>, pick_name = (\<lambda>n. n),
     if_nametoindex = (\<lambda>_. 7)\<rparr>"


end
