(* ===== verification/Tunnel_Device.thy ===== *)
theory Tunnel_Device
  imports Tunnel
begin

text \<open>
  The TUN device the tunnel sets up when it is given no descriptor: what \<open>tunnel_init\<close> of
  \<open>src/hev-socks5-tunnel.c\<close> asks of \<open>src/hev-tunnel-linux.c\<close>, and what \<open>tunnel_fini\<close> does with a
  descriptor that is not its own.
\<close>

section \<open>Without failures\<close>

lemma fd_open_ok: "sysq h = [] \<Longrightarrow> fd_open h = (lowest_fd (fds h), h\<lparr>fds := lowest_fd (fds h) # fds h\<rparr>)"
  by (simp add: fd_open_def sys_def)

lemma fd_close_opened [simp]: "fd_close f (h\<lparr>fds := f # fs, ifaces := x\<rparr>) = h\<lparr>fds := fs, ifaces := x\<rparr>"
  "fd_close f (h\<lparr>fds := f # fs\<rparr>) = h\<lparr>fds := fs\<rparr>"
  by (simp_all add: fd_close_def)

lemma if_ioctl_ok: "sysq h = [] \<Longrightarrow> ifaces h n = Some i \<Longrightarrow> if_ioctl n f h = (None, h\<lparr>ifaces := (ifaces h)(n \<mapsto> f i)\<rparr>)"
  by (simp add: if_ioctl_def sys_def)

text \<open>Each call sets its part of the interface \<open>n\<close> and leaves the descriptors as they were.\<close>

definition set_iface :: "bytes \<Rightarrow> iface \<Rightarrow> host \<Rightarrow> host" where
  "set_iface n i h = h\<lparr>ifaces := (ifaces h)(n \<mapsto> i)\<rparr>"

lemma set_iface_simps [simp]:
  "sysq (set_iface n i h) = sysq h" "ifaces (set_iface n i h) n = Some i" "fds (set_iface n i h) = fds h"
  "set_iface n j (set_iface n i h) = set_iface n j h" "scripts (set_iface n i h) = scripts h"
  by (simp_all add: set_iface_def)

lemma set_iface_same: "ifaces h n = Some i \<Longrightarrow> set_iface n i h = h"
  by (simp add: set_iface_def fun_upd_idem)

lemma fd_open_nonneg [simp]: "\<not> lowest_fd fs < 0"
  using lowest_fd(2) [of fs] by simp

lemma device_calls_ok:
  assumes ok: "sysq h = []" "ifaces h n = Some i"
  shows "hev_tunnel_set_mtu m n h = (0, set_iface n (i\<lparr>if_mtu := m\<rparr>) h)"
    and "hev_tunnel_set_state u n h = (0, set_iface n (i\<lparr>if_up := u\<rparr>) h)"
    and "hev_tunnel_set_ipv4 env a 32 n h =
      (0, case pton4 (net env) a of None \<Rightarrow> h | Some b \<Rightarrow> set_iface n (i\<lparr>if_addr4 := Some b, if_mask4 := -1\<rparr>) h)"
    and "hev_tunnel_set_ipv6 env a 128 n h =
      (0, case pton6 (net env) a of None \<Rightarrow> h | Some b \<Rightarrow> set_iface n (i\<lparr>if_addr6 := if_addr6 i @ [(b, 128)]\<rparr>) h)"
proof -
  have m: "ntohl (-1) = -1" by code_simp
  show "hev_tunnel_set_mtu m n h = (0, set_iface n (i\<lparr>if_mtu := m\<rparr>) h)"
    using ok by (simp add: hev_tunnel_set_mtu_def fd_open_ok if_ioctl_ok set_iface_def)
  show "hev_tunnel_set_state u n h = (0, set_iface n (i\<lparr>if_up := u\<rparr>) h)"
    using ok by (simp add: hev_tunnel_set_state_def fd_open_ok if_ioctl_ok set_iface_def)
  show "hev_tunnel_set_ipv4 env a 32 n h =
      (0, case pton4 (net env) a of None \<Rightarrow> h | Some b \<Rightarrow> set_iface n (i\<lparr>if_addr4 := Some b, if_mask4 := -1\<rparr>) h)"
    using ok m by (auto simp: hev_tunnel_set_ipv4_def fd_open_ok if_ioctl_ok set_iface_def split: option.splits)
  show "hev_tunnel_set_ipv6 env a 128 n h =
      (0, case pton6 (net env) a of None \<Rightarrow> h | Some b \<Rightarrow> set_iface n (i\<lparr>if_addr6 := if_addr6 i @ [(b, 128)]\<rparr>) h)"
    using ok set_iface_same [OF ok(2)]
    by (auto simp: hev_tunnel_set_ipv6_def fd_open_ok if_ioctl_ok set_iface_def split: option.splits)
qed

definition configured :: "host_env \<Rightarrow> HevConfig \<Rightarrow> iface" where
  "configured env cfg =
     (let a4 = Option.bind (hev_config_get_tunnel_ipv4_address cfg) (pton4 (net env));
          a6 = Option.bind (hev_config_get_tunnel_ipv6_address cfg) (pton6 (net env))
      in \<lparr>if_mtu = sint (tun_mtu cfg), if_up = True, if_addr4 = a4, if_mask4 = (if a4 = None then 0 else -1),
          if_addr6 = (case a6 of None \<Rightarrow> [] | Some b \<Rightarrow> [(b, 128)])\<rparr>)"

definition started_scripts :: "host_env \<Rightarrow> HevConfig \<Rightarrow> bytes \<Rightarrow> script list" where
  "started_scripts env cfg n = (case hev_config_get_tunnel_post_up_script cfg of None \<Rightarrow> []
     | Some p \<Rightarrow> [\<lparr>sc_path = p, sc_name = n, sc_index = hev_tunnel_get_index env n, sc_wait = False,
                  sc_iface = Some (configured env cfg)\<rparr>])"

definition request_name :: "HevConfig \<Rightarrow> bytes" where
  "request_name cfg = (case hev_config_get_tunnel_name cfg of None \<Rightarrow> [] | Some n \<Rightarrow> strncpy 15 n)"

lemma open_ok:
  assumes "sysq h = []" "ifaces h (pick_name env (request_name cfg)) = None"
  shows "hev_tunnel_open env (hev_config_get_tunnel_name cfg) q dev h =
    (lowest_fd (fds h), pick_name env (request_name cfg),
     set_iface (pick_name env (request_name cfg)) new_iface (h\<lparr>fds := lowest_fd (fds h) # fds h\<rparr>))"
  using assms by (simp add: hev_tunnel_open_def fd_open_ok tun_set_iff_def sys_def set_iface_def request_name_def Let_def
      split: option.splits)

text \<open>
  C16: The device is set up as configured. When it is given no descriptor and no call fails, the tunnel opens
  a device, asks for at most 15 bytes of the configured name, and the interface the kernel creates for
  it is up, with the configured MTU, host addresses and masks. The script for a new device is started
  once, with the interface's name and number, and at the moment it is started the interface is up and
  configured (\<open>sc_iface\<close> of its entry in \<open>started_scripts\<close>). An address that does not parse is not an error: the
  interface is then brought up without it.
\<close>
theorem tunnel_device_configured:
  assumes ok: "sysq h = []" "ifaces h n = None" and n: "n = pick_name env (request_name cfg)" and f: "fd0 < 0"
  shows "tunnel_init env cfg fd0 (t, h) =
    (0, t\<lparr>tun_fd_local := True, tun_fd := lowest_fd (fds h), tun_dev := n\<rparr>,
     h\<lparr>fds := lowest_fd (fds h) # fds h, ifaces := (ifaces h)(n \<mapsto> configured env cfg),
       scripts := scripts h @ started_scripts env cfg n\<rparr>)"
proof -
  let ?h = "h\<lparr>fds := lowest_fd (fds h) # fds h\<rparr>"
  let ?a4 = "Option.bind (hev_config_get_tunnel_ipv4_address cfg) (pton4 (net env))"
  let ?i1 = "new_iface\<lparr>if_mtu := sint (tun_mtu cfg)\<rparr>"
  let ?i2 = "case ?a4 of None \<Rightarrow> ?i1 | Some b \<Rightarrow> ?i1\<lparr>if_addr4 := Some b, if_mask4 := -1\<rparr>"
  have 1: "hev_tunnel_set_mtu (sint (tun_mtu cfg)) n (set_iface n new_iface ?h) = (0, set_iface n ?i1 ?h)"
    using ok(1) by (simp add: device_calls_ok(1))
  have 2: "(case hev_config_get_tunnel_ipv4_address cfg of None \<Rightarrow> (0, set_iface n ?i1 ?h)
      | Some a \<Rightarrow> hev_tunnel_set_ipv4 env a 32 n (set_iface n ?i1 ?h)) = (0, set_iface n ?i2 ?h)"
    using ok(1) by (auto simp: device_calls_ok(3) split: option.splits)
  let ?i3 = "case Option.bind (hev_config_get_tunnel_ipv6_address cfg) (pton6 (net env)) of None \<Rightarrow> ?i2
    | Some b \<Rightarrow> ?i2\<lparr>if_addr6 := if_addr6 ?i2 @ [(b, 128)]\<rparr>"
  have 3: "(case hev_config_get_tunnel_ipv6_address cfg of None \<Rightarrow> (0, set_iface n ?i2 ?h)
      | Some a \<Rightarrow> hev_tunnel_set_ipv6 env a 128 n (set_iface n ?i2 ?h)) = (0, set_iface n ?i3 ?h)"
    using ok(1) by (auto simp: device_calls_ok(4) split: option.splits)
  have 4: "hev_tunnel_set_state True n (set_iface n ?i3 ?h) = (0, set_iface n (?i3\<lparr>if_up := True\<rparr>) ?h)"
    using ok(1) by (simp add: device_calls_ok(2))
  have 5: "?i3\<lparr>if_up := True\<rparr> = configured env cfg"
    by (simp add: configured_def new_iface_def Let_def split: option.splits)
  have o: "hev_tunnel_open env (hev_config_get_tunnel_name cfg) (multi_queue cfg) (tun_dev t) h =
      (lowest_fd (fds h), n, set_iface n new_iface ?h)"
    using open_ok [OF ok(1), of env cfg] ok(2) n by simp
  have 6: "(case hev_config_get_tunnel_post_up_script cfg of None \<Rightarrow> x
      | Some p \<Rightarrow> hev_exec_run p n (hev_tunnel_get_index env n) False x) = x\<lparr>scripts := scripts x @ started_scripts env cfg n\<rparr>"
    if "sysq x = []" "ifaces x n = Some (configured env cfg)" for x
    using that by (simp add: started_scripts_def hev_exec_run_def sys_def split: option.splits)
  show ?thesis
    using f ok(1) by (simp add: tunnel_init_def tunnel_local_init_def Let_def o 1 2 3 4 5 6) (simp add: set_iface_def)
qed

definition tun0_config :: HevConfig where
  "tun0_config = hev_config_reset\<lparr>tun_name := str ''tun0'', tun_ipv4_address := str ''a''\<rparr>"

definition tun0_env :: host_env where
  "tun0_env = \<lparr>net = \<lparr>pton4 = (\<lambda>_. Some [10, 0, 0, 1]), pton6 = (\<lambda>_. None), gai = (\<lambda>_ _. None)\<rparr>, pick_name = (\<lambda>n. n),
     if_nametoindex = (\<lambda>_. 7)\<rparr>"

lemma tunnel_device_configured_witness:
  "ifaces (snd (snd (tunnel_init tun0_env tun0_config (-1) (tunnel_statics, idle_host)))) (str ''tun0'') =
    Some \<lparr>if_mtu = 8500, if_up = True, if_addr4 = Some [10, 0, 0, 1], if_mask4 = -1, if_addr6 = []\<rparr>"
proof -
  have "str ''tun0'' = pick_name tun0_env (request_name tun0_config)"
    "configured tun0_env tun0_config =
      \<lparr>if_mtu = 8500, if_up = True, if_addr4 = Some [10, 0, 0, 1], if_mask4 = -1, if_addr6 = []\<rparr>"
    by code_simp+
  with tunnel_device_configured [of idle_host "str ''tun0''" tun0_env tun0_config "-1" tunnel_statics] show ?thesis
    by (simp add: idle_host_def)
qed

end
