(* ===== verification/Spec2Isabelle.thy ===== *)
theory Spec2Isabelle
  imports Prelude Hev_List Ring_Buffer Socks5_Addr Task_IO Dialogue RBTree_Index Socks5_Client Authenticator Server_Handshake DNS_Handle TCP_Liveness UDP_Frames Tunnel_Sync Config_Props Hev_Utils Connection Splice Tunnel_Life Tunnel_Device
begin

text \<open>
  A verification library for the packet tunnel of the Android client, the C program
  \<open>android/aether-vpn/src/main/jni/hev-socks5-tunnel\<close>. Paths below are relative to its directory
  \<open>src/\<close>; \<open>core/\<close> is its SOCKS5 library, \<open>third-part/\<close> the libraries it is built with.

  \<^bold>\<open>The program.\<close> Packets of the device arrive at a TUN descriptor and go through a TCP/IP stack
  (lwIP). For every TCP connection and every UDP flow the tunnel creates a session, an object with a
  task of its own (tasks are cooperative threads of \<open>hev-task-system\<close>). The session connects to a
  SOCKS5 server, performs the handshake and then copies data between the socket and the stack until
  one side ends. Names can be mapped: a DNS request that the tunnel answers itself gets an address of
  a private network, and a connection to that address becomes a request for the name. The tunnel is
  started and stopped by other threads. \<open>core/\<close> also contains the server's side of the protocol.

  \<^bold>\<open>Theories.\<close> Each component is a group of definitions in the order of its source file.

  \<^item> \<open>Prelude\<close>: machine integers, byte order, slices of buffers, lemmas on lists and words.
  \<^item> \<open>Hev_List\<close>: the intrusive list (\<open>misc/hev-list.c\<close>) on a heap of nodes. A predicate \<open>dll\<close> relates
    the heap to the list it holds; the locale \<open>recency_list\<close> is the contract of its users.
  \<^item> \<open>Ring_Buffer\<close>, \<open>Ring_Refs\<close>: \<open>misc/hev-ring-buffer.c\<close> with 64-bit sizes, as a queue whose reader
    takes bytes first and releases them later, and where in memory the bytes lie meanwhile.
  \<^item> \<open>RBTree\<close> (the code of \<open>core/src/hev-rbtree.c\<close> on a heap of nodes), \<open>RBTree_Zip\<close>, \<open>RBTree_Rep\<close>,
    \<open>RBTree_Erase\<close>, \<open>RBTree_Index\<close>: the pointer code computes functions on trees with a position, these
    keep order, colours and black height, and so insertion and removal act on the sorted list of nodes.
  \<^item> \<open>Socks5_Addr\<close>: \<open>core/include/hev-socks5-proto.h\<close> and the conversions of \<open>core/src/hev-socks5-misc.c\<close>.
  \<^item> \<open>Task_IO\<close>, \<open>Datagram_IO\<close>, \<open>Dialogue\<close>: the base object \<open>core/src/hev-socks5.c\<close>, the socket calls of the
    task system with their retry loops, and what a step of a handshake writes and consumes.
  \<^item> \<open>Socks5_Client\<close>: \<open>core/src/hev-socks5-client.c\<close>, \<open>-client-tcp.c\<close>, \<open>-client-udp.c\<close>.
  \<^item> \<open>Authenticator\<close>, \<open>Socks5_Server\<close>, \<open>Server_Handshake\<close>: \<open>core/src/hev-socks5-user.c\<close>,
    \<open>-authenticator.c\<close>, \<open>-server.c\<close>.
  \<^item> \<open>Socks5_UDP\<close>, \<open>UDP_Relay\<close>: the framing of datagrams and their relay, \<open>core/src/hev-socks5-udp.c\<close>.
  \<^item> \<open>Mapped_DNS\<close>, \<open>DNS_Handle\<close>: \<open>hev-mapped-dns.c\<close>, the table and the handler of messages.
  \<^item> \<open>Hev_Utils\<close>: addresses between stack and SOCKS5, \<open>misc/hev-utils.c\<close>.
  \<^item> \<open>Session\<close>, \<open>Session_TCP\<close>, \<open>TCP_Streams\<close>, \<open>TCP_Liveness\<close>, \<open>Session_UDP\<close>, \<open>UDP_Frames\<close>: the sessions,
    \<open>hev-socks5-session.c\<close>, \<open>-session-tcp.c\<close>, \<open>-session-udp.c\<close> and the set of sessions of
    \<open>hev-socks5-tunnel.c\<close>.
  \<^item> \<open>Config\<close>, \<open>Config_Props\<close>: \<open>hev-config.c\<close>.
  \<^item> \<open>Connection\<close>: the client and the server of \<open>core/\<close> connected to each other.
  \<^item> \<open>Splice\<close>: \<open>core/src/hev-socks5-tcp.c\<close> with \<open>hev_task_io_splice\<close> and the circular buffer of the
    task system, in both of the variants it can be built in. The locale \<open>splicer\<close> is what the loop
    relies on, \<open>splicer_object\<close> extends it by how a splicer is made and released.
  \<^item> \<open>Task_Mutex\<close>: the mutex of the task system, as atomic steps of any number of tasks.
  \<^item> \<open>Tunnel_Sync\<close>: how \<open>stop\<close>, \<open>init\<close>, \<open>run\<close> and \<open>fini\<close> of \<open>hev-socks5-tunnel.c\<close> meet.
  \<^item> \<open>TUN_Device\<close>: the operating system the tunnel is started on, \<open>hev-tunnel-linux.c\<close>, \<open>misc/hev-exec.c\<close>
    and \<open>misc/hev-logger.c\<close>.
  \<^item> \<open>Tunnel\<close>, \<open>Tunnel_Device\<close>: the static variables of \<open>hev-socks5-tunnel.c\<close>, its \<open>init\<close> and \<open>fini\<close>, and
    the device they set up.
  \<^item> \<open>Tunnel_Input\<close>, \<open>Tunnel_Flows\<close>: the handlers that turn a connection or a flow into a session, with
    the demultiplexing of \<open>udp_input\<close> in the stack that calls them.
  \<^item> \<open>Tunnel_Run\<close>, \<open>Tunnel_Life\<close>: the tasks of the tunnel as a step relation \<open>task_step\<close>, and its whole life
    from \<open>init\<close> over any run to \<open>fini\<close>.

  \<^bold>\<open>How code is modelled.\<close> Structs are records, machine integers words of their width (C's \<open>int\<close> is \<open>int\<close>
  where it holds a result or a descriptor), pointers to nodes addresses with a heap, or \<open>None\<close> for
  \<open>NULL\<close>. An object of a class with a superclass is an extension of its record; the table of virtual
  functions is a record of functions. The world a function meets is an argument it returns changed:
  for the socket code \<open>world\<close>, for the tunnel \<open>host\<close>, for a session the part of the stack it uses.
  What others do is a script in that argument: what the next reads, writes, system calls and
  allocations meet, and what happens during the next waits; for a session also the calls of its
  handlers. The properties quantify over the scripts. A script is finite: in a \<open>world\<close> a read behind it
  is the end of the stream, a write succeeds and a system call fails, in a \<open>host\<close> every call succeeds. So a property that
  something ends says that it does not loop for ever on its own, not that a silent peer ends it. The
  threads and tasks whose interleaving matters are step relations: \<open>Task_Mutex\<close>, \<open>Tunnel_Sync\<close>,
  \<open>Tunnel_Run\<close>. A result \<open>None\<close> is undefined behaviour (an access out of bounds, a null pointer), and
  for a \<open>partial_function\<close> also that it does not return; no definition has fuel, and the loops are shown
  to return by a measure: bytes and events still to come, or nodes of a list or tree.

  \<^bold>\<open>What is shown.\<close> For the containers, that the pointer code refines a list, a sorted list, a queue or a
  map; \<open>Mapped_DNS\<close>, \<open>Authenticator\<close> and the set of sessions rest on these. For the protocol, the exact
  bytes of each side, which answers are accepted, that both variants of the handshake agree, that
  nobody gets past the authenticator without its credentials, that the two ends agree, and that all
  memory, descriptors and references are given back. For the relays, that bytes and datagrams arrive
  in order and once and that the loops end. For the tunnel, that it releases everything whatever
  fails, that flows and names find their sessions and addresses, and that stopping it from other
  threads is safe but for one interleaving. Some theorems state what the code does wrong: they are
  marked as such in their descriptions.

  \<^bold>\<open>Not modelled.\<close> The stack itself (\<open>third-part/lwip\<close>): the sessions meet it as an environment, and only
  the few functions a property needs are modelled. The YAML parser: the parsed document is an
  argument. The scheduler, timers and allocator of the task system, which are the scripts above, and
  the polling of descriptors. The devices of the other systems, the format of log lines, \<open>hev-main.c\<close>
  (with the limit on descriptors and the start as a daemon) and \<open>hev-jni.c\<close>, whose calls \<open>Tunnel_Sync\<close>
  takes in any order that they can come. The Kotlin, Dart, Swift and Rust parts of the repository.
\<close>

end
